(* ===== verification/Inac_Prelude.thy ===== *)
theory Inac_Prelude
  imports Main "HOL-Library.Word" "HOL-Library.Multiset" "HOL-Library.Sublist"
begin

text \<open>
  Shared ground of the development: the C integer types of the library as words, the
  convention for error returns, and the generic facts on words, bits, bytes and lists
  that the component theories use.

  A C function that returns \<open>ina_rc_t\<close> is modelled with the sum type \<open>ina_res\<close>:
  \<open>Inr v\<close> is \<open>INA_SUCCESS\<close> with the out-parameters \<open>v\<close>, and \<open>Inl x\<close> is the
  \<open>return INA_ERROR(x)\<close> of the source, where \<open>x\<close> is the code handed to the macro.  The
  word that the macro builds from \<open>x\<close> is the subject of theory \<open>Inac_Error\<close>.  A
  function whose C text may dereference \<open>NULL\<close>, run past an array or hit another
  undefined operation returns \<open>None\<close> in an \<open>option\<close> for exactly these inputs.
\<close>

section \<open>Types\<close>

type_synonym u8 = "8 word"
type_synonym u16 = "16 word"
type_synonym u32 = "32 word"
type_synonym u64 = "64 word"
type_synonym byte_seq = "u8 list"
type_synonym ina_rc_t = u64
type_synonym 'a ina_res = "ina_rc_t + 'a"

named_theorems rc_simps \<open>definitions of the return-code accessors and flags\<close>
named_theorems rot_simps \<open>cancellation rules for xor, plus and rotations\<close>

unbundle bit_operations_syntax

section \<open>Results\<close>

fun res_bind :: "'a ina_res \<Rightarrow> ('a \<Rightarrow> 'b ina_res) \<Rightarrow> 'b ina_res" where
  "res_bind (Inl e) f = Inl e"
| "res_bind (Inr a) f = f a"

fun is_ok :: "'a ina_res \<Rightarrow> bool" where
  "is_ok (Inl _) = False"
| "is_ok (Inr _) = True"

lemma is_ok_iff: "is_ok r \<longleftrightarrow> (\<exists>v. r = Inr v)"
  by (cases r) auto

section \<open>Words\<close>

lemma xor_cancel_left [rot_simps, simp]: "(x XOR y) XOR x = (y :: 'a::len word)"
  by (simp add: xor.commute [of x y] xor.assoc)

lemma xor_cancel_right [rot_simps, simp]: "(x XOR y) XOR y = (x :: 'a::len word)"
  by (simp add: xor.assoc)

lemma word_mult_cancel:
  fixes x y k i :: "'a::len word"
  assumes "k * i = 1" and "x * k = y * k"
  shows "x = y"
proof -
  have "x * k * i = y * k * i" using assms(2) by simp
  then show ?thesis using assms(1) by (simp add: mult.assoc)
qed

lemma unat_of_nat_small:
  "n < 2 ^ LENGTH('a) \<Longrightarrow> unat (of_nat n :: 'a::len word) = n"
  by (simp add: unat_of_nat take_bit_nat_eq_self)

section \<open>Lists\<close>

lemma foldl_append_split: "foldl f (foldl f a xs) ys = foldl f a (xs @ ys)"
  by simp

lemma list_update_append_right:
  "length xs \<le> i \<Longrightarrow> (xs @ ys)[i := v] = xs @ ys[i - length xs := v]"
  by (simp add: list_update_append)

section \<open>Transition systems\<close>

text \<open>What an inductive invariant promises: it holds at the start and every step keeps it, so it holds in
  every reachable state.\<close>

locale step_invariant =
  fixes start :: "'s \<Rightarrow> bool" and step :: "'s \<Rightarrow> 's \<Rightarrow> bool" and inv :: "'s \<Rightarrow> bool"
  assumes initial: "start s \<Longrightarrow> inv s"
    and preserved: "step s t \<Longrightarrow> inv s \<Longrightarrow> inv t"
begin

lemma reachable: "start s \<Longrightarrow> step\<^sup>*\<^sup>* s t \<Longrightarrow> inv t"
  by (erule rtranclp_induct) (auto intro: initial preserved)

end

end
