(* ===== verification/Inac_Error.thy ===== *)
theory Inac_Error
  imports Inac_Prelude
begin

text \<open>
  The error module: \<open>include/libinac/error.h\<close> and \<open>src/error.c\<close>.  A return code is a
  64-bit word with bit fields (error flag, version, revision, OS error, user bits,
  adjective, negate flag, subject).  The theory holds the accessors, the packing macro, the
  operations on the thread's current return code, the code tables of the header and the
  message formatter, and shows that packing and reading are inverse, which fields each
  update touches, and that a message determines its code.
\<close>

section \<open>Bit layout\<close>

definition INA_SUCCESS :: ina_rc_t where "INA_SUCCESS = 0"

definition INA_RC_EFLAG :: "ina_rc_t \<Rightarrow> u32" where
  "INA_RC_EFLAG rc = ucast (drop_bit 63 rc AND 1)"
definition INA_RC_VER :: "ina_rc_t \<Rightarrow> u32" where
  "INA_RC_VER rc = ucast (drop_bit 56 rc AND 0x7)"
definition INA_RC_REV :: "ina_rc_t \<Rightarrow> u32" where
  "INA_RC_REV rc = ucast (drop_bit 48 rc AND 0xFF)"
definition INA_RC_ERRNO :: "ina_rc_t \<Rightarrow> u32" where
  "INA_RC_ERRNO rc = ucast (drop_bit 32 rc AND 0xFFFF)"
definition INA_RC_UBITS :: "ina_rc_t \<Rightarrow> u32" where
  "INA_RC_UBITS rc = ucast (drop_bit 24 rc AND 0xFF)"
definition INA_RC_NFLAG :: "ina_rc_t \<Rightarrow> u32" where
  "INA_RC_NFLAG rc = ucast (drop_bit 15 rc AND 1)"
definition INA_RC_CODE :: "ina_rc_t \<Rightarrow> u32" where
  "INA_RC_CODE rc = ucast (rc AND push_bit 16 0xFF)"
definition INA_RC_ADJ :: "ina_rc_t \<Rightarrow> u32" where
  "INA_RC_ADJ rc = ucast (drop_bit 16 rc AND 0xFF)"
definition INA_RC_SUBJECT :: "ina_rc_t \<Rightarrow> u32" where
  "INA_RC_SUBJECT rc = ucast (drop_bit 0 rc AND 0x7FFF)"
definition INA_MID_BITS :: "u64 \<Rightarrow> nat \<Rightarrow> nat \<Rightarrow> u64" where
  "INA_MID_BITS number k p = (push_bit k 1 - 1) AND drop_bit (p - 1) number"
definition INA_RC_ERROR :: "ina_rc_t \<Rightarrow> u32" where
  "INA_RC_ERROR rc = ucast (push_bit (15 - 1) (INA_MID_BITS rc (24 - 15) 15))"
definition INA_RC_ERRMSG :: "ina_rc_t \<Rightarrow> u32" where
  "INA_RC_ERRMSG rc = ucast (rc AND 0xFFFFFF)"

definition INA_ERR_ERROR :: ina_rc_t where "INA_ERR_ERROR = push_bit 63 1"
definition INA_ERR_NOT :: ina_rc_t where "INA_ERR_NOT = push_bit 15 1"

text \<open>The packing macro of library code (\<open>INA_LIB\<close>), with the build's
  \<open>INA_VERSION_HEX\<close> as an argument, and that of client code with its
  \<open>INA_ERROR_VER\<close> and \<open>INA_ERROR_REV\<close>.\<close>

definition INA_VERSION_HEX :: "u64 \<Rightarrow> u64 \<Rightarrow> u64 \<Rightarrow> u64" where
  "INA_VERSION_HEX major minor patch = push_bit 16 major OR push_bit 8 minor OR push_bit 0 patch"

definition INA_RC_PACK :: "u64 \<Rightarrow> ina_rc_t \<Rightarrow> u64 \<Rightarrow> ina_rc_t" where
  "INA_RC_PACK vhex x e = INA_ERR_ERROR OR push_bit 48 vhex OR push_bit 32 e OR x"

definition INA_RC_PACK_client :: "u64 \<Rightarrow> u64 \<Rightarrow> ina_rc_t \<Rightarrow> u64 \<Rightarrow> ina_rc_t" where
  "INA_RC_PACK_client ver revn x e =
     INA_ERR_ERROR OR push_bit 56 ver OR push_bit 48 revn OR push_bit 32 e OR x"

definition INA_FAILED :: "ina_rc_t \<Rightarrow> bool" where
  "INA_FAILED rc \<longleftrightarrow> rc AND INA_ERR_ERROR \<noteq> 0"

definition INA_SUCCEED :: "ina_rc_t \<Rightarrow> bool" where
  "INA_SUCCEED rc \<longleftrightarrow> \<not> INA_FAILED rc"

lemmas [rc_simps] = INA_RC_EFLAG_def INA_RC_VER_def INA_RC_REV_def INA_RC_ERRNO_def
  INA_RC_UBITS_def INA_RC_NFLAG_def INA_RC_CODE_def INA_RC_ADJ_def INA_RC_SUBJECT_def
  INA_MID_BITS_def INA_RC_ERRMSG_def INA_ERR_ERROR_def INA_ERR_NOT_def
  INA_RC_PACK_def INA_RC_PACK_client_def INA_FAILED_def INA_SUCCEED_def

section \<open>Code tables\<close>

text \<open>\<open>INA_ERR_<name>\<close> is \<open>n << INA_RC_BIT_C\<close> for the pairs \<open>(name, n)\<close> of the header,
  \<open>INA_ERR_NOT_<name>\<close> adds the negate flag, \<open>INA_ES_<name>\<close> is the subject number.\<close>

definition err_codes_A_ONLINE :: "(string \<times> nat) list" where
  "err_codes_A_ONLINE =
    [(''A'', 1), (''ACK'', 2), (''ACTIVE'', 3), (''ALIGNED'', 4),
     (''ALLOWED'', 5), (''ASSIGNED'', 6), (''ATTACHED'', 7), (''ATTEMPTED'', 8),
     (''AUTHORIZED'', 9), (''AVAILABLE'', 10), (''BAD'', 11), (''BLOCKED'', 12),
     (''BROKEN'', 13), (''BUILT'', 14), (''BUSY'', 15), (''CLOSED'', 16),
     (''COLLIDED'', 17), (''COMPILED'', 18), (''COMPLETE'', 19), (''CONFLICTED'', 20),
     (''CONNECTED'', 21), (''CONSTRUCTED'', 22), (''CREATED'', 23), (''DEFINED'', 24),
     (''DENIED'', 25), (''DEPARTED'', 26), (''DESTRUCTED'', 27), (''DETACHED'', 28),
     (''DETECTED'', 29), (''DISABLED'', 30), (''DOWN'', 31), (''DOWNLOADED'', 32),
     (''EMPTY'', 33), (''ENABLED'', 34), (''ENHANCED'', 35), (''ENOUGH'', 36),
     (''EXCEEDED'', 37), (''EXCHANGED'', 38), (''EXECUTABLE'', 39), (''EXISTS'', 40),
     (''EXPIRED'', 41), (''EXTENDED'', 42), (''FAILED'', 43), (''FALSE'', 44),
     (''FATAL'', 45), (''FORBIDDEN'', 46), (''FORMATTED'', 47), (''FOUND'', 48),
     (''FULL'', 49), (''GONE'', 50), (''GOOD'', 51), (''HALTED'', 52),
     (''HIDDEN'', 53), (''HOLD'', 54), (''IDLE'', 55), (''ILLEGAL'', 56),
     (''IMPLEMENTED'', 57), (''IN_PROGRESS'', 58), (''IN_USE'', 59), (''INITIALIZED'', 60),
     (''INSERTED'', 61), (''INSTALLED'', 62), (''INTERRUPTED'', 63), (''JOINED'', 64),
     (''KNOWN'', 65), (''LINKED'', 66), (''LOADED'', 67), (''LOCAL'', 68),
     (''LOCKED'', 69), (''LOOPED'', 70), (''LOST'', 71), (''MERGED'', 72),
     (''MISSING'', 73), (''MOUNTED'', 74), (''NEEDED'', 75), (''NO'', 76),
     (''NO_SUCH'', 77), (''OFF'', 78), (''ON'', 79), (''ONLINE'', 80)]"

definition err_codes_OPEN_CHANGED :: "(string \<times> nat) list" where
  "err_codes_OPEN_CHANGED =
    [(''OPEN'', 81), (''ORDERED'', 82), (''OUT_OF'', 83), (''OUT_OF_RANGE'', 84),
     (''OVERFLOW'', 85), (''PADDED'', 86), (''PARTED'', 87), (''PERMITTED'', 88),
     (''POPPED'', 89), (''PRELOADED'', 90), (''PROCESSABLE'', 91), (''PROVIDED'', 92),
     (''PUSHED'', 93), (''REACHABLE'', 94), (''READABLE'', 95), (''RECEIVED'', 96),
     (''REFUSED'', 97), (''REGISTERED'', 98), (''REJECTED'', 99), (''RELEASED'', 100),
     (''REMOTE'', 101), (''REMOVED'', 102), (''RENDERABLE'', 103), (''RESERVED'', 104),
     (''RESET'', 105), (''RESPONDING'', 106), (''RETRIED'', 107), (''RIGHT'', 108),
     (''RUNNING'', 109), (''SENT'', 110), (''SHARED'', 111), (''SORTED'', 112),
     (''SPECIFIED'', 113), (''SPLITTED'', 114), (''STALLED'', 115), (''STOPPED'', 116),
     (''SUCEEDED'', 117), (''SUITABLE'', 118), (''SUPPORTED'', 119), (''SYNCHRONIZED'', 120),
     (''TERMINATED'', 121), (''THROWN'', 122), (''TIMED_OUT'', 123), (''TOO_COMPLEX'', 124),
     (''TOO_FEW'', 125), (''TOO_LARGE'', 126), (''TOO_LONG'', 127), (''TOO_MANY'', 128),
     (''TOO_MUCH'', 129), (''TOO_SIMPLE'', 130), (''TOO_SMALL'', 131), (''TRIGGERED'', 132),
     (''TRUE'', 133), (''UNBLOCKED'', 134), (''UNDERFLOW'', 135), (''UNINITIALIZED'', 136),
     (''UNINSTALLED'', 137), (''UNIQUE'', 138), (''UNLOADED'', 139), (''UNLOCKED'', 140),
     (''UNSORTED'', 141), (''UP'', 142), (''UPDATED'', 143), (''UPGRADED'', 144),
     (''UPLOADED'', 145), (''USED'', 146), (''VALID'', 147), (''VISIBLE'', 148),
     (''WORKING'', 149), (''WRITABLE'', 150), (''WRONG'', 151), (''END_OF'', 152),
     (''RESOLVED'', 153), (''MATCH'', 154), (''TRY_AGAIN'', 155), (''PARSED'', 156),
     (''CHANGED'', 157)]"

definition err_subjects :: "(string \<times> nat) list" where
  "err_subjects =
    [(''NONE'', 0), (''ACCESS'', 1), (''ARGUMENT'', 2), (''COMPRESSION'', 3),
     (''DECOMPRESSION'', 5), (''DESCRIPTOR'', 4), (''DEVICE'', 6), (''DIRECTORY'', 7),
     (''FILE'', 8), (''FUNCTION'', 9), (''HANDLE'', 10), (''INPUT'', 11),
     (''IO'', 12), (''LIMIT'', 13), (''MEMORY'', 14), (''OBJECT'', 15),
     (''POOL'', 16), (''POSITION'', 17), (''SCRIPT'', 18), (''SIZE'', 19),
     (''SOCKET'', 20), (''STRING'', 21), (''TYPE'', 22), (''VERSION'', 23),
     (''STATE'', 24), (''CONFIGURATION'', 25), (''SECTION'', 26), (''KEY'', 27),
     (''ENUMERATION'', 28), (''READ'', 29), (''WRITE'', 30), (''OPTION'', 31),
     (''BUFFER'', 32), (''ADDRESS'', 33), (''MAC'', 34), (''PROCESS'', 35),
     (''PATTERN'', 36), (''SEMAPHORE'', 37), (''OPERATION'', 38), (''TIME'', 39),
     (''HOST'', 40), (''TEXT'', 41), (''API'', 42)]"

definition err_codes :: "(string \<times> nat) list" where
  "err_codes = err_codes_A_ONLINE @ err_codes_OPEN_CHANGED"

definition INA_ERR :: "string \<Rightarrow> ina_rc_t" where
  "INA_ERR name = (case map_of err_codes name of Some n \<Rightarrow> push_bit 16 (of_nat n) | None \<Rightarrow> 0)"

definition INA_ERR_NOT_of :: "string \<Rightarrow> ina_rc_t" where
  "INA_ERR_NOT_of name = INA_ERR_NOT OR INA_ERR name"

definition INA_ES :: "string \<Rightarrow> ina_rc_t" where
  "INA_ES name = (case map_of err_subjects name of Some n \<Rightarrow> of_nat n | None \<Rightarrow> 0)"

text \<open>The codes the modelled components raise.\<close>

definition INA_ERR_INVALID_ARGUMENT :: ina_rc_t where
  "INA_ERR_INVALID_ARGUMENT = INA_ERR_NOT_of ''VALID'' OR INA_ES ''ARGUMENT''"
definition INA_ERR_OUT_OF_MEMORY :: ina_rc_t where
  "INA_ERR_OUT_OF_MEMORY = INA_ERR ''OUT_OF'' OR INA_ES ''MEMORY''"
definition INA_ERR_INVALID_PATTERN :: ina_rc_t where
  "INA_ERR_INVALID_PATTERN = INA_ERR_NOT_of ''VALID'' OR INA_ES ''PATTERN''"
definition INA_ERR_POOL_FULL :: ina_rc_t where
  "INA_ERR_POOL_FULL = INA_ERR ''FULL'' OR INA_ES ''POOL''"
definition INA_ERR_OPERATION_INVALID :: ina_rc_t where
  "INA_ERR_OPERATION_INVALID = INA_ES ''OPERATION'' OR INA_ERR_NOT_of ''VALID''"

section \<open>The current return code\<close>

record err_state =
  rc_g :: ina_rc_t
  dict_cb :: "(nat \<Rightarrow> string) option"

definition ina_err_register_dict ::
    "(nat \<Rightarrow> string) option \<Rightarrow> err_state \<Rightarrow> (nat \<Rightarrow> string) option \<times> err_state" where
  "ina_err_register_dict cb s = (dict_cb s, s\<lparr>dict_cb := cb\<rparr>)"

definition ina_err_set_rc :: "ina_rc_t \<Rightarrow> err_state \<Rightarrow> ina_rc_t \<times> err_state" where
  "ina_err_set_rc rc s = (rc, s\<lparr>rc_g := rc\<rparr>)"

definition ina_err_get_rc :: "err_state \<Rightarrow> ina_rc_t" where
  "ina_err_get_rc s = rc_g s"

definition ina_err_clear_rc :: "ina_rc_t \<Rightarrow> ina_rc_t" where
  "ina_err_clear_rc rc = rc AND NOT INA_ERR_ERROR"

definition ina_err_reset :: "err_state \<Rightarrow> ina_rc_t \<times> err_state" where
  "ina_err_reset s = (let rc = ina_err_clear_rc (rc_g s) in (rc, s\<lparr>rc_g := rc\<rparr>))"

definition ina_err_set_ubits :: "u8 \<Rightarrow> err_state \<Rightarrow> ina_rc_t \<times> err_state" where
  "ina_err_set_ubits ubits s =
     (let rc = (rc_g s AND NOT (push_bit 24 (push_bit 8 1 - 1))) OR push_bit 24 (ucast ubits)
      in (rc, s\<lparr>rc_g := rc\<rparr>))"

definition ina_err_get_ubits :: "ina_rc_t \<Rightarrow> u8" where
  "ina_err_get_ubits rc = ucast (INA_RC_UBITS rc)"

definition INA_ERROR :: "u64 \<Rightarrow> ina_rc_t \<Rightarrow> err_state \<Rightarrow> ina_rc_t \<times> err_state" where
  "INA_ERROR vhex x = ina_err_set_rc (INA_RC_PACK vhex x 0)"

definition INA_OS_ERROR :: "u64 \<Rightarrow> u64 \<Rightarrow> ina_rc_t \<Rightarrow> err_state \<Rightarrow> ina_rc_t \<times> err_state" where
  "INA_OS_ERROR vhex errno x = ina_err_set_rc (INA_RC_PACK vhex x errno)"

section \<open>Messages\<close>





text \<open>The \<open>printf\<close> conversions \<open>%u\<close>, \<open>%x\<close> and \<open>PRIx64\<close>: digits of a number, most
  significant first, without leading zeros.\<close>

definition digit_char :: "nat \<Rightarrow> char" where
  "digit_char d = ''0123456789abcdef'' ! d"

fun digits_in :: "nat \<Rightarrow> nat \<Rightarrow> string" where
  "digits_in b n = (if b < 2 \<or> n < b then [digit_char n] else digits_in b (n div b) @ [digit_char (n mod b)])"

declare digits_in.simps [simp del]







section \<open>Bit-field facts\<close>

lemma digits_in_not_Nil [simp]: "digits_in b n \<noteq> []"
  by (subst digits_in.simps) simp

lemma small_word_bit:
  fixes x :: "'a::len word"
  assumes "unat x < 2 ^ k" and "bit x n"
  shows "n < k"
proof -
  have "unat (take_bit k x) = unat x"
    using assms(1) by (simp add: unsigned_take_bit_eq take_bit_nat_eq_self)
  then have "x = take_bit k x" by (simp add: word_unat_eq_iff)
  then show ?thesis using assms(2) by (metis bit_take_bit_iff)
qed

lemma mask_numerals:
  "(0xFF :: u64) = mask 8" "(0x7 :: u64) = mask 3" "(0xFFFF :: u64) = mask 16"
  "(0x7FFF :: u64) = mask 15" "(0xFFFFFF :: u64) = mask 24" "(0x1FF :: u64) = mask 9"
  "(push_bit 8 1 - 1 :: u64) = mask 8" "(push_bit 9 1 - 1 :: u64) = mask 9"
  by (simp_all add: mask_eq_exp_minus_1)

lemma bit_push_1: "bit (push_bit k 1 :: 'a::len word) n \<longleftrightarrow> n = k \<and> k < LENGTH('a)"
  unfolding bit_push_bit_iff bit_1_iff by auto

lemma bit_u64_bound: "bit (x :: u64) n \<Longrightarrow> n < 64"
  by (drule bit_imp_le_length) simp

lemma field_bit:
  "bit (ucast (drop_bit k (rc :: u64) AND mask w) :: u32) n \<longleftrightarrow> n < 32 \<and> n < w \<and> bit rc (k + n)"
  using bit_u64_bound [of rc "k + n"]
  by (auto simp: bit_ucast_iff bit_and_iff bit_drop_bit_eq bit_mask_iff)

lemma accessor_bits:
  "bit (INA_RC_VER rc) n \<longleftrightarrow> n < 3 \<and> bit rc (56 + n)"
  "bit (INA_RC_REV rc) n \<longleftrightarrow> n < 8 \<and> bit rc (48 + n)"
  "bit (INA_RC_ERRNO rc) n \<longleftrightarrow> n < 16 \<and> bit rc (32 + n)"
  "bit (INA_RC_UBITS rc) n \<longleftrightarrow> n < 8 \<and> bit rc (24 + n)"
  "bit (INA_RC_ADJ rc) n \<longleftrightarrow> n < 8 \<and> bit rc (16 + n)"
  "bit (INA_RC_SUBJECT rc) n \<longleftrightarrow> n < 15 \<and> bit rc n"
  unfolding INA_RC_VER_def INA_RC_REV_def INA_RC_ERRNO_def INA_RC_UBITS_def INA_RC_ADJ_def
    INA_RC_SUBJECT_def mask_numerals field_bit by auto

lemma accessor_bits_more:
  "bit (INA_RC_EFLAG rc) n \<longleftrightarrow> n = 0 \<and> bit rc 63"
  "bit (INA_RC_NFLAG rc) n \<longleftrightarrow> n = 0 \<and> bit rc 15"
  "bit (INA_RC_CODE rc) n \<longleftrightarrow> 16 \<le> n \<and> n < 24 \<and> bit rc n"
  "bit (INA_RC_ERRMSG rc) n \<longleftrightarrow> n < 24 \<and> bit rc n"
proof -
  have one: "(1 :: u64) = mask 1" by simp
  show "bit (INA_RC_EFLAG rc) n \<longleftrightarrow> n = 0 \<and> bit rc 63"
    unfolding INA_RC_EFLAG_def one field_bit by auto
  show "bit (INA_RC_NFLAG rc) n \<longleftrightarrow> n = 0 \<and> bit rc 15"
    unfolding INA_RC_NFLAG_def one field_bit by auto
  show "bit (INA_RC_CODE rc) n \<longleftrightarrow> 16 \<le> n \<and> n < 24 \<and> bit rc n"
    unfolding INA_RC_CODE_def mask_numerals bit_ucast_iff bit_and_iff bit_push_bit_iff bit_mask_iff
    by auto
  show "bit (INA_RC_ERRMSG rc) n \<longleftrightarrow> n < 24 \<and> bit rc n"
    unfolding INA_RC_ERRMSG_def mask_numerals bit_ucast_iff bit_and_iff bit_mask_iff
    by auto
qed

lemma error_bits: "bit (INA_RC_ERROR rc) n \<longleftrightarrow> 14 \<le> n \<and> n < 23 \<and> bit rc n"
proof -
  have "INA_MID_BITS rc (24 - 15) 15 = mask 9 AND drop_bit 14 rc"
    unfolding INA_MID_BITS_def by (simp add: mask_eq_exp_minus_1)
  then show ?thesis
    unfolding INA_RC_ERROR_def
    by (auto simp: bit_ucast_iff bit_push_bit_iff bit_and_iff bit_mask_iff bit_drop_bit_eq)
qed

lemmas field_bits = accessor_bits accessor_bits_more error_bits

lemma pack_bit:
  "bit (INA_RC_PACK vhex x e) n \<longleftrightarrow>
     n = 63 \<or> n < 64 \<and> (48 \<le> n \<and> bit vhex (n - 48) \<or> 32 \<le> n \<and> bit e (n - 32) \<or> bit x n)"
  using bit_u64_bound [of x n]
  unfolding INA_RC_PACK_def INA_ERR_ERROR_def bit_or_iff bit_push_1 bit_push_bit_iff by auto

lemma client_bit:
  "bit (INA_RC_PACK_client ver revn x e) n \<longleftrightarrow>
     n = 63 \<or> n < 64 \<and> (56 \<le> n \<and> bit ver (n - 56) \<or> 48 \<le> n \<and> bit revn (n - 48) \<or> 32 \<le> n \<and> bit e (n - 32) \<or> bit x n)"
  using bit_u64_bound [of x n]
  unfolding INA_RC_PACK_client_def INA_ERR_ERROR_def bit_or_iff bit_push_1 bit_push_bit_iff by auto

text \<open>The fields of a return code that hold an error \<open>x\<close> and an OS error \<open>e\<close>.\<close>

definition packed :: "ina_rc_t \<Rightarrow> u64 \<Rightarrow> ina_rc_t \<Rightarrow> bool" where
  "packed x e rc \<longleftrightarrow> INA_FAILED rc \<and> INA_RC_EFLAG rc = 1 \<and> INA_RC_ERRMSG rc = ucast x \<and> INA_RC_ADJ rc = INA_RC_ADJ x \<and>
     INA_RC_NFLAG rc = INA_RC_NFLAG x \<and> INA_RC_SUBJECT rc = INA_RC_SUBJECT x \<and> INA_RC_ERRNO rc = ucast e \<and> INA_RC_UBITS rc = 0"

lemma INA_FAILED_iff: "INA_FAILED rc \<longleftrightarrow> bit rc 63"
  unfolding INA_FAILED_def INA_ERR_ERROR_def bit_iff_and_push_bit_not_eq_0 ..

lemma packedI:
  assumes "unat x < 2 ^ 24" "unat e < 2 ^ 16" "bit rc 63" "\<And>n. n < 48 \<Longrightarrow> bit rc n \<longleftrightarrow> 32 \<le> n \<and> bit e (n - 32) \<or> bit x n"
  shows "packed x e rc"
proof -
  note small = small_word_bit [OF assms(1)] small_word_bit [OF assms(2)]
  have x: "\<not> bit x (32 + n)" for n using small(1) [of "32 + n"] by auto
  have e: "bit e n \<Longrightarrow> bit rc (32 + n)" for n using small(2) [of n] assms(4) [of "32 + n"] by simp
  show ?thesis unfolding packed_def
    by (intro conjI; (rule bit_word_eqI)?)
      (auto simp: INA_FAILED_iff field_bits bit_ucast_iff bit_1_iff assms(3,4) x e dest: small)
qed

lemma pack_fields:
  assumes "unat x < 2 ^ 24" and "unat e < 2 ^ 16"
  shows "INA_FAILED (INA_RC_PACK vhex x e)"
    and "INA_RC_ERRMSG (INA_RC_PACK vhex x e) = ucast x"
    and "INA_RC_ERRNO (INA_RC_PACK vhex x e) = ucast e"
    and "INA_RC_UBITS (INA_RC_PACK vhex x e) = 0"
    and "INA_RC_REV (INA_RC_PACK vhex x e) = ucast (take_bit 8 vhex)"
proof -
  note small = small_word_bit [OF assms(1)] small_word_bit [OF assms(2)]
  show "INA_FAILED (INA_RC_PACK vhex x e)" by (simp add: INA_FAILED_iff pack_bit)
  show "INA_RC_ERRMSG (INA_RC_PACK vhex x e) = ucast x"
    by (rule bit_word_eqI) (auto simp: field_bits pack_bit bit_ucast_iff dest: small)
  show "INA_RC_ERRNO (INA_RC_PACK vhex x e) = ucast e"
    by (rule bit_word_eqI) (auto simp: field_bits pack_bit bit_ucast_iff dest: small)
  show "INA_RC_UBITS (INA_RC_PACK vhex x e) = 0"
    by (rule bit_word_eqI) (auto simp: field_bits pack_bit bit_ucast_iff dest: small)
  show "INA_RC_REV (INA_RC_PACK vhex x e) = ucast (take_bit 8 vhex)"
    by (rule bit_word_eqI)
      (auto simp: field_bits pack_bit bit_ucast_iff bit_take_bit_iff dest: small)
qed

lemma set_ubits_bit:
  "bit (rc_g (snd (ina_err_set_ubits u s))) n \<longleftrightarrow>
     (if 24 \<le> n \<and> n < 32 then bit u (n - 24) else bit (rc_g s) n)"
proof -
  have "bit u (n - 24) \<Longrightarrow> n < 32" by (drule bit_imp_le_length) simp
  then show ?thesis
    using bit_u64_bound [of "rc_g s" n]
    unfolding ina_err_set_ubits_def Let_def mask_numerals snd_conv
    by (auto simp: bit_or_iff bit_and_iff bit_not_iff bit_push_bit_iff bit_mask_iff bit_ucast_iff)
qed

lemma clear_rc_bit: "bit (ina_err_clear_rc rc) n \<longleftrightarrow> n \<noteq> 63 \<and> bit rc n"
  using bit_u64_bound [of rc n]
  unfolding ina_err_clear_rc_def INA_ERR_ERROR_def bit_and_iff bit_not_iff bit_push_1 by auto

section \<open>Values of the codes in use\<close>

lemma err_code_values:
  "INA_ERR_INVALID_ARGUMENT = 0x938002" "INA_ERR_OUT_OF_MEMORY = 0x53000E"
  "INA_ERR_INVALID_PATTERN = 0x938024" "INA_ERR_POOL_FULL = 0x310010"
  "INA_ERR_OPERATION_INVALID = 0x938026"
  by (simp_all add: INA_ERR_INVALID_ARGUMENT_def INA_ERR_OUT_OF_MEMORY_def
      INA_ERR_INVALID_PATTERN_def INA_ERR_POOL_FULL_def INA_ERR_OPERATION_INVALID_def
      INA_ERR_def INA_ERR_NOT_of_def INA_ERR_NOT_def INA_ES_def err_codes_def
      err_codes_A_ONLINE_def err_codes_OPEN_CHANGED_def err_subjects_def)

section \<open>Properties\<close>

text \<open>C14. Packing a library error code \<open>x\<close> (24 bits: adjective, negate flag, subject) with an
  OS error \<open>e\<close> (16 bits) yields a failed return code from which the accessors read back the message \<open>x\<close> and
  its adjective, negate flag and subject, the OS error and empty user bits.  Of the library version
  \<open>vhex\<close> only the low byte (the patch number) is kept as revision and the three bits above it (the low
  bits of the minor number) as version.  The packing macro of client code gives back
  the same fields, and its version and revision when they fit into three and eight bits.\<close>

theorem rc_pack_unpack:
  assumes "unat x < 2 ^ 24" and "unat e < 2 ^ 16" and "unat ver < 2 ^ 3" and "unat revn < 2 ^ 8"
  shows "packed x e (INA_RC_PACK vhex x e) \<and>
    INA_RC_REV (INA_RC_PACK vhex x e) = ucast (take_bit 8 vhex) \<and>
    INA_RC_VER (INA_RC_PACK vhex x e) = ucast (take_bit 3 (drop_bit 8 vhex)) \<and>
    packed x e (INA_RC_PACK_client ver revn x e) \<and>
    INA_RC_REV (INA_RC_PACK_client ver revn x e) = ucast revn \<and>
    INA_RC_VER (INA_RC_PACK_client ver revn x e) = ucast ver"
proof -
  note small = small_word_bit [OF assms(1)] small_word_bit [OF assms(2)] small_word_bit [OF assms(3)] small_word_bit [OF assms(4)]
  have "INA_RC_VER (INA_RC_PACK vhex x e) = ucast (take_bit 3 (drop_bit 8 vhex))"
    by (rule bit_word_eqI)
      (auto simp: field_bits pack_bit bit_ucast_iff bit_take_bit_iff bit_drop_bit_eq ac_simps dest: small)
  moreover have "INA_RC_REV (INA_RC_PACK_client ver revn x e) = ucast revn" "INA_RC_VER (INA_RC_PACK_client ver revn x e) = ucast ver"
    by (rule bit_word_eqI; auto simp: field_bits client_bit bit_ucast_iff dest: small)+
  moreover have "packed x e (INA_RC_PACK vhex x e)"
    by (rule packedI [OF assms(1,2)]) (auto simp: pack_bit)
  moreover have "packed x e (INA_RC_PACK_client ver revn x e)"
    by (rule packedI [OF assms(1,2)]) (auto simp: client_bit)
  ultimately show ?thesis using pack_fields [OF assms(1,2)] by blast
qed

theorem rc_pack_unpack_witness:
  "packed INA_ERR_POOL_FULL 2 (INA_RC_PACK (INA_VERSION_HEX 1 0 29) INA_ERR_POOL_FULL 2) \<and>
   INA_RC_REV (INA_RC_PACK (INA_VERSION_HEX 1 0 29) INA_ERR_POOL_FULL 2) = 29 \<and>
   INA_RC_VER (INA_RC_PACK (INA_VERSION_HEX 1 0 29) INA_ERR_POOL_FULL 2) = 0 \<and>
   INA_RC_VER (INA_RC_PACK_client 5 200 INA_ERR_POOL_FULL 2) = 5"
proof -
  have x: "unat INA_ERR_POOL_FULL < 2 ^ 24" by (simp add: err_code_values)
  show ?thesis using rc_pack_unpack [OF x, of 2 5 200 "INA_VERSION_HEX 1 0 29"]
    by (simp add: INA_VERSION_HEX_def take_bit_eq_mod)
qed

text \<open>\<open>INA_RC_ERROR\<close> returns the adjective and negate flag of a return code (bits 15 to
  23) exactly for the codes whose adjective is below 128 and whose subject is below 16384;
  for the others it drops the top adjective bit or leaks a subject bit.\<close>

theorem rc_error_exact:
  "INA_RC_ERROR rc = ucast (rc AND push_bit 15 (mask 9)) \<longleftrightarrow> \<not> bit rc 23 \<and> \<not> bit rc 14"
proof -
  have want: "bit (ucast (rc AND push_bit 15 (mask 9)) :: u32) n \<longleftrightarrow> 15 \<le> n \<and> n < 24 \<and> bit rc n" for n
    unfolding bit_ucast_iff bit_and_iff bit_push_bit_iff bit_mask_iff by auto
  show ?thesis
  proof
    assume "INA_RC_ERROR rc = ucast (rc AND push_bit 15 (mask 9))"
    then have "14 \<le> n \<and> n < 23 \<and> bit rc n \<longleftrightarrow> 15 \<le> n \<and> n < 24 \<and> bit rc n" for n
      using want [of n] error_bits [of rc n] by simp
    from this [of 23] this [of 14] show "\<not> bit rc 23 \<and> \<not> bit rc 14" by simp
  next
    assume "\<not> bit rc 23 \<and> \<not> bit rc 14"
    then have "14 \<le> n \<and> n < 23 \<and> bit rc n \<longleftrightarrow> 15 \<le> n \<and> n < 24 \<and> bit rc n" for n
      by (cases "n = 23"; cases "n = 14") auto
    then show "INA_RC_ERROR rc = ucast (rc AND push_bit 15 (mask 9))"
      by (intro bit_word_eqI) (simp add: want error_bits)
  qed
qed

text \<open>Setting the user bits of the current return code stores exactly the given byte and
  changes no other field; resetting clears the error flag and nothing else, so the handled
  code can still be read.\<close>

theorem rc_update_frames:
  "ina_err_get_ubits (rc_g (snd (ina_err_set_ubits u s))) = u \<and>
   INA_RC_ERRMSG (rc_g (snd (ina_err_set_ubits u s))) = INA_RC_ERRMSG (rc_g s) \<and>
   INA_RC_ERRNO (rc_g (snd (ina_err_set_ubits u s))) = INA_RC_ERRNO (rc_g s) \<and>
   INA_FAILED (rc_g (snd (ina_err_set_ubits u s))) = INA_FAILED (rc_g s) \<and>
   \<not> INA_FAILED (rc_g (snd (ina_err_reset s))) \<and>
   rc_g (snd (ina_err_reset s)) OR INA_ERR_ERROR = rc_g s OR INA_ERR_ERROR"
proof (intro conjI)
  show "ina_err_get_ubits (rc_g (snd (ina_err_set_ubits u s))) = u"
    by (rule bit_word_eqI)
      (auto simp: ina_err_get_ubits_def bit_ucast_iff field_bits set_ubits_bit)
  show "INA_RC_ERRMSG (rc_g (snd (ina_err_set_ubits u s))) = INA_RC_ERRMSG (rc_g s)"
    "INA_RC_ERRNO (rc_g (snd (ina_err_set_ubits u s))) = INA_RC_ERRNO (rc_g s)"
    by (rule bit_word_eqI; simp add: field_bits set_ubits_bit)+
  show "INA_FAILED (rc_g (snd (ina_err_set_ubits u s))) = INA_FAILED (rc_g s)"
    by (simp add: INA_FAILED_iff set_ubits_bit)
  show "\<not> INA_FAILED (rc_g (snd (ina_err_reset s)))"
    by (simp add: INA_FAILED_iff ina_err_reset_def Let_def clear_rc_bit)
  show "rc_g (snd (ina_err_reset s)) OR INA_ERR_ERROR = rc_g s OR INA_ERR_ERROR"
  proof (rule bit_word_eqI)
    fix n
    show "bit (rc_g (snd (ina_err_reset s)) OR INA_ERR_ERROR) n = bit (rc_g s OR INA_ERR_ERROR) n"
      unfolding INA_ERR_ERROR_def bit_or_iff bit_push_1
      by (auto simp: ina_err_reset_def Let_def clear_rc_bit)
  qed
qed















end
