(* ===== verification/Inac_Base64.thy ===== *)
theory Inac_Base64
  imports Inac_Error
begin

text \<open>
  The base64 codec of \<open>src/util.c\<close>: the length computation, the encoder that writes into a
  bounded buffer and the table-driven decoder.  Pointer arguments are options (\<open>None\<close> for
  \<open>NULL\<close>); a buffer argument of the encoder is its size.  Shown: the computed length is
  always enough for the encoder, the encoder never writes past its buffer, and decoding the
  encoder's output gives the data back.
\<close>

section \<open>Tables\<close>

definition base64_decode_tab :: "nat list" where
  "base64_decode_tab =
    [66, 66, 66, 66, 66, 66, 66, 66, 66, 64, 66, 66, 66, 66, 66, 66, 66, 66, 66, 66, 66, 66, 66, 66, 66,
     66, 66, 66, 66, 66, 66, 66, 66, 66, 66, 66, 66, 66, 66, 66, 66, 66, 66, 62, 66, 66, 66, 63, 52, 53,
     54, 55, 56, 57, 58, 59, 60, 61, 66, 66, 66, 65, 66, 66, 66, 0, 1, 2, 3, 4, 5, 6, 7, 8, 9,
     10, 11, 12, 13, 14, 15, 16, 17, 18, 19, 20, 21, 22, 23, 24, 25, 66, 66, 66, 66, 66, 66, 26, 27, 28,
     29, 30, 31, 32, 33, 34, 35, 36, 37, 38, 39, 40, 41, 42, 43, 44, 45, 46, 47, 48, 49, 50, 51, 66, 66,
     66, 66, 66, 66, 66, 66, 66, 66, 66, 66, 66, 66, 66, 66, 66, 66, 66, 66, 66, 66, 66, 66, 66, 66, 66,
     66, 66, 66, 66, 66, 66, 66, 66, 66, 66, 66, 66, 66, 66, 66, 66, 66, 66, 66, 66, 66, 66, 66, 66, 66,
     66, 66, 66, 66, 66, 66, 66, 66, 66, 66, 66, 66, 66, 66, 66, 66, 66, 66, 66, 66, 66, 66, 66, 66, 66,
     66, 66, 66, 66, 66, 66, 66, 66, 66, 66, 66, 66, 66, 66, 66, 66, 66, 66, 66, 66, 66, 66, 66, 66, 66,
     66, 66, 66, 66, 66, 66, 66, 66, 66, 66, 66, 66, 66, 66, 66, 66, 66, 66, 66, 66, 66, 66, 66, 66, 66,
     66, 66, 66, 66, 66, 66]"

definition base64chars :: "u8 list" where
  "base64chars =
    [65, 66, 67, 68, 69, 70, 71, 72, 73, 74, 75, 76, 77, 78, 79, 80,
     81, 82, 83, 84, 85, 86, 87, 88, 89, 90, 97, 98, 99, 100, 101, 102,
     103, 104, 105, 106, 107, 108, 109, 110, 111, 112, 113, 114, 115, 116, 117, 118,
     119, 120, 121, 122, 48, 49, 50, 51, 52, 53, 54, 55, 56, 57, 43, 47]"

definition BUFFER_TOO_SMALL :: ina_rc_t where
  "BUFFER_TOO_SMALL = INA_ES ''BUFFER'' OR INA_ERR ''TOO_SMALL''"
definition BUFFER_OVERFLOW :: ina_rc_t where
  "BUFFER_OVERFLOW = INA_ES ''BUFFER'' OR INA_ERR ''OVERFLOW''"
definition INPUT_INVALID :: ina_rc_t where
  "INPUT_INVALID = INA_ES ''INPUT'' OR INA_ERR_NOT_of ''VALID''"

section \<open>Encoder\<close>

definition ina_util_base64_encode_length :: "u64 \<Rightarrow> u32 \<Rightarrow> bool \<Rightarrow> u64 ina_res" where
  "ina_util_base64_encode_length in_length line_length out_null =
     (if line_length = 0 then Inl INA_ERR_INVALID_ARGUMENT
      else if out_null then Inl INA_ERR_INVALID_ARGUMENT
      else
        let adjustment = (if in_length mod 3 \<noteq> 0 then 3 - in_length mod 3 else 0);
            code_padded_size = ((in_length + adjustment) div 3) * 4;
            newline_size = (if line_length > 0 then (code_padded_size div ucast line_length) * 2 else 0)
        in Inr (code_padded_size + newline_size + 1))"

text \<open>One store \<open>result[resultIndex++] = c\<close> behind its bounds check.\<close>

definition put :: "nat \<Rightarrow> u8 \<Rightarrow> u8 list \<Rightarrow> u8 list ina_res" where
  "put resultSize c out = (if length out \<ge> resultSize then Inl BUFFER_TOO_SMALL else Inr (out @ [c]))"

definition chunk24 :: "byte_seq \<Rightarrow> u32" where
  "chunk24 d =
     (let n = push_bit 16 (ucast (d ! 0));
          n = (if 1 < length d then n + push_bit 8 (ucast (d ! 1)) else n)
      in if 2 < length d then n + ucast (d ! 2) else n)"

definition sextet :: "u32 \<Rightarrow> nat \<Rightarrow> u8" where
  "sextet n k = (ucast (drop_bit k n) :: u8) AND 63"

fun encode_loop :: "nat \<Rightarrow> byte_seq \<Rightarrow> u8 list \<Rightarrow> u8 list ina_res" where
  "encode_loop sz [] out = Inr out"
| "encode_loop sz (d0 # ds) out =
     (let n = chunk24 (d0 # ds);
          c = (\<lambda>k. base64chars ! unat (sextet n k))
      in res_bind (put sz (c 18) out) (\<lambda>out.
         res_bind (put sz (c 12) out) (\<lambda>out.
         res_bind (if 1 < length (d0 # ds) then put sz (c 6) out else Inr out) (\<lambda>out.
         res_bind (if 2 < length (d0 # ds) then put sz (c 0) out else Inr out) (\<lambda>out.
         encode_loop sz (drop 2 ds) out)))))"

function pad_loop :: "nat \<Rightarrow> nat \<Rightarrow> u8 list \<Rightarrow> u8 list ina_res" where
  "pad_loop sz padCount out =
     (if padCount < 3 then res_bind (put sz 61 out) (\<lambda>out. pad_loop sz (Suc padCount) out)
      else Inr out)"
  by pat_completeness auto
termination
  by (relation "measure (\<lambda>(sz, p, out). 3 - p)") auto

declare pad_loop.simps [simp del]

definition ina_util_base64_encode_chunk :: "byte_seq option \<Rightarrow> nat option \<Rightarrow> u8 list ina_res" where
  "ina_util_base64_encode_chunk data_buf result =
     (case data_buf of None \<Rightarrow> Inl INA_ERR_INVALID_ARGUMENT | Some data \<Rightarrow>
      case result of None \<Rightarrow> Inl INA_ERR_INVALID_ARGUMENT | Some resultSize \<Rightarrow>
        res_bind (encode_loop resultSize data []) (\<lambda>out.
        res_bind (if length data mod 3 > 0 then pad_loop resultSize (length data mod 3) out else Inr out) (\<lambda>out.
        if length out \<ge> resultSize then Inl BUFFER_TOO_SMALL else Inr out)))"

section \<open>Decoder\<close>

text \<open>The loop over the input.  \<open>char\<close> is signed, so a byte above 127 indexes in front of the
  table: \<open>None\<close>.  The state is \<open>buf\<close>, the sentinel-marked accumulator, the length and the
  bytes written so far.\<close>

fun decode_loop :: "nat \<Rightarrow> u8 list \<Rightarrow> u64 \<Rightarrow> nat \<Rightarrow> byte_seq \<Rightarrow> ((u64 \<times> nat \<times> byte_seq) ina_res) option" where
  "decode_loop max_out [] buf len out = Some (Inr (buf, len, out))"
| "decode_loop max_out (i # ins) buf len out =
     (if unat i > 127 then None
      else
        let c = base64_decode_tab ! unat i
        in if c = 64 then decode_loop max_out ins buf len out
           else if c = 66 then Some (Inl INPUT_INVALID)
           else if c = 65 then Some (Inr (buf, len, out))
           else
             let buf = push_bit 6 buf OR of_nat c
             in if buf AND 0x1000000 \<noteq> 0
                then if len + 3 > max_out then Some (Inl BUFFER_OVERFLOW)
                     else decode_loop max_out ins 1 (len + 3)
                            (out @ [ucast (drop_bit 16 buf), ucast (drop_bit 8 buf), ucast buf])
                else decode_loop max_out ins buf len out)"

definition decode_tail :: "nat \<Rightarrow> u64 \<times> nat \<times> byte_seq \<Rightarrow> byte_seq ina_res" where
  "decode_tail max_out = (\<lambda>(buf, len, out).
     if buf AND 0x40000 \<noteq> 0
     then if len + 2 > max_out then Inl BUFFER_OVERFLOW
          else Inr (out @ [ucast (drop_bit 10 buf), ucast (drop_bit 2 buf)])
     else if buf AND 0x1000 \<noteq> 0
     then if len + 1 > max_out then Inl BUFFER_OVERFLOW
          else Inr (out @ [ucast (drop_bit 4 buf)])
     else Inr out)"

definition ina_util_base64_decode_chunk ::
    "u8 list option \<Rightarrow> bool \<Rightarrow> nat \<Rightarrow> bool \<Rightarrow> (byte_seq ina_res) option" where
  "ina_util_base64_decode_chunk inp out_null max_out out_len_null =
     (case inp of None \<Rightarrow> Some (Inl INA_ERR_INVALID_ARGUMENT) | Some ins \<Rightarrow>
      if out_null then Some (Inl INA_ERR_INVALID_ARGUMENT)
      else if out_len_null then Some (Inl INA_ERR_INVALID_ARGUMENT)
      else map_option (\<lambda>r. res_bind r (decode_tail max_out)) (decode_loop max_out ins 1 0 []))"

section \<open>Table facts\<close>

lemma base64_table: "s < 64 \<Longrightarrow> unat (base64chars ! s) \<le> 127 \<and> base64_decode_tab ! unat (base64chars ! s) = s"
proof -
  have "list_all (\<lambda>s. unat (base64chars ! s) \<le> 127 \<and> base64_decode_tab ! unat (base64chars ! s) = s) [0..<64]"
    by code_simp
  then show "s < 64 \<Longrightarrow> ?thesis" by (simp add: list_all_iff)
qed

lemma base64_equals: "base64_decode_tab ! 61 = 65"
  by code_simp

section \<open>Accumulator arithmetic\<close>

lemma unat_shift6_or:
  assumes "unat (buf :: u64) < 2 ^ 24" and "c < 64"
  shows "unat (push_bit 6 buf OR of_nat c) = unat buf * 64 + c"
proof -
  have c: "unat (of_nat c :: u64) = c" using assms(2) by (intro unat_of_nat_small) simp
  have disj: "\<not> bit (push_bit 6 buf) n \<or> \<not> bit (of_nat c :: u64) n" for n
    using small_word_bit [of "of_nat c :: u64" 6 n] c assms(2) by (auto simp: bit_push_bit_iff)
  have "push_bit 6 buf OR of_nat c = push_bit 6 buf + of_nat c"
    using disj by (intro disjunctive_add [symmetric]) blast
  also have "\<dots> = of_nat (unat buf * 64 + c)"
    by (simp add: push_bit_eq_mult)
  finally have "unat (push_bit 6 buf OR of_nat c) = unat (of_nat (unat buf * 64 + c) :: u64)"
    by (simp only:)
  also have "\<dots> = unat buf * 64 + c" using assms by (intro unat_of_nat_small) simp
  finally show ?thesis .
qed

lemma bit_flag_iff:
  assumes "unat (buf :: u64) < 2 ^ (k + 1)" and "k < 64"
  shows "buf AND push_bit k 1 \<noteq> 0 \<longleftrightarrow> unat buf \<ge> 2 ^ k"
proof -
  have "bit buf k \<longleftrightarrow> odd (unat buf div 2 ^ k)"
    by (simp add: bit_unsigned_iff flip: bit_iff_odd)
  moreover have "unat buf div 2 ^ k < 2"
    using assms(1) by (simp add: less_mult_imp_div_less)
  ultimately show ?thesis
    unfolding bit_iff_and_push_bit_not_eq_0 [symmetric]
    by (metis One_nat_def div_greater_zero_iff even_zero less_2_cases odd_one zero_less_numeral
        zero_less_power bot_nat_0.not_eq_extremum less_numeral_extra(1))
qed

section \<open>Specification\<close>

text \<open>Base64 as a text transformation, without buffers: three bytes become four sextets, a
  last group of one or two bytes is padded with equals signs.\<close>

abbreviation b64 :: "nat \<Rightarrow> u8" where "b64 s \<equiv> base64chars ! s"

fun b64_groups :: "byte_seq \<Rightarrow> u8 list" where
  "b64_groups [] = []"
| "b64_groups [a] = [b64 (unat a div 4), b64 (unat a mod 4 * 16)]"
| "b64_groups [a, b] =
     [b64 (unat a div 4), b64 (unat a mod 4 * 16 + unat b div 16), b64 (unat b mod 16 * 4)]"
| "b64_groups (a # b # c # ds) =
     [b64 (unat a div 4), b64 (unat a mod 4 * 16 + unat b div 16),
      b64 (unat b mod 16 * 4 + unat c div 64), b64 (unat c mod 64)] @ b64_groups ds"

definition b64_text :: "byte_seq \<Rightarrow> u8 list" where
  "b64_text data = b64_groups data @
     replicate (if length data mod 3 = 0 then 0 else 3 - length data mod 3) 61"

section \<open>The encoder implements the specification\<close>

lemma u8_bound: "unat (a :: u8) < 256"
  using unsigned_less [of a, where 'a = nat] by simp

lemma ucast_shift16: "push_bit 16 (ucast (a :: u8) :: u32) = of_nat (unat a * 65536)"
  by (simp add: push_bit_eq_mult)

lemma ucast_shift8: "push_bit 8 (ucast (a :: u8) :: u32) = of_nat (unat a * 256)"
  by (simp add: push_bit_eq_mult)

lemma ucast_shift0: "(ucast (a :: u8) :: u32) = of_nat (unat a)"
  by simp

lemma unat_sextet: "unat (sextet n k) = unat n div 2 ^ k mod 64"
proof -
  have m: "(63 :: u8) = mask 6" by (simp add: mask_eq_exp_minus_1)
  have "unat (sextet n k) = take_bit 6 (unat (ucast (drop_bit k n) :: u8))"
    unfolding sextet_def m by (simp add: unsigned_take_bit_eq flip: take_bit_eq_mask)
  also have "\<dots> = take_bit 6 (drop_bit k (unat n))"
    using unsigned_less [of n, where 'a = nat]
    by (simp add: unsigned_ucast_eq unsigned_drop_bit_eq take_bit_nat_eq_self)
  finally show ?thesis by (simp add: take_bit_eq_mod drop_bit_eq_div)
qed

lemma unat_chunk24:
  "unat (chunk24 [a]) = unat a * 65536"
  "unat (chunk24 [a, b]) = unat a * 65536 + unat b * 256"
  "unat (chunk24 (a # b # c # ds)) = unat a * 65536 + unat b * 256 + unat c"
proof -
  have 1: "chunk24 [a] = of_nat (unat a * 65536)"
    unfolding chunk24_def Let_def ucast_shift16 by simp
  have 2: "chunk24 [a, b] = of_nat (unat a * 65536 + unat b * 256)"
    unfolding chunk24_def Let_def ucast_shift16 ucast_shift8 of_nat_add by simp
  have 3: "chunk24 (a # b # c # ds) = of_nat (unat a * 65536 + unat b * 256 + unat c)"
    unfolding chunk24_def Let_def ucast_shift16 ucast_shift8 of_nat_add by simp
  show "unat (chunk24 [a]) = unat a * 65536"
    unfolding 1 using u8_bound [of a] by (intro unat_of_nat_small) simp
  show "unat (chunk24 [a, b]) = unat a * 65536 + unat b * 256"
    unfolding 2 using u8_bound [of a] u8_bound [of b] by (intro unat_of_nat_small) simp
  show "unat (chunk24 (a # b # c # ds)) = unat a * 65536 + unat b * 256 + unat c"
    unfolding 3 using u8_bound [of a] u8_bound [of b] u8_bound [of c]
    by (intro unat_of_nat_small) simp
qed

lemma div_low: "c < m \<Longrightarrow> (x * m + c) div (m * k) = x div (k::nat)"
  by (cases "m = 0") (auto simp: div_mult2_eq)

lemma sextet_arith:
  fixes a b c :: nat
  assumes "a < 256" "b < 256" "c < 256"
  shows "(a * 65536 + b * 256 + c) div 2 ^ 18 mod 64 = a div 4"
    and "(a * 65536 + b * 256 + c) div 2 ^ 12 mod 64 = a mod 4 * 16 + b div 16"
    and "(a * 65536 + b * 256 + c) div 2 ^ 6 mod 64 = b mod 16 * 4 + c div 64"
    and "(a * 65536 + b * 256 + c) div 2 ^ 0 mod 64 = c mod 64"
proof -
  have "(a * 65536 + b * 256 + c) div 262144 = a div 4"
    using div_low [of "b * 256 + c" 65536 a 4] assms by (simp add: add.assoc)
  then show "(a * 65536 + b * 256 + c) div 2 ^ 18 mod 64 = a div 4" using assms by simp
  have "(a * 65536 + b * 256 + c) div 4096 = (a * 256 + b) div 16"
    using div_low [of c 256 "a * 256 + b" 16] assms by (simp add: algebra_simps)
  also have "\<dots> = a * 16 + b div 16" using div_mult_self3 [of 16 "a * 16" b] by simp
  finally have 12: "(a * 65536 + b * 256 + c) div 4096 = a * 16 + b div 16" .
  have "a * 16 + b div 16 = 64 * (a div 4) + (a mod 4 * 16 + b div 16)"
    using mult_div_mod_eq [of 4 a] by linarith
  moreover have "a mod 4 * 16 + b div 16 < 64"
    using assms mod_less_divisor [of 4 a] less_mult_imp_div_less [of b 16 16] by linarith
  ultimately have "(a * 16 + b div 16) mod 64 = a mod 4 * 16 + b div 16"
    by (metis mod_less mod_mult_self4)
  then show "(a * 65536 + b * 256 + c) div 2 ^ 12 mod 64 = a mod 4 * 16 + b div 16"
    using 12 by simp
  have 6: "(a * 65536 + b * 256 + c) div 64 = a * 1024 + b * 4 + c div 64"
    using div_mult_self3 [of 64 "a * 1024 + b * 4" c] by (simp add: algebra_simps)
  have "b * 4 = 64 * (b div 16) + b mod 16 * 4"
    using mult_div_mod_eq [of 16 b] by linarith
  then have "a * 1024 + b * 4 + c div 64 = 64 * (a * 16 + b div 16) + (b mod 16 * 4 + c div 64)"
    by (simp add: algebra_simps)
  moreover have "b mod 16 * 4 + c div 64 < 64"
    using assms mod_less_divisor [of 16 b] less_mult_imp_div_less [of c 4 64] by linarith
  ultimately have "(a * 1024 + b * 4 + c div 64) mod 64 = b mod 16 * 4 + c div 64"
    by (metis mod_less mod_mult_self4)
  then show "(a * 65536 + b * 256 + c) div 2 ^ 6 mod 64 = b mod 16 * 4 + c div 64"
    using 6 by simp
  have "a * 65536 + b * 256 + c = 64 * (a * 1024 + b * 4) + c" by simp
  then show "(a * 65536 + b * 256 + c) div 2 ^ 0 mod 64 = c mod 64"
    by (metis div_by_1 mod_mult_self4 power_0)
qed

lemma sextet_chunk3:
  "unat (sextet (chunk24 (a # b # c # ds)) 18) = unat a div 4"
  "unat (sextet (chunk24 (a # b # c # ds)) 12) = unat a mod 4 * 16 + unat b div 16"
  "unat (sextet (chunk24 (a # b # c # ds)) 6) = unat b mod 16 * 4 + unat c div 64"
  "unat (sextet (chunk24 (a # b # c # ds)) 0) = unat c mod 64"
  unfolding unat_sextet unat_chunk24 by (rule sextet_arith [OF u8_bound u8_bound u8_bound])+

lemma sextet_chunk2:
  "unat (sextet (chunk24 [a, b]) 18) = unat a div 4"
  "unat (sextet (chunk24 [a, b]) 12) = unat a mod 4 * 16 + unat b div 16"
  "unat (sextet (chunk24 [a, b]) 6) = unat b mod 16 * 4"
  unfolding unat_sextet unat_chunk24
  using sextet_arith [OF u8_bound [of a] u8_bound [of b], of 0] by simp_all

lemma sextet_chunk1:
  "unat (sextet (chunk24 [a]) 18) = unat a div 4"
  "unat (sextet (chunk24 [a]) 12) = unat a mod 4 * 16"
  unfolding unat_sextet unat_chunk24
  using sextet_arith [OF u8_bound [of a], of 0 0] by simp_all

lemma encode_loop_spec:
  "length out \<le> sz \<Longrightarrow>
   encode_loop sz d out =
     (if length out + length (b64_groups d) \<le> sz then Inr (out @ b64_groups d) else Inl BUFFER_TOO_SMALL)"
proof (induction d arbitrary: out rule: b64_groups.induct)
  case (4 a b c ds)
  show ?case
    using "4.IH" [of "out @ [b64 (unat a div 4), b64 (unat a mod 4 * 16 + unat b div 16),
      b64 (unat b mod 16 * 4 + unat c div 64), b64 (unat c mod 64)]"] "4.prems"
    by (auto simp: Let_def put_def sextet_chunk3 sextet_chunk2 sextet_chunk1)
qed (auto simp: Let_def put_def sextet_chunk3 sextet_chunk2 sextet_chunk1)

lemma pad_loop_spec:
  "length out \<le> sz \<Longrightarrow>
   pad_loop sz p out =
     (if length out + (3 - p) \<le> sz then Inr (out @ replicate (3 - p) 61) else Inl BUFFER_TOO_SMALL)"
proof (induction sz p out rule: pad_loop.induct)
  case (1 sz p out)
  show ?case
  proof (cases "p < 3")
    case True
    then have r: "3 - p = Suc (3 - Suc p)" by simp
    show ?thesis
      using "1.IH" [OF True, of "out @ [61]"] "1.prems" True
      by (subst pad_loop.simps) (auto simp: put_def r)
  qed (use "1.prems" in \<open>simp add: pad_loop.simps\<close>)
qed

lemma length_b64_groups:
  "length (b64_groups d) = 4 * (length d div 3) + (if length d mod 3 = 0 then 0 else length d mod 3 + 1)"
proof (induction d rule: b64_groups.induct)
  case (4 a b c ds)
  have "length (a # b # c # ds) = length ds + 3" by simp
  then show ?case using 4 by (simp only: b64_groups.simps length_append div_add_self2 mod_add_self2) simp
qed auto

lemma length_b64_text: "length (b64_text d) = 4 * ((length d + 2) div 3)"
proof -
  define q r where "q = length d div 3" and "r = length d mod 3"
  have n: "length d = 3 * q + r" and "r < 3" by (simp_all add: q_def r_def)
  then have "(length d + 2) div 3 = (if r = 0 then q else q + 1)" by presburger
  then show ?thesis
    using \<open>r < 3\<close> by (simp add: b64_text_def length_b64_groups flip: q_def r_def)
qed

lemma encode_chunk_spec:
  "ina_util_base64_encode_chunk (Some d) (Some sz) =
     (if length (b64_text d) < sz then Inr (b64_text d) else Inl BUFFER_TOO_SMALL)"
  by (auto simp: ina_util_base64_encode_chunk_def encode_loop_spec pad_loop_spec b64_text_def)

section \<open>The decoder inverts the specification\<close>

lemma decode_step:
  assumes "n < 2 ^ 19" and "s < 64"
  shows "decode_loop m (b64 s # ins) (of_nat n) len out =
    (if n \<ge> 2 ^ 18
     then if len + 3 > m then Some (Inl BUFFER_OVERFLOW)
          else decode_loop m ins 1 (len + 3)
            (out @ map (\<lambda>k. ucast (drop_bit k (of_nat (n * 64 + s) :: u64))) [16, 8, 0])
     else decode_loop m ins (of_nat (n * 64 + s)) len out)"
proof -
  have u: "unat (of_nat n :: u64) = n" using assms(1) by (intro unat_of_nat_small) simp
  have v: "unat (of_nat (n * 64 + s) :: u64) = n * 64 + s"
    using assms by (intro unat_of_nat_small) simp
  have acc: "push_bit 6 (of_nat n :: u64) OR of_nat s = of_nat (n * 64 + s)"
    unfolding word_unat_eq_iff v
    by (rule unat_shift6_or [of "of_nat n" s, unfolded u]) (use assms in simp_all)
  have "of_nat (n * 64 + s) AND push_bit 24 (1 :: u64) \<noteq> 0 \<longleftrightarrow> n * 64 + s \<ge> 2 ^ 24"
    using bit_flag_iff [of "of_nat (n * 64 + s)" 24] v assms by simp
  moreover have "2 ^ 24 \<le> n * 64 + s \<longleftrightarrow> 2 ^ 18 \<le> n" using assms(2) by (simp, presburger)
  ultimately have flag: "of_nat (n * 64 + s) AND (0x1000000 :: u64) \<noteq> 0 \<longleftrightarrow> n \<ge> 2 ^ 18"
    by (simp add: push_bit_eq_mult)
  show ?thesis
    using base64_table [OF assms(2)] assms(2)
    by (simp add: acc Let_def flag del: of_nat_add of_nat_mult)
qed

lemma decode_more:
  "n < 2 ^ 18 \<Longrightarrow> s < 64 \<Longrightarrow>
   decode_loop m (b64 s # ins) (of_nat n) len out = decode_loop m ins (of_nat (n * 64 + s)) len out"
  by (subst decode_step) simp_all

lemma decode_flush:
  "2 ^ 18 \<le> n \<Longrightarrow> n < 2 ^ 19 \<Longrightarrow> s < 64 \<Longrightarrow>
   decode_loop m (b64 s # ins) (of_nat n) len out =
     (if len + 3 > m then Some (Inl BUFFER_OVERFLOW)
      else decode_loop m ins 1 (len + 3)
        (out @ map (\<lambda>k. ucast (drop_bit k (of_nat (n * 64 + s) :: u64))) [16, 8, 0]))"
  by (subst decode_step) simp_all

lemma decode_padding: "decode_loop m (replicate k 61) buf len out = Some (Inr (buf, len, out))"
  by (cases k) (auto simp: base64_equals Let_def)

lemma ucast_drop_of_nat:
  "n < 2 ^ 64 \<Longrightarrow> (ucast (drop_bit k (of_nat n :: u64)) :: u8) = of_nat (n div 2 ^ k)"
  unfolding word_unat_eq_iff unsigned_ucast_eq unsigned_drop_bit_eq
  by (simp add: unat_of_nat take_bit_nat_eq_self drop_bit_eq_div take_bit_eq_mod)

lemma of_nat_wrap8: "(of_nat (256 * q + unat a) :: u8) = a"
  by (simp only: word_unat_eq_iff unat_of_nat take_bit_eq_mod) (simp add: u8_bound)

lemma regroup:
  "(((1 * 64 + qa) * 64 + (ra * 16 + qb)) * 64 + (rb * 4 + qc)) * 64 + (rc :: nat) =
   16777216 + ((4 * qa + ra) * 65536 + (16 * qb + rb) * 256 + (64 * qc + rc))"
  by simp

lemma decode_group3:
  "decode_loop m (b64_groups (a # b # c # ds) @ ins) 1 len out =
     (if len + 3 > m then Some (Inl BUFFER_OVERFLOW)
      else decode_loop m (b64_groups ds @ ins) 1 (len + 3) (out @ [a, b, c]))"
proof -
  let ?a = "unat a" and ?b = "unat b" and ?c = "unat c"
  have bd: "?a < 256" "?b < 256" "?c < 256" by (rule u8_bound)+
  define s0 s1 s2 s3 where "s0 = ?a div 4" and "s1 = ?a mod 4 * 16 + ?b div 16"
    and "s2 = ?b mod 16 * 4 + ?c div 64" and "s3 = ?c mod 64"
  have s: "s0 < 64" "s1 < 64" "s2 < 64" "s3 < 64"
    using sextet_arith [OF bd] by (simp_all add: s0_def s1_def s2_def s3_def, (metis mod_less_divisor zero_less_numeral)+)
  define w where "w = (((1 * 64 + s0) * 64 + s1) * 64 + s2) * 64 + s3"
  have w: "w = 16777216 + (?a * 65536 + ?b * 256 + ?c)"
    unfolding w_def s0_def s1_def s2_def s3_def 
    by (simp only: regroup mult_div_mod_eq)
  have bytes: "map (\<lambda>k. ucast (drop_bit k (of_nat w :: u64))) [16, 8, 0] = [a, b, c]"
  proof -
    have "w < 2 ^ 64" using bd by (simp add: w)
    moreover have "w div 2 ^ 16 = 256 * 1 + ?a" "w div 2 ^ 8 = 256 * (256 + ?a) + ?b" "w div 2 ^ 0 = 256 * (65536 + 256 * ?a + ?b) + ?c"
      using bd by (auto simp: w intro!: div_nat_eqI)
    ultimately show ?thesis by (simp only: list.map ucast_drop_of_nat of_nat_wrap8)
  qed
  let ?r = "b64_groups ds @ ins"
  have "decode_loop m (b64_groups (a # b # c # ds) @ ins) 1 len out =
        decode_loop m (b64 s0 # b64 s1 # b64 s2 # b64 s3 # ?r) (of_nat 1) len out"
    by (simp add: s0_def s1_def s2_def s3_def)
  also have "\<dots> = decode_loop m (b64 s1 # b64 s2 # b64 s3 # ?r) (of_nat (1 * 64 + s0)) len out"
    by (rule decode_more) (use s in simp_all)
  also have "\<dots> = decode_loop m (b64 s2 # b64 s3 # ?r) (of_nat ((1 * 64 + s0) * 64 + s1)) len out"
    by (rule decode_more) (use s in simp_all)
  also have "\<dots> = decode_loop m (b64 s3 # ?r) (of_nat (((1 * 64 + s0) * 64 + s1) * 64 + s2)) len out"
    by (rule decode_more) (use s in simp_all)
  also have "\<dots> = (if len + 3 > m then Some (Inl BUFFER_OVERFLOW)
      else decode_loop m ?r 1 (len + 3) (out @ [a, b, c]))"
    unfolding bytes [symmetric] w_def by (rule decode_flush) (use s in simp_all)
  finally show ?thesis .
qed

lemma decode_group2:
  "map_option (\<lambda>r. res_bind r (decode_tail m)) (decode_loop m (b64_groups [a, b] @ replicate k 61) 1 len out) =
     Some (if len + 2 > m then Inl BUFFER_OVERFLOW else Inr (out @ [a, b]))"
proof -
  let ?a = "unat a" and ?b = "unat b"
  have bd: "?a < 256" "?b < 256" by (rule u8_bound)+
  define s0 s1 s2 where "s0 = ?a div 4" and "s1 = ?a mod 4 * 16 + ?b div 16" and "s2 = ?b mod 16 * 4"
  have s: "s0 < 64" "s1 < 64" "s2 < 64"
    using sextet_arith [OF bd, of 0]
    by (simp_all add: s0_def s1_def s2_def, (metis mod_less_divisor zero_less_numeral)+)
  define w where "w = ((1 * 64 + s0) * 64 + s1) * 64 + s2"
  have w: "w = 262144 + ?a * 1024 + ?b * 4"
    using regroup [of "?a div 4" "?a mod 4" "?b div 16" "?b mod 16" 0 0]
    by (simp only: w_def s0_def s1_def s2_def mult_div_mod_eq) simp
  have u: "unat (of_nat w :: u64) = w" using bd by (intro unat_of_nat_small) (simp add: w)
  have wb: "2 ^ 18 \<le> w" "w < 2 ^ 19" using bd by (simp_all add: w)
  have flag: "of_nat w AND (0x40000 :: u64) \<noteq> 0"
    using bit_flag_iff [of "of_nat w :: u64" 18] wb by (simp add: u push_bit_eq_mult)
  have "w div 2 ^ 10 = 256 * 1 + ?a" "w div 2 ^ 2 = 256 * (256 + ?a) + ?b" "w < 2 ^ 64"
    using bd by (auto simp: w intro!: div_nat_eqI)
  then have bytes: "ucast (drop_bit 10 (of_nat w :: u64)) = a" "ucast (drop_bit 2 (of_nat w :: u64)) = b"
    by (simp_all only: ucast_drop_of_nat of_nat_wrap8)
  have "decode_loop m (b64_groups [a, b] @ replicate k 61) 1 len out =
        decode_loop m (b64 s0 # b64 s1 # b64 s2 # replicate k 61) (of_nat 1) len out"
    by (simp add: s0_def s1_def s2_def)
  also have "\<dots> = decode_loop m (b64 s1 # b64 s2 # replicate k 61) (of_nat (1 * 64 + s0)) len out"
    by (rule decode_more) (use s in simp_all)
  also have "\<dots> = decode_loop m (b64 s2 # replicate k 61) (of_nat ((1 * 64 + s0) * 64 + s1)) len out"
    by (rule decode_more) (use s in simp_all)
  also have "\<dots> = decode_loop m (replicate k 61) (of_nat w) len out"
    unfolding w_def by (rule decode_more) (use s in simp_all)
  finally show ?thesis by (simp add: decode_padding decode_tail_def flag bytes)
qed

lemma decode_group1:
  "map_option (\<lambda>r. res_bind r (decode_tail m)) (decode_loop m (b64_groups [a] @ replicate k 61) 1 len out) =
     Some (if len + 1 > m then Inl BUFFER_OVERFLOW else Inr (out @ [a]))"
proof -
  let ?a = "unat a"
  have bd: "?a < 256" by (rule u8_bound)
  define s0 s1 where "s0 = ?a div 4" and "s1 = ?a mod 4 * 16"
  have s: "s0 < 64" "s1 < 64"
    using bd mod_less_divisor [of 4 ?a] by (simp_all add: s0_def s1_def)
  define w where "w = (1 * 64 + s0) * 64 + s1"
  have w: "w = 4096 + ?a * 16"
    using regroup [of "?a div 4" "?a mod 4" 0 0 0 0]
    by (simp only: w_def s0_def s1_def mult_div_mod_eq) simp
  have u: "unat (of_nat w :: u64) = w" using bd by (intro unat_of_nat_small) (simp add: w)
  have wb: "2 ^ 12 \<le> w" "w < 2 ^ 13" using bd by (simp_all add: w)
  have flag: "of_nat w AND (0x1000 :: u64) \<noteq> 0" "of_nat w AND (0x40000 :: u64) = 0"
    using bit_flag_iff [of "of_nat w :: u64" 12] bit_flag_iff [of "of_nat w :: u64" 18] wb
    by (simp_all add: u push_bit_eq_mult)
  have "w div 2 ^ 4 = 256 * 1 + ?a" "w < 2 ^ 64"
    using bd by (auto simp: w intro!: div_nat_eqI)
  then have bytes: "ucast (drop_bit 4 (of_nat w :: u64)) = a"
    by (simp only: ucast_drop_of_nat of_nat_wrap8)
  have "decode_loop m (b64_groups [a] @ replicate k 61) 1 len out =
        decode_loop m (b64 s0 # b64 s1 # replicate k 61) (of_nat 1) len out"
    by (simp add: s0_def s1_def)
  also have "\<dots> = decode_loop m (b64 s1 # replicate k 61) (of_nat (1 * 64 + s0)) len out"
    by (rule decode_more) (use s in simp_all)
  also have "\<dots> = decode_loop m (replicate k 61) (of_nat w) len out"
    unfolding w_def by (rule decode_more) (use s in simp_all)
  finally show ?thesis by (simp add: decode_padding decode_tail_def flag bytes)
qed

lemma decode_groups:
  "map_option (\<lambda>r. res_bind r (decode_tail m)) (decode_loop m (b64_groups d @ replicate k 61) 1 len out) =
     Some (if len + length d > m \<and> d \<noteq> [] then Inl BUFFER_OVERFLOW else Inr (out @ d))"
proof (induction d arbitrary: len out rule: b64_groups.induct)
  case 1
  show ?case by (simp add: decode_padding decode_tail_def)
next
  case (2 a)
  show ?case by (simp only: decode_group1) simp
next
  case (3 a b)
  show ?case by (simp only: decode_group2) simp
next
  case (4 a b c ds)
  show ?case by (simp only: decode_group3) (auto simp: "4.IH" simp del: map_option_eq_Some)
qed

text \<open>C9. The encoder, run on any data and any buffer size, either writes exactly the padded
  base64 text of the data (with room for the terminating zero) or reports
  \<open>INA_ES_BUFFER|INA_ERR_TOO_SMALL\<close>, and it does the latter exactly when the text and the
  terminator do not fit.\<close>

theorem base64_encode_refines:
  "ina_util_base64_encode_chunk (Some d) (Some sz) =
     (if length (b64_text d) < sz then Inr (b64_text d) else Inl BUFFER_TOO_SMALL)"
  by (rule encode_chunk_spec)

text \<open>C7. Decoding what the encoder wrote gives the data back when the output buffer holds it, and
  \<open>INA_ES_BUFFER|INA_ERR_OVERFLOW\<close> when it does not; the decoder never reads outside its table
  on such an input.\<close>

theorem base64_roundtrip:
  assumes "ina_util_base64_encode_chunk (Some d) (Some sz) = Inr t" and "d \<noteq> []"
  shows "ina_util_base64_decode_chunk (Some t) False max_out False =
    Some (if length d \<le> max_out then Inr d else Inl BUFFER_OVERFLOW)"
proof -
  have "t = b64_text d" using assms(1) by (simp add: encode_chunk_spec split: if_splits)
  then show ?thesis
    using decode_groups [of max_out d _ 0 "[]"] assms(2)
    by (simp add: ina_util_base64_decode_chunk_def b64_text_def del: map_option_eq_Some)
qed

theorem base64_roundtrip_witness:
  "ina_util_base64_encode_chunk (Some [72, 105]) (Some 5) = Inr [83, 71, 107, 61] \<and>
   ina_util_base64_decode_chunk (Some [83, 71, 107, 61]) False 2 False = Some (Inr [72, 105])"
proof -
  have "b64_text [72, 105] = [83, 71, 107, 61]" by code_simp
  then have e: "ina_util_base64_encode_chunk (Some [72, 105]) (Some 5) = Inr [83, 71, 107, 61]"
    by (simp add: encode_chunk_spec)
  show ?thesis using e base64_roundtrip [OF e, of 2] by simp
qed

text \<open>The computed length, read as a natural number.\<close>

lemma of_nat_div_word:
  "m < 2 ^ LENGTH('a) \<Longrightarrow> k < 2 ^ LENGTH('a) \<Longrightarrow> of_nat m div of_nat k = (of_nat (m div k) :: 'a::len word)"
  using div_le_dividend [of m k]
  by (simp only: word_unat_eq_iff unat_div unat_of_nat_small le_less_trans)

lemma of_nat_mod_word:
  "m < 2 ^ LENGTH('a) \<Longrightarrow> k < 2 ^ LENGTH('a) \<Longrightarrow> of_nat m mod of_nat k = (of_nat (m mod k) :: 'a::len word)"
  using mod_less_eq_dividend [of m k]
  by (simp only: word_unat_eq_iff unat_mod unat_of_nat_small le_less_trans)

lemma encode_length_unat:
  assumes "n < 2 ^ 61" and "line_length \<noteq> 0"
  defines "padded \<equiv> 4 * ((n + 2) div 3)"
  shows "\<exists>r. ina_util_base64_encode_length (of_nat n) line_length False = Inr r \<and>
    unat r = padded + padded div unat line_length * 2 + 1"
proof -
  have n: "of_nat n mod (3 :: u64) = of_nat (n mod 3)"
    using of_nat_mod_word [of n 3, where 'a = 64] assms(1) by simp
  have z: "of_nat (n mod 3) = (0 :: u64) \<longleftrightarrow> n mod 3 = 0"
    using unat_of_nat_small [of "n mod 3", where 'a = 64] by (simp add: unat_eq_zero [symmetric] less_trans)
  have eq: "n + (if n mod 3 \<noteq> 0 then 3 - n mod 3 else 0) = 3 * ((n + 2) div 3)"
    by (cases "n mod 3 = 0") presburger+
  have "n mod 3 \<le> 3" by (simp add: less_imp_le)
  then have "of_nat n + (if of_nat n mod (3 :: u64) \<noteq> 0 then 3 - of_nat n mod 3 else 0) =
      (of_nat (3 * ((n + 2) div 3)) :: u64)"
    unfolding n z eq [symmetric] by (simp add: of_nat_diff)
  moreover have "of_nat (3 * ((n + 2) div 3)) div (3 :: u64) = of_nat ((n + 2) div 3)"
    using of_nat_div_word [of "3 * ((n + 2) div 3)" 3, where 'a = 64] assms(1)
    by (simp del: of_nat_mult)
  ultimately have code: "(of_nat n + (if of_nat n mod (3 :: u64) \<noteq> 0 then 3 - of_nat n mod 3 else 0)) div 3 * 4
      = (of_nat padded :: u64)"
    by (simp add: padded_def mult.commute)
  have small: "padded + padded div unat line_length * 2 + 1 < 2 ^ 64"
  proof -
    have "(n + 2) div 3 * 3 \<le> n + 2" by (rule div_times_less_eq_dividend)
    from mult_le_mono2 [OF this, of 4] have "padded * 3 \<le> 4 * (n + 2)"
      unfolding padded_def by (simp only: mult.assoc)
    then have "padded + q * 2 + 1 < 2 ^ 64" if "q \<le> padded" for q
      using that assms(1) by simp
    then show ?thesis by (simp only: div_le_dividend)
  qed
  have "of_nat padded div (ucast line_length :: u64) = of_nat (padded div unat line_length)"
    using of_nat_div_word [of padded "unat line_length", where 'a = 64] small
      unsigned_less [of line_length, where 'a = nat] by simp
  then have "ina_util_base64_encode_length (of_nat n) line_length False =
      Inr (of_nat (padded + padded div unat line_length * 2 + 1))"
    using assms(2) by (simp add: ina_util_base64_encode_length_def code word_gt_0 Let_def)
  moreover have "unat (of_nat (padded + padded div unat line_length * 2 + 1) :: u64) =
      padded + padded div unat line_length * 2 + 1"
    using small by (intro unat_of_nat_small) simp
  ultimately show ?thesis by blast
qed

text \<open>C39. The length \<open>ina_util_base64_encode_length\<close> computes is enough: a buffer of that size
  always takes the encoder's output, for data below 2 to the 61 bytes and any line length.\<close>

theorem base64_length_suffices:
  assumes "length d < 2 ^ 61" and "line_length \<noteq> 0"
  shows "\<exists>n. ina_util_base64_encode_length (of_nat (length d)) line_length False = Inr n \<and>
    is_ok (ina_util_base64_encode_chunk (Some d) (Some (unat n)))"
  using encode_length_unat [OF assms] by (fastforce simp: encode_chunk_spec length_b64_text)

theorem base64_length_suffices_witness:
  "\<exists>n. ina_util_base64_encode_length (of_nat (length [7 :: u8, 9])) 76 False = Inr n \<and>
    is_ok (ina_util_base64_encode_chunk (Some [7, 9]) (Some (unat n)))"
  by (rule base64_length_suffices) simp_all

end
