(* ===== verification/Inac_Hash.thy ===== *)
theory Inac_Hash
  imports Inac_Error
begin

text \<open>
  The hash functions of \<open>src/hash.c\<close> and \<open>include/libinac/hash.h\<close> that work byte by byte or in
  small groups: the table-driven CRC, SDBM, DJB, one-at-a-time, FNV, SuperFast,
  Yoshimitsu's FNV, lookup3, the integer mixers, the hardware CRC (over the processor's
  \<open>crc32\<close> instruction as a parameter) and the registry of names.  A buffer and its size
  are one list of bytes; the machine is x86-64 Linux, so multi-byte loads are
  little-endian and may be unaligned.  Murmur3 and Spooky are in theory
  \<open>Inac_Hash_Block\<close>.
\<close>

section \<open>Loads and rotations\<close>

text \<open>A little-endian load of the listed bytes.\<close>

fun le_word :: "byte_seq \<Rightarrow> 'a::len word" where
  "le_word [] = 0"
| "le_word (b # bs) = ucast b OR push_bit 8 (le_word bs)"

definition ina_hash_le_uint32_read :: "byte_seq \<Rightarrow> u32" where
  "ina_hash_le_uint32_read p = le_word (take 4 p)"

definition get16bits :: "byte_seq \<Rightarrow> u16" where
  "get16bits p = le_word (take 2 p)"

definition ina_hash_rotl32 :: "u32 \<Rightarrow> nat \<Rightarrow> u32" where
  "ina_hash_rotl32 x r = push_bit r x OR drop_bit (32 - r) x"

section \<open>CRC-32\<close>

definition crc32_tab :: "u32 list" where
  "crc32_tab =
    [0x00000000, 0x77073096, 0xee0e612c, 0x990951ba, 0x076dc419, 0x706af48f,
     0xe963a535, 0x9e6495a3, 0x0edb8832, 0x79dcb8a4, 0xe0d5e91e, 0x97d2d988,
     0x09b64c2b, 0x7eb17cbd, 0xe7b82d07, 0x90bf1d91, 0x1db71064, 0x6ab020f2,
     0xf3b97148, 0x84be41de, 0x1adad47d, 0x6ddde4eb, 0xf4d4b551, 0x83d385c7,
     0x136c9856, 0x646ba8c0, 0xfd62f97a, 0x8a65c9ec, 0x14015c4f, 0x63066cd9,
     0xfa0f3d63, 0x8d080df5, 0x3b6e20c8, 0x4c69105e, 0xd56041e4, 0xa2677172,
     0x3c03e4d1, 0x4b04d447, 0xd20d85fd, 0xa50ab56b, 0x35b5a8fa, 0x42b2986c,
     0xdbbbc9d6, 0xacbcf940, 0x32d86ce3, 0x45df5c75, 0xdcd60dcf, 0xabd13d59,
     0x26d930ac, 0x51de003a, 0xc8d75180, 0xbfd06116, 0x21b4f4b5, 0x56b3c423,
     0xcfba9599, 0xb8bda50f, 0x2802b89e, 0x5f058808, 0xc60cd9b2, 0xb10be924,
     0x2f6f7c87, 0x58684c11, 0xc1611dab, 0xb6662d3d, 0x76dc4190, 0x01db7106,
     0x98d220bc, 0xefd5102a, 0x71b18589, 0x06b6b51f, 0x9fbfe4a5, 0xe8b8d433,
     0x7807c9a2, 0x0f00f934, 0x9609a88e, 0xe10e9818, 0x7f6a0dbb, 0x086d3d2d,
     0x91646c97, 0xe6635c01, 0x6b6b51f4, 0x1c6c6162, 0x856530d8, 0xf262004e,
     0x6c0695ed, 0x1b01a57b, 0x8208f4c1, 0xf50fc457, 0x65b0d9c6, 0x12b7e950,
     0x8bbeb8ea, 0xfcb9887c, 0x62dd1ddf, 0x15da2d49, 0x8cd37cf3, 0xfbd44c65,
     0x4db26158, 0x3ab551ce, 0xa3bc0074, 0xd4bb30e2, 0x4adfa541, 0x3dd895d7,
     0xa4d1c46d, 0xd3d6f4fb, 0x4369e96a, 0x346ed9fc, 0xad678846, 0xda60b8d0,
     0x44042d73, 0x33031de5, 0xaa0a4c5f, 0xdd0d7cc9, 0x5005713c, 0x270241aa,
     0xbe0b1010, 0xc90c2086, 0x5768b525, 0x206f85b3, 0xb966d409, 0xce61e49f,
     0x5edef90e, 0x29d9c998, 0xb0d09822, 0xc7d7a8b4, 0x59b33d17, 0x2eb40d81,
     0xb7bd5c3b, 0xc0ba6cad, 0xedb88320, 0x9abfb3b6, 0x03b6e20c, 0x74b1d29a,
     0xead54739, 0x9dd277af, 0x04db2615, 0x73dc1683, 0xe3630b12, 0x94643b84,
     0x0d6d6a3e, 0x7a6a5aa8, 0xe40ecf0b, 0x9309ff9d, 0x0a00ae27, 0x7d079eb1,
     0xf00f9344, 0x8708a3d2, 0x1e01f268, 0x6906c2fe, 0xf762575d, 0x806567cb,
     0x196c3671, 0x6e6b06e7, 0xfed41b76, 0x89d32be0, 0x10da7a5a, 0x67dd4acc,
     0xf9b9df6f, 0x8ebeeff9, 0x17b7be43, 0x60b08ed5, 0xd6d6a3e8, 0xa1d1937e,
     0x38d8c2c4, 0x4fdff252, 0xd1bb67f1, 0xa6bc5767, 0x3fb506dd, 0x48b2364b,
     0xd80d2bda, 0xaf0a1b4c, 0x36034af6, 0x41047a60, 0xdf60efc3, 0xa867df55,
     0x316e8eef, 0x4669be79, 0xcb61b38c, 0xbc66831a, 0x256fd2a0, 0x5268e236,
     0xcc0c7795, 0xbb0b4703, 0x220216b9, 0x5505262f, 0xc5ba3bbe, 0xb2bd0b28,
     0x2bb45a92, 0x5cb36a04, 0xc2d7ffa7, 0xb5d0cf31, 0x2cd99e8b, 0x5bdeae1d,
     0x9b64c2b0, 0xec63f226, 0x756aa39c, 0x026d930a, 0x9c0906a9, 0xeb0e363f,
     0x72076785, 0x05005713, 0x95bf4a82, 0xe2b87a14, 0x7bb12bae, 0x0cb61b38,
     0x92d28e9b, 0xe5d5be0d, 0x7cdcefb7, 0x0bdbdf21, 0x86d3d2d4, 0xf1d4e242,
     0x68ddb3f8, 0x1fda836e, 0x81be16cd, 0xf6b9265b, 0x6fb077e1, 0x18b74777,
     0x88085ae6, 0xff0f6a70, 0x66063bca, 0x11010b5c, 0x8f659eff, 0xf862ae69,
     0x616bffd3, 0x166ccf45, 0xa00ae278, 0xd70dd2ee, 0x4e048354, 0x3903b3c2,
     0xa7672661, 0xd06016f7, 0x4969474d, 0x3e6e77db, 0xaed16a4a, 0xd9d65adc,
     0x40df0b66, 0x37d83bf0, 0xa9bcae53, 0xdebb9ec5, 0x47b2cf7f, 0x30b5ffe9,
     0xbdbdf21c, 0xcabac28a, 0x53b39330, 0x24b4a3a6, 0xbad03605, 0xcdd70693,
     0x54de5729, 0x23d967bf, 0xb3667a2e, 0xc4614ab8, 0x5d681b02, 0x2a6f2b94,
     0xb40bbe37, 0xc30c8ea1, 0x5a05df1b, 0x2d02ef8d]"

definition ina_hash_crc32 :: "u32 \<Rightarrow> byte_seq \<Rightarrow> u32" where
  "ina_hash_crc32 hash data =
     foldl (\<lambda>hash b. crc32_tab ! unat ((hash XOR ucast b) AND 0xFF) XOR drop_bit 8 hash)
       (hash XOR NOT 0) data XOR NOT 0"

section \<open>Byte-wise hashes\<close>

definition ina_hash_sdbm :: "u32 \<Rightarrow> byte_seq \<Rightarrow> u32" where
  "ina_hash_sdbm hash data =
     foldl (\<lambda>hash b. ucast b + push_bit 6 hash + push_bit 16 hash - hash) hash data"

definition ina_hash_32_sdbm :: "u32 \<Rightarrow> byte_seq \<Rightarrow> u32" where
  "ina_hash_32_sdbm hash data =
     foldl (\<lambda>hash b. push_bit 6 hash + push_bit 16 hash - hash + ucast b) hash data"

definition ina_hash_32_djb :: "u32 \<Rightarrow> byte_seq \<Rightarrow> u32" where
  "ina_hash_32_djb hash data = foldl (\<lambda>hash d. 33 * hash + ucast d) hash data"

definition jenkins_ooat_byte :: "u32 \<Rightarrow> u8 \<Rightarrow> u32" where
  "jenkins_ooat_byte hash b =
     (let hash = hash + ucast b;
          hash = hash + push_bit 10 hash
      in hash XOR drop_bit 6 hash)"

definition ina_hash_32_jenkins_ooat :: "u32 \<Rightarrow> byte_seq \<Rightarrow> u32" where
  "ina_hash_32_jenkins_ooat hash data =
     (let hash = foldl jenkins_ooat_byte hash data;
          hash = hash + push_bit 3 hash;
          hash = hash XOR drop_bit 11 hash
      in hash + push_bit 15 hash)"

definition ina_hash_32_fnv :: "u32 \<Rightarrow> byte_seq \<Rightarrow> u32" where
  "ina_hash_32_fnv hash data =
     foldl (\<lambda>h d. (h XOR ucast d) * 16777619) (hash XOR 2166136261) data"

definition ina_hash_64_fnv :: "u64 \<Rightarrow> byte_seq \<Rightarrow> u64" where
  "ina_hash_64_fnv hash data =
     foldl (\<lambda>h d. (h XOR ucast d) * 0x100000001b3) (hash XOR 0xcbf29ce484222325) data"

section \<open>SuperFast\<close>

text \<open>The main loop takes four bytes at a time; the bytes of the tail are \<open>signed char\<close>.\<close>

fun superfast_loop :: "u32 \<Rightarrow> byte_seq \<Rightarrow> u32 \<times> byte_seq" where
  "superfast_loop hash (b0 # b1 # b2 # b3 # data) =
     (let hash = hash + ucast (get16bits [b0, b1]);
          tmp = push_bit 11 (ucast (get16bits [b2, b3])) XOR hash;
          hash = push_bit 16 hash XOR tmp;
          hash = hash + drop_bit 11 hash
      in superfast_loop hash data)"
| "superfast_loop hash data = (hash, data)"

definition superfast_tail :: "u32 \<Rightarrow> byte_seq \<Rightarrow> u32" where
  "superfast_tail hash data =
     (if length data = 3 then
        let hash = hash + ucast (get16bits data);
            hash = hash XOR push_bit 16 hash;
            hash = hash XOR push_bit 18 (scast (data ! 2))
        in hash + drop_bit 11 hash
      else if length data = 2 then
        let hash = hash + ucast (get16bits data);
            hash = hash XOR push_bit 11 hash
        in hash + drop_bit 17 hash
      else if length data = 1 then
        let hash = hash + scast (data ! 0);
            hash = hash XOR push_bit 10 hash
        in hash + drop_bit 1 hash
      else hash)"

definition superfast_avalanche :: "u32 \<Rightarrow> u32" where
  "superfast_avalanche hash =
     (let hash = hash XOR push_bit 3 hash;
          hash = hash + drop_bit 5 hash;
          hash = hash XOR push_bit 4 hash;
          hash = hash + drop_bit 17 hash;
          hash = hash XOR push_bit 25 hash
      in hash + drop_bit 6 hash)"

definition ina_hash_32_superfast :: "u32 \<Rightarrow> byte_seq \<Rightarrow> u32" where
  "ina_hash_32_superfast seed key =
     (if length key \<le> 0 then 0
      else let (hash, rest) = superfast_loop 0 key
           in superfast_avalanche (superfast_tail hash rest))"

section \<open>Yoshimitsu's FNV\<close>

abbreviation yoshi_PRIME :: u32 where "yoshi_PRIME \<equiv> 709607"

definition yoshi_pair :: "u32 \<Rightarrow> byte_seq \<Rightarrow> u32" where
  "yoshi_pair h p =
     (h XOR (ina_hash_rotl32 (le_word (take 4 p)) 5 XOR le_word (take 4 (drop 4 p)))) * yoshi_PRIME"

function yoshi_loop :: "u32 \<Rightarrow> u32 \<Rightarrow> u32 \<Rightarrow> byte_seq \<Rightarrow> u32 \<times> u32 \<times> u32 \<times> byte_seq" where
  "yoshi_loop a b c p =
     (if length p \<ge> 24
      then yoshi_loop (yoshi_pair a p) (yoshi_pair b (drop 8 p)) (yoshi_pair c (drop 16 p)) (drop 24 p)
      else (a, b, c, p))"
  by pat_completeness auto
termination
  by (relation "measure (\<lambda>(a, b, c, p). length p)") auto

declare yoshi_loop.simps [simp del]

text \<open>The cases for the last 23 bytes: each step is taken when its bit of the remaining size is
  set and advances the pointer.\<close>

definition yoshi_16 :: "nat \<Rightarrow> u32 \<times> u32 \<times> byte_seq \<Rightarrow> u32 \<times> u32 \<times> byte_seq" where
  "yoshi_16 n = (\<lambda>(a, b, p). if bit n 4
     then (yoshi_pair a p, yoshi_pair b (drop 8 p), drop 16 p) else (a, b, p))"

definition yoshi_8 :: "nat \<Rightarrow> u32 \<times> u32 \<times> byte_seq \<Rightarrow> u32 \<times> u32 \<times> byte_seq" where
  "yoshi_8 n = (\<lambda>(a, b, p). if bit n 3
     then ((a XOR le_word (take 4 p)) * yoshi_PRIME,
           (b XOR le_word (take 4 (drop 4 p))) * yoshi_PRIME, drop 8 p) else (a, b, p))"

definition yoshi_4 :: "nat \<Rightarrow> u32 \<times> u32 \<times> byte_seq \<Rightarrow> u32 \<times> u32 \<times> byte_seq" where
  "yoshi_4 n = (\<lambda>(a, b, p). if bit n 2
     then ((a XOR ucast (get16bits p)) * yoshi_PRIME,
           (b XOR ucast (get16bits (drop 2 p))) * yoshi_PRIME, drop 4 p) else (a, b, p))"

definition yoshi_2 :: "nat \<Rightarrow> u32 \<times> u32 \<times> byte_seq \<Rightarrow> u32 \<times> u32 \<times> byte_seq" where
  "yoshi_2 n = (\<lambda>(a, b, p). if bit n 1
     then ((a XOR ucast (get16bits p)) * yoshi_PRIME, b, drop 2 p) else (a, b, p))"

definition yoshi_1 :: "nat \<Rightarrow> u32 \<times> u32 \<times> byte_seq \<Rightarrow> u32 \<times> u32 \<times> byte_seq" where
  "yoshi_1 n = (\<lambda>(a, b, p). if bit n 0
     then ((a XOR ucast (hd p)) * yoshi_PRIME, b, p) else (a, b, p))"

definition ina_hash_32_fnv_yoshimitsu :: "u32 \<Rightarrow> byte_seq \<Rightarrow> u32" where
  "ina_hash_32_fnv_yoshimitsu hash data =
     (let (a, b, c, p) = yoshi_loop (hash XOR 2166136261) (2166136261 + of_nat (length data)) 2166136261 data;
          a = (if length p \<noteq> length data then (a XOR ina_hash_rotl32 c 5) * yoshi_PRIME else a);
          n = length p;
          (a, b, p) = yoshi_1 n (yoshi_2 n (yoshi_4 n (yoshi_8 n (yoshi_16 n (a, b, p)))));
          a = (a XOR ina_hash_rotl32 b 5) * yoshi_PRIME
      in a XOR drop_bit 16 a)"

section \<open>Integer mixers\<close>

definition ina_hash_32_wang_int32 :: "u32 \<Rightarrow> u32" where
  "ina_hash_32_wang_int32 key =
     (let key = key + NOT (push_bit 15 key);
          key = key XOR drop_bit 10 key;
          key = key + push_bit 3 key;
          key = key XOR drop_bit 6 key;
          key = key + NOT (push_bit 11 key)
      in key XOR drop_bit 16 key)"

definition ina_hash_32_wang_int8 :: "u8 \<Rightarrow> u32" where
  "ina_hash_32_wang_int8 key8 =
     (let key = ucast key8 :: u32;
          key = key + NOT (push_bit 15 key);
          key = key XOR drop_bit 10 key;
          key = key + push_bit 3 key;
          key = key XOR drop_bit 6 key;
          key = key + NOT (push_bit 11 key)
      in key XOR drop_bit 16 key)"

definition ina_hash_32_wang_int16 :: "u16 \<Rightarrow> u32" where
  "ina_hash_32_wang_int16 key16 =
     (let key = ucast key16 :: u32;
          key = key + NOT (push_bit 15 key);
          key = key XOR drop_bit 10 key;
          key = key + push_bit 3 key;
          key = key XOR drop_bit 6 key;
          key = key + NOT (push_bit 11 key)
      in key XOR drop_bit 16 key)"

definition ina_hash_32_jenkins_int32 :: "u32 \<Rightarrow> u32" where
  "ina_hash_32_jenkins_int32 key =
     (let key = key - push_bit 6 key;
          key = key XOR drop_bit 17 key;
          key = key - push_bit 9 key;
          key = key XOR push_bit 4 key;
          key = key - push_bit 3 key;
          key = key XOR push_bit 10 key
      in key XOR drop_bit 15 key)"

definition ina_hash_64_wang_int64 :: "u64 \<Rightarrow> u64" where
  "ina_hash_64_wang_int64 key =
     (let key = NOT key + push_bit 21 key;
          key = key XOR drop_bit 24 key;
          key = key + push_bit 3 key + push_bit 8 key;
          key = key XOR drop_bit 14 key;
          key = key + push_bit 2 key + push_bit 4 key;
          key = key XOR drop_bit 28 key
      in key + push_bit 31 key)"

section \<open>Lookup3\<close>

text \<open>The two macros as the repetition of one line with the roles of \<open>a\<close>, \<open>b\<close> and \<open>c\<close>
  rotating.  A line of \<open>__INA_HASH_LOOKUP3_MIX\<close> subtracts the third word from the first, xors
  the rotated third in and adds the second to the third; a line of
  \<open>__INA_HASH_LOOKUP3_FINAL\<close> xors the second word into the first and subtracts the rotated
  second.\<close>

definition LOOKUP3_ROT :: "u32 \<Rightarrow> nat \<Rightarrow> u32" where
  "LOOKUP3_ROT x k = push_bit k x OR drop_bit (32 - k) x"

definition mix_line :: "nat \<Rightarrow> u32 \<times> u32 \<times> u32 \<Rightarrow> u32 \<times> u32 \<times> u32" where
  "mix_line k = (\<lambda>(x, y, z). let x = x - z; x = x XOR LOOKUP3_ROT z k; z = z + y in (y, z, x))"

definition LOOKUP3_MIX :: "u32 \<times> u32 \<times> u32 \<Rightarrow> u32 \<times> u32 \<times> u32" where
  "LOOKUP3_MIX abc = fold mix_line [4, 6, 8, 16, 19, 4] abc"

definition final_line :: "nat \<Rightarrow> u32 \<times> u32 \<times> u32 \<Rightarrow> u32 \<times> u32 \<times> u32" where
  "final_line k = (\<lambda>(x, y, z). let x = x XOR y; x = x - LOOKUP3_ROT y k in (z, x, y))"

definition LOOKUP3_FINAL :: "u32 \<times> u32 \<times> u32 \<Rightarrow> u32 \<times> u32 \<times> u32" where
  "LOOKUP3_FINAL = (\<lambda>(a, b, c).
     let (a, c, b) = fold final_line [14, 11, 25, 16, 4, 14, 24] (c, b, a) in (a, b, c))"

function lookup3_loop :: "u32 \<times> u32 \<times> u32 \<Rightarrow> byte_seq \<Rightarrow> (u32 \<times> u32 \<times> u32) \<times> byte_seq" where
  "lookup3_loop (a, b, c) key =
     (if length key > 12
      then let a = a + ina_hash_le_uint32_read key;
               b = b + ina_hash_le_uint32_read (drop 4 key);
               c = c + ina_hash_le_uint32_read (drop 8 key)
           in lookup3_loop (LOOKUP3_MIX (a, b, c)) (drop 12 key)
      else ((a, b, c), key))"
  by pat_completeness auto
termination
  by (relation "measure (\<lambda>(abc, key). length key)") auto

declare lookup3_loop.simps [simp del]

text \<open>The \<open>switch\<close> over the remaining one to twelve bytes with its fall-throughs.\<close>

definition lookup3_tail :: "u32 \<times> u32 \<times> u32 \<Rightarrow> byte_seq \<Rightarrow> u32 \<times> u32 \<times> u32" where
  "lookup3_tail = (\<lambda>(a, b, c) key.
     let n = length key;
         byte = (\<lambda>i. ucast (key ! i) :: u32);
         rd = (\<lambda>i. ina_hash_le_uint32_read (drop i key))
     in if n = 12 then (a + rd 0, b + rd 4, c + rd 8)
        else if n \<ge> 8 then
          let c = (if n \<ge> 11 then c + push_bit 16 (byte 10) else c);
              c = (if n \<ge> 10 then c + push_bit 8 (byte 9) else c);
              c = (if n \<ge> 9 then c + byte 8 else c)
          in (a + rd 0, b + rd 4, c)
        else if n \<ge> 4 then
          let b = (if n \<ge> 7 then b + push_bit 16 (byte 6) else b);
              b = (if n \<ge> 6 then b + push_bit 8 (byte 5) else b);
              b = (if n \<ge> 5 then b + byte 4 else b)
          in (a + rd 0, b, c)
        else
          let a = (if n \<ge> 3 then a + push_bit 16 (byte 2) else a);
              a = (if n \<ge> 2 then a + push_bit 8 (byte 1) else a);
              a = (if n \<ge> 1 then a + byte 0 else a)
          in (a, b, c))"

definition ina_hash_32_lookup3 :: "u32 \<Rightarrow> byte_seq \<Rightarrow> u32" where
  "ina_hash_32_lookup3 hash data =
     (let i = 0xdeadbeef + of_nat (length data) + hash;
          ((a, b, c), key) = lookup3_loop (i, i, i) data
      in if length key = 0 then c
         else let (a, b, c) = LOOKUP3_FINAL (lookup3_tail (a, b, c) key) in c)"

definition ina_hash_64_lookup3 :: "u64 \<Rightarrow> byte_seq \<Rightarrow> u64" where
  "ina_hash_64_lookup3 hash data =
     (let i = ucast (0xdeadbeef + ucast (of_nat (length data) :: u32) + (hash AND 0xffffffff)) :: u32;
          c = ucast (ucast i + drop_bit 32 hash) :: u32;
          ((a, b, c), key) = lookup3_loop (i, i, c) data
      in if length key = 0 then ucast c + push_bit 32 (ucast b)
         else let (a, b, c) = LOOKUP3_FINAL (lookup3_tail (a, b, c) key)
              in ucast c + push_bit 32 (ucast b))"

section \<open>Hardware CRC\<close>

text \<open>\<open>__INA_HASH_CRC_CALC_CRC\<close>: while at least \<open>n\<close> bytes are left, feed them to the
  instruction \<open>op\<close>, whose first argument is the running CRC cast to the operand type (\<open>cast\<close>).\<close>

function CALC_CRC :: "(u64 \<Rightarrow> byte_seq \<Rightarrow> u64) \<Rightarrow> nat \<Rightarrow> u64 \<Rightarrow> byte_seq \<Rightarrow> u64 \<times> byte_seq" where
  "CALC_CRC f n crc buf =
     (if 0 < n \<and> n \<le> length buf then CALC_CRC f n (f crc (take n buf)) (drop n buf) else (crc, buf))"
  by pat_completeness auto
termination
  by (relation "measure (\<lambda>(f, n, crc, buf). length buf)") auto

declare CALC_CRC.simps [simp del]

text \<open>The instructions are \<open>op8\<close>, \<open>op16\<close>, \<open>op32\<close> and \<open>op64\<close>; \<open>addr\<close> is the address of the
  data, which decides how many bytes the alignment loop takes first.\<close>

definition ina_hash_32_crc_hw ::
  "(u32 \<Rightarrow> u8 \<Rightarrow> u32) \<Rightarrow> (u32 \<Rightarrow> u16 \<Rightarrow> u32) \<Rightarrow> (u32 \<Rightarrow> u32 \<Rightarrow> u32) \<Rightarrow> nat \<Rightarrow> u32 \<Rightarrow> byte_seq \<Rightarrow> u32" where
  "ina_hash_32_crc_hw op8 op16 op32 addr hash data =
     (let crc = hash XOR 0xFFFFFFFF;
          k = (8 - addr mod 8) mod 8;
          crc = foldl op8 crc (take k data);
          (crc, buf) = CALC_CRC (\<lambda>crc bs. ucast (op32 (ucast crc) (le_word bs))) 4 (ucast crc) (drop k data);
          (crc, buf) = CALC_CRC (\<lambda>crc bs. ucast (op16 (ucast (ucast crc :: u16)) (le_word bs))) 2 crc buf;
          (crc, buf) = CALC_CRC (\<lambda>crc bs. ucast (op8 (ucast (ucast crc :: u8)) (le_word bs))) 1 crc buf
      in ucast crc XOR 0xFFFFFFFF)"

definition ina_hash_64_crc_hw ::
  "(u32 \<Rightarrow> u8 \<Rightarrow> u32) \<Rightarrow> (u32 \<Rightarrow> u16 \<Rightarrow> u32) \<Rightarrow> (u32 \<Rightarrow> u32 \<Rightarrow> u32) \<Rightarrow> (u64 \<Rightarrow> u64 \<Rightarrow> u64) \<Rightarrow>
   nat \<Rightarrow> u64 \<Rightarrow> byte_seq \<Rightarrow> u64" where
  "ina_hash_64_crc_hw op8 op16 op32 op64 addr hash data =
     (let k = (8 - addr mod 8) mod 8;
          crc = foldl (\<lambda>crc b. ucast (op8 (ucast crc) b)) hash (take k data);
          (crc, buf) = CALC_CRC (\<lambda>crc bs. op64 crc (le_word bs)) 8 crc (drop k data);
          (crc, buf) = CALC_CRC (\<lambda>crc bs. ucast (op32 (ucast crc) (le_word bs))) 4 crc buf;
          (crc, buf) = CALC_CRC (\<lambda>crc bs. ucast (op16 (ucast (ucast crc :: u16)) (le_word bs))) 2 crc buf;
          (crc, buf) = CALC_CRC (\<lambda>crc bs. ucast (op8 (ucast (ucast crc :: u8)) (le_word bs))) 1 crc buf
      in crc)"

section \<open>Wrappers over vendored hashes\<close>

text \<open>The functions that forward to the vendored hashes, with the vendored function as the
  first argument.\<close>

type_synonym ext_hash32 = "byte_seq \<Rightarrow> u32 \<Rightarrow> u32"
type_synonym ext_hash64 = "byte_seq \<Rightarrow> u64 \<Rightarrow> u64"

definition ina_hash_32_xxhash :: "ext_hash32 \<Rightarrow> u32 \<Rightarrow> byte_seq \<Rightarrow> u32" where
  "ina_hash_32_xxhash XXH32 hash data = XXH32 data hash"
definition ina_hash_64_xxhash :: "ext_hash64 \<Rightarrow> u64 \<Rightarrow> byte_seq \<Rightarrow> u64" where
  "ina_hash_64_xxhash XXH64 hash data = XXH64 data hash"
definition ina_hash_64_memhash :: "ext_hash64 \<Rightarrow> u64 \<Rightarrow> byte_seq \<Rightarrow> u64" where
  "ina_hash_64_memhash memhash hash data = memhash data hash"
definition ina_hash_32_memhash :: "ext_hash64 \<Rightarrow> u32 \<Rightarrow> byte_seq \<Rightarrow> u32" where
  "ina_hash_32_memhash memhash hash data = ucast (ina_hash_64_memhash memhash (ucast hash) data)"
definition ina_hash_64_falkhash :: "ext_hash64 \<Rightarrow> u64 \<Rightarrow> byte_seq \<Rightarrow> u64" where
  "ina_hash_64_falkhash falkhash64 hash data = falkhash64 data hash"
definition ina_hash_32_falkhash :: "ext_hash64 \<Rightarrow> u32 \<Rightarrow> byte_seq \<Rightarrow> u32" where
  "ina_hash_32_falkhash falkhash64 hash data = ucast (ina_hash_64_falkhash falkhash64 (ucast hash) data)"
definition ina_hash_64_t1ha0 :: "ext_hash64 \<Rightarrow> u64 \<Rightarrow> byte_seq \<Rightarrow> u64" where
  "ina_hash_64_t1ha0 t1ha0 hash data = t1ha0 data hash"
definition ina_hash_32_t1ha0 :: "ext_hash64 \<Rightarrow> u32 \<Rightarrow> byte_seq \<Rightarrow> u32" where
  "ina_hash_32_t1ha0 t1ha0 hash data = ucast (ina_hash_64_t1ha0 t1ha0 (ucast hash) data)"
definition ina_hash_64_t1ha1 :: "ext_hash64 \<Rightarrow> u64 \<Rightarrow> byte_seq \<Rightarrow> u64" where
  "ina_hash_64_t1ha1 t1ha hash data = t1ha data hash"
definition ina_hash_32_t1ha1 :: "ext_hash64 \<Rightarrow> u32 \<Rightarrow> byte_seq \<Rightarrow> u32" where
  "ina_hash_32_t1ha1 t1ha hash data = ucast (ina_hash_64_t1ha1 t1ha (ucast hash) data)"

section \<open>Names\<close>

datatype ina_hash_type_t = INA_HASH_DEFAULT |
   INA_HASH32_CRC | INA_HASH32_LOOKUP3 | INA_HASH32_DJB | INA_HASH32_JENKINS_OOAT |
   INA_HASH32_FNV | INA_HASH32_SUPERFAST | INA_HASH32_SDBM | INA_HASH32_FNV_YOSHIMITSU |
   INA_HASH32_MURMUR3 | INA_HASH32_SPOOKY | INA_HASH32_XXHASH | INA_HASH32_CRC_HW |
   INA_HASH32_MEMMASH | INA_HASH32_FALKHASH | INA_HASH32_T1HA0 | INA_HASH32_T1HA1 |
   INA_HASH64_LOCKUP3 | INA_HASH64_FNV | INA_HASH64_SPOOKY | INA_HASH64_XXHASH |
   INA_HASH64_CRC_HW | INA_HASH64_MEMMASH | INA_HASH64_FALKHASH | INA_HASH64_T1HA0 |
   INA_HASH64_T1HA1

definition hash_types :: "ina_hash_type_t list" where
  "hash_types =
    [INA_HASH32_CRC, INA_HASH32_LOOKUP3, INA_HASH32_DJB, INA_HASH32_JENKINS_OOAT,
     INA_HASH32_FNV, INA_HASH32_SUPERFAST, INA_HASH32_SDBM, INA_HASH32_FNV_YOSHIMITSU,
     INA_HASH32_MURMUR3, INA_HASH32_SPOOKY, INA_HASH32_XXHASH, INA_HASH32_CRC_HW,
     INA_HASH32_MEMMASH, INA_HASH32_FALKHASH, INA_HASH32_T1HA0, INA_HASH32_T1HA1,
     INA_HASH64_LOCKUP3, INA_HASH64_FNV, INA_HASH64_SPOOKY, INA_HASH64_XXHASH,
     INA_HASH64_CRC_HW, INA_HASH64_MEMMASH, INA_HASH64_FALKHASH, INA_HASH64_T1HA0,
     INA_HASH64_T1HA1]"

definition hash_names :: "string list" where
  "hash_names =
    [''crc32'', ''lockup332'', ''djb'', ''jenkins_ooat'', ''fnv32'', ''superfast'', ''sdbm'',
     ''fnv_yoshimitsu'', ''murmur3'', ''spooky32'', ''xxhash32'', ''crc_hw32'', ''memmash32'',
     ''falkhash32'', ''t1ha032'', ''t1ha132'', ''lockup364'', ''fnv64'', ''spooky64'',
     ''xxhash64'', ''crc_hw64'', ''memmash64'', ''falkhash64'', ''t1ha064'', ''t1ha164'']"

text \<open>The value of an enumerator, and \<open>ina_hash_name\<close> on the C value.\<close>

fun index_from :: "int \<Rightarrow> 'a \<Rightarrow> 'a list \<Rightarrow> int" where
  "index_from i x [] = -1"
| "index_from i x (y # ys) = (if x = y then i else index_from (i + 1) x ys)"

definition hash_type_val :: "ina_hash_type_t \<Rightarrow> int" where
  "hash_type_val t = index_from 0 t hash_types"

definition ina_hash_name :: "int \<Rightarrow> string" where
  "ina_hash_name hash_type =
     (if hash_type < 0 \<or> hash_type > hash_type_val INA_HASH64_T1HA1 then ''unknown''
      else hash_names ! nat hash_type)"

definition ina_hash_type :: "string option \<Rightarrow> bool \<Rightarrow> int ina_res" where
  "ina_hash_type hash_name out_null =
     (case hash_name of None \<Rightarrow> Inl INA_ERR_INVALID_ARGUMENT | Some s \<Rightarrow>
      if out_null then Inl INA_ERR_INVALID_ARGUMENT
      else let i = index_from 0 s hash_names
           in if i = -1 then Inl (INA_ERR_NOT_of ''EXISTS'') else Inr i)"

section \<open>CRC-32 against the bit-serial definition\<close>

text \<open>One bit of the reflected CRC with polynomial \<open>0xEDB88320\<close>, and the whole checksum.\<close>

definition crc_bit :: "u32 \<Rightarrow> u32" where
  "crc_bit x = drop_bit 1 x XOR (if bit x 0 then 0xEDB88320 else 0)"

definition crc32_reference :: "u32 \<Rightarrow> byte_seq \<Rightarrow> u32" where
  "crc32_reference h data = NOT (foldl (\<lambda>h b. (crc_bit ^^ 8) (h XOR ucast b)) (NOT h) data)"

lemma crc_bit_numeral:
  "crc_bit 0 = 0"
  "crc_bit 1 = 0xEDB88320"
  "crc_bit (numeral n) = (if odd (numeral n :: u32) then drop_bit 1 (numeral n) XOR 0xEDB88320
                          else drop_bit 1 (numeral n))"
  by (simp_all add: crc_bit_def bit_0)

lemma crc_bit_8:
  "(crc_bit ^^ 8) x = crc_bit (crc_bit (crc_bit (crc_bit (crc_bit (crc_bit (crc_bit (crc_bit x)))))))"
  by (simp add: eval_nat_numeral)

text \<open>Entry by entry: the list is the eight-fold bit step of the consecutive indices.\<close>

fun crc_entries :: "u32 \<Rightarrow> u32 list \<Rightarrow> bool" where
  "crc_entries i [] \<longleftrightarrow> True"
| "crc_entries i (x # xs) \<longleftrightarrow> x = (crc_bit ^^ 8) i \<and> crc_entries (i + 1) xs"

lemma crc_entries_nth:
  "crc_entries i xs \<Longrightarrow> j < length xs \<Longrightarrow> xs ! j = (crc_bit ^^ 8) (i + of_nat j)"
proof (induction xs arbitrary: i j)
  case (Cons x xs)
  show ?case
  proof (cases j)
    case (Suc k)
    then show ?thesis using Cons.IH [of "i + 1" k] Cons.prems by (simp add: add.assoc)
  qed (use Cons.prems in simp)
qed simp

lemma crc32_tab_entries: "crc_entries 0 crc32_tab"
  by (simp add: crc32_tab_def crc_bit_8 crc_bit_numeral)

lemma length_crc32_tab: "length crc32_tab = 256"
  by (simp add: crc32_tab_def)

lemma crc_bit_xor: "crc_bit (x XOR y) = crc_bit x XOR crc_bit y"
  by (rule bit_word_eqI) (auto simp: crc_bit_def bit_xor_iff bit_drop_bit_eq)

lemma crc_bits_xor: "(crc_bit ^^ n) (x XOR y) = (crc_bit ^^ n) x XOR (crc_bit ^^ n) y"
  by (induction n) (simp_all add: crc_bit_xor)

lemma crc_bits_shift: "n \<le> 32 \<Longrightarrow> take_bit n x = 0 \<Longrightarrow> (crc_bit ^^ n) x = drop_bit n x"
proof (induction n arbitrary: x)
  case (Suc n)
  have b: "\<not> bit x 0" using Suc.prems(2) bit_take_bit_iff [of "Suc n" x 0] by simp
  then have s: "crc_bit x = drop_bit 1 x" by (simp add: crc_bit_def)
  have "take_bit n (drop_bit 1 x) = drop_bit 1 (take_bit (Suc n) x)"
    by (rule bit_word_eqI) (auto simp: bit_take_bit_iff bit_drop_bit_eq)
  then have "(crc_bit ^^ n) (drop_bit 1 x) = drop_bit n (drop_bit 1 x)"
    using Suc by simp
  then show ?case by (simp add: funpow_swap1 s del: funpow.simps add: funpow_Suc_right)
qed simp

lemma crc_byte_step:
  "crc32_tab ! unat ((h XOR ucast b) AND 0xFF) XOR drop_bit 8 h = (crc_bit ^^ 8) (h XOR ucast (b :: u8))"
proof -
  let ?x = "h XOR ucast b"
  have m: "?x AND 0xFF = take_bit 8 ?x"
    by (simp add: take_bit_eq_mask mask_eq_exp_minus_1)
  have "unat (take_bit 8 ?x) < 256"
    by (simp only: unsigned_take_bit_eq) (use take_bit_nat_less_exp [of 8 "unat ?x"] in simp)
  then have t: "crc32_tab ! unat (?x AND 0xFF) = (crc_bit ^^ 8) (take_bit 8 ?x)"
    using crc_entries_nth [OF crc32_tab_entries, of "unat (take_bit 8 ?x)"]
    by (simp only: m length_crc32_tab) simp
  have d: "drop_bit 8 h = drop_bit 8 (?x XOR take_bit 8 ?x)"
    by (rule bit_word_eqI) (auto simp: bit_drop_bit_eq bit_xor_iff bit_take_bit_iff bit_unsigned_iff dest: bit_imp_le_length)
  have "take_bit 8 (?x XOR take_bit 8 ?x) = 0" by (simp add: take_bit_xor)
  then have "(crc_bit ^^ 8) (?x XOR take_bit 8 ?x) = drop_bit 8 (?x XOR take_bit 8 ?x)"
    by (intro crc_bits_shift) simp_all
  from this [folded d] have "(crc_bit ^^ 8) (take_bit 8 ?x) XOR drop_bit 8 h = (crc_bit ^^ 8) (take_bit 8 ?x XOR (?x XOR take_bit 8 ?x))"
    by (simp only: crc_bits_xor)
  also have "take_bit 8 ?x XOR (?x XOR take_bit 8 ?x) = ?x"
    by (simp add: xor.commute xor.left_commute)
  finally show ?thesis unfolding t .
qed

text \<open>C10. The table-driven CRC is the bit-serial CRC-32 with the reflected polynomial
  \<open>0xEDB88320\<close> (so every one of the 256 table entries is right), and it can be computed in
  pieces: hashing \<open>xs\<close> and handing the result on as the start for \<open>ys\<close> hashes the
  concatenation.\<close>

theorem crc32_correct:
  "ina_hash_crc32 h data = crc32_reference h data \<and>
   ina_hash_crc32 (ina_hash_crc32 h xs) ys = ina_hash_crc32 h (xs @ ys)"
proof
  show "ina_hash_crc32 h data = crc32_reference h data"
    unfolding ina_hash_crc32_def crc32_reference_def crc_byte_step by simp
  show "ina_hash_crc32 (ina_hash_crc32 h xs) ys = ina_hash_crc32 h (xs @ ys)"
    unfolding ina_hash_crc32_def by simp
qed

section \<open>Byte-wise hashes\<close>

lemma sdbm_step: "push_bit 6 h + push_bit 16 h - h = (65599 :: u32) * h"
  by (simp add: push_bit_eq_mult algebra_simps)

text \<open>Horner evaluation of the bytes, most significant first.\<close>

definition horner :: "u32 \<Rightarrow> u32 \<Rightarrow> byte_seq \<Rightarrow> u32" where
  "horner k h data = h * k ^ length data + (\<Sum>i < length data. ucast (data ! i) * k ^ (length data - Suc i))"

lemma foldl_horner: "foldl (\<lambda>h b. k * h + ucast b) h data = horner k h data"
proof (induction data rule: rev_induct)
  case (snoc b data)
  have "(\<Sum>i < length data. ucast ((data @ [b]) ! i) * k ^ (Suc (length data) - Suc i)) =
        k * (\<Sum>i < length data. ucast (data ! i) * k ^ (length data - Suc i))"
    unfolding sum_distrib_left
  proof (rule sum.cong)
    fix i assume "i \<in> {..<length data}"
    then have "length data - i = Suc (length data - Suc i)" by simp
    then have "k ^ (length data - i) = k * k ^ (length data - Suc i)" by simp
    then show "ucast ((data @ [b]) ! i) * k ^ (Suc (length data) - Suc i) =
        k * (ucast (data ! i) * k ^ (length data - Suc i))"
      using \<open>i \<in> _\<close> by (simp add: nth_append mult.left_commute)
  qed simp
  then show ?case using snoc by (simp add: horner_def algebra_simps)
qed (simp add: horner_def)

text \<open>The two SDBM implementations compute the same function, SDBM and DJB are the
  polynomials of the bytes at 65599 and at 33 (modulo 2 to the 32, with the start value as
  the leading coefficient), and both can be computed in pieces.\<close>

theorem polynomial_hashes:
  "ina_hash_sdbm h data = ina_hash_32_sdbm h data \<and>
   ina_hash_32_sdbm h data = horner 65599 h data \<and>
   ina_hash_32_djb h data = horner 33 h data \<and>
   ina_hash_32_sdbm (ina_hash_32_sdbm h xs) ys = ina_hash_32_sdbm h (xs @ ys) \<and>
   ina_hash_32_djb (ina_hash_32_djb h xs) ys = ina_hash_32_djb h (xs @ ys)"
  unfolding ina_hash_sdbm_def ina_hash_32_sdbm_def ina_hash_32_djb_def foldl_horner [symmetric] foldl_append
    sdbm_step by (simp add: push_bit_eq_mult algebra_simps)

lemma inj_foldl: "(\<And>d. inj (\<lambda>h. f h d)) \<Longrightarrow> inj (\<lambda>h. foldl f h data)"
proof (induction data)
  case (Cons d data)
  show ?case
    using inj_compose [OF Cons.IH [OF Cons.prems] Cons.prems [of d]] by (simp add: o_def)
qed (simp add: inj_on_def)

lemma inj_xor_mult:
  assumes "k * i = (1 :: 'a::len word)"
  shows "inj (\<lambda>h. (h XOR c) * k)"
  using word_mult_cancel [OF assms] by (intro injI) (metis xor_cancel_right)

lemma inj_xor: "inj (\<lambda>h. h XOR (c :: 'a::len word))"
  by (intro injI) (metis xor_cancel_right)

lemma inj_fnv32: "inj (\<lambda>h. ina_hash_32_fnv h data)"
  unfolding ina_hash_32_fnv_def
  by (rule inj_compose [OF inj_foldl inj_xor, unfolded o_def])
     (rule inj_xor_mult [where i = 899433627], simp)

lemma inj_fnv64: "inj (\<lambda>h. ina_hash_64_fnv h data)"
  unfolding ina_hash_64_fnv_def
  by (rule inj_compose [OF inj_foldl inj_xor, unfolded o_def])
     (rule inj_xor_mult [where i = 14886173955864302971], simp)

section \<open>Mixers lose no information\<close>

lemma drop_fixpoint_0:
  assumes "0 < k" and "z = drop_bit k z"
  shows "z = (0 :: 'a::len word)"
proof (rule bit_word_eqI)
  fix n
  have shift: "bit z i \<longleftrightarrow> bit z (k + i)" for i
    using fun_cong [OF bit_drop_bit_eq [of k z, folded assms(2)]] by (simp only: o_apply)
  have "bit z n \<Longrightarrow> bit z (n + k * m)" for m
  proof (induction m)
    case (Suc m)
    then show ?case using shift [of "n + k * m"] by (simp add: algebra_simps)
  qed simp
  moreover have "LENGTH('a) \<le> n + k * LENGTH('a)" using assms(1) by (simp add: trans_le_add2)
  ultimately show "bit z n \<longleftrightarrow> bit (0 :: 'a word) n"
    using bit_imp_le_length [of z "n + k * LENGTH('a)"] by force
qed

lemma push_fixpoint_0:
  assumes "0 < k" and "z = push_bit k z"
  shows "z = (0 :: 'a::len word)"
proof (rule bit_word_eqI)
  fix n
  have "\<not> bit z n"
  proof (induction n rule: less_induct)
    case (less n)
    show ?case
      using less.IH [of "n - k"] assms(1) bit_push_bit_iff [of k z n, folded assms(2)] by auto
  qed
  then show "bit z n \<longleftrightarrow> bit (0 :: 'a word) n" by simp
qed

lemma xor_eq_0_iff_word: "x XOR y = 0 \<longleftrightarrow> x = (y :: 'a::len word)"
  by (metis xor_cancel_right xor_self_eq xor.left_neutral)

lemma xor_pairs:
  assumes "a XOR b = c XOR (d :: 'a::len word)"
  shows "(a XOR c) XOR (b XOR d) = 0"
proof -
  have "(a XOR c) XOR (b XOR d) = (a XOR b) XOR (c XOR d)" by (simp only: ac_simps)
  then show ?thesis unfolding assms by simp
qed

lemma inj_xorshift_right: "0 < k \<Longrightarrow> inj (\<lambda>x :: 'a::len word. x XOR drop_bit k x)"
proof (rule injI)
  fix x y :: "'a word" assume k: "0 < k" and "x XOR drop_bit k x = y XOR drop_bit k y"
  then have "(x XOR y) XOR drop_bit k (x XOR y) = 0"
    unfolding drop_bit_xor by (intro xor_pairs)
  then have "x XOR y = drop_bit k (x XOR y)" by (simp only: xor_eq_0_iff_word)
  from drop_fixpoint_0 [OF k this] show "x = y" by (simp only: xor_eq_0_iff_word)
qed

lemma inj_xorshift_left: "0 < k \<Longrightarrow> inj (\<lambda>x :: 'a::len word. x XOR push_bit k x)"
proof (rule injI)
  fix x y :: "'a word" assume k: "0 < k" and "x XOR push_bit k x = y XOR push_bit k y"
  then have "(x XOR y) XOR push_bit k (x XOR y) = 0"
    unfolding push_bit_xor by (intro xor_pairs)
  then have "x XOR y = push_bit k (x XOR y)" by (simp only: xor_eq_0_iff_word)
  from push_fixpoint_0 [OF k this] show "x = y" by (simp only: xor_eq_0_iff_word)
qed

lemma inj_affine: "m * i = 1 \<Longrightarrow> (\<And>x. f x = x * m + c) \<Longrightarrow> inj (f :: 'a::len word \<Rightarrow> _)"
  using word_mult_cancel [of m i] by (intro injI) simp

text \<open>An affine step is injective because its multiplier is odd; the second argument is the
  inverse of the multiplier.\<close>

lemmas not_minus = not_eq_complement

lemma inj_wang32: "inj ina_hash_32_wang_int32"
proof -
  have eq: "ina_hash_32_wang_int32 =
    (\<lambda>k. k XOR drop_bit 16 k) \<circ> (\<lambda>k. k + NOT (push_bit 11 k)) \<circ> (\<lambda>k. k XOR drop_bit 6 k) \<circ>
    (\<lambda>k. k + push_bit 3 k) \<circ> (\<lambda>k. k XOR drop_bit 10 k) \<circ> (\<lambda>k. k + NOT (push_bit 15 k))"
    by (simp add: fun_eq_iff ina_hash_32_wang_int32_def Let_def)
  have m1: "inj (\<lambda>k :: u32. k + NOT (push_bit 11 k))"
    by (rule inj_affine [of "1 - 2048" 4196353 _ "-1"]) (simp, simp add: push_bit_eq_mult not_minus algebra_simps)
  have m2: "inj (\<lambda>k :: u32. k + push_bit 3 k)"
    by (rule inj_affine [of 9 954437177 _ 0]) (simp, simp add: push_bit_eq_mult algebra_simps)
  have m3: "inj (\<lambda>k :: u32. k + NOT (push_bit 15 k))"
    by (rule inj_affine [of "1 - 32768" 1073774593 _ "-1"]) (simp, simp add: push_bit_eq_mult not_minus algebra_simps)
  show ?thesis
    unfolding eq by (intro inj_compose inj_xorshift_right inj_xorshift_left m1 m2 m3) simp_all
qed

lemma inj_jenkins32: "inj ina_hash_32_jenkins_int32"
proof -
  have eq: "ina_hash_32_jenkins_int32 =
    (\<lambda>k. k XOR drop_bit 15 k) \<circ> (\<lambda>k. k XOR push_bit 10 k) \<circ> (\<lambda>k. k - push_bit 3 k) \<circ>
    (\<lambda>k. k XOR push_bit 4 k) \<circ> (\<lambda>k. k - push_bit 9 k) \<circ> (\<lambda>k. k XOR drop_bit 17 k) \<circ>
    (\<lambda>k. k - push_bit 6 k)"
    by (simp add: fun_eq_iff ina_hash_32_jenkins_int32_def Let_def)
  have m1: "inj (\<lambda>k :: u32. k - push_bit 3 k)"
    by (rule inj_affine [of "1 - 8" 1227133513 _ 0]) (simp, simp add: push_bit_eq_mult algebra_simps)
  have m2: "inj (\<lambda>k :: u32. k - push_bit 9 k)"
    by (rule inj_affine [of "1 - 512" 134480385 _ 0]) (simp, simp add: push_bit_eq_mult algebra_simps)
  have m3: "inj (\<lambda>k :: u32. k - push_bit 6 k)"
    by (rule inj_affine [of "1 - 64" 1090785345 _ 0]) (simp, simp add: push_bit_eq_mult algebra_simps)
  show ?thesis
    unfolding eq by (intro inj_compose inj_xorshift_right inj_xorshift_left m1 m2 m3) simp_all
qed

lemma inj_wang64: "inj ina_hash_64_wang_int64"
proof -
  have eq: "ina_hash_64_wang_int64 =
    (\<lambda>k. k + push_bit 31 k) \<circ> (\<lambda>k. k XOR drop_bit 28 k) \<circ> (\<lambda>k. k + push_bit 2 k + push_bit 4 k) \<circ>
    (\<lambda>k. k XOR drop_bit 14 k) \<circ> (\<lambda>k. k + push_bit 3 k + push_bit 8 k) \<circ>
    (\<lambda>k. k XOR drop_bit 24 k) \<circ> (\<lambda>k. NOT k + push_bit 21 k)"
    by (simp add: fun_eq_iff ina_hash_64_wang_int64_def Let_def)
  have m1: "inj (\<lambda>k :: u64. k + push_bit 31 k)"
    by (rule inj_affine [of "1 + 2147483648" 4611686016279904257 _ 0]) (simp, simp add: push_bit_eq_mult algebra_simps)
  have m2: "inj (\<lambda>k :: u64. k + push_bit 2 k + push_bit 4 k)"
    by (rule inj_affine [of 21 14933078535860113213 _ 0]) (simp, simp add: push_bit_eq_mult algebra_simps)
  have m3: "inj (\<lambda>k :: u64. k + push_bit 3 k + push_bit 8 k)"
    by (rule inj_affine [of 265 15244667743933553977 _ 0]) (simp, simp add: push_bit_eq_mult algebra_simps)
  have m4: "inj (\<lambda>k :: u64. NOT k + push_bit 21 k)"
    by (rule inj_affine [of "2097152 - 1" 9223367638806167551 _ "-1"]) (simp, simp add: push_bit_eq_mult not_minus algebra_simps)
  show ?thesis
    unfolding eq by (intro inj_compose inj_xorshift_right inj_xorshift_left m1 m2 m3 m4) simp_all
qed

lemma wang_narrow:
  "ina_hash_32_wang_int8 = ina_hash_32_wang_int32 \<circ> ucast"
  "ina_hash_32_wang_int16 = ina_hash_32_wang_int32 \<circ> ucast"
  by (simp_all add: fun_eq_iff ina_hash_32_wang_int8_def ina_hash_32_wang_int16_def
      ina_hash_32_wang_int32_def Let_def)

lemma inj_ucast_up: "LENGTH('a) \<le> LENGTH('b) \<Longrightarrow> inj (ucast :: 'a::len word \<Rightarrow> 'b::len word)"
  by (rule injI) (metis ucast_up_ucast_id is_up)

lemma xor_right_inject: "x XOR c = y XOR c \<longleftrightarrow> x = (y :: 'a::len word)"
  using inj_xor [of c] by (auto dest: injD)

lemma inj_mix_line: "inj (mix_line k)"
  by (rule injI) (auto simp: mix_line_def Let_def xor_right_inject)

lemma inj_final_line: "inj (final_line k)"
  by (rule injI) (auto simp: final_line_def Let_def xor_right_inject)

lemma inj_fold: "(\<And>x. inj (f x)) \<Longrightarrow> inj (fold f xs)"
  by (induction xs) (auto intro: inj_compose)

lemma inj_lookup3_mix: "inj LOOKUP3_MIX"
  unfolding LOOKUP3_MIX_def by (rule inj_fold) (rule inj_mix_line)

lemma inj_lookup3_final: "inj LOOKUP3_FINAL"
proof -
  have eq: "LOOKUP3_FINAL = (\<lambda>(a, c, b). (a, b, c)) \<circ> fold final_line [14, 11, 25, 16, 4, 14, 24] \<circ> (\<lambda>(a, b, c). (c, b, a))"
    unfolding LOOKUP3_FINAL_def Let_def by (rule ext) (simp only: o_apply split_beta)
  show ?thesis
    unfolding eq by (intro inj_compose inj_fold inj_final_line) (auto simp: inj_def)
qed

text \<open>The mixing steps lose no information: the integer hashes of Wang and Jenkins (8, 16,
  32 and 64 bits), the two mixing macros of lookup3 and, for any fixed data, FNV in both
  widths as a function of the start value are injective.\<close>

theorem mixers_injective:
  "inj ina_hash_32_wang_int8 \<and> inj ina_hash_32_wang_int16 \<and> inj ina_hash_32_wang_int32 \<and>
   inj ina_hash_32_jenkins_int32 \<and> inj ina_hash_64_wang_int64 \<and>
   inj LOOKUP3_MIX \<and> inj LOOKUP3_FINAL \<and>
   inj (\<lambda>h. ina_hash_32_fnv h data) \<and> inj (\<lambda>h. ina_hash_64_fnv h data)"
  unfolding wang_narrow
  by (intro conjI inj_compose inj_ucast_up inj_wang32 inj_jenkins32 inj_wang64 inj_lookup3_mix
      inj_lookup3_final inj_fnv32 inj_fnv64) simp_all

section \<open>Lookup3 in two widths\<close>

lemma ucast_add_down: "(ucast (x + y :: u64) :: u32) = ucast x + ucast y"
proof transfer
  fix x y :: int
  show "take_bit LENGTH(32) (take_bit LENGTH(64) (x + y)) = take_bit LENGTH(32) (take_bit LENGTH(64) x + take_bit LENGTH(64) y)"
    using take_bit_add [of "LENGTH(32)" "take_bit LENGTH(64) x" "take_bit LENGTH(64) y"]
    by (simp add: take_bit_add)
qed

lemma lookup3_seed:
  fixes h :: u32
  shows "(ucast (0xdeadbeef + ucast n + (ucast h AND 0xffffffff) :: u64) :: u32) = 0xdeadbeef + n + h"
    and "(ucast (ucast i + drop_bit 32 (ucast h :: u64)) :: u32) = i"
proof -
  have m: "(0xffffffff :: u64) = mask 32" by (simp add: mask_eq_exp_minus_1)
  have "(ucast h :: u64) AND 0xffffffff = ucast h"
    unfolding m by (rule bit_word_eqI) (auto simp: bit_and_iff bit_mask_iff bit_unsigned_iff dest: bit_imp_le_length)
  then show "(ucast (0xdeadbeef + ucast n + (ucast h AND 0xffffffff) :: u64) :: u32) = 0xdeadbeef + n + h"
    by (simp add: ucast_add_down ucast_up_ucast_id is_up)
  have "drop_bit 32 (ucast h :: u64) = 0"
    by (rule bit_word_eqI) (auto simp: bit_drop_bit_eq bit_unsigned_iff dest: bit_imp_le_length)
  then show "(ucast (ucast i + drop_bit 32 (ucast h :: u64)) :: u32) = i"
    by (simp add: ucast_up_ucast_id is_up)
qed

lemma ucast_low_half: "(ucast (ucast (c :: u32) + push_bit 32 (ucast (b :: u32) :: u64)) :: u32) = c"
proof -
  have "ucast c + push_bit 32 (ucast b :: u64) = ucast c OR push_bit 32 (ucast b)"
    by (rule disjunctive_add) (auto simp: bit_unsigned_iff bit_push_bit_iff dest: bit_imp_le_length)
  then show ?thesis
    by (simp only:) (rule bit_word_eqI, auto simp: bit_unsigned_iff bit_or_iff bit_push_bit_iff)
qed

text \<open>The 64-bit lookup3 extends the 32-bit one: for a start value that fits in 32 bits, its
  low half is the 32-bit hash, for every input length (the empty input included).\<close>

theorem lookup3_low_half:
  "ucast (ina_hash_64_lookup3 (ucast h) data) = ina_hash_32_lookup3 h data"
  unfolding ina_hash_64_lookup3_def ina_hash_32_lookup3_def Let_def lookup3_seed
  by (simp add: ucast_low_half split: prod.split)

section \<open>Hardware CRC\<close>

lemma CALC_CRC_rest: "0 < n \<Longrightarrow> snd (CALC_CRC f n crc buf) = drop (length buf - length buf mod n) buf"
proof (induction f n crc buf rule: CALC_CRC.induct)
  case (1 f n crc buf)
  show ?case
  proof (cases "n \<le> length buf")
    case True
    have m: "length buf mod n = (length buf - n) mod n" using True by (rule le_mod_geq)
    have "(length buf - n) mod n \<le> length buf - n" by (rule mod_less_eq_dividend)
    then have "length buf - n - (length buf - n) mod n + n = length buf - length buf mod n"
      using True unfolding m by linarith
    then show ?thesis
      using "1.IH" "1.prems" True by (subst CALC_CRC.simps) (simp add: m)
  qed (subst CALC_CRC.simps, simp add: "1.prems")
qed

lemma CALC_CRC_one: "fst (CALC_CRC f 1 crc [b]) = f crc [b]"
  by (simp add: CALC_CRC.simps)

lemma crc_hw_last:
  assumes "addr mod 8 = 0" and "odd (length data)"
  shows "\<exists>x :: u8. ina_hash_32_crc_hw op8 op16 op32 addr hash data = op8 (ucast x) (last data) XOR 0xFFFFFFFF"
proof -
  let ?f4 = "\<lambda>(crc :: u64) bs. ucast (op32 (ucast crc) (le_word bs)) :: u64"
  let ?f2 = "\<lambda>(crc :: u64) bs. ucast (op16 (ucast (ucast crc :: u16)) (le_word bs)) :: u64"
  let ?f1 = "\<lambda>(crc :: u64) bs. ucast (op8 (ucast (ucast crc :: u8)) (le_word bs)) :: u64"
  obtain c4 b4 where r4: "CALC_CRC ?f4 4 (ucast (hash XOR 0xFFFFFFFF)) data = (c4, b4)" by fastforce
  obtain c2 b2 where r2: "CALC_CRC ?f2 2 c4 b4 = (c2, b2)" by fastforce
  have b4: "b4 = drop (length data - length data mod 4) data"
    using CALC_CRC_rest [of 4 ?f4 _ data] r4 by (metis snd_conv zero_less_numeral)
  have b2: "b2 = drop (length b4 - length b4 mod 2) b4"
    using CALC_CRC_rest [of 2 ?f2 c4 b4] r2 by (metis snd_conv zero_less_numeral)
  have l4: "length b4 = length data mod 4" by (simp add: b4)
  have o4: "odd (length b4)" unfolding l4 using assms(2) by presburger
  then have "length b4 mod 2 = 1" by presburger
  then have "length b2 = 1" using b2 by simp
  then obtain z where z: "b2 = [z]" by (auto simp: length_Suc_conv)
  have "b4 \<noteq> []" using o4 by auto
  then have "last data = last b4" using b4 by (metis append_take_drop_id last_appendR)
  also have "last b4 = z"
    using z b2 \<open>b4 \<noteq> []\<close> by (metis append_take_drop_id last_appendR last.simps list.distinct(1))
  finally have zl: "z = last data" by simp
  have "ina_hash_32_crc_hw op8 op16 op32 addr hash data = ucast (fst (CALC_CRC ?f1 1 c2 b2)) XOR 0xFFFFFFFF"
    using assms(1) by (simp add: ina_hash_32_crc_hw_def Let_def r4 r2 split_beta)
  also have "fst (CALC_CRC ?f1 1 c2 b2) = ucast (op8 (ucast (ucast c2 :: u8)) z)"
    unfolding z CALC_CRC_one by simp
  finally show ?thesis unfolding zl by (intro exI [of _ "ucast c2"]) (simp add: ucast_up_ucast_id is_up)
qed

text \<open>The hardware CRC casts its running value to the operand type: the loop over single
  bytes hands the \<open>crc32\<close> instruction only the low eight bits.  Whatever the instruction
  computes, over all start values and all inputs of odd length at an aligned address that end
  in the same byte there are at most 256 different hashes.\<close>

theorem crc_hw_odd_collapses:
  "card {ina_hash_32_crc_hw op8 op16 op32 addr hash data | hash data.
     addr mod 8 = 0 \<and> odd (length data) \<and> last data = b} \<le> 256"
proof -
  let ?g = "\<lambda>x :: u8. op8 (ucast x) b XOR 0xFFFFFFFF"
  let ?S = "{ina_hash_32_crc_hw op8 op16 op32 addr hash data | hash data.
     addr mod 8 = 0 \<and> odd (length data) \<and> last data = b}"
  have "?S \<subseteq> range ?g"
    using crc_hw_last [of addr _ op8 op16 op32] by (auto 0 3 simp: image_iff)
  then have "card ?S \<le> card (range ?g)" by (intro card_mono) simp_all
  also have "\<dots> \<le> card (UNIV :: u8 set)" by (rule card_image_le) simp
  also have "\<dots> = 256" by (simp add: card_word)
  finally show ?thesis .
qed

section \<open>Names\<close>

lemma index_from_in:
  "x \<in> set xs \<Longrightarrow> \<exists>k < length xs. index_from i x xs = i + int k \<and> xs ! k = x"
proof (induction xs arbitrary: i)
  case (Cons y ys)
  show ?case
  proof (cases "x = y")
    case False
    then obtain k where "k < length ys" "index_from (i + 1) x ys = i + 1 + int k" "ys ! k = x"
      using Cons.IH [of "i + 1"] Cons.prems by auto
    with False show ?thesis by (intro exI [of _ "Suc k"]) simp
  qed auto
qed simp

lemma index_from_notin: "x \<notin> set xs \<Longrightarrow> index_from i x xs = -1"
  by (induction xs arbitrary: i) auto

lemma index_from_nth:
  assumes "distinct xs" and "k < length xs"
  shows "index_from 0 (xs ! k) xs = int k"
  using index_from_in [of "xs ! k" xs 0] assms by (auto simp: nth_eq_iff_index_eq)

lemma distinct_hash_names: "distinct hash_names"
  by (simp add: hash_names_def)

lemma length_hash_names: "length hash_names = 25" "length hash_types = 25"
  by (simp_all add: hash_names_def hash_types_def)

lemma distinct_hash_types: "distinct hash_types"
  by (simp add: hash_types_def)

lemma hash_type_val_last: "hash_type_val INA_HASH64_T1HA1 = 24"
  using index_from_nth [OF distinct_hash_types, of 24]
  by (simp add: hash_type_val_def length_hash_names) (simp add: hash_types_def)

lemma hash_type_listed: "t \<noteq> INA_HASH_DEFAULT \<Longrightarrow> t \<in> set hash_types"
  by (cases t) (simp_all add: hash_types_def)

lemma hash_type_val_range: "t \<noteq> INA_HASH_DEFAULT \<Longrightarrow> 0 \<le> hash_type_val t \<and> hash_type_val t < 25"
  using index_from_in [OF hash_type_listed, of t 0] by (auto simp: hash_type_val_def length_hash_names)

text \<open>Names and types of hashes correspond: every enumerator other than
  \<open>INA_HASH_DEFAULT\<close> is found again from its name, the type found for a name has that name, and
  a name outside the table is \<open>INA_ERR_NOT_EXISTS\<close>.\<close>

theorem hash_name_roundtrip:
  "(t \<noteq> INA_HASH_DEFAULT \<longrightarrow>
      ina_hash_type (Some (ina_hash_name (hash_type_val t))) False = Inr (hash_type_val t)) \<and>
   (case ina_hash_type (Some s) False of
      Inr i \<Rightarrow> ina_hash_name i = s \<and> 0 \<le> i \<and> i < 25
    | Inl e \<Rightarrow> s \<notin> set hash_names \<and> e = INA_ERR_NOT_of ''EXISTS'')"
proof (intro conjI impI)
  assume "t \<noteq> INA_HASH_DEFAULT"
  from hash_type_val_range [OF this]
  show "ina_hash_type (Some (ina_hash_name (hash_type_val t))) False = Inr (hash_type_val t)"
    using index_from_nth [OF distinct_hash_names, of "nat (hash_type_val t)"]
    by (auto simp: ina_hash_type_def ina_hash_name_def hash_type_val_last length_hash_names Let_def nat_less_iff)
next
  show "case ina_hash_type (Some s) False of
      Inr i \<Rightarrow> ina_hash_name i = s \<and> 0 \<le> i \<and> i < 25
    | Inl e \<Rightarrow> s \<notin> set hash_names \<and> e = INA_ERR_NOT_of ''EXISTS''"
  proof (cases "s \<in> set hash_names")
    case True
    then show ?thesis
      using index_from_in [OF True, of 0] length_hash_names(1)
      by (auto simp: ina_hash_type_def ina_hash_name_def hash_type_val_last Let_def)
  qed (simp add: ina_hash_type_def index_from_notin)
qed

theorem hash_name_roundtrip_witness:
  "INA_HASH32_FNV \<noteq> INA_HASH_DEFAULT \<and>
   ina_hash_type (Some (ina_hash_name (hash_type_val INA_HASH32_FNV))) False = Inr (hash_type_val INA_HASH32_FNV)"
  using hash_name_roundtrip [of INA_HASH32_FNV "''x''"] by simp

end
