(* ===== verification/Inac_Hash_Block.thy ===== *)
theory Inac_Hash_Block
  imports Inac_Hash
begin

text \<open>
  The block hashes of \<open>src/hash.c\<close>: the incremental MurmurHash3 (\<open>PMurHash32\<close>, which carries up
  to three pending bytes in a word between calls) and SpookyHash in its short and long form.
  Shown: feeding Murmur3 in pieces gives the hash of the whole, equal to the plain block
  algorithm; the fall-through switches of lookup3 and Spooky are zero-padded little-endian loads;
  the mixing steps of Spooky are injective.
\<close>

section \<open>Murmur3\<close>

abbreviation MURMUR_C1 :: u32 where "MURMUR_C1 \<equiv> 0xcc9e2d51"
abbreviation MURMUR_C2 :: u32 where "MURMUR_C2 \<equiv> 0x1b873593"

text \<open>The block macro updates both of its arguments.\<close>

definition MURMUR_DOBLOCK :: "u32 \<Rightarrow> u32 \<Rightarrow> u32 \<times> u32" where
  "MURMUR_DOBLOCK h1 k1 =
     (let k1 = k1 * MURMUR_C1;
          k1 = ina_hash_rotl32 k1 15;
          k1 = k1 * MURMUR_C2;
          h1 = h1 XOR k1;
          h1 = ina_hash_rotl32 h1 13;
          h1 = h1 * 5 + 0xe6546b64
      in (h1, k1))"

text \<open>\<open>__INA_HASH_MURMUR_DOBYTES\<close>: one iteration per byte, on the hash, the carry and the number of
  bytes in the carry.\<close>

fun MURMUR_DOBYTES :: "u32 \<Rightarrow> u32 \<Rightarrow> nat \<Rightarrow> byte_seq \<Rightarrow> u32 \<times> u32 \<times> nat" where
  "MURMUR_DOBYTES h1 c n [] = (h1, c, n)"
| "MURMUR_DOBYTES h1 c n (b # bs) =
     (let c = drop_bit 8 c OR push_bit 24 (ucast b);
          n = n + 1
      in if n = 4 then let (h1, c) = MURMUR_DOBLOCK h1 c in MURMUR_DOBYTES h1 c 0 bs
         else MURMUR_DOBYTES h1 c n bs)"

fun murmur_chunks :: "u32 \<Rightarrow> byte_seq \<Rightarrow> u32 \<times> byte_seq" where
  "murmur_chunks h1 (b0 # b1 # b2 # b3 # bs) =
     murmur_chunks (fst (MURMUR_DOBLOCK h1 (le_word [b0, b1, b2, b3]))) bs"
| "murmur_chunks h1 bs = (h1, bs)"

text \<open>The length is an \<open>int\<close>.  A negative one leaves the hash alone when it is a multiple of four
  and otherwise counts a loop down from a negative value: undefined.\<close>

definition ina_hash_PMurHash32_Process :: "u32 \<times> u32 \<Rightarrow> byte_seq \<Rightarrow> int \<Rightarrow> (u32 \<times> u32) option" where
  "ina_hash_PMurHash32_Process = (\<lambda>(h1, c) key len.
     let n = unat (c AND 3);
         i = (4 - n) mod 4
     in if len < 0
        then if len mod 4 = 0 then Some (h1, (c AND NOT 0xff) OR of_nat n) else None
        else
          let key = take (nat len) key;
              (h1, c, n, key) = (if i \<noteq> 0 \<and> int i \<le> len
                 then let (h1, c, n) = MURMUR_DOBYTES h1 c n (take i key) in (h1, c, n, drop i key)
                 else (h1, c, n, key));
              (h1, key) = murmur_chunks h1 key;
              (h1, c, n) = MURMUR_DOBYTES h1 c n key
          in Some (h1, (c AND NOT 0xff) OR of_nat n))"

definition murmur_fmix :: "u32 \<Rightarrow> u32" where
  "murmur_fmix h =
     (let h = h XOR drop_bit 16 h;
          h = h * 0x85ebca6b;
          h = h XOR drop_bit 13 h;
          h = h * 0xc2b2ae35
      in h XOR drop_bit 16 h)"

definition ina_hash_PMurHash32_Result :: "u32 \<times> u32 \<Rightarrow> u32 \<Rightarrow> u32" where
  "ina_hash_PMurHash32_Result = (\<lambda>(h, carry) total_length.
     let n = unat (carry AND 3);
         h = (if n \<noteq> 0
              then let k1 = drop_bit ((4 - n) * 8) carry;
                       k1 = k1 * MURMUR_C1; k1 = ina_hash_rotl32 k1 15; k1 = k1 * MURMUR_C2
                   in h XOR k1
              else h)
     in murmur_fmix (h XOR total_length))"

definition ina_hash_PMurHash32 :: "u32 \<Rightarrow> byte_seq \<Rightarrow> u32 \<Rightarrow> u32 option" where
  "ina_hash_PMurHash32 seed key len =
     map_option (\<lambda>hc. ina_hash_PMurHash32_Result hc len)
       (ina_hash_PMurHash32_Process (seed, 0) key (sint len))"

definition ina_hash_32_murmur3 :: "u32 \<Rightarrow> byte_seq \<Rightarrow> u32 option" where
  "ina_hash_32_murmur3 hash data = ina_hash_PMurHash32 hash data (of_nat (length data))"

section \<open>Spooky\<close>

abbreviation SC_CONST :: u64 where "SC_CONST \<equiv> 0xdeadbeefdeadbeef"

definition ina_hash_spooky_rot64 :: "u64 \<Rightarrow> nat \<Rightarrow> u64" where
  "ina_hash_spooky_rot64 x k = push_bit k x OR drop_bit (64 - k) x"

text \<open>The state variables \<open>s0 \<dots> s11\<close> (\<open>h0 \<dots> h3\<close> in the short form) are a list.  Each source line of a
  mixing function is the same sequence of assignments with the indices moved on by one, so
  a function is the fold of one line over the starting index and the rotation amount.\<close>

definition spooky_mix_line :: "u64 list \<Rightarrow> nat \<times> nat \<Rightarrow> u64 list \<Rightarrow> u64 list" where
  "spooky_mix_line data = (\<lambda>(i, r) s.
     let i2 = (i + 2) mod 12; i10 = (i + 10) mod 12; i11 = (i + 11) mod 12; i1 = (i + 1) mod 12;
         s = s[i := s ! i + data ! i];
         s = s[i2 := s ! i2 XOR s ! i10];
         s = s[i11 := s ! i11 XOR s ! i];
         s = s[i := ina_hash_spooky_rot64 (s ! i) r]
     in s[i11 := s ! i11 + s ! i1])"

definition ina_hash_spooky_mix :: "u64 list \<Rightarrow> u64 list \<Rightarrow> u64 list" where
  "ina_hash_spooky_mix data =
     fold (spooky_mix_line data)
       [(0, 11), (1, 32), (2, 43), (3, 31), (4, 17), (5, 28), (6, 39), (7, 57), (8, 55), (9, 54), (10, 22), (11, 46)]"

definition spooky_end_line :: "nat \<times> nat \<Rightarrow> u64 list \<Rightarrow> u64 list" where
  "spooky_end_line = (\<lambda>(i, r) h.
     let i11 = (i + 11) mod 12; i1 = (i + 1) mod 12; i2 = (i + 2) mod 12;
         h = h[i11 := h ! i11 + h ! i1];
         h = h[i2 := h ! i2 XOR h ! i11]
     in h[i1 := ina_hash_spooky_rot64 (h ! i1) r])"

definition ina_hash_spooky_endPartial :: "u64 list \<Rightarrow> u64 list" where
  "ina_hash_spooky_endPartial =
     fold spooky_end_line
       [(0, 44), (1, 15), (2, 34), (3, 21), (4, 38), (5, 33), (6, 10), (7, 13), (8, 38), (9, 53), (10, 42), (11, 54)]"

definition ina_hash_spooky_end :: "u64 list \<Rightarrow> u64 list" where
  "ina_hash_spooky_end h =
     ina_hash_spooky_endPartial (ina_hash_spooky_endPartial (ina_hash_spooky_endPartial h))"

definition spooky_short_mix_line :: "nat \<times> nat \<Rightarrow> u64 list \<Rightarrow> u64 list" where
  "spooky_short_mix_line = (\<lambda>(i, r) h.
     let i1 = (i + 1) mod 4; i2 = (i + 2) mod 4;
         h = h[i := ina_hash_spooky_rot64 (h ! i) r];
         h = h[i := h ! i + h ! i1]
     in h[i2 := h ! i2 XOR h ! i])"

definition ina_hash_spooky_short_mix :: "u64 list \<Rightarrow> u64 list" where
  "ina_hash_spooky_short_mix =
     fold spooky_short_mix_line
       [(2, 50), (3, 52), (0, 30), (1, 41), (2, 54), (3, 48), (0, 38), (1, 37), (2, 62), (3, 34), (0, 5), (1, 36)]"

definition spooky_short_end_line :: "nat \<times> nat \<Rightarrow> u64 list \<Rightarrow> u64 list" where
  "spooky_short_end_line = (\<lambda>(i, r) h.
     let p = (i + 3) mod 4;
         h = h[i := h ! i XOR h ! p];
         h = h[p := ina_hash_spooky_rot64 (h ! p) r]
     in h[i := h ! i + h ! p])"

definition ina_hash_spooky_short_end :: "u64 list \<Rightarrow> u64 list" where
  "ina_hash_spooky_short_end =
     fold spooky_short_end_line
       [(3, 15), (0, 52), (1, 26), (2, 51), (3, 28), (0, 9), (1, 47), (2, 54), (3, 32), (0, 25), (1, 63)]"

definition rd64 :: "byte_seq \<Rightarrow> nat \<Rightarrow> u64" where
  "rd64 p i = le_word (take 8 (drop (8 * i) p))"

definition rd32 :: "byte_seq \<Rightarrow> nat \<Rightarrow> u32" where
  "rd32 p i = le_word (take 4 (drop (4 * i) p))"

text \<open>The loop over complete sets of 32 bytes and the step for 16 more.\<close>

function spooky_short_loop :: "u64 list \<Rightarrow> byte_seq \<Rightarrow> u64 list \<times> byte_seq" where
  "spooky_short_loop h p =
     (if length p \<ge> 32
      then let h = h[2 := h ! 2 + rd64 p 0, 3 := h ! 3 + rd64 p 1];
               h = ina_hash_spooky_short_mix h;
               h = h[0 := h ! 0 + rd64 p 2, 1 := h ! 1 + rd64 p 3]
           in spooky_short_loop h (drop 32 p)
      else (h, p))"
  by pat_completeness auto
termination
  by (relation "measure (\<lambda>(h, p). length p)") auto

declare spooky_short_loop.simps [simp del]

definition spooky_short_16 :: "u64 list \<times> byte_seq \<Rightarrow> u64 list \<times> byte_seq" where
  "spooky_short_16 = (\<lambda>(h, p).
     if length p \<ge> 16
     then (ina_hash_spooky_short_mix (h[2 := h ! 2 + rd64 p 0, 3 := h ! 3 + rd64 p 1]), drop 16 p)
     else (h, p))"

text \<open>The \<open>switch\<close> over the last 0 to 15 bytes, on \<open>c\<close> and \<open>d\<close>.\<close>

definition spooky_short_tail :: "u64 \<times> u64 \<Rightarrow> byte_seq \<Rightarrow> u64 \<times> u64" where
  "spooky_short_tail = (\<lambda>(c, d) p.
     let n = length p;
         byte = (\<lambda>i. ucast (p ! i) :: u64)
     in if n \<ge> 12 then
          let d = (if n \<ge> 15 then d + push_bit 48 (byte 14) else d);
              d = (if n \<ge> 14 then d + push_bit 40 (byte 13) else d);
              d = (if n \<ge> 13 then d + push_bit 32 (byte 12) else d)
          in (c + rd64 p 0, d + ucast (rd32 p 2))
        else if n \<ge> 8 then
          let d = (if n \<ge> 11 then d + push_bit 16 (byte 10) else d);
              d = (if n \<ge> 10 then d + push_bit 8 (byte 9) else d);
              d = (if n \<ge> 9 then d + byte 8 else d)
          in (c + rd64 p 0, d)
        else if n \<ge> 4 then
          let c = (if n \<ge> 7 then c + push_bit 48 (byte 6) else c);
              c = (if n \<ge> 6 then c + push_bit 40 (byte 5) else c);
              c = (if n \<ge> 5 then c + push_bit 32 (byte 4) else c)
          in (c + ucast (rd32 p 0), d)
        else if n \<ge> 1 then
          let c = (if n \<ge> 3 then c + push_bit 16 (byte 2) else c);
              c = (if n \<ge> 2 then c + push_bit 8 (byte 1) else c)
          in (c + byte 0, d)
        else (c + SC_CONST, d + SC_CONST))"

definition ina_hash_spooky_shorthash :: "byte_seq \<Rightarrow> u64 \<times> u64 \<Rightarrow> u64 \<times> u64" where
  "ina_hash_spooky_shorthash message = (\<lambda>(hash1, hash2).
     let h = [hash1, hash2, SC_CONST, SC_CONST];
         (h, p) = (if length message > 15 then spooky_short_16 (spooky_short_loop h message) else (h, message));
         d = push_bit 56 (of_nat (length message));
         (c, d) = spooky_short_tail (h ! 2, d) p;
         h = ina_hash_spooky_short_end (h[2 := c, 3 := d])
     in (h ! 0, h ! 1))"

definition block12 :: "byte_seq \<Rightarrow> u64 list" where
  "block12 p = map (rd64 p) [0..<12]"

function spooky_blocks :: "u64 list \<Rightarrow> byte_seq \<Rightarrow> u64 list \<times> byte_seq" where
  "spooky_blocks h p =
     (if length p \<ge> 96 then spooky_blocks (ina_hash_spooky_mix (block12 p) h) (drop 96 p) else (h, p))"
  by pat_completeness auto
termination
  by (relation "measure (\<lambda>(h, p). length p)") auto

declare spooky_blocks.simps [simp del]

definition ina_hash_spooky_hash128 :: "byte_seq \<Rightarrow> u64 \<times> u64 \<Rightarrow> u64 \<times> u64" where
  "ina_hash_spooky_hash128 message = (\<lambda>(hash1, hash2).
     if length message < 192 then ina_hash_spooky_shorthash message (hash1, hash2)
     else
       let h = concat (replicate 4 [hash1, hash2, SC_CONST]);
           (h, rest) = spooky_blocks h message;
           remainder = length rest;
           buf = (rest @ replicate (96 - remainder) 0)[95 := of_nat remainder];
           h = ina_hash_spooky_mix (block12 buf) h;
           h = ina_hash_spooky_end h
       in (h ! 0, h ! 1))"

definition ina_hash_spooky_hash64 :: "byte_seq \<Rightarrow> u64 \<Rightarrow> u64" where
  "ina_hash_spooky_hash64 message seed = fst (ina_hash_spooky_hash128 message (seed, seed))"

definition ina_hash_spooky_hash32 :: "byte_seq \<Rightarrow> u32 \<Rightarrow> u32" where
  "ina_hash_spooky_hash32 message seed = ucast (fst (ina_hash_spooky_hash128 message (ucast seed, ucast seed)))"

definition ina_hash_32_spooky :: "u32 \<Rightarrow> byte_seq \<Rightarrow> u32" where
  "ina_hash_32_spooky hash data = ina_hash_spooky_hash32 data hash"

definition ina_hash_64_spooky :: "u64 \<Rightarrow> byte_seq \<Rightarrow> u64" where
  "ina_hash_64_spooky hash data = ina_hash_spooky_hash64 data hash"

section \<open>Murmur3 in pieces\<close>

lemma le_word_snoc:
  "le_word (bs @ [b]) = le_word bs OR push_bit (8 * length bs) (ucast b)"
  by (induction bs) (simp_all add: push_bit_or or.assoc push_bit_push_bit add.commute)

text \<open>\<open>carries c p\<close>: the top bytes of \<open>c\<close> are the pending bytes \<open>p\<close>; what is below them is stale.\<close>

definition carries :: "u32 \<Rightarrow> byte_seq \<Rightarrow> bool" where
  "carries c p \<longleftrightarrow> drop_bit (8 * (4 - length p)) c = le_word p"

lemma carries_Nil [simp]: "carries c []"
  by (simp add: carries_def drop_bit_word_beyond)

lemma carries_snoc:
  assumes "carries c p" and "length p < 4"
  shows "carries (drop_bit 8 c OR push_bit 24 (ucast b)) (p @ [b])"
proof -
  define m where "m = 3 - length p"
  have l: "length p = 3 - m" "m \<le> 3" using assms(2) by (auto simp: m_def)
  have e: "drop_bit (8 * m) (push_bit 24 (ucast b :: u32)) = push_bit (8 * length p) (ucast b)"
    using l by (intro bit_word_eqI)
      (auto simp: bit_drop_bit_eq bit_push_bit_iff bit_unsigned_iff algebra_simps dest: bit_imp_le_length)
  have "drop_bit (8 * m) (drop_bit 8 c OR push_bit 24 (ucast b)) = le_word p OR push_bit (8 * length p) (ucast b)"
    unfolding drop_bit_or e using assms(1) l by (simp add: carries_def algebra_simps)
  then show ?thesis
    using l by (simp add: carries_def le_word_snoc)
qed

lemma murmur_chunks_short: "length p < 4 \<Longrightarrow> murmur_chunks h p = (h, p)"
  by (cases "(h, p)" rule: murmur_chunks.cases) auto

lemma murmur_chunks_four:
  "length q = 4 \<Longrightarrow> murmur_chunks h (q @ bs) = murmur_chunks (fst (MURMUR_DOBLOCK h (le_word q))) bs"
  by (auto simp: eval_nat_numeral length_Suc_conv)

lemma murmur_chunks_rest: "length (snd (murmur_chunks h bs)) < 4"
  by (induction h bs rule: murmur_chunks.induct) auto

lemma murmur_chunks_append:
  "murmur_chunks h (xs @ ys) = (case murmur_chunks h xs of (h', p) \<Rightarrow> murmur_chunks h' (p @ ys))"
  by (induction h xs rule: murmur_chunks.induct) simp_all

lemma dobytes_chunks:
  "carries c p \<Longrightarrow> length p < 4 \<Longrightarrow>
   case murmur_chunks h (p @ bs) of (h', p') \<Rightarrow>
     \<exists>c'. MURMUR_DOBYTES h c (length p) bs = (h', c', length p') \<and> carries c' p'"
proof (induction bs arbitrary: h c p)
  case Nil
  then show ?case by (simp add: murmur_chunks_short)
next
  case (Cons b bs)
  let ?c = "drop_bit 8 c OR push_bit 24 (ucast b)" and ?p = "p @ [b]"
  have cp: "carries ?c ?p" by (rule carries_snoc [OF Cons.prems])
  show ?case
  proof (cases "length p = 3")
    case True
    obtain h2 c2 where blk: "MURMUR_DOBLOCK h ?c = (h2, c2)" by fastforce
    have "?c = le_word ?p" using cp True by (simp add: carries_def)
    then have "murmur_chunks h (?p @ bs) = murmur_chunks h2 bs"
      using True blk by (subst murmur_chunks_four) simp_all
    then show ?thesis
      using Cons.IH [of c2 "[]" h2] True blk by (simp add: Let_def)
  next
    case False
    then show ?thesis
      using Cons.IH [OF cp, of h] Cons.prems(2) by (simp add: Let_def split_beta)
  qed
qed

text \<open>The carry word handed from call to call: pending bytes on top, their number below.\<close>

definition carry_ok :: "u32 \<Rightarrow> byte_seq \<Rightarrow> bool" where
  "carry_ok c p \<longleftrightarrow> length p < 4 \<and> unat (c AND 3) = length p \<and> carries c p"

lemma carry_pack:
  assumes "carries c p" and "length p < 4"
  shows "carry_ok ((c AND NOT 0xff) OR of_nat (length p)) p"
proof -
  let ?n = "of_nat (length p) :: u32" and ?w = "(c AND NOT 0xff) OR of_nat (length p) :: u32"
  have un: "unat ?n = length p" using assms(2) by (intro unat_of_nat_small) simp
  have nb: "bit ?n k \<Longrightarrow> k < 2" for k
    using small_word_bit [of ?n 2 k] un assms(2) by auto
  have m: "(0xff :: u32) = mask 8" "(3 :: u32) = mask 2" by (simp_all add: mask_eq_exp_minus_1)
  have low: "?w AND 3 = ?n"
    unfolding m by (rule bit_word_eqI) (auto simp: bit_and_iff bit_or_iff bit_not_iff bit_mask_iff not_less dest: nb)
  have high: "drop_bit k ?w = drop_bit k c" if "8 \<le> k" for k
    unfolding m by (rule bit_word_eqI)
      (use that in \<open>auto simp: bit_drop_bit_eq bit_and_iff bit_or_iff bit_not_iff bit_mask_iff dest: nb bit_imp_le_length\<close>)
  have "8 \<le> 8 * (4 - length p)" using assms(2) by simp
  from high [OF this] show ?thesis
    unfolding carry_ok_def carries_def low un using assms by (simp only: carries_def simp_thms)
qed

lemma dobytes_rest:
  assumes "murmur_chunks h key = (h', q)"
  shows "\<exists>c'. MURMUR_DOBYTES h' c 0 q = (h', c', length q) \<and> carry_ok ((c' AND NOT 0xff) OR of_nat (length q)) q"
proof -
  have q: "length q < 4" using murmur_chunks_rest [of h key] assms by simp
  then obtain c' where "MURMUR_DOBYTES h' c 0 q = (h', c', length q)" "carries c' q"
    using dobytes_chunks [of c "[]" h' q] by (auto simp: murmur_chunks_short)
  with carry_pack [OF _ q] show ?thesis by blast
qed

lemma process_chunks:
  assumes "carry_ok c p"
  shows "case murmur_chunks h (p @ key) of (h', p') \<Rightarrow>
    \<exists>c'. ina_hash_PMurHash32_Process (h, c) key (int (length key)) = Some (h', c') \<and> carry_ok c' p'"
proof -
  have p: "length p < 4" and n: "unat (c AND 3) = length p" and cp: "carries c p"
    using assms by (auto simp: carry_ok_def)
  obtain h' q where r: "murmur_chunks h (p @ key) = (h', q)" by fastforce
  have "\<exists>c'. ina_hash_PMurHash32_Process (h, c) key (int (length key)) = Some (h', c') \<and> carry_ok c' q"
  proof (cases "p = []")
    case True
    then show ?thesis
      using dobytes_rest [of h key h' q c] r n by (auto simp: ina_hash_PMurHash32_Process_def Let_def)
  next
    case False
    then have i: "(4 - length p) mod 4 = 4 - length p" "4 - length p \<noteq> 0" using p by auto
    show ?thesis
    proof (cases "4 - length p \<le> length key")
      case True
      let ?t = "take (4 - length p) key" and ?d = "drop (4 - length p) key"
      have four: "length (p @ ?t) = 4" using True p by simp
      define h2 where "h2 = fst (MURMUR_DOBLOCK h (le_word (p @ ?t)))"
      have "murmur_chunks h (p @ ?t) = (h2, [])"
        using murmur_chunks_four [OF four, of h "[]"] by (simp add: h2_def)
      then obtain c2 where d: "MURMUR_DOBYTES h c (length p) ?t = (h2, c2, 0)"
        using dobytes_chunks [OF cp p, of h ?t] by auto
      have r2: "murmur_chunks h2 ?d = (h', q)"
        using murmur_chunks_four [OF four, of h ?d] r by (simp add: h2_def)
      then show ?thesis
        using dobytes_rest [OF r2, of c2] n i True d
        by (auto simp: ina_hash_PMurHash32_Process_def Let_def)
    next
      case False
      then have "length (p @ key) < 4" "length key < 4" by auto
      then have "murmur_chunks h (p @ key) = (h, p @ key)" "murmur_chunks h key = (h, key)"
        by (simp_all only: murmur_chunks_short)
      moreover from this obtain c' where "MURMUR_DOBYTES h c (length p) key = (h, c', length (p @ key))" "carries c' (p @ key)"
        using dobytes_chunks [OF cp p, of h key] by auto
      ultimately show ?thesis
        using carry_pack [of c' "p @ key"] \<open>length (p @ key) < 4\<close> r n i False
        by (auto simp: ina_hash_PMurHash32_Process_def Let_def)
    qed
  qed
  then show ?thesis by (simp add: r)
qed

text \<open>MurmurHash3 for x86, 32 bits, on the whole input: all full blocks, then the one to three
  bytes that are left, then the length and the final mix.\<close>

definition murmur3_reference :: "u32 \<Rightarrow> byte_seq \<Rightarrow> u32 \<Rightarrow> u32" where
  "murmur3_reference seed data len =
     (let (h, tail) = murmur_chunks seed data;
          h = (if tail = [] then h
               else h XOR ina_hash_rotl32 (le_word tail * MURMUR_C1) 15 * MURMUR_C2)
      in murmur_fmix (h XOR len))"

fun process_pieces :: "u32 \<times> u32 \<Rightarrow> byte_seq list \<Rightarrow> (u32 \<times> u32) option" where
  "process_pieces hc [] = Some hc"
| "process_pieces hc (key # keys) =
     Option.bind (ina_hash_PMurHash32_Process hc key (int (length key))) (\<lambda>hc. process_pieces hc keys)"

lemma process_pieces_chunks:
  "carry_ok c p \<Longrightarrow> case murmur_chunks h (p @ concat keys) of (h', p') \<Rightarrow>
     \<exists>c'. process_pieces (h, c) keys = Some (h', c') \<and> carry_ok c' p'"
proof (induction keys arbitrary: h c p)
  case Nil
  then show ?case by (auto simp: murmur_chunks_short carry_ok_def)
next
  case (Cons key keys)
  obtain h1 p1 where r: "murmur_chunks h (p @ key) = (h1, p1)" by fastforce
  then obtain c1 where "ina_hash_PMurHash32_Process (h, c) key (int (length key)) = Some (h1, c1)" "carry_ok c1 p1"
    using process_chunks [OF Cons.prems, of h key] by auto
  then show ?case
    using Cons.IH [of c1 p1 h1] murmur_chunks_append [of h "p @ key" "concat keys"] r by simp
qed

lemma result_reference:
  assumes "murmur_chunks seed data = (h, p)" and "carry_ok c p"
  shows "ina_hash_PMurHash32_Result (h, c) len = murmur3_reference seed data len"
  using assms by (auto simp: ina_hash_PMurHash32_Result_def murmur3_reference_def carry_ok_def carries_def
      Let_def mult.commute)

text \<open>C6. Murmur3 can be fed in pieces of any lengths: the running hash with its carry of up to
  three pending bytes, finished with the total length, is the MurmurHash3 of the
  concatenation; and the all-at-once function computes that hash for every input shorter than
  2 to the 31 bytes.\<close>

theorem murmur3_incremental:
  "map_option (\<lambda>hc. ina_hash_PMurHash32_Result hc len) (process_pieces (seed, 0) pieces) =
     Some (murmur3_reference seed (concat pieces) len) \<and>
   (length data < 2 ^ 31 \<longrightarrow>
      ina_hash_32_murmur3 seed data = Some (murmur3_reference seed data (of_nat (length data))))"
proof (intro conjI impI)
  have ok: "carry_ok 0 []" by (simp add: carry_ok_def)
  obtain h p where r: "murmur_chunks seed (concat pieces) = (h, p)" by fastforce
  then obtain c where "process_pieces (seed, 0) pieces = Some (h, c)" "carry_ok c p"
    using process_pieces_chunks [OF ok, of seed pieces] by auto
  then show "map_option (\<lambda>hc. ina_hash_PMurHash32_Result hc len) (process_pieces (seed, 0) pieces) =
      Some (murmur3_reference seed (concat pieces) len)"
    using result_reference [OF r] by simp
  assume "length data < 2 ^ 31"
  then have s: "sint (of_nat (length data) :: u32) = int (length data)"
    by (simp add: signed_of_nat signed_take_bit_int_eq_self)
  obtain h p where r: "murmur_chunks seed data = (h, p)" by fastforce
  then obtain c where "ina_hash_PMurHash32_Process (seed, 0) data (int (length data)) = Some (h, c)" "carry_ok c p"
    using process_chunks [OF ok, of seed data] by auto
  then show "ina_hash_32_murmur3 seed data = Some (murmur3_reference seed data (of_nat (length data)))"
    using result_reference [OF r] by (simp add: ina_hash_32_murmur3_def ina_hash_PMurHash32_def s)
qed

theorem murmur3_incremental_witness:
  "length [1 :: u8, 2, 3, 4, 5] < 2 ^ 31 \<and>
   ina_hash_32_murmur3 7 [1, 2, 3, 4, 5] = Some (murmur3_reference 7 [1, 2, 3, 4, 5] 5)"
  using murmur3_incremental [of 0 0 "[]" "[1, 2, 3, 4, 5]"] murmur3_incremental [of 0 7 "[]" "[1, 2, 3, 4, 5]"]
  by simp

section \<open>Tails as padded loads\<close>

lemma le_word_plus: "le_word (b # bs) = ucast b + push_bit 8 (le_word bs)"
  by (simp, rule disjunctive_add [symmetric])
     (auto simp: bit_push_bit_iff bit_unsigned_iff dest: bit_imp_le_length)

lemma le_word_empty: "le_word [] = 0"
  by simp

lemma le_word_append: "le_word (xs @ ys) = le_word xs + push_bit (8 * length xs) (le_word ys)"
  by (induction xs)
     (simp_all add: le_word_plus push_bit_add push_bit_push_bit add.assoc add.commute [of _ 8] del: le_word.simps(2))

lemma bit_le_word:
  "bit (le_word bs :: 'a::len word) n \<longleftrightarrow> n < LENGTH('a) \<and> n div 8 < length bs \<and> bit (bs ! (n div 8)) (n mod 8)"
proof (induction bs arbitrary: n)
  case (Cons b bs)
  show ?case
  proof (cases "n < 8")
    case True
    then show ?thesis by (auto simp: bit_or_iff bit_unsigned_iff bit_push_bit_iff dest: bit_imp_le_length)
  next
    case False
    then obtain m where n: "n = m + 8" by (metis le_add_diff_inverse2 not_less)
    have "\<not> bit b n" using False bit_imp_le_length [of b n] by auto
    moreover have "(m + 8) div 8 = Suc (m div 8)" by simp
    ultimately show ?thesis using Cons.IH [of m]
      by (auto simp: n bit_or_iff bit_unsigned_iff bit_push_bit_iff dest: bit_imp_le_length)
  qed
qed simp

lemma ucast_le_word:
  "length bs \<le> 4 \<Longrightarrow> (ucast (le_word bs :: u32) :: u64) = le_word bs"
  by (rule bit_word_eqI) (auto simp: bit_unsigned_iff bit_le_word)

lemma le_word_upto3:
  "length q < 4 \<Longrightarrow> le_word q =
     (if length q \<ge> 3 then push_bit 16 (ucast (q ! 2)) else 0) +
     (if length q \<ge> 2 then push_bit 8 (ucast (q ! 1)) else 0) +
     (if length q \<ge> 1 then ucast (q ! 0) else 0)"
proof -
  assume "length q < 4"
  then consider "q = []" | x where "q = [x]" | x y where "q = [x, y]" | x y z where "q = [x, y, z]"
    by (cases "(0 :: u32, q)" rule: murmur_chunks.cases) auto
  then show ?thesis
    by cases (simp_all add: le_word_plus push_bit_add push_bit_push_bit del: le_word.simps(2))
qed

lemma le_word_drop_upto3:
  assumes "k \<le> length p" and "length p < k + 4"
  shows "le_word (drop k p) =
     (if length p \<ge> k + 3 then push_bit 16 (ucast (p ! (k + 2))) else 0) +
     (if length p \<ge> k + 2 then push_bit 8 (ucast (p ! (k + 1))) else 0) +
     (if length p \<ge> k + 1 then ucast (p ! k) else 0)"
proof -
  have "3 \<le> length p - k \<longleftrightarrow> k + 3 \<le> length p" "2 \<le> length p - k \<longleftrightarrow> k + 2 \<le> length p"
    "1 \<le> length p - k \<longleftrightarrow> k + 1 \<le> length p"
    by linarith+
  then show ?thesis using assms by (subst le_word_upto3) simp_all
qed

text \<open>C38. The switches with fall-through over the last bytes of lookup3 (up to twelve) and of
  Spooky (one to fifteen) are exactly zero-padded little-endian loads of the remaining bytes
  into the three, respectively two, state words.\<close>

theorem tails_are_padded_loads:
  "(length key \<le> 12 \<longrightarrow>
      lookup3_tail (a, b, c) key =
        (a + le_word (take 4 key), b + le_word (take 4 (drop 4 key)), c + le_word (drop 8 key))) \<and>
   (1 \<le> length p \<and> length p \<le> 15 \<longrightarrow>
      spooky_short_tail (c', d') p = (c' + le_word (take 8 p), d' + le_word (drop 8 p)))"
proof (intro conjI impI)
  assume len: "length key \<le> 12"
  consider "length key = 12" | "8 \<le> length key" "length key < 12" | "4 \<le> length key" "length key < 8" | "length key < 4"
    using len by linarith
  then show "lookup3_tail (a, b, c) key =
      (a + le_word (take 4 key), b + le_word (take 4 (drop 4 key)), c + le_word (drop 8 key))"
  proof cases
    case 2
    then show ?thesis
      using le_word_drop_upto3 [of 8 key, where 'a = 32] 
      by (auto simp: lookup3_tail_def ina_hash_le_uint32_read_def Let_def ac_simps split: if_splits)
  next
    case 3
    then show ?thesis
      using le_word_drop_upto3 [of 4 key, where 'a = 32] 
      by (auto simp: lookup3_tail_def ina_hash_le_uint32_read_def Let_def ac_simps split: if_splits)
  next
    case 4
    then show ?thesis
      using le_word_upto3 [of key, where 'a = 32] 
      by (auto simp: lookup3_tail_def ina_hash_le_uint32_read_def Let_def ac_simps split: if_splits)
  qed (simp add: lookup3_tail_def ina_hash_le_uint32_read_def Let_def)
next
  assume "1 \<le> length p \<and> length p \<le> 15"
  then consider "12 \<le> length p" "length p \<le> 15" | "8 \<le> length p" "length p < 12" | "4 \<le> length p" "length p < 8"
    | "1 \<le> length p" "length p < 4"
    by linarith
  then show "spooky_short_tail (c', d') p = (c' + le_word (take 8 p), d' + le_word (drop 8 p))"
  proof cases
    case 1
    have "drop 8 p = take 4 (drop 8 p) @ drop 12 p"
      using append_take_drop_id [of 4 "drop 8 p"] by simp
    then have "(le_word (drop 8 p) :: u64) = le_word (take 4 (drop 8 p)) + push_bit 32 (le_word (drop 12 p))"
      using le_word_append [of "take 4 (drop 8 p)" "drop 12 p"] 1 by simp
    then show ?thesis
      using 1 le_word_drop_upto3 [of 12 p, where 'a = 64]
      by (auto simp: spooky_short_tail_def rd64_def rd32_def Let_def ucast_le_word push_bit_add push_bit_push_bit ac_simps split: if_splits)
  next
    case 2
    then show ?thesis
      using le_word_drop_upto3 [of 8 p, where 'a = 64] 
      by (auto simp: spooky_short_tail_def rd64_def Let_def ac_simps split: if_splits)
  next
    case 3
    have "p = take 4 p @ drop 4 p" by simp
    then have "(le_word p :: u64) = le_word (take 4 p) + push_bit 32 (le_word (drop 4 p))"
      using le_word_append [of "take 4 p" "drop 4 p"] 3 by simp
    then show ?thesis
      using 3 le_word_drop_upto3 [of 4 p, where 'a = 64]
      by (auto simp: spooky_short_tail_def rd32_def Let_def ucast_le_word push_bit_add push_bit_push_bit ac_simps split: if_splits)
  next
    case 4
    then show ?thesis
      using le_word_upto3 [of p, where 'a = 64] 
      by (auto simp: spooky_short_tail_def Let_def ac_simps split: if_splits)
  qed
qed

theorem tails_are_padded_loads_witness:
  "lookup3_tail (0, 0, 0) [1, 2, 3, 4, 5] = (le_word [1, 2, 3, 4], le_word [5], le_word []) \<and>
   spooky_short_tail (0, 0) [1, 2, 3, 4, 5] = (le_word [1, 2, 3, 4, 5], le_word [])"
  using tails_are_padded_loads [of "[1, 2, 3, 4, 5]" 0 0 0 "[1, 2, 3, 4, 5]" 0 0]
  by (simp del: le_word.simps)

section \<open>Spooky's mixing steps\<close>

text \<open>A map on states of \<open>n\<close> words that keeps the number of words and is injective on them.\<close>

definition lossless :: "nat \<Rightarrow> (u64 list \<Rightarrow> u64 list) \<Rightarrow> bool" where
  "lossless n F \<longleftrightarrow> inj_on F {s. length s = n} \<and> (\<forall>s. length s = n \<longrightarrow> length (F s) = n)"

lemma lossless_comp: "lossless n F \<Longrightarrow> lossless n G \<Longrightarrow> lossless n (\<lambda>s. F (G s))"
  using comp_inj_on [of G "{s. length s = n}" F] unfolding lossless_def o_def
  by (auto intro: inj_on_subset)

lemma lossless_fold: "(\<And>x. x \<in> set xs \<Longrightarrow> lossless n (f x)) \<Longrightarrow> lossless n (fold f xs)"
proof (induction xs)
  case Nil
  show ?case by (simp add: lossless_def)
next
  case (Cons x xs)
  then show ?case using lossless_comp [of n "fold f xs" "f x"] by (simp add: o_def)
qed

lemma lossless_upd2:
  assumes "i < n" "j < n" "i \<noteq> j" "\<And>y. inj (\<lambda>x. f x y)"
  shows "lossless n (\<lambda>s. s[i := f (s ! i) (s ! j)])"
  unfolding lossless_def inj_on_def
proof (intro conjI ballI impI allI)
  fix s t assume st: "s \<in> {s. length s = n}" "t \<in> {s. length s = n}"
    and eq: "s[i := f (s ! i) (s ! j)] = t[i := f (t ! i) (t ! j)]"
  have o: "s ! k = t ! k" if "k \<noteq> i" for k
    using arg_cong [OF eq, of "\<lambda>l. l ! k"] that by simp
  have "f (s ! i) (s ! j) = f (t ! i) (s ! j)"
    using arg_cong [OF eq, of "\<lambda>l. l ! i"] st assms o [of j] by simp
  then have "s ! i = t ! i" using assms(4) by (auto dest: injD)
  then show "s = t" using st o by (intro nth_equalityI) (auto, metis)
qed simp

lemma lossless_upd1: "inj g \<Longrightarrow> lossless n (\<lambda>s. s[i := g (s ! i)])"
  unfolding lossless_def inj_on_def
proof (intro conjI ballI impI allI)
  fix s t assume g: "\<forall>x \<in> UNIV. \<forall>y \<in> UNIV. g x = g y \<longrightarrow> x = y"
    and st: "s \<in> {s. length s = n}" "t \<in> {s. length s = n}" and eq: "s[i := g (s ! i)] = t[i := g (t ! i)]"
  show "s = t"
  proof (rule nth_equalityI)
    show "length s = length t" using st by simp
    fix k assume "k < length s"
    then show "s ! k = t ! k"
      using arg_cong [OF eq, of "\<lambda>l. l ! k"] st g by (cases "k = i") auto
  qed
qed simp

lemma inj_rot64: "0 < r \<Longrightarrow> r < 64 \<Longrightarrow> inj (\<lambda>x. ina_hash_spooky_rot64 x r)"
proof (rule injI)
  fix x y assume r: "0 < r" "r < 64" and eq: "ina_hash_spooky_rot64 x r = ina_hash_spooky_rot64 y r"
  have b: "bit (ina_hash_spooky_rot64 z r) ((k + r) mod 64) \<longleftrightarrow> bit z k" if "k < 64" for z k
  proof (cases "k + r < 64")
    case True
    then show ?thesis
      using r bit_imp_le_length [of z "64 + k"]
      by (auto simp: ina_hash_spooky_rot64_def bit_or_iff bit_push_bit_iff bit_drop_bit_eq)
  next
    case False
    then have "(k + r) mod 64 = k + r - 64" using that r by (simp add: mod_if)
    then show ?thesis
      using r that False by (auto simp: ina_hash_spooky_rot64_def bit_or_iff bit_push_bit_iff bit_drop_bit_eq)
  qed
  show "x = y"
  proof (rule bit_word_eqI)
    fix n assume "n < LENGTH(64)"
    then show "bit x n \<longleftrightarrow> bit y n" using b [of n x] b [of n y] eq by simp
  qed
qed

lemma inj_plus: "inj (\<lambda>x. x + (y :: u64))"
  by (simp add: inj_def)

lemma ring12:
  "i < 12 \<Longrightarrow> (i + 2) mod 12 \<noteq> (i + 10) mod (12 :: nat) \<and> (i + 11) mod 12 \<noteq> i \<and>
     (i + 11) mod 12 \<noteq> (i + 1) mod 12 \<and> (i + 2) mod 12 \<noteq> (i + 11) mod 12"
proof -
  have "list_all (\<lambda>i. (i + 2) mod 12 \<noteq> (i + 10) mod (12 :: nat) \<and> (i + 11) mod 12 \<noteq> i \<and>
     (i + 11) mod 12 \<noteq> (i + 1) mod 12 \<and> (i + 2) mod 12 \<noteq> (i + 11) mod 12) [0..<12]"
    by code_simp
  then show "i < 12 \<Longrightarrow> ?thesis" by (simp add: list_all_iff)
qed

lemma ring4:
  "i < 4 \<Longrightarrow> (i + 1) mod 4 \<noteq> i \<and> (i + 2) mod 4 \<noteq> i \<and> (i + 3) mod (4 :: nat) \<noteq> i"
proof -
  have "list_all (\<lambda>i. (i + 1) mod 4 \<noteq> i \<and> (i + 2) mod 4 \<noteq> i \<and> (i + 3) mod (4 :: nat) \<noteq> i) [0..<4]"
    by code_simp
  then show "i < 4 \<Longrightarrow> ?thesis" by (simp add: list_all_iff)
qed

lemmas lossless_add = lossless_upd2 [where f = "(+)", OF _ _ _ inj_plus]
lemmas lossless_xor = lossless_upd2 [where f = "(XOR)", OF _ _ _ inj_xor]
lemmas lossless_rot = lossless_upd1 [OF inj_rot64]
lemmas lossless_comp3 = lossless_comp [OF _ lossless_comp]

lemma lossless_mix_line:
  assumes i: "i < 12" and r: "0 < r" "r < 64"
  shows "lossless 12 (spooky_mix_line data (i, r))"
proof -
  define i1 i2 i10 i11 where "i1 = (i + 1) mod 12" and "i2 = (i + 2) mod 12"
    and "i10 = (i + 10) mod 12" and "i11 = (i + 11) mod 12"
  have d: "i1 < 12" "i2 < 12" "i10 < 12" "i11 < 12" "i2 \<noteq> i10" "i11 \<noteq> i" "i11 \<noteq> i1"
    using ring12 [OF i] by (simp_all add: i1_def i2_def i10_def i11_def)
  have eq: "spooky_mix_line data (i, r) = (\<lambda>s.
      (\<lambda>s. s[i11 := s ! i11 + s ! i1]) ((\<lambda>s. s[i := ina_hash_spooky_rot64 (s ! i) r])
        ((\<lambda>s. s[i11 := s ! i11 XOR s ! i]) ((\<lambda>s. s[i2 := s ! i2 XOR s ! i10])
          ((\<lambda>s. s[i := s ! i + data ! i]) s)))))"
    unfolding spooky_mix_line_def Let_def i1_def i2_def i10_def i11_def by (simp only: split_conv)
  show ?thesis
    unfolding eq
    by (rule lossless_comp3 [OF lossless_add [of i11 12 i1, OF d(4) d(1) d(7)] lossless_rot [OF r, of 12 i]
        lossless_comp3 [OF lossless_xor [of i11 12 i, OF d(4) i d(6)] lossless_xor [of i2 12 i10, OF d(2) d(3) d(5)]
          lossless_upd1 [OF inj_plus, of 12 i "data ! i"]]])
qed

lemma lossless_end_line:
  assumes i: "i < 12" and r: "0 < r" "r < 64"
  shows "lossless 12 (spooky_end_line (i, r))"
proof -
  define i1 i2 i11 where "i1 = (i + 1) mod 12" and "i2 = (i + 2) mod 12" and "i11 = (i + 11) mod 12"
  have d: "i1 < 12" "i2 < 12" "i11 < 12" "i11 \<noteq> i1" "i2 \<noteq> i11"
    using ring12 [OF i] by (simp_all add: i1_def i2_def i11_def)
  have eq: "spooky_end_line (i, r) = (\<lambda>h.
      (\<lambda>h. h[i1 := ina_hash_spooky_rot64 (h ! i1) r]) ((\<lambda>h. h[i2 := h ! i2 XOR h ! i11])
        ((\<lambda>h. h[i11 := h ! i11 + h ! i1]) h)))"
    unfolding spooky_end_line_def Let_def i1_def i2_def i11_def by (simp only: split_conv)
  show ?thesis
    unfolding eq
    by (rule lossless_comp3 [OF lossless_rot [OF r, of 12 i1] lossless_xor [of i2 12 i11, OF d(2) d(3) d(5)]
        lossless_add [of i11 12 i1, OF d(3) d(1) d(4)]])
qed

lemma lossless_short_mix_line:
  assumes i: "i < 4" and r: "0 < r" "r < 64"
  shows "lossless 4 (spooky_short_mix_line (i, r))"
proof -
  define i1 i2 where "i1 = (i + 1) mod 4" and "i2 = (i + 2) mod 4"
  have d: "i1 < 4" "i2 < 4" "i \<noteq> i1" "i2 \<noteq> i"
    using ring4 [OF i] by (auto simp: i1_def i2_def)
  have eq: "spooky_short_mix_line (i, r) = (\<lambda>h.
      (\<lambda>h. h[i2 := h ! i2 XOR h ! i]) ((\<lambda>h. h[i := h ! i + h ! i1])
        ((\<lambda>h. h[i := ina_hash_spooky_rot64 (h ! i) r]) h)))"
    unfolding spooky_short_mix_line_def Let_def i1_def i2_def by (simp only: split_conv)
  show ?thesis
    unfolding eq
    by (rule lossless_comp3 [OF lossless_xor [of i2 4 i, OF d(2) i d(4)] lossless_add [of i 4 i1, OF i d(1) d(3)]
        lossless_rot [OF r, of 4 i]])
qed

lemma lossless_short_end_line:
  assumes i: "i < 4" and r: "0 < r" "r < 64"
  shows "lossless 4 (spooky_short_end_line (i, r))"
proof -
  define p where "p = (i + 3) mod 4"
  have d: "p < 4" "i \<noteq> p" using ring4 [OF i] by (auto simp: p_def)
  have eq: "spooky_short_end_line (i, r) = (\<lambda>h.
      (\<lambda>h. h[i := h ! i + h ! p]) ((\<lambda>h. h[p := ina_hash_spooky_rot64 (h ! p) r])
        ((\<lambda>h. h[i := h ! i XOR h ! p]) h)))"
    unfolding spooky_short_end_line_def Let_def p_def by (simp only: split_conv)
  show ?thesis
    unfolding eq
    by (rule lossless_comp3 [OF lossless_add [of i 4 p, OF i d] lossless_rot [OF r, of 4 p]
        lossless_xor [of i 4 p, OF i d]])
qed

text \<open>The mixing functions of Spooky lose no information: for any block of data the long mix
  is injective on states of twelve words, so are the end mix and the mixes of the short form
  on four, and all of them keep the number of words.\<close>

theorem spooky_mixers_lossless:
  "lossless 12 (ina_hash_spooky_mix data) \<and> lossless 12 ina_hash_spooky_end \<and>
   lossless 4 ina_hash_spooky_short_mix \<and> lossless 4 ina_hash_spooky_short_end"
proof (intro conjI)
  show "lossless 12 (ina_hash_spooky_mix data)"
    unfolding ina_hash_spooky_mix_def by (rule lossless_fold) (auto intro!: lossless_mix_line)
  have "lossless 12 ina_hash_spooky_endPartial"
    unfolding ina_hash_spooky_endPartial_def by (rule lossless_fold) (auto intro!: lossless_end_line)
  from lossless_comp3 [OF this this this] show "lossless 12 ina_hash_spooky_end"
    unfolding ina_hash_spooky_end_def [abs_def] .
  show "lossless 4 ina_hash_spooky_short_mix"
    unfolding ina_hash_spooky_short_mix_def by (rule lossless_fold) (auto intro!: lossless_short_mix_line)
  show "lossless 4 ina_hash_spooky_short_end"
    unfolding ina_hash_spooky_short_end_def by (rule lossless_fold) (auto intro!: lossless_short_end_line)
qed

end
