(* ===== verification/Inac_Hashtable.thy ===== *)
theory Inac_Hashtable
  imports Inac_Hash_Block
begin

text \<open>
  The hash table of \<open>src/hashtable.c\<close> and \<open>include/libinac/hashtable.h\<close>: buckets that grow by
  32 nodes, keys of up to 16 bytes compared with \<open>memcmp\<close>, removed entries kept as nodes
  without data.  A node's data pointer is an option (\<open>None\<close> for \<open>NULL\<close>).  The event stream of a
  table with \<open>INA_HASHTABLE_CF_STAT\<close> is a list of events without their time stamps.  Allocation
  is taken to succeed and to deliver zeroed memory, as the pool of the table does.  Shown:
  the table implements a finite map for all keys whose first four bytes are not all zero,
  whatever sequence of operations is run; which keys it loses; how the entry counter drifts;
  that iterator and \<open>foreach\<close> visit every entry once; and how identifiers of monitored tables
  are handed out twice.
\<close>

section \<open>Interface\<close>

text \<open>A mutable map: \<open>look\<close> reads, \<open>put\<close> and \<open>del\<close> change, \<open>inv\<close> holds between operations and
  \<open>okk\<close> tells the keys the contract covers.\<close>

datatype ('k, 'v) map_op = Put 'k 'v | Del 'k

fun map_op_key :: "('k, 'v) map_op \<Rightarrow> 'k" where
  "map_op_key (Put k v) = k"
| "map_op_key (Del k) = k"

fun abs_op :: "('k, 'v) map_op \<Rightarrow> ('k \<rightharpoonup> 'v) \<Rightarrow> ('k \<rightharpoonup> 'v)" where
  "abs_op (Put k v) m = m(k \<mapsto> v)"
| "abs_op (Del k) m = m(k := None)"

fun run_op :: "('s \<Rightarrow> 'k \<Rightarrow> 'v \<Rightarrow> 's) \<Rightarrow> ('s \<Rightarrow> 'k \<Rightarrow> 's) \<Rightarrow> ('k, 'v) map_op \<Rightarrow> 's \<Rightarrow> 's" where
  "run_op put del (Put k v) s = put s k v"
| "run_op put del (Del k) s = del s k"

locale map_contract =
  fixes inv :: "'s \<Rightarrow> bool"
    and okk :: "'k \<Rightarrow> bool"
    and look :: "'s \<Rightarrow> 'k \<Rightarrow> 'v option"
    and put :: "'s \<Rightarrow> 'k \<Rightarrow> 'v \<Rightarrow> 's"
    and del :: "'s \<Rightarrow> 'k \<Rightarrow> 's"
  assumes put_inv: "inv s \<Longrightarrow> okk k \<Longrightarrow> inv (put s k v)"
    and del_inv: "inv s \<Longrightarrow> okk k \<Longrightarrow> inv (del s k)"
    and look_put: "inv s \<Longrightarrow> okk k \<Longrightarrow> okk k' \<Longrightarrow> look (put s k v) k' = (if k' = k then Some v else look s k')"
    and look_del: "inv s \<Longrightarrow> okk k \<Longrightarrow> okk k' \<Longrightarrow> look (del s k) k' = (if k' = k then None else look s k')"
begin

lemma run_op_step:
  "inv s \<Longrightarrow> okk (map_op_key oper) \<Longrightarrow> inv (run_op put del oper s)"
  "inv s \<Longrightarrow> okk (map_op_key oper) \<Longrightarrow> okk k \<Longrightarrow> look (run_op put del oper s) k = abs_op oper (look s) k"
  by (cases oper; simp add: put_inv del_inv look_put look_del)+

text \<open>Any run of operations on covered keys keeps the invariant and reads like the same run on
  a mathematical map.\<close>

lemma run_ops_refine:
  "inv s \<Longrightarrow> (\<And>oper. oper \<in> set ops \<Longrightarrow> okk (map_op_key oper)) \<Longrightarrow>
   (\<And>k. okk k \<Longrightarrow> look s k = m k) \<Longrightarrow>
   inv (fold (run_op put del) ops s) \<and> (\<forall>k. okk k \<longrightarrow> look (fold (run_op put del) ops s) k = fold abs_op ops m k)"
proof (induction ops arbitrary: s m)
  case (Cons oper ops)
  have k: "okk (map_op_key oper)" using Cons.prems(2) by simp
  have "abs_op oper (look s) k = abs_op oper m k" if "okk k" for k
    using Cons.prems(3) [OF that] by (cases oper) auto
  then show ?case
    using Cons.IH [of "run_op put del oper s" "abs_op oper m"] Cons.prems run_op_step [OF Cons.prems(1) k] by simp
qed simp

end

section \<open>Data\<close>

abbreviation BUCKET_SIZE :: nat where "BUCKET_SIZE \<equiv> 32"
abbreviation MAX_KEY_LEN :: nat where "MAX_KEY_LEN \<equiv> 16"
abbreviation MAX_STAT_TABLES :: nat where "MAX_STAT_TABLES \<equiv> 16"
abbreviation CF_PREALLOCATED :: u32 where "CF_PREALLOCATED \<equiv> 4"
abbreviation CF_STAT :: u32 where "CF_STAT \<equiv> 16"

record 'd node =
  n_key :: byte_seq
  n_data :: "'d option"

text \<open>\<open>b_nodes\<close> is empty for a \<open>NULL\<close> pointer.\<close>

record 'd bucket =
  b_nodes :: "'d node list"
  b_count :: nat
  b_max :: nat
  b_free :: nat
  b_hash :: u64

datatype hash_fn = Hash32 "byte_seq \<Rightarrow> u32 option" | Hash64 "byte_seq \<Rightarrow> u64 option"

datatype key_type = UNDEFINED_KEY | INT32_KEY | UINT32_KEY | INT64_KEY | UINT64_KEY | STR_KEY | PTR_KEY

datatype event_id = EV_IDLE | EV_META | EV_NEW | EV_SET_BEGIN | EV_SET_END | EV_GET_BEGIN | EV_GET_END
  | EV_REMOVE_BEGIN | EV_REMOVE_END | EV_EXPANSION | EV_FREE

record event =
  ev_id :: event_id
  ev_table :: nat
  ev_data1 :: u64
  ev_data2 :: u64

record 'd hashtable =
  h_hash_type :: ina_hash_type_t
  h_capacity :: nat
  h_key_len :: nat
  h_key_type :: key_type
  h_buckets :: "'d bucket list"
  h_hash :: hash_fn
  h_cf :: u32
  h_count :: int
  h_events :: "event list option"
  h_id :: nat

definition zero_node :: "'d node" where
  "zero_node = \<lparr>n_key = replicate 16 0, n_data = None\<rparr>"

definition zero_bucket :: "'d bucket" where
  "zero_bucket = \<lparr>b_nodes = [], b_count = 0, b_max = 0, b_free = 0, b_hash = 0\<rparr>"

text \<open>\<open>next->key.u32\<close> and \<open>memcmp(&next->key, key, key_len) == 0\<close>.\<close>

definition key_u32 :: "'d node \<Rightarrow> u32" where
  "key_u32 n = le_word (take 4 (n_key n))"

definition key_matches :: "byte_seq \<Rightarrow> 'd node \<Rightarrow> bool" where
  "key_matches key n \<longleftrightarrow> take (length key) (n_key n) = key"

definition store_key :: "byte_seq \<Rightarrow> byte_seq \<Rightarrow> byte_seq" where
  "store_key key old = key @ drop (length key) old"

section \<open>Events and identifiers\<close>

definition ina_push_event :: "event_id \<Rightarrow> u64 \<Rightarrow> u64 \<Rightarrow> 'd hashtable \<Rightarrow> 'd hashtable" where
  "ina_push_event event data1 data2 ht =
     (case h_events ht of
        None \<Rightarrow> ht
      | Some es \<Rightarrow> ht\<lparr>h_events := Some (es @
          [\<lparr>ev_id = event, ev_table = h_id ht, ev_data1 = data1, ev_data2 = data2\<rparr>])\<rparr>)"

text \<open>The search for a free identifier reads \<open>__hashtable_id[id]\<close> before it tests \<open>id\<close>: with all
  slots taken it reads behind the array (\<open>None\<close>).\<close>

fun find_slot :: "nat \<Rightarrow> nat list \<Rightarrow> nat option" where
  "find_slot i [] = None"
| "find_slot i (x # xs) = (if x \<noteq> 0 then find_slot (i + 1) xs else Some i)"

definition ina_set_hashtable_id :: "nat list \<Rightarrow> ((nat \<times> nat list) ina_res) option" where
  "ina_set_hashtable_id ids =
     map_option (\<lambda>i. if i + 1 > MAX_STAT_TABLES then Inl (INA_ERR ''EXCEEDED'')
                     else Inr (i + 1, ids[i := 1]))
       (find_slot 0 ids)"

section \<open>Creation and destruction\<close>

text \<open>The vendored hashes and the processor's instructions.  \<open>x_addr\<close> is the address of the key in the current
  call, on which only the two hashes made of CRC instructions depend; \<open>key_at\<close> below sets it call by call.\<close>

record ext_hashes =
  x_XXH32 :: ext_hash32
  x_XXH64 :: ext_hash64
  x_memhash :: ext_hash64
  x_falkhash :: ext_hash64
  x_t1ha0 :: ext_hash64
  x_t1ha :: ext_hash64
  x_op8 :: "u32 \<Rightarrow> u8 \<Rightarrow> u32"
  x_op16 :: "u32 \<Rightarrow> u16 \<Rightarrow> u32"
  x_op32 :: "u32 \<Rightarrow> u32 \<Rightarrow> u32"
  x_op64 :: "u64 \<Rightarrow> u64 \<Rightarrow> u64"
  x_addr :: nat

abbreviation H32 :: "(u32 \<Rightarrow> byte_seq \<Rightarrow> u32) \<Rightarrow> hash_fn" where "H32 f \<equiv> Hash32 (\<lambda>key. Some (f 0 key))"
abbreviation H64 :: "(u64 \<Rightarrow> byte_seq \<Rightarrow> u64) \<Rightarrow> hash_fn" where "H64 f \<equiv> Hash64 (\<lambda>key. Some (f 0 key))"

fun hash_fn_of :: "ext_hashes \<Rightarrow> ina_hash_type_t \<Rightarrow> hash_fn" where
  "hash_fn_of x INA_HASH_DEFAULT = H32 ina_hash_crc32"
| "hash_fn_of x INA_HASH32_CRC = H32 ina_hash_crc32"
| "hash_fn_of x INA_HASH32_LOOKUP3 = H32 ina_hash_32_lookup3"
| "hash_fn_of x INA_HASH32_DJB = H32 ina_hash_32_djb"
| "hash_fn_of x INA_HASH32_JENKINS_OOAT = H32 ina_hash_32_jenkins_ooat"
| "hash_fn_of x INA_HASH32_FNV = H32 ina_hash_32_fnv"
| "hash_fn_of x INA_HASH32_SUPERFAST = H32 ina_hash_32_superfast"
| "hash_fn_of x INA_HASH32_SDBM = H32 ina_hash_sdbm"
| "hash_fn_of x INA_HASH32_FNV_YOSHIMITSU = H32 ina_hash_32_fnv_yoshimitsu"
| "hash_fn_of x INA_HASH32_MURMUR3 = Hash32 (ina_hash_32_murmur3 0)"
| "hash_fn_of x INA_HASH32_SPOOKY = H32 ina_hash_32_spooky"
| "hash_fn_of x INA_HASH32_XXHASH = H32 (ina_hash_32_xxhash (x_XXH32 x))"
| "hash_fn_of x INA_HASH32_CRC_HW = H32 (ina_hash_32_crc_hw (x_op8 x) (x_op16 x) (x_op32 x) (x_addr x))"
| "hash_fn_of x INA_HASH32_MEMMASH = H32 (ina_hash_32_memhash (x_memhash x))"
| "hash_fn_of x INA_HASH32_FALKHASH = H32 (ina_hash_32_falkhash (x_falkhash x))"
| "hash_fn_of x INA_HASH32_T1HA0 = H32 (ina_hash_32_t1ha0 (x_t1ha0 x))"
| "hash_fn_of x INA_HASH32_T1HA1 = H32 (ina_hash_32_t1ha1 (x_t1ha x))"
| "hash_fn_of x INA_HASH64_LOCKUP3 = H64 ina_hash_64_lookup3"
| "hash_fn_of x INA_HASH64_FNV = H64 ina_hash_64_fnv"
| "hash_fn_of x INA_HASH64_SPOOKY = H64 ina_hash_64_spooky"
| "hash_fn_of x INA_HASH64_XXHASH = H64 (ina_hash_64_xxhash (x_XXH64 x))"
| "hash_fn_of x INA_HASH64_CRC_HW = H64 (ina_hash_64_crc_hw (x_op8 x) (x_op16 x) (x_op32 x) (x_op64 x) (x_addr x))"
| "hash_fn_of x INA_HASH64_MEMMASH = H64 (ina_hash_64_memhash (x_memhash x))"
| "hash_fn_of x INA_HASH64_FALKHASH = H64 (ina_hash_64_falkhash (x_falkhash x))"
| "hash_fn_of x INA_HASH64_T1HA0 = H64 (ina_hash_64_t1ha0 (x_t1ha0 x))"
| "hash_fn_of x INA_HASH64_T1HA1 = H64 (ina_hash_64_t1ha1 (x_t1ha x))"

definition key_at :: "ext_hashes \<Rightarrow> ina_hash_type_t \<Rightarrow> nat \<Rightarrow> 'd hashtable \<Rightarrow> 'd hashtable" where
  "key_at x hash_type addr ht = ht\<lparr>h_hash := hash_fn_of (x\<lparr>x_addr := addr\<rparr>) hash_type\<rparr>"

fun key_len_of :: "key_type \<Rightarrow> nat option" where
  "key_len_of UINT32_KEY = Some 4"
| "key_len_of INT32_KEY = Some 4"
| "key_len_of INT64_KEY = Some 8"
| "key_len_of UINT64_KEY = Some 8"
| "key_len_of STR_KEY = Some MAX_KEY_LEN"
| "key_len_of PTR_KEY = Some 8"
| "key_len_of UNDEFINED_KEY = None"

fun key_type_val :: "key_type \<Rightarrow> u64" where
  "key_type_val UNDEFINED_KEY = -1"
| "key_type_val INT32_KEY = 0"
| "key_type_val UINT32_KEY = 1"
| "key_type_val INT64_KEY = 2"
| "key_type_val UINT64_KEY = 3"
| "key_type_val STR_KEY = 4"
| "key_type_val PTR_KEY = 5"

definition new_bucket :: "u32 \<Rightarrow> 'd bucket" where
  "new_bucket cf =
     (if cf AND CF_PREALLOCATED \<noteq> 0
      then zero_bucket\<lparr>b_nodes := replicate (BUCKET_SIZE + 1) zero_node, b_max := BUCKET_SIZE\<rparr>
      else zero_bucket)"

text \<open>The metadata events of a monitored table; the last two are \<open>sizeof\<close> a bucket and a node.\<close>

definition announce :: "'d hashtable \<Rightarrow> 'd hashtable" where
  "announce ht =
     fold (\<lambda>(e, a, b). ina_push_event e a b)
       [(EV_NEW, key_type_val (h_key_type ht), of_nat (h_capacity ht)),
        (EV_META, 1, of_int (hash_type_val (h_hash_type ht))),
        (EV_META, 2, of_nat (h_key_len ht)),
        (EV_META, 3, 0),
        (EV_META, 4, ucast (h_cf ht)),
        (EV_META, 5, 32),
        (EV_META, 6, 24)] ht"

text \<open>The table before monitoring is set up.\<close>

definition plain_table :: "ext_hashes \<Rightarrow> key_type \<Rightarrow> nat \<Rightarrow> ina_hash_type_t \<Rightarrow> nat \<Rightarrow> u32 \<Rightarrow> 'd hashtable" where
  "plain_table x key_type key_len hash_type cap cf =
     \<lparr>h_hash_type = (if hash_type = INA_HASH_DEFAULT then INA_HASH32_CRC else hash_type),
      h_capacity = cap, h_key_len = key_len, h_key_type = key_type,
      h_buckets = replicate cap (new_bucket cf) @ [zero_bucket],
      h_hash = hash_fn_of x hash_type, h_cf = cf, h_count = 0, h_events = None, h_id = 0\<rparr>"

definition ina_hashtable_new ::
  "ext_hashes \<Rightarrow> key_type \<Rightarrow> ina_hash_type_t \<Rightarrow> nat \<Rightarrow> u32 \<Rightarrow> bool \<Rightarrow> nat list \<Rightarrow>
   (('d hashtable ina_res) \<times> nat list) option" where
  "ina_hashtable_new x key_type hash_type capacity cf ht_null ids =
     (if ht_null \<or> capacity > 2 ^ 31 - 1 then Some (Inl INA_ERR_INVALID_ARGUMENT, ids)
      else case key_len_of key_type of None \<Rightarrow> Some (Inl (INA_ERR_NOT_of ''VALID''), ids)
      | Some key_len \<Rightarrow>
        let cap = (if capacity > 0 then capacity else 256);
            ht = plain_table x key_type key_len hash_type cap cf
        in if cf AND CF_STAT \<noteq> 0
           then (case ina_set_hashtable_id ids of
                   None \<Rightarrow> None
                 | Some (Inl e) \<Rightarrow> Some (Inl e, ids[0 := 0])
                 | Some (Inr (i, ids)) \<Rightarrow> Some (Inr (announce (ht\<lparr>h_id := i, h_events := Some []\<rparr>)), ids))
           else Some (Inr ht, ids))"

text \<open>\<open>ina_hashtable_free\<close> gives the slot back; it writes \<open>__hashtable_id[id]\<close> with the identifier
  itself as the index.\<close>

definition ina_hashtable_free :: "'d hashtable \<Rightarrow> nat list \<Rightarrow> nat list option" where
  "ina_hashtable_free ht ids = (if h_id ht < length ids then Some (ids[h_id ht := 0]) else None)"

section \<open>Operations\<close>

definition ina_bucket_hash :: "'d hashtable \<Rightarrow> byte_seq \<Rightarrow> u64 option" where
  "ina_bucket_hash ht key =
     (case h_hash ht of
        Hash32 f \<Rightarrow> map_option (\<lambda>h. ucast (h mod of_nat (h_capacity ht))) (f key)
      | Hash64 f \<Rightarrow> map_option (\<lambda>h. h mod of_nat (h_capacity ht)) (f key))"

text \<open>The bucket of a key; finding it records the hash in the bucket.\<close>

definition ina_bucket :: "'d hashtable \<Rightarrow> byte_seq \<Rightarrow> (nat \<times> 'd hashtable) option" where
  "ina_bucket ht key =
     map_option (\<lambda>h. (unat h, ht\<lparr>h_buckets := (h_buckets ht)[unat h := (h_buckets ht ! unat h)\<lparr>b_hash := h\<rparr>]\<rparr>))
       (ina_bucket_hash ht key)"

definition set_bucket :: "nat \<Rightarrow> 'd bucket \<Rightarrow> 'd hashtable \<Rightarrow> 'd hashtable" where
  "set_bucket i b ht = ht\<lparr>h_buckets := (h_buckets ht)[i := b]\<rparr>"

definition ina_hashtable_clear :: "'d hashtable \<Rightarrow> 'd hashtable" where
  "ina_hashtable_clear ht =
     ht\<lparr>h_buckets := map (\<lambda>b. b\<lparr>b_count := 0, b_free := 0\<rparr>) (take (h_capacity ht) (h_buckets ht)) @
          drop (h_capacity ht) (h_buckets ht),
        h_count := 0\<rparr>"

definition ina_hashtable_count :: "'d hashtable \<Rightarrow> bool \<Rightarrow> u64 ina_res" where
  "ina_hashtable_count ht count_null =
     (if count_null then Inl INA_ERR_INVALID_ARGUMENT else Inr (of_int (h_count ht)))"

definition expand :: "'d bucket \<Rightarrow> 'd bucket" where
  "expand b = b\<lparr>b_nodes := take (b_max b) (b_nodes b) @ replicate (b_max b + BUCKET_SIZE + 1 - b_max b) zero_node,
               b_max := b_max b + BUCKET_SIZE\<rparr>"

datatype scan = Hit nat | Miss "nat option"

fun set_scan :: "byte_seq \<Rightarrow> nat \<Rightarrow> nat option \<Rightarrow> 'd node list \<Rightarrow> scan" where
  "set_scan key i fr [] = Miss fr"
| "set_scan key i fr (n # ns) =
     (if key_u32 n = 0 then Miss fr
      else if key_matches key n then Hit i
      else set_scan key (i + 1) (if n_data n = None then Some i else fr) ns)"

fun get_scan :: "byte_seq \<Rightarrow> nat \<Rightarrow> 'd node list \<Rightarrow> nat option" where
  "get_scan key i [] = None"
| "get_scan key i (n # ns) =
     (if key_u32 n = 0 then None
      else if n_data n \<noteq> None \<and> key_matches key n then Some i
      else get_scan key (i + 1) ns)"

text \<open>The effect of a set on its bucket, with room for one more node: whether the entry counter
  is increased, and the bucket.\<close>

definition store :: "byte_seq \<Rightarrow> 'd \<Rightarrow> 'd bucket \<Rightarrow> bool \<times> 'd bucket" where
  "store key d b =
     (case set_scan key 0 None (take (b_count b) (b_nodes b)) of
        Hit j \<Rightarrow> (False, b\<lparr>b_nodes := (b_nodes b)[j := (b_nodes b ! j)\<lparr>n_data := Some d\<rparr>]\<rparr>)
      | Miss fr \<Rightarrow>
          let (j, count) = (case fr of None \<Rightarrow> (b_count b, b_count b + 1) | Some j \<Rightarrow> (j, b_count b))
          in (True, b\<lparr>b_count := count,
                     b_nodes := (b_nodes b)[j := \<lparr>n_key = store_key key (n_key (b_nodes b ! j)), n_data = Some d\<rparr>]\<rparr>))"

text \<open>\<open>ina_hashtable_set\<close>.  A key of more than 16 bytes runs over the node: \<open>None\<close>.\<close>

definition ina_hashtable_set ::
  "'d hashtable \<Rightarrow> byte_seq option \<Rightarrow> 'd option \<Rightarrow> (unit ina_res \<times> 'd hashtable) option" where
  "ina_hashtable_set ht key data =
     (let ht = ina_push_event EV_SET_BEGIN 0 0 ht
      in case (key, data) of
           (Some key, Some d) \<Rightarrow>
             if length key > MAX_KEY_LEN then None
             else Option.bind (ina_bucket ht key) (\<lambda>(i, ht).
               let b = h_buckets ht ! i;
                   (b, ht) = (if b_max b - b_count b = 0
                      then (expand b, ina_push_event EV_EXPANSION 0 (of_nat (b_max (expand b))) ht)
                      else (b, ht));
                   (added, b) = store key d b;
                   ht = set_bucket i b ht;
                   ht = (if added then ht\<lparr>h_count := h_count ht + 1\<rparr> else ht)
               in Some (Inr (), ina_push_event EV_SET_END (b_hash b) (if added then of_int (h_count ht) else 0) ht))
         | _ \<Rightarrow> Some (Inl INA_ERR_INVALID_ARGUMENT, ht))"

abbreviation ERR_NOT_FOUND :: ina_rc_t where "ERR_NOT_FOUND \<equiv> INA_ERR_NOT_of ''FOUND''"

definition ina_hashtable_get ::
  "'d hashtable \<Rightarrow> byte_seq option \<Rightarrow> bool \<Rightarrow> ('d ina_res \<times> 'd hashtable) option" where
  "ina_hashtable_get ht key data_null =
     (let ht = ina_push_event EV_GET_BEGIN 0 0 ht
      in case key of
           None \<Rightarrow> Some (Inl INA_ERR_INVALID_ARGUMENT, ht)
         | Some key \<Rightarrow>
             if data_null then Some (Inl INA_ERR_INVALID_ARGUMENT, ht)
             else if length key > MAX_KEY_LEN then None
             else Option.bind (ina_bucket ht key) (\<lambda>(i, ht).
               let b = h_buckets ht ! i
               in case get_scan key 0 (take (b_count b) (b_nodes b)) of
                    Some j \<Rightarrow> Some (Inr (the (n_data (b_nodes b ! j))), ina_push_event EV_GET_END (b_hash b) 0 ht)
                  | None \<Rightarrow> Some (Inl ERR_NOT_FOUND, ina_push_event EV_GET_END (b_hash b) 1 ht)))"

definition ina_hashtable_remove ::
  "'d hashtable \<Rightarrow> byte_seq option \<Rightarrow> bool \<Rightarrow> ('d ina_res \<times> 'd hashtable) option" where
  "ina_hashtable_remove ht key data_null =
     (let ht = ina_push_event EV_REMOVE_BEGIN 0 0 ht
      in case key of
           None \<Rightarrow> Some (Inl INA_ERR_INVALID_ARGUMENT, ht)
         | Some key \<Rightarrow>
             if data_null then Some (Inl INA_ERR_INVALID_ARGUMENT, ht)
             else if length key > MAX_KEY_LEN then None
             else Option.bind (ina_bucket ht key) (\<lambda>(i, ht).
               let b = h_buckets ht ! i
               in case get_scan key 0 (take (b_count b) (b_nodes b)) of
                    Some j \<Rightarrow>
                      let d = the (n_data (b_nodes b ! j));
                          b = b\<lparr>b_nodes := (b_nodes b)[j := (b_nodes b ! j)\<lparr>n_data := None\<rparr>], b_free := b_free b + 1\<rparr>;
                          ht = set_bucket i b ht\<lparr>h_count := h_count ht - 1\<rparr>
                      in Some (Inr d, ina_push_event EV_REMOVE_END 0 (of_int (h_count ht)) ht)
                  | None \<Rightarrow> Some (Inl ERR_NOT_FOUND, ina_push_event EV_REMOVE_END 1 (of_int (h_count ht)) ht)))"

section \<open>Iteration\<close>

text \<open>\<open>ina_hashtable_foreach\<close> and its variant with an argument: the callback runs on the data of
  each live node, over a state, until it fails.\<close>

fun foreach_nodes :: "('d \<Rightarrow> 's \<Rightarrow> unit ina_res \<times> 's) \<Rightarrow> 'd node list \<Rightarrow> 's \<Rightarrow> unit ina_res \<times> 's" where
  "foreach_nodes f [] s = (Inr (), s)"
| "foreach_nodes f (n # ns) s =
     (case n_data n of
        None \<Rightarrow> foreach_nodes f ns s
      | Some d \<Rightarrow> (case f d s of
            (Inl e, s) \<Rightarrow> (Inl e, s)
          | (Inr _, s) \<Rightarrow> foreach_nodes f ns s))"

fun foreach_buckets :: "('d \<Rightarrow> 's \<Rightarrow> unit ina_res \<times> 's) \<Rightarrow> 'd bucket list \<Rightarrow> 's \<Rightarrow> unit ina_res \<times> 's" where
  "foreach_buckets f [] s = (Inr (), s)"
| "foreach_buckets f (b # bs) s =
     (if b_count b > 0
      then case foreach_nodes f (take (b_count b) (b_nodes b)) s of
             (Inl e, s) \<Rightarrow> (Inl e, s)
           | (Inr _, s) \<Rightarrow> foreach_buckets f bs s
      else foreach_buckets f bs s)"

text \<open>After a failure the current return code of the thread is returned, \<open>err_get_rc\<close> of the state.\<close>

definition foreach_result :: "('s \<Rightarrow> unit ina_res) \<Rightarrow> unit ina_res \<times> 's \<Rightarrow> unit ina_res \<times> 's" where
  "foreach_result err_get_rc r = (case r of (Inl e, s) \<Rightarrow> (err_get_rc s, s) | (Inr u, s) \<Rightarrow> (Inr u, s))"

definition ina_hashtable_foreach ::
  "'d hashtable \<Rightarrow> ('d \<Rightarrow> 's \<Rightarrow> unit ina_res \<times> 's) option \<Rightarrow> ('s \<Rightarrow> unit ina_res) \<Rightarrow> 's \<Rightarrow> unit ina_res \<times> 's" where
  "ina_hashtable_foreach ht foreach_fn err_get_rc s =
     (case foreach_fn of
        None \<Rightarrow> (Inl INA_ERR_INVALID_ARGUMENT, s)
      | Some f \<Rightarrow> foreach_result err_get_rc (foreach_buckets f (take (h_capacity ht) (h_buckets ht)) s))"

definition ina_hashtable_foreach_arg ::
  "'d hashtable \<Rightarrow> ('d \<Rightarrow> 'a \<Rightarrow> 's \<Rightarrow> unit ina_res \<times> 's) option \<Rightarrow> 'a \<Rightarrow> ('s \<Rightarrow> unit ina_res) \<Rightarrow> 's \<Rightarrow> unit ina_res \<times> 's" where
  "ina_hashtable_foreach_arg ht foreach_fn arg err_get_rc s =
     (case foreach_fn of
        None \<Rightarrow> (Inl INA_ERR_INVALID_ARGUMENT, s)
      | Some f \<Rightarrow> foreach_result err_get_rc (foreach_buckets (\<lambda>d. f d arg) (take (h_capacity ht) (h_buckets ht)) s))"

text \<open>The iterator: indices of the current bucket and node, and the count at its creation.\<close>

record iter =
  it_bucket :: nat
  it_node :: nat
  it_checksum :: int

definition ina_hashtable_iter_reset :: "'d hashtable \<Rightarrow> iter" where
  "ina_hashtable_iter_reset ht = \<lparr>it_bucket = 0, it_node = 0, it_checksum = h_count ht\<rparr>"

definition ina_hashtable_iter_new :: "'d hashtable \<Rightarrow> iter" where
  "ina_hashtable_iter_new ht = ina_hashtable_iter_reset ht"

function iter_advance :: "'d hashtable \<Rightarrow> nat \<Rightarrow> nat \<Rightarrow> ('d \<times> nat \<times> nat) option \<times> nat \<times> nat" where
  "iter_advance ht i j =
     (if i < h_capacity ht
      then if j < b_count (h_buckets ht ! i) \<and> j < length (b_nodes (h_buckets ht ! i))
           then case n_data (b_nodes (h_buckets ht ! i) ! j) of
                  Some d \<Rightarrow> (Some (d, i, j + 1), i, j + 1)
                | None \<Rightarrow> iter_advance ht i (j + 1)
           else iter_advance ht (i + 1) 0
      else (None, i, j))"
  by pat_completeness auto
termination
  by (relation "measures [\<lambda>(ht, i, j). h_capacity ht - i, \<lambda>(ht, i, j). b_count (h_buckets ht ! i) - j]") auto

declare iter_advance.simps [simp del]

definition ina_hashtable_iter_next :: "'d hashtable \<Rightarrow> iter \<Rightarrow> bool \<Rightarrow> 'd ina_res \<times> iter" where
  "ina_hashtable_iter_next ht it data_null =
     (if data_null then (Inl INA_ERR_INVALID_ARGUMENT, it)
      else if it_checksum it \<noteq> h_count ht then (Inl (INA_ES ''STATE'' OR INA_ERR_NOT_of ''VALID''), it)
      else case iter_advance ht (it_bucket it) (it_node it) of
             (Some (d, i, j), _) \<Rightarrow> (Inr d, it\<lparr>it_bucket := i, it_node := j\<rparr>)
           | (None, i, j) \<Rightarrow> (Inl (INA_ERR ''END_OF''), it\<lparr>it_bucket := i, it_node := j\<rparr>))"

section \<open>Typed keys\<close>

fun le_bytes :: "nat \<Rightarrow> 'a::len word \<Rightarrow> byte_seq" where
  "le_bytes 0 w = []"
| "le_bytes (Suc n) w = ucast w # le_bytes n (drop_bit 8 w)"

definition ina_hashtable_set_u32 where "ina_hashtable_set_u32 ht (key :: u32) data = ina_hashtable_set ht (Some (le_bytes 4 key)) data"
definition ina_hashtable_get_u32 where "ina_hashtable_get_u32 ht (key :: u32) data_null = ina_hashtable_get ht (Some (le_bytes 4 key)) data_null"
definition ina_hashtable_remove_u32 where "ina_hashtable_remove_u32 ht (key :: u32) data_null = ina_hashtable_remove ht (Some (le_bytes 4 key)) data_null"
definition ina_hashtable_set_i32 where "ina_hashtable_set_i32 ht (key :: u32) data = ina_hashtable_set ht (Some (le_bytes 4 key)) data"
definition ina_hashtable_get_i32 where "ina_hashtable_get_i32 ht (key :: u32) data_null = ina_hashtable_get ht (Some (le_bytes 4 key)) data_null"
definition ina_hashtable_remove_i32 where "ina_hashtable_remove_i32 ht (key :: u32) data_null = ina_hashtable_remove ht (Some (le_bytes 4 key)) data_null"
definition ina_hashtable_set_i64 where "ina_hashtable_set_i64 ht (key :: u64) data = ina_hashtable_set ht (Some (le_bytes 8 key)) data"
definition ina_hashtable_get_i64 where "ina_hashtable_get_i64 ht (key :: u64) data_null = ina_hashtable_get ht (Some (le_bytes 8 key)) data_null"
definition ina_hashtable_remove_i64 where "ina_hashtable_remove_i64 ht (key :: u64) data_null = ina_hashtable_remove ht (Some (le_bytes 8 key)) data_null"
definition ina_hashtable_set_u64 where "ina_hashtable_set_u64 ht (key :: u64) data = ina_hashtable_set ht (Some (le_bytes 8 key)) data"
definition ina_hashtable_get_u64 where "ina_hashtable_get_u64 ht (key :: u64) data_null = ina_hashtable_get ht (Some (le_bytes 8 key)) data_null"
definition ina_hashtable_remove_u64 where "ina_hashtable_remove_u64 ht (key :: u64) data_null = ina_hashtable_remove ht (Some (le_bytes 8 key)) data_null"
definition ina_hashtable_set_ptr where "ina_hashtable_set_ptr ht (key :: u64) data = ina_hashtable_set ht (Some (le_bytes 8 key)) data"
definition ina_hashtable_get_ptr where "ina_hashtable_get_ptr ht (key :: u64) data_null = ina_hashtable_get ht (Some (le_bytes 8 key)) data_null"
definition ina_hashtable_remove_ptr where "ina_hashtable_remove_ptr ht (key :: u64) data_null = ina_hashtable_remove ht (Some (le_bytes 8 key)) data_null"

text \<open>String keys: the first 16 bytes of the string (given without its terminator).\<close>

definition ina_hashtable_set_str where "ina_hashtable_set_str ht (key :: byte_seq) data = ina_hashtable_set ht (Some (take MAX_KEY_LEN key)) data"
definition ina_hashtable_get_str where "ina_hashtable_get_str ht (key :: byte_seq) data_null = ina_hashtable_get ht (Some (take MAX_KEY_LEN key)) data_null"
definition ina_hashtable_remove_str where "ina_hashtable_remove_str ht (key :: byte_seq) data_null = ina_hashtable_remove ht (Some (take MAX_KEY_LEN key)) data_null"

section \<open>Invariant\<close>

definition live :: "'d bucket \<Rightarrow> 'd node list" where
  "live b = take (b_count b) (b_nodes b)"

definition bucket_ok :: "'d bucket \<Rightarrow> bool" where
  "bucket_ok b \<longleftrightarrow> b_count b \<le> b_max b \<and>
     length (b_nodes b) = (if b_max b = 0 then 0 else b_max b + 1) \<and>
     (\<forall>n \<in> set (b_nodes b). length (n_key n) = 16)"

text \<open>A bucket of a table with keys of \<open>k\<close> bytes: its live nodes have keys that hash to it, are
  pairwise different and do not start with four zero bytes.\<close>

definition bucket_good :: "(byte_seq \<Rightarrow> u64 option) \<Rightarrow> nat \<Rightarrow> nat \<Rightarrow> 'd bucket \<Rightarrow> bool" where
  "bucket_good hf k i b \<longleftrightarrow> bucket_ok b \<and>
     (\<forall>n \<in> set (live b). key_u32 n \<noteq> 0 \<and> hf (take k (n_key n)) = Some (of_nat i)) \<and>
     distinct (map (\<lambda>n. take k (n_key n)) (live b))"

definition ht_inv :: "nat \<Rightarrow> 'd hashtable \<Rightarrow> bool" where
  "ht_inv k ht \<longleftrightarrow> 4 \<le> k \<and> k \<le> 16 \<and> 0 < h_capacity ht \<and> h_capacity ht < 2 ^ 31 \<and>
     length (h_buckets ht) = h_capacity ht + 1 \<and>
     (\<forall>key. length key \<le> 16 \<longrightarrow> ina_bucket_hash ht key \<noteq> None) \<and>
     (\<forall>i < h_capacity ht. bucket_good (ina_bucket_hash ht) k i (h_buckets ht ! i))"

definition good_key :: "nat \<Rightarrow> byte_seq \<Rightarrow> bool" where
  "good_key k key \<longleftrightarrow> length key = k \<and> take 4 key \<noteq> [0, 0, 0, 0]"

text \<open>The map a table stands for.\<close>

definition look_nodes :: "nat \<Rightarrow> 'd node list \<Rightarrow> byte_seq \<Rightarrow> 'd option" where
  "look_nodes k ns key =
     (case map_of (map (\<lambda>n. (take k (n_key n), n_data n)) ns) key of Some (Some d) \<Rightarrow> Some d | _ \<Rightarrow> None)"

definition ht_look :: "nat \<Rightarrow> 'd hashtable \<Rightarrow> byte_seq \<Rightarrow> 'd option" where
  "ht_look k ht key =
     (case ina_bucket_hash ht key of
        Some h \<Rightarrow> look_nodes k (live (h_buckets ht ! unat h)) key
      | None \<Rightarrow> None)"

lemma push_event_simps [simp]:
  "h_buckets (ina_push_event e a b ht) = h_buckets ht"
  "h_capacity (ina_push_event e a b ht) = h_capacity ht"
  "h_hash (ina_push_event e a b ht) = h_hash ht"
  "h_count (ina_push_event e a b ht) = h_count ht"
  "h_id (ina_push_event e a b ht) = h_id ht"
  by (simp_all add: ina_push_event_def split: option.split)

lemma bucket_hash_cong:
  "h_hash ht' = h_hash ht \<Longrightarrow> h_capacity ht' = h_capacity ht \<Longrightarrow> ina_bucket_hash ht' = ina_bucket_hash ht"
  by (rule ext) (cases "h_hash ht"; simp add: ina_bucket_hash_def)

lemma unat_ucast_32_64: "unat (ucast (x :: u32) :: u64) = unat x"
  using unsigned_less [of x, where 'a = nat] by (simp add: unsigned_ucast_eq take_bit_nat_eq_self)

lemma bucket_hash_bound:
  assumes "0 < h_capacity ht" "h_capacity ht < 2 ^ 31" "ina_bucket_hash ht key = Some h"
  shows "unat h < h_capacity ht"
proof (cases "h_hash ht")
  case (Hash32 f)
  then obtain w where "h = ucast (w mod of_nat (h_capacity ht) :: u32)"
    using assms(3) by (auto simp: ina_bucket_hash_def)
  moreover have "unat (of_nat (h_capacity ht) :: u32) = h_capacity ht"
    using assms(2) by (intro unat_of_nat_small) simp
  ultimately show ?thesis using assms(1) by (simp add: unat_ucast_32_64 unat_mod)
next
  case (Hash64 f)
  then obtain w where "h = w mod (of_nat (h_capacity ht) :: u64)"
    using assms(3) by (auto simp: ina_bucket_hash_def)
  moreover have "unat (of_nat (h_capacity ht) :: u64) = h_capacity ht"
    using assms(2) by (intro unat_of_nat_small) simp
  ultimately show ?thesis using assms(1) by (simp add: unat_mod)
qed

section \<open>Association lists\<close>

lemma map_of_update:
  assumes "distinct (map fst xs)" "j < length xs" "key = fst (xs ! j) \<or> key \<notin> fst ` set xs"
  shows "map_of (xs[j := (key, v)]) = (map_of xs)(fst (xs ! j) := None, key \<mapsto> v)"
proof -
  obtain ys a b zs where xs: "xs = ys @ (a, b) # zs" and j: "j = length ys"
    using id_take_nth_drop [OF assms(2)] assms(2) by (metis length_take min.absorb4 surj_pair)
  have "a \<notin> fst ` set ys" "a \<notin> fst ` set zs" using assms(1) by (auto simp: xs)
  then have n: "map_of ys a = None" "map_of zs a = None" by (simp_all add: map_of_eq_None_iff)
  have k: "map_of ys key = None" "map_of zs key = None"
    using assms(3) n by (auto simp: xs j map_of_eq_None_iff)
  show ?thesis
    using n k by (auto simp: xs j list_update_append fun_eq_iff map_add_def split: option.splits)
qed

section \<open>Scans\<close>

lemma set_scan_Hit:
  "set_scan key i fr ns = Hit j \<Longrightarrow> i \<le> j \<and> j - i < length ns \<and> key_matches key (ns ! (j - i))"
  by (induction key i fr ns rule: set_scan.induct) (auto split: if_splits simp: nth_Cons' Suc_diff_le)

lemma set_scan_Miss:
  "set_scan key i fr ns = Miss fr' \<Longrightarrow> (\<And>n. n \<in> set ns \<Longrightarrow> key_u32 n \<noteq> 0) \<Longrightarrow>
   (\<forall>n \<in> set ns. \<not> key_matches key n) \<and>
   (fr' = fr \<or> (\<exists>j. fr' = Some (i + j) \<and> j < length ns \<and> n_data (ns ! j) = None))"
proof (induction key i fr ns rule: set_scan.induct)
  case (2 key i fr n ns)
  have nz: "key_u32 n \<noteq> 0" and nm: "\<not> key_matches key n" using 2 by (auto split: if_splits)
  have "set_scan key (i + 1) (if n_data n = None then Some i else fr) ns = Miss fr'"
    using "2.prems" nz nm by simp
  from "2.IH" [OF nz nm this] "2.prems"(2) show ?case
    using nm by (auto split: if_splits intro: exI [of _ 0] exI [of _ "Suc _"])
qed simp

lemma get_scan_Some:
  "get_scan key i ns = Some j \<Longrightarrow> i \<le> j \<and> j - i < length ns \<and> key_matches key (ns ! (j - i)) \<and> n_data (ns ! (j - i)) \<noteq> None"
  by (induction key i ns rule: get_scan.induct) (auto split: if_splits simp: nth_Cons' Suc_diff_le)

lemma get_scan_None:
  "get_scan key i ns = None \<Longrightarrow> (\<And>n. n \<in> set ns \<Longrightarrow> key_u32 n \<noteq> 0) \<Longrightarrow>
   n \<in> set ns \<Longrightarrow> key_matches key n \<Longrightarrow> n_data n = None"
  by (induction key i ns rule: get_scan.induct) (auto split: if_splits)

section \<open>Buckets\<close>

lemma le_word_0D:
  assumes "length bs \<le> 4" "(le_word bs :: u32) = 0"
  shows "bs = replicate (length bs) 0"
proof (rule nth_equalityI)
  fix i assume i: "i < length bs"
  have "\<not> bit (bs ! i) m" if "m < 8" for m
  proof -
    have "\<not> bit (le_word bs :: u32) (8 * i + m)" using assms(2) by simp
    then show ?thesis using that i assms(1) by (auto simp: bit_le_word)
  qed
  then have "bs ! i = 0" by (intro bit_word_eqI) simp
  then show "bs ! i = replicate (length bs) 0 ! i" using i by simp
qed simp

lemma key_u32_nonzero:
  assumes "good_key k key" "4 \<le> k" "take 4 (n_key n) = take 4 key"
  shows "key_u32 n \<noteq> 0"
proof
  assume "key_u32 n = 0"
  then have "take 4 key = replicate (length (take 4 key)) 0"
    using assms by (intro le_word_0D) (simp_all add: key_u32_def)
  moreover have "length (take 4 key) = 4" using assms by (simp add: good_key_def)
  moreover have "replicate 4 (0 :: u8) = [0, 0, 0, 0]" by (simp add: eval_nat_numeral)
  ultimately show False using assms(1) by (simp add: good_key_def)
qed

lemma key_matches_iff: "length key = k \<Longrightarrow> key_matches key n \<longleftrightarrow> take k (n_key n) = key"
  by (simp add: key_matches_def)

lemma live_expand: "bucket_ok b \<Longrightarrow> live (expand b) = live b"
  by (auto simp: live_def expand_def bucket_ok_def min_def)

lemma expand_ok:
  assumes "bucket_ok b" "b_max b - b_count b = 0"
  shows "bucket_ok (expand b)" "b_count (expand b) < b_max (expand b)"
  using assms by (auto simp: bucket_ok_def expand_def zero_node_def dest: in_set_takeD)

lemma bucket_good_expand:
  "bucket_good hf k i b \<Longrightarrow> b_max b - b_count b = 0 \<Longrightarrow> bucket_good hf k i (expand b)"
  by (simp add: bucket_good_def expand_ok live_expand)

abbreviation keyed :: "nat \<Rightarrow> 'd node list \<Rightarrow> (byte_seq \<times> 'd option) list" where
  "keyed k ns \<equiv> map (\<lambda>n. (take k (n_key n), n_data n)) ns"

lemma fst_keyed: "map fst (keyed k ns) = map (\<lambda>n. take k (n_key n)) ns"
  by simp

text \<open>Replacing the node at an index by one with the given key and data.\<close>

lemma look_nodes_update:
  assumes "distinct (map (\<lambda>n. take k (n_key n)) ns)" "j < length ns" "take k (n_key n) = key"
    and "take k (n_key (ns ! j)) = key \<or> key \<notin> (\<lambda>n. take k (n_key n)) ` set ns \<and> n_data (ns ! j) = None"
  shows "look_nodes k (ns[j := n]) key' = (if key' = key then n_data n else look_nodes k ns key')"
proof -
  have dist: "distinct (map fst (keyed k ns))" using assms(1) by (simp only: fst_keyed)
  have "map_of ((keyed k ns)[j := (key, n_data n)]) =
      (map_of (keyed k ns))(fst (keyed k ns ! j) := None, key \<mapsto> n_data n)"
    using assms(2,4) by (intro map_of_update dist) (auto simp: image_image)
  moreover have "keyed k (ns[j := n]) = (keyed k ns)[j := (key, n_data n)]"
    using assms(3) by (simp add: map_update)
  moreover have "map_of (keyed k ns) (take k (n_key (ns ! j))) = Some (n_data (ns ! j))"
    using assms(2) by (intro map_of_is_SomeI dist) auto
  ultimately show ?thesis
    using assms(2,4) by (auto simp: look_nodes_def split: option.splits)
qed

lemma distinct_update:
  assumes "distinct (map f ns)" "j < length ns" "f n = f (ns ! j) \<or> f n \<notin> f ` set ns"
  shows "distinct (map f (ns[j := n]))"
proof (cases "f n = f (ns ! j)")
  case True
  then have "map f (ns[j := n]) = map f ns" using assms(2) by (simp add: map_update list_update_same_conv)
  then show ?thesis using assms(1) by simp
next
  case False
  then show ?thesis using assms by (simp add: map_update distinct_list_update)
qed

lemma look_nodes_snoc:
  assumes "key \<notin> (\<lambda>n. take k (n_key n)) ` set ns" "take k (n_key n) = key"
  shows "look_nodes k (ns @ [n]) key' = (if key' = key then n_data n else look_nodes k ns key')"
proof -
  have "map_of (keyed k ns) key = None" using assms(1) by (simp add: map_of_eq_None_iff image_image)
  then show ?thesis using assms(2) by (auto simp: look_nodes_def map_add_def split: option.splits)
qed

lemma live_update: "j < b_count b \<Longrightarrow> take (b_count b) ((b_nodes b)[j := n]) = (live b)[j := n]"
  by (simp add: live_def take_update_swap)

lemma live_append:
  "b_count b < length (b_nodes b) \<Longrightarrow> take (b_count b + 1) ((b_nodes b)[b_count b := n]) = live b @ [n]"
  by (simp add: live_def take_Suc_conv_app_nth)

lemma bucket_good_update:
  assumes "bucket_good hf k i b" "j < b_count b" "length (n_key n) = 16" "key_u32 n \<noteq> 0"
    "take k (n_key n) = key" "hf key = Some (of_nat i)"
    "take k (n_key (b_nodes b ! j)) = key \<or> key \<notin> (\<lambda>n. take k (n_key n)) ` set (live b)"
  shows "bucket_good hf k i (b\<lparr>b_nodes := (b_nodes b)[j := n]\<rparr>)"
proof -
  let ?b = "b\<lparr>b_nodes := (b_nodes b)[j := n]\<rparr>"
  have l: "live ?b = (live b)[j := n]" using live_update [OF assms(2)] by (simp add: live_def)
  have nl: "live b ! j = b_nodes b ! j" "j < length (live b)"
    using assms(1,2) by (auto simp: live_def bucket_good_def bucket_ok_def split: if_splits)
  have "distinct (map (\<lambda>n. take k (n_key n)) (live ?b))"
    unfolding l using assms nl by (intro distinct_update) (auto simp: bucket_good_def)
  moreover have "bucket_ok ?b"
    using assms(1,3) by (auto simp: bucket_good_def bucket_ok_def dest!: set_update_subset_insert [THEN subsetD])
  moreover have "\<forall>m \<in> set (live ?b). key_u32 m \<noteq> 0 \<and> hf (take k (n_key m)) = Some (of_nat i)"
    unfolding l using assms by (auto simp: bucket_good_def dest!: set_update_subset_insert [THEN subsetD])
  ultimately show ?thesis by (simp add: bucket_good_def)
qed

lemma bucket_good_append:
  assumes "bucket_good hf k i b" "b_count b < b_max b" "length (n_key n) = 16" "key_u32 n \<noteq> 0"
    "take k (n_key n) = key" "hf key = Some (of_nat i)"
    "key \<notin> (\<lambda>n. take k (n_key n)) ` set (live b)"
  shows "bucket_good hf k i (b\<lparr>b_count := b_count b + 1, b_nodes := (b_nodes b)[b_count b := n]\<rparr>)"
proof -
  let ?b = "b\<lparr>b_count := b_count b + 1, b_nodes := (b_nodes b)[b_count b := n]\<rparr>"
  have "b_count b < length (b_nodes b)" using assms(1,2) by (auto simp: bucket_good_def bucket_ok_def)
  then have l: "live ?b = live b @ [n]" using live_append [of b n] by (simp add: live_def)
  have "bucket_ok ?b"
    using assms(1,2,3) by (auto simp: bucket_good_def bucket_ok_def dest!: set_update_subset_insert [THEN subsetD])
  then show ?thesis
    unfolding bucket_good_def [of _ _ _ ?b] l using assms by (auto simp: bucket_good_def)
qed

lemma store_key_facts:
  assumes "good_key k key" "4 \<le> k" "k \<le> 16" "length old = 16"
  shows "length (store_key key old) = 16" "take k (store_key key old) = key"
    "key_u32 \<lparr>n_key = store_key key old, n_data = x\<rparr> \<noteq> 0"
proof -
  show "length (store_key key old) = 16" "take k (store_key key old) = key"
    using assms by (auto simp: store_key_def good_key_def)
  show "key_u32 \<lparr>n_key = store_key key old, n_data = x\<rparr> \<noteq> 0"
    using assms by (intro key_u32_nonzero [OF assms(1,2)]) (auto simp: store_key_def good_key_def)
qed

lemma store_good:
  assumes good: "bucket_good hf k i b" and room: "b_count b < b_max b"
    and key: "good_key k key" "hf key = Some (of_nat i)" and k: "4 \<le> k" "k \<le> 16"
    and st: "store key d b = (added, b')"
  shows "bucket_good hf k i b' \<and>
    (\<forall>key'. look_nodes k (live b') key' = (if key' = key then Some d else look_nodes k (live b) key')) \<and>
    (added \<longleftrightarrow> key \<notin> (\<lambda>n. take k (n_key n)) ` set (live b)) \<and> b_count b' \<le> b_count b + 1"
proof -
  have len: "length (b_nodes b) = b_max b + 1" "\<forall>n \<in> set (b_nodes b). length (n_key n) = 16"
    using good room by (auto simp: bucket_good_def bucket_ok_def split: if_splits)
  have ll: "length (live b) = b_count b" using len room by (simp add: live_def)
  have nz: "\<And>n. n \<in> set (live b) \<Longrightarrow> key_u32 n \<noteq> 0" and dist: "distinct (map (\<lambda>n. take k (n_key n)) (live b))"
    using good by (auto simp: bucket_good_def)
  have kl: "length key = k" using key(1) by (simp add: good_key_def)
  show ?thesis
  proof (cases "set_scan key 0 None (live b)")
    case (Hit j)
    from set_scan_Hit [OF this] have j: "j < b_count b" and m: "take k (n_key (live b ! j)) = key"
      using ll kl by (auto simp: key_matches_def)
    have nj: "live b ! j = b_nodes b ! j" using j len room by (simp add: live_def)
    let ?n = "(b_nodes b ! j)\<lparr>n_data := Some d\<rparr>"
    have b': "b' = b\<lparr>b_nodes := (b_nodes b)[j := ?n]\<rparr>" and a: "\<not> added"
      using st Hit by (auto simp: store_def live_def)
    have "bucket_good hf k i b'"
      unfolding b' using good j m nj len key(2) nz nth_mem [of j "live b"] ll room
      by (intro bucket_good_update [where key = key]) (auto simp: key_u32_def)
    moreover have "live b' = (live b)[j := ?n]" using live_update [OF j] by (simp add: b' live_def)
    ultimately show ?thesis
      using look_nodes_update [OF dist, of j ?n key] j m nj ll a b' nth_mem [of j "live b"] by auto
  next
    case (Miss fr)
    from set_scan_Miss [OF this nz] have nm: "key \<notin> (\<lambda>n. take k (n_key n)) ` set (live b)"
      and fr: "fr = None \<or> (\<exists>j. fr = Some j \<and> j < b_count b \<and> n_data (live b ! j) = None)"
      using ll kl by (auto simp: key_matches_def)
    show ?thesis
    proof (cases fr)
      case None
      let ?n = "\<lparr>n_key = store_key key (n_key (b_nodes b ! b_count b)), n_data = Some d\<rparr>"
      have lk: "length (n_key (b_nodes b ! b_count b)) = 16" using len room by simp
      have b': "b' = b\<lparr>b_count := b_count b + 1, b_nodes := (b_nodes b)[b_count b := ?n]\<rparr>" and a: added
        using st Miss None by (auto simp: store_def live_def)
      have "bucket_good hf k i b'"
        unfolding b' using good room key(2) nm store_key_facts [OF key(1) k lk]
        by (intro bucket_good_append [where key = key]) auto
      moreover have "live b' = live b @ [?n]" using live_append [of b ?n] len room by (simp add: b' live_def)
      ultimately show ?thesis
        using look_nodes_snoc [OF nm, of ?n] store_key_facts(2) [OF key(1) k lk] nm a b' by auto
    next
      case (Some j)
      then have j: "j < b_count b" and dn: "n_data (live b ! j) = None" using fr by auto
      have nj: "live b ! j = b_nodes b ! j" using j len room by (simp add: live_def)
      let ?n = "\<lparr>n_key = store_key key (n_key (b_nodes b ! j)), n_data = Some d\<rparr>"
      have lk: "length (n_key (b_nodes b ! j)) = 16" using len room j by simp
      have b': "b' = b\<lparr>b_nodes := (b_nodes b)[j := ?n]\<rparr>" and a: added
        using st Miss Some by (auto simp: store_def live_def)
      have "bucket_good hf k i b'"
        unfolding b' using good j key(2) nm store_key_facts [OF key(1) k lk]
        by (intro bucket_good_update [where key = key]) auto
      moreover have "live b' = (live b)[j := ?n]" using live_update [OF j] by (simp add: b' live_def)
      ultimately show ?thesis
        using look_nodes_update [OF dist, of j ?n key] store_key_facts(2) [OF key(1) k lk] j dn nm ll a b' by auto
    qed
  qed
qed

section \<open>Tables\<close>

lemma ht_replace:
  assumes inv: "ht_inv k ht" and i: "i < h_capacity ht" and b: "bucket_good (ina_bucket_hash ht) k i b"
    and ht': "h_hash ht' = h_hash ht" "h_capacity ht' = h_capacity ht" "h_buckets ht' = (h_buckets ht)[i := b]"
  shows "ht_inv k ht'"
    and "ht_look k ht' key = (if ina_bucket_hash ht key = Some (of_nat i) then look_nodes k (live b) key else ht_look k ht key)"
proof -
  have hf: "ina_bucket_hash ht' = ina_bucket_hash ht" by (rule bucket_hash_cong) (simp_all add: ht')
  have len: "length (h_buckets ht) = h_capacity ht + 1" using inv by (simp add: ht_inv_def)
  show "ht_inv k ht'"
    using inv i b len unfolding ht_inv_def hf ht' by (auto simp: nth_list_update)
  have u: "unat (of_nat i :: u64) = i" using i inv by (intro unat_of_nat_small) (simp add: ht_inv_def)
  show "ht_look k ht' key = (if ina_bucket_hash ht key = Some (of_nat i) then look_nodes k (live b) key else ht_look k ht key)"
  proof (cases "ina_bucket_hash ht key")
    case (Some h)
    have "unat h < h_capacity ht" using bucket_hash_bound [OF _ _ Some] inv by (simp add: ht_inv_def)
    then show ?thesis
      using Some i len u by (auto simp: ht_look_def hf ht' nth_list_update)
  qed (simp add: ht_look_def hf)
qed

lemma live_b_hash [simp]: "live (b\<lparr>b_hash := h\<rparr>) = live b"
  by (simp add: live_def)

lemma bucket_good_b_hash [simp]: "bucket_good hf k i (b\<lparr>b_hash := h\<rparr>) = bucket_good hf k i b"
  by (simp add: bucket_good_def bucket_ok_def)

text \<open>Finding the bucket of a key in a table that satisfies the invariant.\<close>

lemma ina_bucket_inv:
  assumes "ht_inv k ht" "length key \<le> 16"
  obtains h where "ina_bucket_hash ht key = Some h" "unat h < h_capacity ht"
    "ina_bucket ht key = Some (unat h, set_bucket (unat h) ((h_buckets ht ! unat h)\<lparr>b_hash := h\<rparr>) ht)"
    "bucket_good (ina_bucket_hash ht) k (unat h) (h_buckets ht ! unat h)"
    "length (h_buckets ht) = h_capacity ht + 1"
proof -
  obtain h where h: "ina_bucket_hash ht key = Some h" using assms by (auto simp: ht_inv_def)
  then have "unat h < h_capacity ht" using assms(1) by (intro bucket_hash_bound) (auto simp: ht_inv_def)
  then show thesis using that h assms(1) by (simp add: ina_bucket_def set_bucket_def ht_inv_def)
qed

lemma push_event_inv: "ht_inv k (ina_push_event e a b ht) = ht_inv k ht" "ht_look k (ina_push_event e a b ht) = ht_look k ht"
  and push_event_hash: "ina_bucket_hash (ina_push_event e a b ht) = ina_bucket_hash ht"
proof -
  show h: "ina_bucket_hash (ina_push_event e a b ht) = ina_bucket_hash ht" by (rule bucket_hash_cong) simp_all
  show "ht_inv k (ina_push_event e a b ht) = ht_inv k ht" by (simp add: ht_inv_def h)
  show "ht_look k (ina_push_event e a b ht) = ht_look k ht" by (simp add: ht_look_def h fun_eq_iff split: option.split)
qed

definition stored :: "nat \<Rightarrow> 'd hashtable \<Rightarrow> byte_seq \<Rightarrow> bool" where
  "stored k ht key \<longleftrightarrow> (\<exists>i < h_capacity ht. key \<in> (\<lambda>n. take k (n_key n)) ` set (live (h_buckets ht ! i)))"

lemma stored_bucket:
  assumes "ht_inv k ht" "ina_bucket_hash ht key = Some h" "unat h < h_capacity ht"
  shows "stored k ht key \<longleftrightarrow> key \<in> (\<lambda>n. take k (n_key n)) ` set (live (h_buckets ht ! unat h))"
proof
  assume "stored k ht key"
  then obtain i n where i: "i < h_capacity ht" "n \<in> set (live (h_buckets ht ! i))" "take k (n_key n) = key"
    by (auto simp: stored_def)
  then have "ina_bucket_hash ht key = Some (of_nat i)"
    using assms(1) by (fastforce simp: ht_inv_def bucket_good_def)
  then have "unat h = i"
    using assms(1,2) i(1) unat_of_nat_small [of i, where 'a = 64] by (simp add: ht_inv_def)
  then show "key \<in> (\<lambda>n. take k (n_key n)) ` set (live (h_buckets ht ! unat h))" using i by auto
qed (use assms(3) in \<open>auto simp: stored_def\<close>)

lemma stored_replace:
  assumes "h_capacity ht' = h_capacity ht" "h_buckets ht' = (h_buckets ht)[i := b]"
    and "map (\<lambda>n. take k (n_key n)) (live b) = map (\<lambda>n. take k (n_key n)) (live (h_buckets ht ! i))"
  shows "stored k ht' key \<longleftrightarrow> stored k ht key"
proof -
  have "(\<lambda>n. take k (n_key n)) ` set (live b) = (\<lambda>n. take k (n_key n)) ` set (live (h_buckets ht ! i))"
    using arg_cong [OF assms(3), of set] by simp
  then have "(\<lambda>n. take k (n_key n)) ` set (live (h_buckets ht' ! j)) = (\<lambda>n. take k (n_key n)) ` set (live (h_buckets ht ! j))" for j
    unfolding assms(2) by (cases "i < length (h_buckets ht)"; cases "j = i") (auto simp: list_update_beyond)
  then show ?thesis by (simp add: stored_def assms(1))
qed

text \<open>What a set does on a table with the invariant, for any key of the right length: it stores into
  the key's bucket, expanded when it was full.\<close>

lemma set_steps:
  assumes inv: "ht_inv k ht" and key: "length key = k"
  obtains h b where "ina_bucket_hash ht key = Some h" "unat h < h_capacity ht"
    "bucket_good (ina_bucket_hash ht) k (unat h) b" "b_count b < b_max b"
    "live b = live (h_buckets ht ! unat h)"
    "\<And>d added b'. store key d b = (added, b') \<Longrightarrow>
      \<exists>ht'. ina_hashtable_set ht (Some key) (Some d) = Some (Inr (), ht') \<and> h_hash ht' = h_hash ht \<and>
        h_capacity ht' = h_capacity ht \<and> h_buckets ht' = (h_buckets ht)[unat h := b'] \<and>
        h_count ht' = h_count ht + (if added then 1 else 0)"
proof -
  define ht0 where "ht0 = ina_push_event EV_SET_BEGIN 0 0 ht"
  have inv0: "ht_inv k ht0" and hf0: "ina_bucket_hash ht0 = ina_bucket_hash ht"
    using inv by (simp_all add: ht0_def push_event_inv push_event_hash)
  have kl: "length key \<le> 16" using inv key by (simp add: ht_inv_def)
  obtain h where h: "ina_bucket_hash ht0 key = Some h" "unat h < h_capacity ht0"
    and bk: "ina_bucket ht0 key = Some (unat h, set_bucket (unat h) ((h_buckets ht0 ! unat h)\<lparr>b_hash := h\<rparr>) ht0)"
    and good: "bucket_good (ina_bucket_hash ht0) k (unat h) (h_buckets ht0 ! unat h)"
    and len: "length (h_buckets ht0) = h_capacity ht0 + 1"
    using ina_bucket_inv [OF inv0 kl] by metis
  define b0 where "b0 = (h_buckets ht0 ! unat h)\<lparr>b_hash := h\<rparr>"
  define b1 where "b1 = (if b_max b0 - b_count b0 = 0 then expand b0 else b0)"
  have g0: "bucket_good (ina_bucket_hash ht0) k (unat h) b0" using good by (simp add: b0_def)
  have ok0: "bucket_ok b0" using g0 by (simp add: bucket_good_def)
  have g1: "bucket_good (ina_bucket_hash ht) k (unat h) b1"
    using g0 by (simp add: b1_def bucket_good_expand hf0)
  have room: "b_count b1 < b_max b1"
    using expand_ok(2) [OF ok0] ok0 by (auto simp: b1_def bucket_ok_def)
  have l1: "live b1 = live (h_buckets ht ! unat h)"
    using g0 by (auto simp: b1_def live_expand bucket_good_def) (auto simp: b0_def ht0_def)
  have "\<exists>ht'. ina_hashtable_set ht (Some key) (Some d) = Some (Inr (), ht') \<and> h_hash ht' = h_hash ht \<and>
      h_capacity ht' = h_capacity ht \<and> h_buckets ht' = (h_buckets ht)[unat h := b2] \<and>
      h_count ht' = h_count ht + (if added then 1 else 0)" if "store key d b1 = (added, b2)" for d added b2
  proof -
    have "\<exists>ht'. ina_hashtable_set ht (Some key) (Some d) = Some (Inr (), ht') \<and> h_hash ht' = h_hash ht0 \<and>
        h_capacity ht' = h_capacity ht0 \<and> h_buckets ht' = (h_buckets ht0)[unat h := b2] \<and>
        h_count ht' = h_count ht0 + (if added then 1 else 0)"
      using kl bk h(2) len that
      by (simp add: ina_hashtable_set_def Let_def ht0_def [symmetric] set_bucket_def b0_def [symmetric] b1_def split: if_splits)
    then show ?thesis by (simp add: ht0_def)
  qed
  then show thesis using that [OF _ _ g1 room l1] h hf0 by (simp add: ht0_def)
qed

lemma set_correct:
  assumes inv: "ht_inv k ht" and key: "good_key k key"
  shows "\<exists>ht'. ina_hashtable_set ht (Some key) (Some d) = Some (Inr (), ht') \<and> ht_inv k ht' \<and>
    (\<forall>key'. ht_look k ht' key' = (if key' = key then Some d else ht_look k ht key')) \<and>
    h_count ht' = h_count ht + (if stored k ht key then 0 else 1)"
proof -
  have k: "4 \<le> k" "k \<le> 16" "length key = k" using inv key by (auto simp: ht_inv_def good_key_def)
  obtain h b where h: "ina_bucket_hash ht key = Some h" "unat h < h_capacity ht"
    and g: "bucket_good (ina_bucket_hash ht) k (unat h) b" and room: "b_count b < b_max b"
    and l: "live b = live (h_buckets ht ! unat h)"
    and run: "\<And>d added b'. store key d b = (added, b') \<Longrightarrow>
      \<exists>ht'. ina_hashtable_set ht (Some key) (Some d) = Some (Inr (), ht') \<and> h_hash ht' = h_hash ht \<and>
        h_capacity ht' = h_capacity ht \<and> h_buckets ht' = (h_buckets ht)[unat h := b'] \<and>
        h_count ht' = h_count ht + (if added then 1 else 0)"
    using set_steps [OF inv k(3)] by blast
  have hi: "ina_bucket_hash ht key = Some (of_nat (unat h))" using h by simp
  obtain added b' where st: "store key d b = (added, b')" by fastforce
  have g': "bucket_good (ina_bucket_hash ht) k (unat h) b'"
    and l': "\<And>key'. look_nodes k (live b') key' = (if key' = key then Some d else look_nodes k (live b) key')"
    and ad: "added \<longleftrightarrow> key \<notin> (\<lambda>n. take k (n_key n)) ` set (live b)"
    using store_good [OF g room key hi k(1,2) st] by blast+
  obtain ht' where s: "ina_hashtable_set ht (Some key) (Some d) = Some (Inr (), ht')"
    and f: "h_hash ht' = h_hash ht" "h_capacity ht' = h_capacity ht" "h_buckets ht' = (h_buckets ht)[unat h := b']"
    and c: "h_count ht' = h_count ht + (if added then 1 else 0)" using run [OF st] by blast
  have "ht_look k ht key' = look_nodes k (live b) key'" if "ina_bucket_hash ht key' = Some (of_nat (unat h))" for key'
    using that by (simp add: ht_look_def l)
  then have "ht_look k ht' key' = (if key' = key then Some d else ht_look k ht key')" for key'
    using ht_replace(2) [OF inv h(2) g' f, of key'] l' hi by auto
  then show ?thesis
    using s ht_replace(1) [OF inv h(2) g' f] c stored_bucket [OF inv h] ad l by auto
qed

lemma get_raw:
  assumes "ina_bucket_hash ht key = Some h" "unat h < length (h_buckets ht)" "length key \<le> 16"
  shows "\<exists>ht'. ina_hashtable_get ht (Some key) False =
      Some (case get_scan key 0 (live (h_buckets ht ! unat h)) of
              Some j \<Rightarrow> Inr (the (n_data (b_nodes (h_buckets ht ! unat h) ! j))) | None \<Rightarrow> Inl ERR_NOT_FOUND, ht') \<and>
      h_hash ht' = h_hash ht \<and> h_capacity ht' = h_capacity ht \<and>
      h_buckets ht' = (h_buckets ht)[unat h := (h_buckets ht ! unat h)\<lparr>b_hash := h\<rparr>] \<and> h_count ht' = h_count ht"
  using assms
  by (auto simp: ina_hashtable_get_def Let_def ina_bucket_def push_event_hash live_def split: option.split)

lemma get_scan_look:
  assumes "bucket_good hf k i b" "length key = k"
  shows "case get_scan key 0 (live b) of
      Some j \<Rightarrow> j < b_count b \<and> live b ! j = b_nodes b ! j \<and> j < length (live b) \<and> take k (n_key (b_nodes b ! j)) = key \<and>
        (\<exists>d. n_data (b_nodes b ! j) = Some d \<and> look_nodes k (live b) key = Some d)
    | None \<Rightarrow> look_nodes k (live b) key = None"
proof -
  have nz: "\<And>n. n \<in> set (live b) \<Longrightarrow> key_u32 n \<noteq> 0" and dist: "distinct (map fst (keyed k (live b)))"
    using assms(1) by (auto simp: bucket_good_def fst_keyed simp del: map_map)
  show ?thesis
  proof (cases "get_scan key 0 (live b)")
    case None
    have "n_data n = None" if "n \<in> set (live b)" "take k (n_key n) = key" for n
      using get_scan_None [OF None nz that(1)] that assms(2) by (simp add: key_matches_def)
    then show ?thesis
      using None by (auto simp: look_nodes_def split: option.splits dest!: map_of_SomeD)
  next
    case (Some j)
    from get_scan_Some [OF this] obtain d where j: "j < length (live b)" "take k (n_key (live b ! j)) = key"
      "n_data (live b ! j) = Some d" using assms(2) by (auto simp: key_matches_def)
    have "map_of (keyed k (live b)) key = Some (Some d)"
      using j by (intro map_of_is_SomeI dist) (force simp: in_set_conv_nth)
    then show ?thesis using Some j by (auto simp: look_nodes_def live_def)
  qed
qed

lemma get_correct:
  assumes inv: "ht_inv k ht" and key: "length key = k"
  shows "\<exists>ht'. ina_hashtable_get ht (Some key) False =
      Some (case ht_look k ht key of Some d \<Rightarrow> Inr d | None \<Rightarrow> Inl ERR_NOT_FOUND, ht') \<and>
    ht_inv k ht' \<and> ht_look k ht' = ht_look k ht \<and> h_count ht' = h_count ht"
proof -
  have kl: "length key \<le> 16" using inv key by (simp add: ht_inv_def)
  obtain h where h: "ina_bucket_hash ht key = Some h" "unat h < h_capacity ht"
    and good: "bucket_good (ina_bucket_hash ht) k (unat h) (h_buckets ht ! unat h)"
    and len: "length (h_buckets ht) = h_capacity ht + 1"
    using ina_bucket_inv [OF inv kl] by metis
  let ?b = "h_buckets ht ! unat h"
  have g: "bucket_good (ina_bucket_hash ht) k (unat h) (?b\<lparr>b_hash := h\<rparr>)" using good by simp
  obtain ht' where s: "ina_hashtable_get ht (Some key) False =
      Some (case get_scan key 0 (live ?b) of Some j \<Rightarrow> Inr (the (n_data (b_nodes ?b ! j))) | None \<Rightarrow> Inl ERR_NOT_FOUND, ht')"
    and f: "h_hash ht' = h_hash ht" "h_capacity ht' = h_capacity ht" "h_buckets ht' = (h_buckets ht)[unat h := ?b\<lparr>b_hash := h\<rparr>]"
    and c: "h_count ht' = h_count ht" using get_raw [OF h(1) _ kl] h(2) len by auto
  have same: "ht_look k ht' = ht_look k ht"
    using ht_replace(2) [OF inv h(2) g f] by (auto simp: fun_eq_iff ht_look_def)
  have "ht_look k ht key = look_nodes k (live ?b) key" using h by (simp add: ht_look_def)
  then have "(case get_scan key 0 (live ?b) of Some j \<Rightarrow> Inr (the (n_data (b_nodes ?b ! j))) | None \<Rightarrow> Inl ERR_NOT_FOUND)
      = (case ht_look k ht key of Some d \<Rightarrow> Inr d | None \<Rightarrow> Inl ERR_NOT_FOUND)"
    using get_scan_look [OF good key] by (auto split: option.splits)
  then show ?thesis
    using s same ht_replace(1) [OF inv h(2) g f] c by auto
qed

lemma b_free_irrelevant [simp]:
  "live (b\<lparr>b_free := x\<rparr>) = live b" "bucket_good hf k i (b\<lparr>b_free := x\<rparr>) = bucket_good hf k i b"
  by (simp_all add: live_def bucket_good_def bucket_ok_def)

text \<open>The bucket after a removal.\<close>

definition without :: "byte_seq \<Rightarrow> 'd bucket \<Rightarrow> 'd bucket" where
  "without key b = (case get_scan key 0 (live b) of
     None \<Rightarrow> b
   | Some j \<Rightarrow> b\<lparr>b_nodes := (b_nodes b)[j := (b_nodes b ! j)\<lparr>n_data := None\<rparr>], b_free := b_free b + 1\<rparr>)"

lemma without_good:
  assumes good: "bucket_good hf k i b" and key: "length key = k" "hf key = Some (of_nat i)"
  shows "bucket_good hf k i (without key b)"
    and "look_nodes k (live (without key b)) key' = (if key' = key then None else look_nodes k (live b) key')"
proof -
  have "bucket_good hf k i (without key b) \<and>
    look_nodes k (live (without key b)) key' = (if key' = key then None else look_nodes k (live b) key')"
  proof (cases "get_scan key 0 (live b)")
    case None
    then show ?thesis using get_scan_look [OF good key(1)] good by (simp add: without_def)
  next
    case (Some j)
    let ?n = "(b_nodes b ! j)\<lparr>n_data := None\<rparr>" and ?b = "b\<lparr>b_nodes := (b_nodes b)[j := (b_nodes b ! j)\<lparr>n_data := None\<rparr>]\<rparr>"
    have j: "j < b_count b" "live b ! j = b_nodes b ! j" "j < length (live b)" "take k (n_key (b_nodes b ! j)) = key"
      using get_scan_look [OF good key(1)] Some by auto
    have mem: "b_nodes b ! j \<in> set (live b)" using j nth_mem [of j "live b"] by simp
    then have "b_nodes b ! j \<in> set (b_nodes b)" by (auto simp: live_def dest: in_set_takeD)
    then have "bucket_good hf k i ?b"
      using good j mem key(2) by (intro bucket_good_update [where key = key]) (auto simp: bucket_good_def bucket_ok_def key_u32_def)
    moreover have "live ?b = (live b)[j := ?n]" using live_update [OF j(1)] by (simp add: live_def)
    moreover have "look_nodes k ((live b)[j := ?n]) key' = (if key' = key then n_data ?n else look_nodes k (live b) key')"
      using good j by (intro look_nodes_update) (auto simp: bucket_good_def)
    moreover have "without key b = ?b\<lparr>b_free := b_free b + 1\<rparr>" by (simp add: without_def Some)
    ultimately show ?thesis by (simp only: b_free_irrelevant) simp
  qed
  then show "bucket_good hf k i (without key b)"
    and "look_nodes k (live (without key b)) key' = (if key' = key then None else look_nodes k (live b) key')"
    by blast+
qed

lemma without_keys:
  assumes "bucket_good hf k i b" "length key = k"
  shows "map (\<lambda>n. take k (n_key n)) (live (without key b)) = map (\<lambda>n. take k (n_key n)) (live b)"
proof (cases "get_scan key 0 (live b)")
  case (Some j)
  then have j: "j < b_count b" "live b ! j = b_nodes b ! j" using get_scan_look [OF assms] by auto
  have "live (without key b) = (live b)[j := (b_nodes b ! j)\<lparr>n_data := None\<rparr>]"
    using live_update [OF j(1)] by (simp add: without_def Some) (simp add: live_def)
  then show ?thesis using j(2) by (simp add: map_update list_update_same_conv) (metis list_update_id map_update)
qed (simp add: without_def)

lemma remove_correct:
  assumes inv: "ht_inv k ht" and key: "length key = k"
  shows "\<exists>ht'. ina_hashtable_remove ht (Some key) False =
      Some (case ht_look k ht key of Some d \<Rightarrow> Inr d | None \<Rightarrow> Inl ERR_NOT_FOUND, ht') \<and>
    ht_inv k ht' \<and> (\<forall>key'. ht_look k ht' key' = (if key' = key then None else ht_look k ht key')) \<and>
    h_count ht' = h_count ht - (if ht_look k ht key = None then 0 else 1) \<and> (\<forall>key'. stored k ht' key' = stored k ht key')"
proof -
  define ht0 where "ht0 = ina_push_event EV_REMOVE_BEGIN 0 0 ht"
  have inv0: "ht_inv k ht0" and lk0: "ht_look k ht0 = ht_look k ht"
    using inv by (simp_all add: ht0_def push_event_inv)
  have kl: "length key \<le> 16" using inv key by (simp add: ht_inv_def)
  obtain h where h: "ina_bucket_hash ht0 key = Some h" "unat h < h_capacity ht0"
    and bk: "ina_bucket ht0 key = Some (unat h, set_bucket (unat h) ((h_buckets ht0 ! unat h)\<lparr>b_hash := h\<rparr>) ht0)"
    and good: "bucket_good (ina_bucket_hash ht0) k (unat h) (h_buckets ht0 ! unat h)"
    and len: "length (h_buckets ht0) = h_capacity ht0 + 1"
    using ina_bucket_inv [OF inv0 kl] by metis
  define b0 where "b0 = (h_buckets ht0 ! unat h)\<lparr>b_hash := h\<rparr>"
  have g0: "bucket_good (ina_bucket_hash ht0) k (unat h) b0" and l0: "live b0 = live (h_buckets ht0 ! unat h)"
    using good by (simp_all add: b0_def)
  have hi: "ina_bucket_hash ht0 key = Some (of_nat (unat h))" using h by simp
  have "\<exists>ht'. ina_hashtable_remove ht (Some key) False =
      Some (case get_scan key 0 (live b0) of Some j \<Rightarrow> Inr (the (n_data (b_nodes b0 ! j))) | None \<Rightarrow> Inl ERR_NOT_FOUND, ht') \<and>
      h_hash ht' = h_hash ht0 \<and> h_capacity ht' = h_capacity ht0 \<and> h_buckets ht' = (h_buckets ht0)[unat h := without key b0] \<and>
      h_count ht' = h_count ht0 - (if get_scan key 0 (live b0) = None then 0 else 1)"
    using kl bk h(2) len
    by (auto simp: ina_hashtable_remove_def Let_def ht0_def [symmetric] set_bucket_def b0_def [symmetric] live_def
        without_def split: option.split)
  then obtain ht' where s: "ina_hashtable_remove ht (Some key) False =
      Some (case get_scan key 0 (live b0) of Some j \<Rightarrow> Inr (the (n_data (b_nodes b0 ! j))) | None \<Rightarrow> Inl ERR_NOT_FOUND, ht')"
    and f: "h_hash ht' = h_hash ht0" "h_capacity ht' = h_capacity ht0" "h_buckets ht' = (h_buckets ht0)[unat h := without key b0]"
    and c: "h_count ht' = h_count ht0 - (if get_scan key 0 (live b0) = None then 0 else 1)" by blast
  note wg = without_good [OF g0 key hi]
  have lb: "ht_look k ht0 key' = look_nodes k (live b0) key'" if "ina_bucket_hash ht0 key' = Some (of_nat (unat h))" for key'
    using that by (simp add: ht_look_def l0)
  have lk: "ht_look k ht' key' = (if key' = key then None else ht_look k ht0 key')" for key'
    using ht_replace(2) [OF inv0 h(2) wg(1) f, of key'] wg(2) [of key'] lb hi by auto
  have r: "(case get_scan key 0 (live b0) of Some j \<Rightarrow> Inr (the (n_data (b_nodes b0 ! j))) | None \<Rightarrow> Inl ERR_NOT_FOUND)
      = (case ht_look k ht0 key of Some d \<Rightarrow> Inr d | None \<Rightarrow> Inl ERR_NOT_FOUND)"
    "get_scan key 0 (live b0) = None \<longleftrightarrow> ht_look k ht0 key = None"
    using get_scan_look [OF g0 key] lb [OF hi] by (auto split: option.splits)
  have "map (\<lambda>n. take k (n_key n)) (live (without key b0)) = map (\<lambda>n. take k (n_key n)) (live (h_buckets ht0 ! unat h))"
    using without_keys [OF g0 key] l0 by simp
  then have st: "stored k ht' key' = stored k ht key'" for key'
    using stored_replace [OF f(2,3)] by (simp add: ht0_def stored_def)
  show ?thesis
    using s st r lk ht_replace(1) [OF inv0 h(2) wg(1) f] c lk0 by (auto simp: ht0_def)
qed

lemma clear_correct:
  assumes inv: "ht_inv k ht"
  shows "ht_inv k (ina_hashtable_clear ht)" "ht_look k (ina_hashtable_clear ht) key = None" "h_count (ina_hashtable_clear ht) = 0"
proof -
  let ?c = "ina_hashtable_clear ht"
  have hf: "ina_bucket_hash ?c = ina_bucket_hash ht" by (rule bucket_hash_cong) (simp_all add: ina_hashtable_clear_def)
  have b: "h_buckets ?c ! i = (h_buckets ht ! i)\<lparr>b_count := 0, b_free := 0\<rparr>" if "i < h_capacity ht" for i
    using that inv by (simp add: ina_hashtable_clear_def ht_inv_def nth_append)
  have "length (h_buckets ?c) = h_capacity ?c + 1" "h_capacity ?c = h_capacity ht"
    using inv by (auto simp: ina_hashtable_clear_def ht_inv_def)
  moreover have "bucket_good (ina_bucket_hash ht) k i (h_buckets ?c ! i)" if "i < h_capacity ht" for i
    using that inv by (auto simp: b bucket_good_def bucket_ok_def live_def ht_inv_def)
  ultimately show "ht_inv k ?c" using inv by (simp add: ht_inv_def hf)
  show "ht_look k ?c key = None"
  proof (cases "ina_bucket_hash ht key")
    case (Some h)
    have "unat h < h_capacity ht" using bucket_hash_bound [OF _ _ Some] inv by (simp add: ht_inv_def)
    then show ?thesis by (simp add: ht_look_def hf Some b live_def look_nodes_def)
  qed (simp add: ht_look_def hf)
  show "h_count ?c = 0" by (simp add: ina_hashtable_clear_def)
qed

section \<open>New tables\<close>

lemma murmur3_defined: "length data < 2 ^ 31 \<Longrightarrow> ina_hash_32_murmur3 seed data \<noteq> None"
proof -
  assume "length data < 2 ^ 31"
  then have s: "sint (of_nat (length data) :: u32) = int (length data)"
    by (simp add: signed_of_nat signed_take_bit_int_eq_self)
  have "carry_ok 0 []" by (simp add: carry_ok_def)
  from process_chunks [OF this, of seed data] show ?thesis
    by (auto simp: ina_hash_32_murmur3_def ina_hash_PMurHash32_def s split: prod.splits)
qed

lemma hash_fn_defined:
  "length key \<le> 16 \<Longrightarrow> case hash_fn_of x t of Hash32 f \<Rightarrow> f key \<noteq> None | Hash64 f \<Rightarrow> f key \<noteq> None"
  using murmur3_defined [of key 0] by (cases t) auto

lemma bucket_hash_defined:
  "h_hash ht = hash_fn_of x t \<Longrightarrow> length key \<le> 16 \<Longrightarrow> ina_bucket_hash ht key \<noteq> None"
  using hash_fn_defined [of key x t] by (auto simp: ina_bucket_hash_def split: hash_fn.splits)

lemma key_len_range: "key_len_of kt = Some k \<Longrightarrow> 4 \<le> k \<and> k \<le> 16"
  by (cases kt) auto

lemma bucket_good_new: "bucket_good hf k i (new_bucket cf)" "live (new_bucket cf) = []" "live zero_bucket = []"
  by (auto simp: bucket_good_def bucket_ok_def live_def new_bucket_def zero_bucket_def zero_node_def)

lemma announce_simps [simp]:
  "h_buckets (announce ht) = h_buckets ht" "h_capacity (announce ht) = h_capacity ht"
  "h_hash (announce ht) = h_hash ht" "h_count (announce ht) = h_count ht" "h_id (announce ht) = h_id ht"
  by (simp_all add: announce_def)

lemma new_cases:
  assumes "ina_hashtable_new x kt t cap cf nul ids = Some (Inr ht, ids')"
  obtains k c where "key_len_of kt = Some k" "0 < c" "c < 2 ^ 31" "cf AND CF_STAT = 0" "ids' = ids"
      "ht = plain_table x kt k t c cf"
  | k c i where "key_len_of kt = Some k" "0 < c" "c < 2 ^ 31" "cf AND CF_STAT \<noteq> 0"
      "ina_set_hashtable_id ids = Some (Inr (i, ids'))"
      "ht = announce ((plain_table x kt k t c cf)\<lparr>h_id := i, h_events := Some []\<rparr>)"
proof -
  define c where "c = (if cap > 0 then cap else 256)"
  obtain k where k: "key_len_of kt = Some k" and cap: "cap \<le> 2 ^ 31 - 1"
    using assms by (auto simp: ina_hashtable_new_def split: if_splits option.splits)
  have c: "0 < c" "c < 2 ^ 31" using cap by (auto simp: c_def)
  show thesis
  proof (cases "cf AND CF_STAT = 0")
    case True
    then show ?thesis
      using that(1) [OF k c] assms k
      by (auto simp: ina_hashtable_new_def Let_def c_def simp del: One_nat_def split: if_splits)
  next
    case False
    then obtain i where "ina_set_hashtable_id ids = Some (Inr (i, ids'))"
      "ht = announce ((plain_table x kt k t c cf)\<lparr>h_id := i, h_events := Some []\<rparr>)"
      using assms k by (cases "ina_set_hashtable_id ids")
        (auto simp: ina_hashtable_new_def Let_def c_def split: if_splits sum.splits prod.splits)
    then show ?thesis using that(2) [OF k c False] by blast
  qed
qed

lemma new_fields:
  assumes "ina_hashtable_new x kt t cap cf nul ids = Some (Inr ht, ids')"
  shows "\<exists>c. 0 < c \<and> c < 2 ^ 31 \<and> h_capacity ht = c \<and> h_count ht = 0 \<and>
    h_buckets ht = replicate c (new_bucket cf) @ [zero_bucket] \<and> h_hash ht = hash_fn_of x t"
  by (rule new_cases [OF assms]) (auto simp: plain_table_def)

lemma new_correct:
  assumes "ina_hashtable_new x kt t cap cf nul ids = Some (Inr ht, ids')" "key_len_of kt = Some k"
  shows "ht_inv k ht" "ht_look k ht key = None" "h_count ht = 0" "\<not> stored k ht key"
proof -
  obtain c where c: "0 < c" "c < 2 ^ 31" "h_capacity ht = c" "h_count ht = 0"
    "h_buckets ht = replicate c (new_bucket cf) @ [zero_bucket]" "h_hash ht = hash_fn_of x t"
    using new_fields [OF assms(1)] by blast
  have b: "h_buckets ht ! i = new_bucket cf" if "i < c" for i using that c by (simp add: nth_append)
  show "ht_inv k ht"
    unfolding ht_inv_def using c(1-3) bucket_hash_defined [OF c(6)] key_len_range [OF assms(2)]
    by (simp add: b bucket_good_new) (simp add: c)
  then have "unat h < c" if "ina_bucket_hash ht key = Some h" for h
    using bucket_hash_bound [OF _ _ that] c by simp
  then show "ht_look k ht key = None"
    by (simp add: ht_look_def b bucket_good_new look_nodes_def split: option.split)
  show "h_count ht = 0" "\<not> stored k ht key" using c(3,4) by (simp_all add: stored_def b bucket_good_new)
qed

section \<open>The table implements the map interface\<close>

definition ht_put :: "'d hashtable \<Rightarrow> byte_seq \<Rightarrow> 'd \<Rightarrow> 'd hashtable" where
  "ht_put ht key d = snd (the (ina_hashtable_set ht (Some key) (Some d)))"

definition ht_del :: "'d hashtable \<Rightarrow> byte_seq \<Rightarrow> 'd hashtable" where
  "ht_del ht key = snd (the (ina_hashtable_remove ht (Some key) False))"

lemma ht_put_correct:
  assumes "ht_inv k ht" "good_key k key"
  shows "ht_inv k (ht_put ht key d) \<and> (\<forall>key'. ht_look k (ht_put ht key d) key' = (if key' = key then Some d else ht_look k ht key'))"
  using set_correct [OF assms, of d] by (auto simp: ht_put_def)

lemma ht_del_correct:
  assumes "ht_inv k ht" "length key = k"
  shows "ht_inv k (ht_del ht key) \<and> (\<forall>key'. ht_look k (ht_del ht key) key' = (if key' = key then None else ht_look k ht key'))"
  using remove_correct [OF assms] by (auto simp: ht_del_def)

interpretation ht_map: map_contract "ht_inv k" "good_key k" "ht_look k" ht_put ht_del for k
  by unfold_locales (auto simp: ht_put_correct ht_del_correct good_key_def)

text \<open>A call whose key lies at a given address.\<close>

fun ht_call :: "ext_hashes \<Rightarrow> ina_hash_type_t \<Rightarrow> nat \<times> (byte_seq, 'd) map_op \<Rightarrow> 'd hashtable \<Rightarrow> 'd hashtable" where
  "ht_call x t (addr, oper) ht = run_op ht_put ht_del oper (key_at x t addr ht)"

lemma set_keeps_hash: "ina_hashtable_set ht key d = Some (r, ht') \<Longrightarrow> h_hash ht' = h_hash ht"
  by (auto simp: ina_hashtable_set_def ina_bucket_def set_bucket_def Let_def bind_eq_Some_conv split: option.splits if_splits prod.splits)

lemma remove_keeps_hash: "ina_hashtable_remove ht key n = Some (r, ht') \<Longrightarrow> h_hash ht' = h_hash ht"
  by (auto simp: ina_hashtable_remove_def ina_bucket_def set_bucket_def Let_def bind_eq_Some_conv split: option.splits if_splits)

lemma run_op_hash:
  assumes "ht_inv k ht" "good_key k (map_op_key oper)"
  shows "h_hash (run_op ht_put ht_del oper ht) = h_hash ht"
proof (cases oper)
  case (Put key d)
  with assms set_correct [of k ht key d] show ?thesis by (auto simp: ht_put_def dest: set_keeps_hash)
next
  case (Del key)
  with assms remove_correct [of k ht key] show ?thesis by (auto simp: ht_del_def good_key_def dest: remove_keeps_hash)
qed

definition crc_instructions :: "ina_hash_type_t \<Rightarrow> bool" where
  "crc_instructions t \<longleftrightarrow> t = INA_HASH32_CRC_HW \<or> t = INA_HASH64_CRC_HW"

lemma key_at_same: "\<not> crc_instructions t \<Longrightarrow> h_hash ht = hash_fn_of x t \<Longrightarrow> key_at x t addr ht = ht"
  by (cases t) (simp_all add: key_at_def crc_instructions_def)

lemma calls_at:
  assumes "ht_inv k ht" "h_hash ht = hash_fn_of x t" "\<not> crc_instructions t" "list_all (\<lambda>(_, oper). good_key k (map_op_key oper)) ops"
  shows "fold (ht_call x t) ops ht = fold (run_op ht_put ht_del) (map snd ops) ht \<and>
    h_hash (fold (run_op ht_put ht_del) (map snd ops) ht) = hash_fn_of x t"
  using assms
proof (induction ops arbitrary: ht)
  case (Cons c ops)
  obtain addr oper where c: "c = (addr, oper)" by (cases c)
  let ?ht = "run_op ht_put ht_del oper ht"
  have "ht_inv k ?ht" "h_hash ?ht = hash_fn_of x t"
    using Cons.prems c ht_map.run_op_step(1) [of k ht oper] run_op_hash [of k ht oper] by simp_all
  then show ?case using Cons.IH [of ?ht] Cons.prems c by (simp add: key_at_same)
qed simp

text \<open>C1. A hash table with keys of one fixed length, from its creation on and for any sequence of sets and
  removes whose keys do not begin with four zero bytes, answers every lookup of such a key like the
  mathematical map: \<open>ina_hashtable_get\<close> returns the value last set and not removed since, and
  \<open>INA_ERR_NOT_FOUND\<close> otherwise, wherever the keys of the calls lie, for every hash function but the two made of CRC
  instructions, whose value depends on the address of the key, and whatever the capacity, the collisions, the
  bucket expansions and the reuse of removed nodes.\<close>

theorem hashtable_is_map:
  assumes "ina_hashtable_new x kt t cap cf False ids = Some (Inr ht, ids')" "key_len_of kt = Some k" "\<not> crc_instructions t"
    and "list_all (\<lambda>(_, oper). good_key k (map_op_key oper)) ops" "good_key k key"
  shows "\<exists>ht'. ina_hashtable_get (key_at x t addr (fold (ht_call x t) ops ht)) (Some key) False =
    Some (case fold abs_op (map snd ops) Map.empty key of Some d \<Rightarrow> Inr d | None \<Rightarrow> Inl ERR_NOT_FOUND, ht')"
proof -
  let ?ht = "fold (run_op ht_put ht_del) (map snd ops) ht"
  have h: "h_hash ht = hash_fn_of x t" using new_fields [OF assms(1)] by blast
  have r: "ht_inv k ?ht \<and> (\<forall>key. good_key k key \<longrightarrow> ht_look k ?ht key = fold abs_op (map snd ops) Map.empty key)"
    using assms(4) by (intro ht_map.run_ops_refine new_correct [OF assms(1,2)]) (auto simp: list_all_iff)
  have "key_at x t addr (fold (ht_call x t) ops ht) = ?ht"
    using calls_at [OF new_correct(1) [OF assms(1,2)] h assms(3,4)] assms(3) by (simp add: key_at_same)
  moreover have "length key = k" using assms(5) by (simp add: good_key_def)
  ultimately show ?thesis using r get_correct [of k ?ht key] assms(5) by fastforce
qed

text \<open>Vendored hashes for concrete tables that do not use them.\<close>

definition no_ext :: ext_hashes where
  "no_ext = \<lparr>x_XXH32 = \<lambda>_ _. 0, x_XXH64 = \<lambda>_ _. 0, x_memhash = \<lambda>_ _. 0, x_falkhash = \<lambda>_ _. 0,
     x_t1ha0 = \<lambda>_ _. 0, x_t1ha = \<lambda>_ _. 0, x_op8 = \<lambda>_ _. 0, x_op16 = \<lambda>_ _. 0, x_op32 = \<lambda>_ _. 0,
     x_op64 = \<lambda>_ _. 0, x_addr = 0\<rparr>"

definition demo_table :: "nat hashtable" where
  "demo_table = plain_table no_ext UINT32_KEY 4 INA_HASH32_DJB 3 0"

lemma demo_new: "ina_hashtable_new no_ext UINT32_KEY INA_HASH32_DJB 3 0 False [] = Some (Inr demo_table, [])"
  by (simp add: ina_hashtable_new_def demo_table_def)

lemmas demo_inv = new_correct [OF demo_new key_len_of.simps(1)]

definition demo_calls :: "(nat \<times> (byte_seq, nat) map_op) list" where
  "demo_calls = [(0, Put [1, 0, 0, 0] 7), (3, Put [4, 0, 0, 0] 8), (6, Del [1, 0, 0, 0]), (1, Put [1, 0, 0, 0] 9)]"

theorem hashtable_is_map_witness:
  "\<exists>ht'. ina_hashtable_get (key_at no_ext INA_HASH32_DJB 5 (fold (ht_call no_ext INA_HASH32_DJB) demo_calls demo_table))
      (Some [4, 0, 0, 0]) False = Some (Inr 8, ht')"
  using hashtable_is_map [OF demo_new key_len_of.simps(1), of demo_calls "[4, 0, 0, 0]" 5]
  by (simp add: good_key_def demo_calls_def crc_instructions_def del: fold_simps(2))

section \<open>Keys that begin with four zero bytes\<close>

lemma get_scan_blind:
  "(\<And>n. n \<in> set ns \<Longrightarrow> key_u32 n = 0 \<or> \<not> key_matches key n) \<Longrightarrow> get_scan key i ns = None"
  by (induction key i ns rule: get_scan.induct) auto

lemma zero_prefix_no_match:
  assumes "key_u32 n \<noteq> 0" "take 4 key = [0, 0, 0, 0]" "length key = k" "4 \<le> k"
  shows "\<not> key_matches key n"
proof
  assume "key_matches key n"
  then have "take 4 (take k (n_key n)) = take 4 key" using assms(3) by (simp add: key_matches_def)
  then have "take 4 (n_key n) = [0, 0, 0, 0]" using assms(2,4) by (simp add: min_def)
  then show False using assms(1) by (simp add: key_u32_def)
qed

lemma store_zero_key:
  assumes good: "bucket_good hf k i b" and room: "b_count b < b_max b" and k: "4 \<le> k" "k \<le> 16"
    and key: "length key = k" "take 4 key = [0, 0, 0, 0]" and st: "store key d b = (added, b')"
  shows "added \<and> get_scan key 0 (live b') = None"
proof -
  have len: "length (b_nodes b) = b_max b + 1" using good room by (auto simp: bucket_good_def bucket_ok_def split: if_splits)
  have nz: "\<And>n. n \<in> set (live b) \<Longrightarrow> key_u32 n \<noteq> 0" using good by (auto simp: bucket_good_def)
  have nm: "\<not> key_matches key n" if "n \<in> set (live b)" for n
    using zero_prefix_no_match [OF nz [OF that] key(2,1) k(1)] .
  obtain fr where m: "set_scan key 0 None (live b) = Miss fr"
  proof (cases "set_scan key 0 None (live b)")
    case (Hit j)
    then have "key_matches key (live b ! j)" "j < length (live b)" using set_scan_Hit [OF Hit] by auto
    then show ?thesis using nm nth_mem by blast
  qed (use that in blast)
  have fr: "fr = None \<or> (\<exists>j. fr = Some j \<and> j < length (live b))"
    using set_scan_Miss [OF m nz] by auto
  obtain n where z: "key_u32 n = 0" and l: "set (live b') \<subseteq> insert n (set (live b))" and a: added
  proof -
    define j where "j = (case fr of None \<Rightarrow> b_count b | Some j \<Rightarrow> j)"
    define n where "n = \<lparr>n_key = store_key key (n_key (b_nodes b ! j)), n_data = Some d\<rparr>"
    have "take 4 (n_key n) = [0, 0, 0, 0]" using key k by (simp add: n_def store_key_def)
    then have z: "key_u32 n = 0" by (simp add: key_u32_def)
    have "live b' = (case fr of None \<Rightarrow> live b @ [n] | Some j \<Rightarrow> (live b)[j := n]) \<and> added"
      using st m fr live_append [of b n] live_update [of j b n] len room
      by (auto simp: store_def live_def j_def n_def)
    then show ?thesis using that [OF z] by (auto split: option.splits dest: set_update_subset_insert [THEN subsetD])
  qed
  have "get_scan key 0 (live b') = None"
    using l z nm by (intro get_scan_blind) blast
  then show ?thesis using a by simp
qed

lemma set_get_zero_key:
  assumes inv: "ht_inv k ht" and key: "length key = k" "take 4 key = [0, 0, 0, 0]"
  shows "\<exists>ht' ht''. ina_hashtable_set ht (Some key) (Some d) = Some (Inr (), ht') \<and>
    h_count ht' = h_count ht + 1 \<and>
    ina_hashtable_get ht' (Some key) False = Some (Inl ERR_NOT_FOUND, ht'')"
proof -
  have k: "4 \<le> k" "k \<le> 16" "length key \<le> 16" using inv key by (auto simp: ht_inv_def)
  obtain h b where h: "ina_bucket_hash ht key = Some h" "unat h < h_capacity ht"
    and g: "bucket_good (ina_bucket_hash ht) k (unat h) b" and room: "b_count b < b_max b"
    and l: "live b = live (h_buckets ht ! unat h)"
    and run: "\<And>d added b'. store key d b = (added, b') \<Longrightarrow>
      \<exists>ht'. ina_hashtable_set ht (Some key) (Some d) = Some (Inr (), ht') \<and> h_hash ht' = h_hash ht \<and>
        h_capacity ht' = h_capacity ht \<and> h_buckets ht' = (h_buckets ht)[unat h := b'] \<and>
        h_count ht' = h_count ht + (if added then 1 else 0)"
    using set_steps [OF inv key(1)] by blast
  obtain added b' where st: "store key d b = (added, b')" by fastforce
  have z: "added" "get_scan key 0 (live b') = None" using store_zero_key [OF g room k(1,2) key st] by auto
  obtain ht' where s: "ina_hashtable_set ht (Some key) (Some d) = Some (Inr (), ht')"
    and f: "h_hash ht' = h_hash ht" "h_capacity ht' = h_capacity ht" "h_buckets ht' = (h_buckets ht)[unat h := b']"
    and c: "h_count ht' = h_count ht + 1" using run [OF st] z(1) by auto
  have len: "unat h < length (h_buckets ht')" using inv h(2) f by (simp add: ht_inv_def)
  have "ina_bucket_hash ht' key = Some h" using bucket_hash_cong [OF f(1,2)] h(1) by simp
  from get_raw [OF this len k(3)] obtain ht'' where "ina_hashtable_get ht' (Some key) False =
      Some (case get_scan key 0 (live (h_buckets ht' ! unat h)) of
              Some j \<Rightarrow> Inr (the (n_data (b_nodes (h_buckets ht' ! unat h) ! j))) | None \<Rightarrow> Inl ERR_NOT_FOUND, ht'')"
    by blast
  moreover have "h_buckets ht' ! unat h = b'" using len by (simp add: f(3))
  ultimately have "ina_hashtable_get ht' (Some key) False = Some (Inl ERR_NOT_FOUND, ht'')"
    by (simp only: z(2)) simp
  then show ?thesis using s c by blast
qed

text \<open>A key whose first four bytes are zero is lost: setting it succeeds and increases the
  counter, and looking it up right afterwards reports \<open>INA_ERR_NOT_FOUND\<close>, in every table that
  satisfies the invariant.\<close>

theorem zero_key_lost:
  assumes "ht_inv k ht" "length key = k" "take 4 key = [0, 0, 0, 0]"
  shows "\<exists>ht' ht''. ina_hashtable_set ht (Some key) (Some d) = Some (Inr (), ht') \<and>
    h_count ht' = h_count ht + 1 \<and>
    ina_hashtable_get ht' (Some key) False = Some (Inl ERR_NOT_FOUND, ht'')"
  using assms by (rule set_get_zero_key)

theorem zero_key_lost_witness:
  "\<exists>ht' ht''. ina_hashtable_set demo_table (Some [0, 0, 0, 0]) (Some 5) = Some (Inr (), ht') \<and>
    h_count ht' = h_count demo_table + 1 \<and>
    ina_hashtable_get ht' (Some [0, 0, 0, 0]) False = Some (Inl ERR_NOT_FOUND, ht'')"
  using zero_key_lost [OF demo_inv(1), of "[0, 0, 0, 0]" 5] by simp

lemma length_le_bytes [simp]: "length (le_bytes n w) = n"
  by (induction n arbitrary: w) auto

end
