(* ===== verification/Inac_Hashtable_Iter.thy ===== *)
theory Inac_Hashtable_Iter
  imports Inac_Hashtable
begin

text \<open>
  Further properties of the hash table: how the entry counter drifts below the number of
  entries, what iterator and \<open>foreach\<close> visit, how the typed wrappers of
  \<open>include/libinac/hashtable.h\<close> behave, and how identifiers of monitored tables are handed out
  twice.
\<close>

section \<open>Entries\<close>

lemma look_nodes_iff:
  assumes "distinct (map (\<lambda>n. take k (n_key n)) ns)"
  shows "look_nodes k ns key = Some d \<longleftrightarrow> (\<exists>n \<in> set ns. take k (n_key n) = key \<and> n_data n = Some d)"
proof -
  have "distinct (map fst (keyed k ns))" using assms by (simp add: comp_def)
  then have "map_of (keyed k ns) key = Some (Some d) \<longleftrightarrow> (key, Some d) \<in> set (keyed k ns)" by simp
  moreover have "look_nodes k ns key = Some d \<longleftrightarrow> map_of (keyed k ns) key = Some (Some d)"
    by (simp add: look_nodes_def split: option.split)
  ultimately show ?thesis by force
qed

lemma ht_look_iff:
  assumes inv: "ht_inv k ht"
  shows "ht_look k ht key = Some d \<longleftrightarrow>
    (\<exists>i < h_capacity ht. \<exists>n \<in> set (live (h_buckets ht ! i)). take k (n_key n) = key \<and> n_data n = Some d)"
    (is "?l \<longleftrightarrow> ?r")
proof -
  have b: "bucket_good (ina_bucket_hash ht) k i (h_buckets ht ! i)" if "i < h_capacity ht" for i
    using inv that by (simp add: ht_inv_def)
  have u: "unat (of_nat i :: u64) = i" if "i < h_capacity ht" for i
    using that inv by (intro unat_of_nat_small) (simp add: ht_inv_def)
  have it: "look_nodes k (live (h_buckets ht ! i)) key = Some d \<longleftrightarrow>
      (\<exists>n \<in> set (live (h_buckets ht ! i)). take k (n_key n) = key \<and> n_data n = Some d)" if "i < h_capacity ht" for i
    using b [OF that] by (intro look_nodes_iff) (simp add: bucket_good_def)
  have "?r" if ?l
  proof -
    from that obtain h where h: "ina_bucket_hash ht key = Some h" "look_nodes k (live (h_buckets ht ! unat h)) key = Some d"
      by (auto simp: ht_look_def split: option.splits)
    then have "unat h < h_capacity ht" using bucket_hash_bound [OF _ _ h(1)] inv by (simp add: ht_inv_def)
    then show ?thesis using it h(2) by blast
  qed
  moreover have "?l" if i: "i < h_capacity ht" "n \<in> set (live (h_buckets ht ! i))" "take k (n_key n) = key" "n_data n = Some d" for i n
  proof -
    have "ina_bucket_hash ht key = Some (of_nat i)" using b [OF i(1)] i(2,3) by (auto simp: bucket_good_def)
    moreover have "look_nodes k (live (h_buckets ht ! i)) key = Some d" using it [OF i(1)] i(2-4) by blast
    ultimately show ?thesis using u [OF i(1)] by (simp add: ht_look_def)
  qed
  ultimately show ?thesis by blast
qed

lemma look_stored: "ht_inv k ht \<Longrightarrow> ht_look k ht key = Some d \<Longrightarrow> stored k ht key"
  by (force simp: ht_look_iff stored_def)

section \<open>The entry counter\<close>

text \<open>Removing a key and setting it again restores the map but not the counter: the table then
  reports one entry fewer than it holds.\<close>

theorem count_drifts:
  assumes "ht_inv k ht" "good_key k key" "ht_look k ht key = Some e"
  shows "\<exists>ht1 ht2. ina_hashtable_remove ht (Some key) False = Some (Inr e, ht1) \<and>
    ina_hashtable_set ht1 (Some key) (Some e) = Some (Inr (), ht2) \<and>
    ht_look k ht2 = ht_look k ht \<and> ina_hashtable_count ht2 False = Inr (of_int (h_count ht - 1))"
proof -
  have len: "length key = k" using assms(2) by (simp add: good_key_def)
  obtain ht1 where r: "ina_hashtable_remove ht (Some key) False = Some (Inr e, ht1)"
    and i1: "ht_inv k ht1" and l1: "\<And>key'. ht_look k ht1 key' = (if key' = key then None else ht_look k ht key')"
    and c1: "h_count ht1 = h_count ht - 1" and s1: "\<And>key'. stored k ht1 key' = stored k ht key'"
    using remove_correct [OF assms(1) len] assms(3) by auto
  obtain ht2 where s: "ina_hashtable_set ht1 (Some key) (Some e) = Some (Inr (), ht2)"
    and l2: "\<And>key'. ht_look k ht2 key' = (if key' = key then Some e else ht_look k ht1 key')"
    and c2: "h_count ht2 = h_count ht1 + (if stored k ht1 key then 0 else 1)"
    using set_correct [OF i1 assms(2)] by blast
  have "stored k ht key" by (rule look_stored [OF assms(1,3)])
  then have "h_count ht2 = h_count ht - 1" using c1 c2 s1 by simp
  moreover have "ht_look k ht2 = ht_look k ht" using l1 l2 assms(3) by (auto simp: fun_eq_iff)
  ultimately show ?thesis using r s by (simp add: ina_hashtable_count_def)
qed

section \<open>Iteration\<close>

text \<open>The entries of a table, with their keys, in the order of buckets and nodes.\<close>

definition node_pair :: "nat \<Rightarrow> 'd node \<Rightarrow> (byte_seq \<times> 'd) option" where
  "node_pair k n = map_option (Pair (take k (n_key n))) (n_data n)"

definition bucket_pairs :: "nat \<Rightarrow> 'd bucket \<Rightarrow> (byte_seq \<times> 'd) list" where
  "bucket_pairs k b = List.map_filter (node_pair k) (live b)"

definition ht_pairs :: "nat \<Rightarrow> 'd hashtable \<Rightarrow> (byte_seq \<times> 'd) list" where
  "ht_pairs k ht = concat (map (bucket_pairs k) (take (h_capacity ht) (h_buckets ht)))"

text \<open>What a callback loop is to do: run over a list until the first failure.\<close>

fun run_until :: "('d \<Rightarrow> 's \<Rightarrow> unit ina_res \<times> 's) \<Rightarrow> 'd list \<Rightarrow> 's \<Rightarrow> unit ina_res \<times> 's" where
  "run_until f [] s = (Inr (), s)"
| "run_until f (d # ds) s = (case f d s of (Inl e, s) \<Rightarrow> (Inl e, s) | (Inr _, s) \<Rightarrow> run_until f ds s)"

text \<open>The results of \<open>m\<close> calls of \<open>ina_hashtable_iter_next\<close>.\<close>

fun iter_run :: "nat \<Rightarrow> 'd hashtable \<Rightarrow> iter \<Rightarrow> 'd ina_res list" where
  "iter_run 0 ht it = []"
| "iter_run (Suc m) ht it = (case ina_hashtable_iter_next ht it False of (r, it) \<Rightarrow> r # iter_run m ht it)"

lemma run_until_append:
  "run_until f (xs @ ys) s = (case run_until f xs s of (Inl e, s) \<Rightarrow> (Inl e, s) | (Inr _, s) \<Rightarrow> run_until f ys s)"
  by (induction xs arbitrary: s) (auto split: sum.split prod.split)

lemma map_filter_Nil [simp]: "List.map_filter f [] = []"
  by (simp add: List.map_filter_def)

lemma map_filter_Cons [simp]:
  "List.map_filter f (x # xs) = (case f x of None \<Rightarrow> List.map_filter f xs | Some y \<Rightarrow> y # List.map_filter f xs)"
  by (simp add: List.map_filter_def split: option.split)

lemma foreach_nodes_run: "foreach_nodes f ns s = run_until f (map snd (List.map_filter (node_pair k) ns)) s"
  by (induction ns arbitrary: s) (auto simp: node_pair_def split: option.split sum.split prod.split)

lemma foreach_buckets_run: "foreach_buckets f bs s = run_until f (map snd (concat (map (bucket_pairs k) bs))) s"
proof (induction bs arbitrary: s)
  case (Cons b bs)
  have "foreach_nodes f (take (b_count b) (b_nodes b)) s = run_until f (map snd (bucket_pairs k b)) s"
    by (simp add: bucket_pairs_def live_def foreach_nodes_run [of f _ s k])
  moreover have "bucket_pairs k b = []" if "b_count b = 0"
    using that by (simp add: bucket_pairs_def live_def)
  ultimately show ?case using Cons.IH by (auto simp: run_until_append split: sum.split prod.split)
qed simp

lemma foreach_run: "ina_hashtable_foreach ht (Some f) err_get_rc s = foreach_result err_get_rc (run_until f (map snd (ht_pairs k ht)) s)"
  by (simp add: ina_hashtable_foreach_def ht_pairs_def foreach_buckets_run [of f _ s k])

lemma in_map_filter: "y \<in> set (List.map_filter f xs) \<longleftrightarrow> (\<exists>x \<in> set xs. f x = Some y)"
  by (induction xs) (auto split: option.splits)

lemma in_bucket_pairs:
  "(key, d) \<in> set (bucket_pairs k b) \<longleftrightarrow> (\<exists>n \<in> set (live b). take k (n_key n) = key \<and> n_data n = Some d)"
  by (auto simp: bucket_pairs_def in_map_filter node_pair_def)

lemma in_ht_pairs:
  assumes "ht_inv k ht"
  shows "(key, d) \<in> set (ht_pairs k ht) \<longleftrightarrow> ht_look k ht key = Some d"
proof -
  have "set (take (h_capacity ht) (h_buckets ht)) = (\<lambda>i. h_buckets ht ! i) ` {i. i < h_capacity ht}"
    using assms nth_image [of "h_capacity ht" "h_buckets ht"] by (auto simp: ht_inv_def atLeast0LessThan lessThan_def)
  then show ?thesis by (auto simp: ht_pairs_def in_bucket_pairs ht_look_iff [OF assms])
qed

lemma distinct_map_filter:
  "distinct (map g xs) \<Longrightarrow> (\<And>x y. f x = Some y \<Longrightarrow> h y = g x) \<Longrightarrow> distinct (map h (List.map_filter f xs))"
proof (induction xs)
  case (Cons x xs)
  have "h y \<notin> h ` set (List.map_filter f xs)" if "f x = Some y" for y
    using Cons.prems that by (fastforce simp: in_map_filter)
  then show ?case using Cons by (auto split: option.split)
qed simp

lemma distinct_bucket_pairs: "bucket_good hf k i b \<Longrightarrow> distinct (map fst (bucket_pairs k b))"
  unfolding bucket_pairs_def
  by (rule distinct_map_filter [where g = "\<lambda>n. take k (n_key n)"]) (auto simp: bucket_good_def node_pair_def)

lemma distinct_buckets:
  assumes "\<And>j. j < length bs \<Longrightarrow> bucket_good hf k (i + j) (bs ! j)" "i + length bs < 2 ^ 64"
  shows "distinct (map fst (concat (map (bucket_pairs k) bs))) \<and>
    (\<forall>key \<in> fst ` set (concat (map (bucket_pairs k) bs)). \<exists>j. i \<le> j \<and> j < i + length bs \<and> hf key = Some (of_nat j))"
  using assms
proof (induction bs arbitrary: i)
  case (Cons b bs)
  have b: "bucket_good hf k i b" using Cons.prems(1) [of 0] by simp
  have IH: "distinct (map fst (concat (map (bucket_pairs k) bs)))"
    "\<And>key. key \<in> fst ` set (concat (map (bucket_pairs k) bs)) \<Longrightarrow> \<exists>j. Suc i \<le> j \<and> j < Suc i + length bs \<and> hf key = Some (of_nat j)"
    using Cons.IH [of "Suc i"] Cons.prems(1) [of "Suc j" for j] Cons.prems(2) by auto
  have own: "hf key = Some (of_nat i)" if "key \<in> fst ` set (bucket_pairs k b)" for key
    using that b by (auto simp: in_bucket_pairs bucket_good_def)
  have "fst ` set (bucket_pairs k b) \<inter> fst ` set (concat (map (bucket_pairs k) bs)) = {}"
  proof (rule ccontr)
    assume "\<not> ?thesis"
    then obtain key where k: "key \<in> fst ` set (bucket_pairs k b)" "key \<in> fst ` set (concat (map (bucket_pairs k) bs))" by blast
    then obtain j where j: "Suc i \<le> j" "j < Suc i + length bs" "hf key = Some (of_nat j)" using IH(2) by blast
    then have "unat (of_nat i :: u64) = unat (of_nat j :: u64)" using own [OF k(1)] by simp
    then show False using j(1,2) Cons.prems(2) by (simp add: unat_of_nat_small)
  qed
  moreover have "\<exists>j. i \<le> j \<and> j < i + length (b # bs) \<and> hf key = Some (of_nat j)"
    if "key \<in> fst ` set (concat (map (bucket_pairs k) (b # bs)))" for key
  proof (cases "key \<in> fst ` set (bucket_pairs k b)")
    case True
    then show ?thesis using own [OF True] by (intro exI [of _ i]) simp
  next
    case False
    then have "key \<in> fst ` set (concat (map (bucket_pairs k) bs))" using that by (auto simp: image_Un)
    then obtain j where "Suc i \<le> j" "j < Suc i + length bs" "hf key = Some (of_nat j)" using IH(2) by blast
    then show ?thesis by (intro exI [of _ j]) simp
  qed
  ultimately show ?case using distinct_bucket_pairs [OF b] IH(1) by simp
qed simp

lemma ht_pairs_map:
  assumes "ht_inv k ht"
  shows "distinct (map fst (ht_pairs k ht))" "map_of (ht_pairs k ht) = ht_look k ht"
proof -
  show d: "distinct (map fst (ht_pairs k ht))"
    using assms distinct_buckets [of "take (h_capacity ht) (h_buckets ht)" "ina_bucket_hash ht" k 0]
    by (simp add: ht_pairs_def ht_inv_def)
  have "map_of (ht_pairs k ht) key = Some e \<longleftrightarrow> ht_look k ht key = Some e" for key e
    using d in_ht_pairs [OF assms] by simp
  then show "map_of (ht_pairs k ht) = ht_look k ht" by (metis ext not_None_eq)
qed

text \<open>The entries an iterator at bucket \<open>i\<close> and node \<open>j\<close> has still to visit.\<close>

definition rest :: "nat \<Rightarrow> 'd hashtable \<Rightarrow> nat \<Rightarrow> nat \<Rightarrow> (byte_seq \<times> 'd) list" where
  "rest k ht i j =
     (if i < h_capacity ht
      then List.map_filter (node_pair k) (drop j (live (h_buckets ht ! i))) @
           concat (map (bucket_pairs k) (drop (i + 1) (take (h_capacity ht) (h_buckets ht))))
      else [])"

lemma rest_start: "ht_inv k ht \<Longrightarrow> rest k ht 0 0 = ht_pairs k ht"
  by (cases "h_buckets ht"; cases "h_capacity ht") (auto simp: rest_def ht_pairs_def bucket_pairs_def ht_inv_def)

lemma rest_skip:
  assumes "length (h_buckets ht) = h_capacity ht + 1" "i < h_capacity ht" "length (live (h_buckets ht ! i)) \<le> j"
  shows "rest k ht i j = rest k ht (i + 1) 0"
proof (cases "i + 1 < h_capacity ht")
  case True
  then have "drop (i + 1) (take (h_capacity ht) (h_buckets ht)) =
      h_buckets ht ! (i + 1) # drop (i + 2) (take (h_capacity ht) (h_buckets ht))"
    using Cons_nth_drop_Suc [of "i + 1" "take (h_capacity ht) (h_buckets ht)"] assms(1) by simp
  then show ?thesis using assms True by (simp add: rest_def bucket_pairs_def)
qed (use assms in \<open>simp add: rest_def\<close>)

lemma rest_step:
  assumes "i < h_capacity ht" "j < b_count (h_buckets ht ! i)" "j < length (b_nodes (h_buckets ht ! i))"
  shows "rest k ht i j =
    (case n_data (b_nodes (h_buckets ht ! i) ! j) of
       None \<Rightarrow> rest k ht i (j + 1)
     | Some d \<Rightarrow> (take k (n_key (b_nodes (h_buckets ht ! i) ! j)), d) # rest k ht i (j + 1))"
proof -
  have "drop j (live (h_buckets ht ! i)) = b_nodes (h_buckets ht ! i) ! j # drop (j + 1) (live (h_buckets ht ! i))"
    using assms Cons_nth_drop_Suc [of j "live (h_buckets ht ! i)"] by (simp add: live_def)
  then show ?thesis using assms(1) by (simp add: rest_def node_pair_def split: option.split)
qed

lemma iter_advance_rest:
  assumes "length (h_buckets ht) = h_capacity ht + 1"
  shows "case fst (iter_advance ht i j) of
      None \<Rightarrow> rest k ht i j = []
    | Some (d, i', j') \<Rightarrow> \<exists>key. rest k ht i j = (key, d) # rest k ht i' j'"
  using assms
proof (induction ht i j rule: iter_advance.induct)
  case (1 ht i j)
  show ?case
  proof (cases "i < h_capacity ht")
    case i: True
    show ?thesis
    proof (cases "j < b_count (h_buckets ht ! i) \<and> j < length (b_nodes (h_buckets ht ! i))")
      case j: True
      then show ?thesis
        using "1.IH"(1) [OF i j] "1.prems" i rest_step [OF i, of j k]
        by (cases "n_data (b_nodes (h_buckets ht ! i) ! j)") (auto simp: iter_advance.simps [of ht i j] split: option.splits)
    next
      case j: False
      then have "length (live (h_buckets ht ! i)) \<le> j" by (auto simp: live_def)
      then show ?thesis
        using "1.IH"(2) [OF i j "1.prems"] i j rest_skip [OF "1.prems" i, of j k]
        by (subst iter_advance.simps) (simp only: if_True if_False)
    qed
  qed (simp add: iter_advance.simps rest_def)
qed

abbreviation END_OF :: ina_rc_t where "END_OF \<equiv> INA_ERR ''END_OF''"

lemma iter_run_rest:
  assumes "length (h_buckets ht) = h_capacity ht + 1"
  shows "it_checksum it = h_count ht \<Longrightarrow> rest k ht (it_bucket it) (it_node it) = ps \<Longrightarrow>
    iter_run (Suc (length ps)) ht it = map (Inr \<circ> snd) ps @ [Inl END_OF]"
proof (induction ps arbitrary: it)
  case Nil
  then show ?case
    using iter_advance_rest [OF assms, where i = "it_bucket it" and j = "it_node it" and k = k]
    by (cases "iter_advance ht (it_bucket it) (it_node it)") (auto simp: ina_hashtable_iter_next_def split: option.splits)
next
  case (Cons p ps)
  obtain d i j y where a: "iter_advance ht (it_bucket it) (it_node it) = (Some (d, i, j), y)"
    and p: "snd p = d" "rest k ht i j = ps"
    using iter_advance_rest [OF assms, where i = "it_bucket it" and j = "it_node it" and k = k] Cons.prems
    by (cases "iter_advance ht (it_bucket it) (it_node it)") (auto split: option.splits)
  then show ?case
    using Cons.IH [of "it\<lparr>it_bucket := i, it_node := j\<rparr>"] Cons.prems(1) p
    by (simp add: ina_hashtable_iter_next_def del: iter_run.simps(2) add: iter_run.simps(2) [of "Suc (length ps)"])
qed

text \<open>A run of sets and removes read as a whole.\<close>

lemma run_ops_look:
  assumes "ht_inv k ht" "list_all (\<lambda>oper. good_key k (map_op_key oper)) ops"
  shows "ht_inv k (fold (run_op ht_put ht_del) ops ht) \<and> ht_look k (fold (run_op ht_put ht_del) ops ht) = fold abs_op ops (ht_look k ht)"
  using assms
proof (induction ops arbitrary: ht)
  case (Cons oper ops)
  have "ht_inv k (run_op ht_put ht_del oper ht) \<and> ht_look k (run_op ht_put ht_del oper ht) = abs_op oper (ht_look k ht)"
    using Cons.prems ht_put_correct [of k ht] ht_del_correct [of k ht] by (cases oper) (auto simp: good_key_def)
  then show ?case using Cons by simp
qed simp

text \<open>C13. Iteration is complete and exact for a table with keys of one fixed length that was filled by any sequence of
  sets and removes whose keys do not begin with four zero bytes, with any hash function but the two made of
  CRC instructions.  There is a list of key and value pairs with distinct keys that, as a map, is what the
  operations built; a new iterator delivers exactly its values and then \<open>INA_ERR_END_OF\<close>, and \<open>ina_hashtable_foreach\<close> runs its callback over the same
  values in the same order, stopping at the first failure with the current return code.\<close>

theorem iteration_exact:
  assumes "ina_hashtable_new x kt t cap cf False ids = Some (Inr ht0, ids')" "key_len_of kt = Some k" "\<not> crc_instructions t"
    and "list_all (\<lambda>(_, oper). good_key k (map_op_key oper)) ops"
  defines "ht \<equiv> fold (ht_call x t) ops ht0"
  shows "\<exists>ps. distinct (map fst ps) \<and> map_of ps = fold abs_op (map snd ops) Map.empty \<and>
    iter_run (length ps + 1) ht (ina_hashtable_iter_new ht) = map (Inr \<circ> snd) ps @ [Inl END_OF] \<and>
    (\<forall>f err_get_rc (s :: 's). ina_hashtable_foreach ht (Some f) err_get_rc s = foreach_result err_get_rc (run_until f (map snd ps) s))"
proof -
  have h: "h_hash ht0 = hash_fn_of x t" using new_fields [OF assms(1)] by blast
  note new = new_correct [OF assms(1,2)]
  have "ht_look k ht0 = Map.empty" using new(2) by blast
  then have inv: "ht_inv k ht" "ht_look k ht = fold abs_op (map snd ops) Map.empty"
    using run_ops_look [OF new(1), of "map snd ops"] calls_at [OF new(1) h assms(3,4)] assms(4)
    by (simp_all add: ht_def list_all_iff split_beta)
  show ?thesis
  proof (intro exI conjI allI)
    show "iter_run (length (ht_pairs k ht) + 1) ht (ina_hashtable_iter_new ht) = map (Inr \<circ> snd) (ht_pairs k ht) @ [Inl END_OF]"
      using iter_run_rest [of ht "ina_hashtable_iter_new ht" k] rest_start [OF inv(1)] inv(1)
      by (simp add: ina_hashtable_iter_new_def ina_hashtable_iter_reset_def ht_inv_def)
    show "ina_hashtable_foreach ht (Some f) err_get_rc s = foreach_result err_get_rc (run_until f (map snd (ht_pairs k ht)) s)" for f err_get_rc and s :: 's
      by (rule foreach_run)
  qed (simp_all add: ht_pairs_map [OF inv(1)] inv(2))
qed

definition one_entry :: "nat hashtable" where
  "one_entry = ht_put demo_table [1, 0, 0, 0] 7"

lemma one_entry_inv: "ht_inv 4 one_entry" "ht_look 4 one_entry [1, 0, 0, 0] = Some 7"
  using ht_put_correct [OF demo_inv(1), of "[1, 0, 0, 0]" 7] by (simp_all add: one_entry_def good_key_def)

theorem iteration_exact_witness:
  "\<exists>ps. distinct (map fst ps) \<and> map_of ps = Map.empty([4 :: u8, 0, 0, 0] \<mapsto> 8, [1, 0, 0, 0] \<mapsto> (9 :: nat)) \<and>
    iter_run (length ps + 1) (fold (ht_call no_ext INA_HASH32_DJB) demo_calls demo_table)
      (ina_hashtable_iter_new (fold (ht_call no_ext INA_HASH32_DJB) demo_calls demo_table)) = map (Inr \<circ> snd) ps @ [Inl END_OF]"
proof -
  have m: "fold abs_op (map snd demo_calls) Map.empty = Map.empty([4, 0, 0, 0] \<mapsto> 8, [1, 0, 0, 0] \<mapsto> 9)"
    by (auto simp: demo_calls_def)
  have "\<not> crc_instructions INA_HASH32_DJB" "list_all (\<lambda>(_, oper). good_key 4 (map_op_key oper)) demo_calls"
    by (simp_all add: crc_instructions_def demo_calls_def good_key_def)
  from iteration_exact [OF demo_new key_len_of.simps(1) this, where 's = unit] show ?thesis unfolding m by blast
qed

theorem count_drifts_witness:
  "\<exists>ht1 ht2. ina_hashtable_remove one_entry (Some [1, 0, 0, 0]) False = Some (Inr 7, ht1) \<and>
    ina_hashtable_set ht1 (Some [1, 0, 0, 0]) (Some 7) = Some (Inr (), ht2) \<and>
    ht_look 4 ht2 = ht_look 4 one_entry \<and> ina_hashtable_count ht2 False = Inr (of_int (h_count one_entry - 1))"
  using count_drifts [OF one_entry_inv(1) _ one_entry_inv(2)] by (simp add: good_key_def)

section \<open>Typed keys\<close>

lemma bit_le_bytes: "i < n \<Longrightarrow> bit (le_bytes n w ! i) m \<longleftrightarrow> m < 8 \<and> bit w (8 * i + m)"
proof (induction n w arbitrary: i rule: le_bytes.induct)
  case (2 n w)
  then show ?case by (cases i) (auto simp: bit_unsigned_iff bit_drop_bit_eq ac_simps)
qed simp

lemma le_bytes_zero:
  assumes "4 \<le> n"
  shows "take 4 (le_bytes n (w :: 'a::len word)) = [0, 0, 0, 0] \<longleftrightarrow> (ucast w :: u32) = 0"
proof -
  have z: "[0, 0, 0, 0 :: u8] = replicate 4 0" by (simp add: numeral_eq_Suc)
  have "(take 4 (le_bytes n w) = replicate 4 0) \<longleftrightarrow> (\<forall>i < 4. take 4 (le_bytes n w) ! i = 0)"
    using assms by (auto simp: list_eq_iff_nth_eq)
  also have "\<dots> \<longleftrightarrow> (\<forall>i < 4. \<forall>m. \<not> (m < 8 \<and> bit w (8 * i + m)))"
    using assms by (simp add: bit_eq_iff bit_le_bytes)
  also have "\<dots> \<longleftrightarrow> (\<forall>m < 32. \<not> bit w m)"
  proof (intro iffI allI impI)
    fix m assume a: "\<forall>i < 4. \<forall>m. \<not> (m < 8 \<and> bit w (8 * i + m))" and m: "m < (32 :: nat)"
    have "m div 8 < 4" "m mod 8 < 8" using m by simp_all
    with a have "\<not> bit w (8 * (m div 8) + m mod 8)" by blast
    then show "\<not> bit w m" by simp
  qed auto
  also have "\<dots> \<longleftrightarrow> (ucast w :: u32) = 0" by (simp add: bit_eq_iff bit_unsigned_iff)
  finally show ?thesis by (simp only: z)
qed

lemma set_get_typed:
  assumes "ht_inv n ht" "4 \<le> n"
  shows "\<exists>ht' ht''. ina_hashtable_set ht (Some (le_bytes n w)) (Some d) = Some (Inr (), ht') \<and>
    ina_hashtable_get ht' (Some (le_bytes n w)) False =
      Some (if (ucast w :: u32) = 0 then Inl ERR_NOT_FOUND else Inr d, ht'')"
proof (cases "(ucast w :: u32) = 0")
  case True
  then have "take 4 (le_bytes n w) = [0, 0, 0, 0]" using le_bytes_zero [OF assms(2)] by blast
  from set_get_zero_key [OF assms(1) length_le_bytes this, of d] True show ?thesis by auto
next
  case False
  then have "take 4 (le_bytes n w) \<noteq> [0, 0, 0, 0]" using le_bytes_zero [OF assms(2)] by blast
  then have g: "good_key n (le_bytes n w)" by (simp add: good_key_def)
  obtain ht' where s: "ina_hashtable_set ht (Some (le_bytes n w)) (Some d) = Some (Inr (), ht')" "ht_inv n ht'"
    "ht_look n ht' (le_bytes n w) = Some d" using set_correct [OF assms(1) g, of d] by auto
  then show ?thesis using get_correct [OF s(2) length_le_bytes, of w] False by auto
qed

text \<open>The typed wrappers store and find every 32-bit key except 0, and every 64-bit key except
  the multiples of 2^32: those are accepted by the setter and then not found.\<close>

theorem typed_keys:
  assumes "ht_inv 4 ht4" "ht_inv 8 ht8"
  shows "(\<exists>ht' ht''. ina_hashtable_set_u32 ht4 w (Some d) = Some (Inr (), ht') \<and>
      ina_hashtable_get_u32 ht' w False = Some (if w = 0 then Inl ERR_NOT_FOUND else Inr d, ht'')) \<and>
    (\<exists>ht' ht''. ina_hashtable_set_u64 ht8 v (Some d) = Some (Inr (), ht') \<and>
      ina_hashtable_get_u64 ht' v False =
        Some (if (ucast v :: u32) = 0 then Inl ERR_NOT_FOUND else Inr d, ht''))"
  using set_get_typed [OF assms(1), of w d] set_get_typed [OF assms(2), of v d]
  by (simp add: ina_hashtable_set_u32_def ina_hashtable_get_u32_def ina_hashtable_set_u64_def ina_hashtable_get_u64_def)

definition demo_table8 :: "nat hashtable" where
  "demo_table8 = plain_table no_ext UINT64_KEY 8 INA_HASH64_FNV 3 0"

lemma demo_inv8: "ht_inv 8 demo_table8"
proof (rule new_correct)
  show "ina_hashtable_new no_ext UINT64_KEY INA_HASH64_FNV 3 0 False [] = Some (Inr demo_table8, [])"
    by (simp add: ina_hashtable_new_def demo_table8_def)
qed simp

theorem typed_keys_witness:
  "(\<exists>ht' ht''. ina_hashtable_set_u32 demo_table 5 (Some 1) = Some (Inr (), ht') \<and>
      ina_hashtable_get_u32 ht' 5 False = Some (Inr 1, ht'')) \<and>
    (\<exists>ht' ht''. ina_hashtable_set_u64 demo_table8 0x500000000 (Some 1) = Some (Inr (), ht') \<and>
      ina_hashtable_get_u64 ht' 0x500000000 False = Some (Inl ERR_NOT_FOUND, ht''))"
  using typed_keys [OF demo_inv(1) demo_inv8, of 5 1 "0x500000000"] by simp

section \<open>Identifiers of monitored tables\<close>

lemma find_slot_first:
  "i < length xs \<Longrightarrow> xs ! i = 0 \<Longrightarrow> (\<And>j. j < i \<Longrightarrow> xs ! j \<noteq> 0) \<Longrightarrow> find_slot m xs = Some (m + i)"
proof (induction xs arbitrary: i m)
  case (Cons x xs)
  show ?case
  proof (cases i)
    case (Suc i')
    then have "x \<noteq> 0" using Cons.prems(3) [of 0] by simp
    then show ?thesis using Cons.IH [of i' "m + 1"] Cons.prems(1,2) Cons.prems(3) [of "Suc j" for j] Suc by simp
  qed (use Cons.prems in simp)
qed simp

text \<open>Freeing a table hands the identifier of the \<^emph>\<open>following\<close> table out again: when the slots
  below \<open>h_id ht\<close> are taken, the next monitored table created after \<open>ina_hashtable_free ht\<close> gets
  the identifier \<open>h_id ht + 1\<close>, whether or not a live table carries it.  For a table without
  monitoring (identifier 0) this is identifier 1.\<close>

theorem freed_identifier:
  assumes "length ids = MAX_STAT_TABLES" "h_id ht < MAX_STAT_TABLES" "\<And>j. j < h_id ht \<Longrightarrow> ids ! j \<noteq> 0"
    and "key_len_of kt \<noteq> None" "cap \<le> 2 ^ 31 - 1" "cf AND CF_STAT \<noteq> 0"
  shows "\<exists>ids' ids'' ht'. ina_hashtable_free ht ids = Some ids' \<and>
    ina_hashtable_new x kt t cap cf False ids' = Some (Inr ht', ids'') \<and> h_id ht' = h_id ht + 1"
proof -
  have "ina_hashtable_free ht ids = Some (ids[h_id ht := 0])" using assms(1,2) by (simp add: ina_hashtable_free_def)
  moreover have "find_slot 0 (ids[h_id ht := 0]) = Some (0 + h_id ht)"
    using assms(1-3) by (intro find_slot_first) auto
  then have "ina_set_hashtable_id (ids[h_id ht := 0]) = Some (Inr (h_id ht + 1, (ids[h_id ht := 0])[h_id ht := 1]))"
    using assms(2) by (simp add: ina_set_hashtable_id_def)
  ultimately show ?thesis using assms(4-6) by (auto simp: ina_hashtable_new_def Let_def)
qed

text \<open>Two tables that are alive at the same time with identifier 1: the first is monitored, then a
  plain one is created and freed, then the second is monitored.\<close>

theorem freed_identifier_witness:
  "\<exists>ht1 ids1 ids2 ids3 (ht2 :: nat hashtable).
    ina_hashtable_new no_ext UINT32_KEY INA_HASH32_DJB 3 16 False (replicate 16 0) = Some (Inr (ht1 :: nat hashtable), ids1) \<and>
    h_id ht1 = 1 \<and> ina_hashtable_free demo_table ids1 = Some ids2 \<and>
    ina_hashtable_new no_ext UINT32_KEY INA_HASH32_DJB 3 16 False ids2 = Some (Inr ht2, ids3) \<and> h_id ht2 = 1"
proof -
  have "ina_set_hashtable_id (replicate 16 0) = Some (Inr (1, (replicate 16 0)[0 := 1]))"
    by (simp add: ina_set_hashtable_id_def numeral_eq_Suc)
  then have a: "\<exists>ht1 :: nat hashtable. ina_hashtable_new no_ext UINT32_KEY INA_HASH32_DJB 3 16 False (replicate 16 0) =
      Some (Inr ht1, (replicate 16 0)[0 := 1]) \<and> h_id ht1 = 1"
    by (simp add: ina_hashtable_new_def)
  have z: "h_id demo_table = 0" by (simp add: demo_table_def plain_table_def)
  have "\<exists>ids' ids'' ht'. ina_hashtable_free demo_table ((replicate 16 0)[0 := 1]) = Some ids' \<and>
      ina_hashtable_new no_ext UINT32_KEY INA_HASH32_DJB 3 16 False ids' = Some (Inr (ht' :: nat hashtable), ids'') \<and>
      h_id ht' = h_id demo_table + 1"
    by (rule freed_identifier) (simp_all add: z)
  then show ?thesis using a z by auto
qed

end
