(* ===== verification/Inac_List.thy ===== *)
theory Inac_List
  imports Inac_Hashtable "HOL-Library.Monad_Syntax"
begin

text \<open>
  The doubly linked list of \<open>src/list.c\<close> and \<open>include/libinac/list.h\<close> on an explicit memory of
  nodes.  A list keeps only its head; the \<open>prev\<close> pointer of the head is meant to point at the
  tail, so that appending takes constant time.  Removed nodes go to a stack of recycled nodes.
  Pointers are options (\<open>None\<close> for \<open>NULL\<close>), reading or writing through an invalid pointer or
  past an array is the outer \<open>None\<close>.  Pools only hand out fresh zeroed nodes here and release all
  of their nodes at once.  Shown: appending and removing refine the operations on mathematical
  lists, also across recycled nodes; concatenation appends; sorting sorts; what prepending,
  sorting, resizing and the recycling of too many nodes do to the structure.
\<close>

section \<open>Interface\<close>

text \<open>A sequence with appending and removal by value; \<open>rel s n xs\<close> relates a state to the list it stands
  for and allows \<open>n\<close> further removals.\<close>

datatype 'a seq_op = Push 'a | Rem 'a

fun seq_abs :: "'a seq_op \<Rightarrow> 'a list \<Rightarrow> 'a list" where
  "seq_abs (Push v) xs = xs @ [v]"
| "seq_abs (Rem v) xs = remove1 v xs"

fun removals :: "'a seq_op list \<Rightarrow> nat" where
  "removals [] = 0"
| "removals (Push v # ops) = removals ops"
| "removals (Rem v # ops) = Suc (removals ops)"

fun run_seq :: "('s \<Rightarrow> 'a \<Rightarrow> (bool \<times> 's) option) \<Rightarrow> ('s \<Rightarrow> 'a \<Rightarrow> (bool \<times> 's) option) \<Rightarrow> 'a seq_op list \<Rightarrow> 's \<Rightarrow> 's option" where
  "run_seq push rem [] s = Some s"
| "run_seq push rem (Push v # ops) s = do { (_, s) \<leftarrow> push s v; run_seq push rem ops s }"
| "run_seq push rem (Rem v # ops) s = do { (_, s) \<leftarrow> rem s v; run_seq push rem ops s }"

locale seq_contract =
  fixes rel :: "'s \<Rightarrow> nat \<Rightarrow> 'a list \<Rightarrow> bool"
    and push :: "'s \<Rightarrow> 'a \<Rightarrow> (bool \<times> 's) option"
    and rem :: "'s \<Rightarrow> 'a \<Rightarrow> (bool \<times> 's) option"
  assumes push_rel: "rel s n xs \<Longrightarrow> \<exists>s'. push s v = Some (True, s') \<and> rel s' n (xs @ [v])"
    and rem_rel: "rel s (Suc n) xs \<Longrightarrow> \<exists>s'. rem s v = Some (v \<in> set xs, s') \<and> rel s' n (remove1 v xs)"
begin

lemma run_refines:
  "rel s (removals ops) xs \<Longrightarrow> \<exists>s'. run_seq push rem ops s = Some s' \<and> rel s' 0 (fold seq_abs ops xs)"
proof (induction ops arbitrary: s xs)
  case (Cons oper ops)
  show ?case
  proof (cases oper)
    case (Push v)
    with Cons.prems have "rel s (removals ops) xs" by simp
    from push_rel [OF this, of v] show ?thesis using Cons.IH Push by fastforce
  next
    case (Rem v)
    with Cons.prems have "rel s (Suc (removals ops)) xs" by simp
    from rem_rel [OF this, of v] show ?thesis using Cons.IH Rem by fastforce
  qed
qed auto

end

section \<open>Memory\<close>

record 'd lnode =
  ln_next :: "nat option"
  ln_prev :: "nat option"
  ln_data :: "'d option"

record 'd lmem =
  lm_node :: "nat \<rightharpoonup> 'd lnode"
  lm_pool :: "nat \<Rightarrow> nat"
  lm_brk :: nat
  lm_pools :: nat

record llist =
  l_head :: "nat option"
  l_cf :: u32
  l_count :: u64
  l_max_recyclable :: nat
  l_mp :: "nat option"
  l_first_free :: "nat option list"
  l_last_free :: nat

text \<open>Access through a pointer.\<close>

definition deref :: "'d lmem \<Rightarrow> nat option \<Rightarrow> 'd lnode option" where
  "deref w p = Option.bind p (lm_node w)"

definition put_node :: "nat option \<Rightarrow> ('d lnode \<Rightarrow> 'd lnode) \<Rightarrow> 'd lmem \<Rightarrow> 'd lmem option" where
  "put_node p f w = do { a \<leftarrow> p; n \<leftarrow> lm_node w a; Some (w\<lparr>lm_node := (lm_node w)(a \<mapsto> f n)\<rparr>) }"

abbreviation set_next :: "nat option \<Rightarrow> nat option \<Rightarrow> 'd lmem \<Rightarrow> 'd lmem option" where
  "set_next p v \<equiv> put_node p (ln_next_update (\<lambda>_. v))"

abbreviation set_prev :: "nat option \<Rightarrow> nat option \<Rightarrow> 'd lmem \<Rightarrow> 'd lmem option" where
  "set_prev p v \<equiv> put_node p (ln_prev_update (\<lambda>_. v))"

abbreviation set_data :: "nat option \<Rightarrow> 'd option \<Rightarrow> 'd lmem \<Rightarrow> 'd lmem option" where
  "set_data p v \<equiv> put_node p (ln_data_update (\<lambda>_. v))"

text \<open>A pool: \<open>ina_mempool_new\<close>, \<open>ina_mempool_dalloc\<close> of one node, \<open>ina_mempool_free\<close> and
  \<open>ina_mempool_merge\<close> as far as the list uses them.\<close>

definition pool_new :: "'d lmem \<Rightarrow> nat \<times> 'd lmem" where
  "pool_new w = (lm_pools w, w\<lparr>lm_pools := lm_pools w + 1\<rparr>)"

definition pool_node :: "nat option \<Rightarrow> 'd lmem \<Rightarrow> (nat option \<times> 'd lmem) option" where
  "pool_node mp w =
     do { p \<leftarrow> mp;
          Some (Some (lm_brk w),
            w\<lparr>lm_node := (lm_node w)(lm_brk w \<mapsto> \<lparr>ln_next = None, ln_prev = None, ln_data = None\<rparr>),
              lm_pool := (lm_pool w)(lm_brk w := p), lm_brk := lm_brk w + 1\<rparr>) }"

definition pool_free :: "nat option \<Rightarrow> 'd lmem \<Rightarrow> 'd lmem" where
  "pool_free mp w =
     (case mp of None \<Rightarrow> w
      | Some p \<Rightarrow> w\<lparr>lm_node := (\<lambda>a. if lm_pool w a = p then None else lm_node w a)\<rparr>)"

definition pool_merge :: "nat \<Rightarrow> nat option \<Rightarrow> 'd lmem \<Rightarrow> 'd lmem" where
  "pool_merge p src w =
     (case src of None \<Rightarrow> w | Some q \<Rightarrow> w\<lparr>lm_pool := (\<lambda>a. if lm_pool w a = q then p else lm_pool w a)\<rparr>)"

section \<open>Operations\<close>

abbreviation LIST_DEFAULT_SIZE :: nat where "LIST_DEFAULT_SIZE \<equiv> 256"
abbreviation LIST_CF_NOMALLOC :: u32 where "LIST_CF_NOMALLOC \<equiv> 1"

text \<open>The copying loop of \<open>ina_list_resize\<close>: old node, new head and new tail.\<close>

partial_function (option) resize_copy ::
  "nat option \<Rightarrow> nat option \<Rightarrow> nat option \<Rightarrow> nat option \<Rightarrow> 'd lmem \<Rightarrow> (nat option \<times> 'd lmem) option" where
  "resize_copy mp next new_head new_tail w =
     (if next = None then Some (new_head, w)
      else do {
        (new_node, w) \<leftarrow> pool_node mp w;
        w \<leftarrow> set_next new_node None w;
        w \<leftarrow> set_prev new_node new_tail w;
        n \<leftarrow> deref w next;
        w \<leftarrow> set_data new_node (ln_data n) w;
        (new_head, w) \<leftarrow> (if new_tail \<noteq> None
                          then do { w \<leftarrow> set_next new_tail new_node w; Some (new_head, w) }
                          else Some (new_node, w));
        n \<leftarrow> deref w next;
        resize_copy mp (ln_next n) new_head new_node w })"

definition ina_list_resize ::
  "llist \<Rightarrow> nat \<Rightarrow> nat \<Rightarrow> 'd lmem \<Rightarrow> (unit ina_res \<times> llist \<times> 'd lmem) option" where
  "ina_list_resize list min_nodes max_recyclable_nodes w =
     (if l_cf list AND LIST_CF_NOMALLOC \<noteq> 0 then Some (Inl INA_ERR_OPERATION_INVALID, list, w)
      else do {
        (mp, w) \<leftarrow> Some (pool_new w);
        (list, w) \<leftarrow>
          (if l_mp list \<noteq> None
           then do {
             (new_head, w) \<leftarrow> resize_copy (Some mp) (l_head list) None None w;
             Some (list\<lparr>l_head := new_head\<rparr>, pool_free (l_mp list) w) }
           else Some (list, w));
        Some (Inr (), list\<lparr>l_mp := Some mp, l_last_free := 0,
                           l_first_free := replicate max_recyclable_nodes None,
                           l_max_recyclable := max_recyclable_nodes\<rparr>, w) })"

definition ina_list_new :: "u32 \<Rightarrow> 'd lmem \<Rightarrow> (unit ina_res \<times> llist \<times> 'd lmem) option" where
  "ina_list_new cf w =
     (let list = \<lparr>l_head = None, l_cf = cf, l_count = 0, l_max_recyclable = LIST_DEFAULT_SIZE, l_mp = None,
                  l_first_free = [], l_last_free = 0\<rparr>
      in if cf AND LIST_CF_NOMALLOC \<noteq> 0 then Some (Inr (), list, w)
         else ina_list_resize list 0 LIST_DEFAULT_SIZE w)"

definition ina_list_free :: "llist \<Rightarrow> 'd lmem \<Rightarrow> 'd lmem" where
  "ina_list_free list w = pool_free (l_mp list) w"

definition ina_list_node_new :: "llist \<Rightarrow> 'd lmem \<Rightarrow> (nat option \<times> llist \<times> 'd lmem) option" where
  "ina_list_node_new list w =
     (if l_last_free list \<noteq> 0
      then if l_last_free list < length (l_first_free list)
           then Some (l_first_free list ! l_last_free list, list\<lparr>l_last_free := l_last_free list - 1\<rparr>, w)
           else None
      else do { (node, w) \<leftarrow> pool_node (l_mp list) w; Some (node, list, w) })"

definition ina_list_node_free :: "llist \<Rightarrow> nat option \<Rightarrow> llist option" where
  "ina_list_node_free list node =
     (if l_last_free list < l_max_recyclable list
      then if l_last_free list + 1 < length (l_first_free list)
           then Some (list\<lparr>l_last_free := l_last_free list + 1,
                           l_first_free := (l_first_free list)[l_last_free list + 1 := node]\<rparr>)
           else None
      else Some list)"

definition ina_list_count :: "llist \<Rightarrow> u64" where
  "ina_list_count list = l_count list"

definition ina_list_head :: "llist \<Rightarrow> nat option" where
  "ina_list_head list = l_head list"

definition ina_list_tail :: "llist \<Rightarrow> nat option ina_res" where
  "ina_list_tail list = (if l_head list = None then Inl (INA_ERR ''EMPTY'') else Inr (l_head list))"

definition ina_list_insert_head ::
  "llist \<Rightarrow> nat option \<Rightarrow> 'd lmem \<Rightarrow> (unit ina_res \<times> llist \<times> 'd lmem) option" where
  "ina_list_insert_head list node w =
     (if node = None then Some (Inl INA_ERR_INVALID_ARGUMENT, list, w)
      else let list = list\<lparr>l_count := l_count list + 1\<rparr>; head = l_head list
           in if head \<noteq> None
              then do {
                h \<leftarrow> deref w head;
                w \<leftarrow> set_prev node (ln_prev h) w;
                w \<leftarrow> set_prev head node w;
                w \<leftarrow> set_next node head w;
                Some (Inr (), list, w) }
              else do {
                w \<leftarrow> set_prev node node w;
                w \<leftarrow> set_next node None w;
                Some (Inr (), list\<lparr>l_head := node\<rparr>, w) })"

definition ina_list_insert_tail ::
  "llist \<Rightarrow> nat option \<Rightarrow> 'd lmem \<Rightarrow> (unit ina_res \<times> llist \<times> 'd lmem) option" where
  "ina_list_insert_tail list node w =
     (if node = None then Some (Inl INA_ERR_INVALID_ARGUMENT, list, w)
      else let list = list\<lparr>l_count := l_count list + 1\<rparr>; head = l_head list
           in if head \<noteq> None
              then do {
                h \<leftarrow> deref w head;
                w \<leftarrow> set_prev node (ln_prev h) w;
                w \<leftarrow> set_prev head node w;
                w \<leftarrow> set_next node None w;
                n \<leftarrow> deref w node;
                w \<leftarrow> set_next (ln_prev n) node w;
                Some (Inr (), list, w) }
              else do {
                w \<leftarrow> set_prev node node w;
                w \<leftarrow> set_next node None w;
                Some (Inr (), list\<lparr>l_head := node\<rparr>, w) })"

definition ina_list_remove ::
  "llist \<Rightarrow> nat option \<Rightarrow> 'd lmem \<Rightarrow> (unit ina_res \<times> llist \<times> 'd lmem) option" where
  "ina_list_remove list node w =
     (if node = None then Some (Inl INA_ERR_INVALID_ARGUMENT, list, w)
      else do {
        n \<leftarrow> deref w node;
        w \<leftarrow> (if ln_next n \<noteq> None then set_prev (ln_next n) (ln_prev n) w
              else set_prev (l_head list) (ln_prev n) w);
        n \<leftarrow> deref w node;
        (list, w) \<leftarrow> (if l_head list = node then Some (list\<lparr>l_head := ln_next n\<rparr>, w)
                     else do { w \<leftarrow> set_next (ln_prev n) (ln_next n) w; Some (list, w) });
        Some (Inr (), list\<lparr>l_count := l_count list - 1\<rparr>, w) })"

definition ina_list_insert_head_data ::
  "llist \<Rightarrow> 'd option \<Rightarrow> 'd lmem \<Rightarrow> (unit ina_res \<times> llist \<times> 'd lmem) option" where
  "ina_list_insert_head_data list data w =
     do { (node, list, w) \<leftarrow> ina_list_node_new list w; w \<leftarrow> set_data node data w; ina_list_insert_head list node w }"

definition ina_list_insert_tail_data ::
  "llist \<Rightarrow> 'd option \<Rightarrow> 'd lmem \<Rightarrow> (unit ina_res \<times> llist \<times> 'd lmem) option" where
  "ina_list_insert_tail_data list data w =
     do { (node, list, w) \<leftarrow> ina_list_node_new list w; w \<leftarrow> set_data node data w; ina_list_insert_tail list node w }"

text \<open>The walk of \<open>ina_list_remove_data\<close> and \<open>ina_list_find\<close>: the first node whose data passes.\<close>

partial_function (option) find_node :: "('d option \<Rightarrow> bool) \<Rightarrow> nat option \<Rightarrow> 'd lmem \<Rightarrow> nat option option" where
  "find_node P node w =
     (if node = None then Some None
      else do { n \<leftarrow> deref w node; if P (ln_data n) then Some node else find_node P (ln_next n) w })"

definition ina_list_remove_data ::
  "llist \<Rightarrow> 'd option \<Rightarrow> 'd lmem \<Rightarrow> (unit ina_res \<times> llist \<times> 'd lmem) option" where
  "ina_list_remove_data list data w =
     (if data = None then Some (Inl INA_ERR_INVALID_ARGUMENT, list, w)
      else do {
        node \<leftarrow> find_node (\<lambda>d. d = data) (l_head list) w;
        if node = None then Some (Inl (INA_ERR_NOT_of ''EXISTS''), list, w)
        else do {
          (_, list, w) \<leftarrow> ina_list_remove list node w;
          list \<leftarrow> ina_list_node_free list node;
          Some (Inr (), list, w) } })"

definition ina_list_find ::
  "llist \<Rightarrow> ('d option \<Rightarrow> 'a \<Rightarrow> int) \<Rightarrow> 'a option \<Rightarrow> 'd lmem \<Rightarrow> nat option ina_res option" where
  "ina_list_find list compare_fn find_arg w =
     (case find_arg of
        None \<Rightarrow> Some (Inl INA_ERR_INVALID_ARGUMENT)
      | Some arg \<Rightarrow> do {
          node \<leftarrow> find_node (\<lambda>d. compare_fn d arg = 0) (l_head list) w;
          Some (if node = None then Inl ERR_NOT_FOUND else Inr node) })"

definition ina_list_find_data ::
  "llist \<Rightarrow> ('d option \<Rightarrow> 'a \<Rightarrow> int) \<Rightarrow> 'a option \<Rightarrow> 'd lmem \<Rightarrow> 'd option ina_res option" where
  "ina_list_find_data list find_fn find_arg w =
     do { r \<leftarrow> ina_list_find list find_fn find_arg w;
          case r of Inl e \<Rightarrow> Some (Inl e) | Inr node \<Rightarrow> do { n \<leftarrow> deref w node; Some (Inr (ln_data n)) } }"

text \<open>\<open>ina_list_pop_data\<close> reads the head and leaves it in the list.\<close>

definition ina_list_pop_data :: "llist \<Rightarrow> 'd lmem \<Rightarrow> 'd option option" where
  "ina_list_pop_data list w = do { n \<leftarrow> deref w (l_head list); Some (ln_data n) }"

text \<open>The callback loops, over a state of the callback; the result is that of the last call.\<close>

partial_function (option) foreach_loop ::
  "('d option \<Rightarrow> 's \<Rightarrow> unit ina_res \<times> 's) \<Rightarrow> nat option \<Rightarrow> 'd lmem \<Rightarrow> 's \<Rightarrow> (unit ina_res \<times> 's) option" where
  "foreach_loop f node w s =
     (if node = None then Some (Inr (), s)
      else do {
        n \<leftarrow> deref w node;
        (r, s) \<leftarrow> Some (f (ln_data n) s);
        if is_ok r then foreach_loop f (ln_next n) w s else Some (r, s) })"

definition ina_list_foreach ::
  "llist \<Rightarrow> ('d option \<Rightarrow> 's \<Rightarrow> unit ina_res \<times> 's) \<Rightarrow> 'd lmem \<Rightarrow> 's \<Rightarrow> (unit ina_res \<times> 's) option" where
  "ina_list_foreach list foreach_fn w s = map_option (\<lambda>(_, s). (Inr (), s)) (foreach_loop foreach_fn (l_head list) w s)"

definition ina_list_foreach_arg ::
  "llist \<Rightarrow> ('d option \<Rightarrow> 'a \<Rightarrow> 's \<Rightarrow> unit ina_res \<times> 's) \<Rightarrow> 'a \<Rightarrow> 'd lmem \<Rightarrow> 's \<Rightarrow> (unit ina_res \<times> 's) option" where
  "ina_list_foreach_arg list foreach_fn arg w s = foreach_loop (\<lambda>d. foreach_fn d arg) (l_head list) w s"

definition ina_list_concat :: "llist \<Rightarrow> llist option \<Rightarrow> 'd lmem \<Rightarrow> (llist \<times> llist option \<times> 'd lmem) option" where
  "ina_list_concat dest src w =
     (case src of
        None \<Rightarrow> Some (dest, src, w)
      | Some s \<Rightarrow>
          if l_head s = None then Some (dest, src, w)
          else do {
            (dest, w) \<leftarrow>
              (if l_head dest = None then Some (dest\<lparr>l_head := l_head s, l_count := l_count s\<rparr>, w)
               else do {
                 h \<leftarrow> deref w (l_head dest);
                 sh \<leftarrow> deref w (l_head s);
                 w \<leftarrow> set_prev (l_head dest) (ln_prev sh) w;
                 w \<leftarrow> set_prev (l_head s) (ln_prev h) w;
                 w \<leftarrow> set_next (ln_prev h) (l_head s) w;
                 Some (dest\<lparr>l_count := l_count dest + l_count s\<rparr>, w) });
            (dest, w) \<leftarrow> (case l_mp dest of
                Some p \<Rightarrow> Some (dest, pool_merge p (l_mp s) w)
              | None \<Rightarrow> Some (dest\<lparr>l_mp := l_mp s\<rparr>, w));
            Some (dest, Some (s\<lparr>l_head := None, l_count := 0, l_mp := None\<rparr>), w) })"

section \<open>Sorting\<close>

partial_function (option) split_loop :: "nat option \<Rightarrow> nat option \<Rightarrow> 'd lmem \<Rightarrow> nat option option" where
  "split_loop fast slow w =
     do { f \<leftarrow> deref w fast;
          if ln_next f = None then Some slow
          else do {
            g \<leftarrow> deref w (ln_next f);
            if ln_next g = None then Some slow
            else do { s \<leftarrow> deref w slow; split_loop (ln_next g) (ln_next s) w } } }"

definition ina_split :: "nat option \<Rightarrow> 'd lmem \<Rightarrow> (nat option \<times> 'd lmem) option" where
  "ina_split head w =
     do { slow \<leftarrow> split_loop head head w; s \<leftarrow> deref w slow; w \<leftarrow> set_next slow None w; Some (ln_next s, w) }"

partial_function (option) ina_merge ::
  "('d option \<Rightarrow> 'd option \<Rightarrow> int) \<Rightarrow> nat option \<Rightarrow> nat option \<Rightarrow> 'd lmem \<Rightarrow> (nat option \<times> 'd lmem) option" where
  "ina_merge compare_fn first second w =
     (if first = None then Some (second, w)
      else if second = None then Some (first, w)
      else do {
        a \<leftarrow> deref w first;
        b \<leftarrow> deref w second;
        if compare_fn (ln_data a) (ln_data b) < 0
        then do {
          (r, w) \<leftarrow> ina_merge compare_fn (ln_next a) second w;
          w \<leftarrow> set_next first r w;
          w \<leftarrow> set_prev r first w;
          w \<leftarrow> set_prev first None w;
          Some (first, w) }
        else do {
          (r, w) \<leftarrow> ina_merge compare_fn first (ln_next b) w;
          w \<leftarrow> set_next second r w;
          w \<leftarrow> set_prev r second w;
          w \<leftarrow> set_prev second None w;
          Some (second, w) } })"

partial_function (option) ina_mergesort ::
  "('d option \<Rightarrow> 'd option \<Rightarrow> int) \<Rightarrow> nat option \<Rightarrow> 'd lmem \<Rightarrow> (nat option \<times> 'd lmem) option" where
  "ina_mergesort compare_fn head w =
     (if head = None then Some (head, w)
      else do {
        h \<leftarrow> deref w head;
        if ln_next h = None then Some (head, w)
        else do {
          (second, w) \<leftarrow> ina_split head w;
          (head, w) \<leftarrow> ina_mergesort compare_fn head w;
          (second, w) \<leftarrow> ina_mergesort compare_fn second w;
          ina_merge compare_fn head second w } })"

definition ina_list_sort ::
  "llist \<Rightarrow> ('d option \<Rightarrow> 'd option \<Rightarrow> int) \<Rightarrow> 'd lmem \<Rightarrow> (unit ina_res \<times> llist \<times> 'd lmem) option" where
  "ina_list_sort list compare_fn w =
     do { (head, w) \<leftarrow> ina_mergesort compare_fn (l_head list) w; Some (Inr (), list\<lparr>l_head := head\<rparr>, w) }"

section \<open>Structure\<close>

text \<open>\<open>seg m pv xs nx\<close>: the nodes \<open>xs\<close> are linked in both directions, entered from \<open>pv\<close> and left to \<open>nx\<close>.\<close>

fun hd_or :: "'a list \<Rightarrow> 'a option \<Rightarrow> 'a option" where
  "hd_or [] nx = nx"
| "hd_or (a # as) nx = Some a"

definition last_or :: "'a option \<Rightarrow> 'a list \<Rightarrow> 'a option" where
  "last_or pv as = (if as = [] then pv else Some (last as))"

fun seg :: "(nat \<rightharpoonup> 'd lnode) \<Rightarrow> nat option \<Rightarrow> nat list \<Rightarrow> nat option \<Rightarrow> bool" where
  "seg m pv [] nx = True"
| "seg m pv (a # as) nx =
     (\<exists>n. m a = Some n \<and> ln_prev n = pv \<and> ln_next n = hd_or as nx \<and> seg m (Some a) as nx)"

definition data_of :: "(nat \<rightharpoonup> 'd lnode) \<Rightarrow> nat \<Rightarrow> 'd option" where
  "data_of m a = Option.bind (m a) ln_data"

lemma last_or_simps [simp]: "last_or pv [] = pv" "last_or pv (as @ [a]) = Some a"
  "last_or pv (a # as) = last_or (Some a) as"
  by (auto simp: last_or_def)

lemma hd_or_append [simp]: "hd_or (as @ bs) nx = hd_or as (hd_or bs nx)"
  by (cases as) auto

lemma last_or_append [simp]: "last_or pv (as @ bs) = last_or (last_or pv as) bs"
  by (auto simp: last_or_def)

lemma seg_append: "seg m pv (as @ bs) nx \<longleftrightarrow> seg m pv as (hd_or bs nx) \<and> seg m (last_or pv as) bs nx"
  by (induction as arbitrary: pv) auto

lemma seg_other [simp]: "u \<notin> set as \<Longrightarrow> seg (m(u \<mapsto> n)) pv as nx = seg m pv as nx"
  by (induction as arbitrary: pv) auto

lemma seg_cong: "(\<And>a. a \<in> set as \<Longrightarrow> m a = m' a) \<Longrightarrow> seg m pv as nx = seg m' pv as nx"
  by (induction as arbitrary: pv) auto

lemma seg_allocated: "seg m pv as nx \<Longrightarrow> a \<in> set as \<Longrightarrow> \<exists>n. m a = Some n"
  by (induction as arbitrary: pv) auto

lemma access_simps [simp]:
  "deref w (Some a) = lm_node w a" "deref w None = None" "put_node None f w = None"
  "lm_node w a = Some n \<Longrightarrow> put_node (Some a) f w = Some (w\<lparr>lm_node := (lm_node w)(a \<mapsto> f n)\<rparr>)"
  by (simp_all add: deref_def put_node_def)

lemma seg_prev:
  "seg m pv (a # as) nx \<Longrightarrow> a \<notin> set as \<Longrightarrow> m a = Some n \<Longrightarrow> seg (m(a \<mapsto> n\<lparr>ln_prev := v\<rparr>)) v (a # as) nx"
  by simp

lemma seg_next:
  assumes "seg m pv (as @ [a]) nx" "a \<notin> set as" "m a = Some n"
  shows "seg (m(a \<mapsto> n\<lparr>ln_next := v\<rparr>)) pv (as @ [a]) v"
  using assms by (simp add: seg_append)

text \<open>Only nodes of \<open>A\<close> change, and of them only the links.\<close>

definition relinks :: "nat set \<Rightarrow> 'd lmem \<Rightarrow> 'd lmem \<Rightarrow> bool" where
  "relinks A w w' \<longleftrightarrow> lm_pool w' = lm_pool w \<and> lm_brk w' = lm_brk w \<and> lm_pools w' = lm_pools w \<and>
     (\<forall>b. b \<notin> A \<longrightarrow> lm_node w' b = lm_node w b) \<and> data_of (lm_node w') = data_of (lm_node w) \<and>
     dom (lm_node w') = dom (lm_node w)"

lemma relinks_refl [simp]: "relinks A w w"
  by (simp add: relinks_def)

lemma relinks_trans: "relinks A w w1 \<Longrightarrow> relinks B w1 w2 \<Longrightarrow> A \<subseteq> C \<Longrightarrow> B \<subseteq> C \<Longrightarrow> relinks C w w2"
  unfolding relinks_def by (metis in_mono)

lemma relinks_mono: "relinks A w w1 \<Longrightarrow> A \<subseteq> C \<Longrightarrow> relinks C w w1"
  by (rule relinks_trans [OF _ relinks_refl [of A]])

lemma put_relinks:
  assumes "lm_node w a = Some n" "a \<in> A" "\<And>n. ln_data (f n) = ln_data n"
  obtains w' where "put_node (Some a) f w = Some w'" "lm_node w' = (lm_node w)(a \<mapsto> f n)" "relinks A w w'"
proof
  let ?w = "w\<lparr>lm_node := (lm_node w)(a \<mapsto> f n)\<rparr>"
  show "put_node (Some a) f w = Some ?w" "lm_node ?w = (lm_node w)(a \<mapsto> f n)" using assms(1) by simp_all
  have "data_of (lm_node ?w) = data_of (lm_node w)" using assms(1,3) by (auto simp: data_of_def fun_eq_iff)
  moreover have "dom (lm_node ?w) = dom (lm_node w)" using assms(1) by auto
  ultimately show "relinks A w ?w" using assms(2) by (auto simp: relinks_def)
qed

lemma relinks_seg: "relinks A w w' \<Longrightarrow> set xs \<inter> A = {} \<Longrightarrow> seg (lm_node w') pv xs nx = seg (lm_node w) pv xs nx"
  by (rule seg_cong) (auto simp: relinks_def)

section \<open>Lists\<close>

definition dlist :: "'d lmem \<Rightarrow> llist \<Rightarrow> nat list \<Rightarrow> bool" where
  "dlist w l xs \<longleftrightarrow> distinct xs \<and> l_head l = hd_or xs None \<and>
     seg (lm_node w) (last_or None xs) xs None \<and> l_count l = of_nat (length xs)"

lemma insert_tail_correct:
  assumes dl: "dlist w l xs" and a: "a \<notin> set xs" "lm_node w a = Some n"
  obtains w' where "ina_list_insert_tail l (Some a) w =
      Some (Inr (), l\<lparr>l_count := l_count l + 1, l_head := hd_or (xs @ [a]) None\<rparr>, w')"
    "dlist w' (l\<lparr>l_count := l_count l + 1, l_head := hd_or (xs @ [a]) None\<rparr>) (xs @ [a])"
    "relinks (insert a (set xs)) w w'"
proof (cases xs)
  case Nil
  obtain w1 where 1: "set_prev (Some a) (Some a) w = Some w1" "lm_node w1 = (lm_node w)(a \<mapsto> n\<lparr>ln_prev := Some a\<rparr>)" "relinks {a} w w1"
    using put_relinks [OF a(2), of "{a}" "ln_prev_update (\<lambda>_. Some a)"] by auto
  then have "lm_node w1 a = Some (n\<lparr>ln_prev := Some a\<rparr>)" by simp
  then obtain w2 where 2: "set_next (Some a) None w1 = Some w2"
    "lm_node w2 = (lm_node w1)(a \<mapsto> n\<lparr>ln_prev := Some a, ln_next := None\<rparr>)" "relinks {a} w1 w2"
    using put_relinks [of w1 a _ "{a}" "ln_next_update (\<lambda>_. None)"] by auto
  have "relinks {a} w w2" using relinks_trans [OF 1(3) 2(3)] by simp
  with Nil dl 1 2 show thesis by (intro that [of w2]) (auto simp: ina_list_insert_tail_def dlist_def)
next
  case (Cons h ys)
  obtain as t where t: "xs = as @ [t]" by (metis Cons list.discI rev_exhaust)
  have dist: "distinct xs" and sg: "seg (lm_node w) (Some t) xs None" using dl t by (auto simp: dlist_def)
  obtain hn where hn: "lm_node w h = Some hn" "ln_prev hn = Some t" using sg Cons by auto
  have ne: "h \<noteq> a" using a(1) Cons by auto
  have ne': "t \<noteq> a" using a(1) t by auto
  obtain w1 where 1: "set_prev (Some a) (Some t) w = Some w1" "lm_node w1 = (lm_node w)(a \<mapsto> n\<lparr>ln_prev := Some t\<rparr>)" "relinks {a} w w1"
    using put_relinks [OF a(2), of "{a}" "ln_prev_update (\<lambda>_. Some t)"] by auto
  have "lm_node w1 h = Some hn" using 1 hn ne by simp
  then obtain w2 where 2: "set_prev (Some h) (Some a) w1 = Some w2" "lm_node w2 = (lm_node w1)(h \<mapsto> hn\<lparr>ln_prev := Some a\<rparr>)" "relinks (set xs) w1 w2"
    using put_relinks [of w1 h _ "set xs" "ln_prev_update (\<lambda>_. Some a)"] Cons by auto
  have "lm_node w2 a = Some (n\<lparr>ln_prev := Some t\<rparr>)" using 1 2 ne by simp
  then obtain w3 where 3: "set_next (Some a) None w2 = Some w3" "lm_node w3 = (lm_node w2)(a \<mapsto> n\<lparr>ln_prev := Some t, ln_next := None\<rparr>)" "relinks {a} w2 w3"
    using put_relinks [of w2 a _ "{a}" "ln_next_update (\<lambda>_. None)"] by auto
  have s1: "seg (lm_node w1) (Some t) xs None" using sg 1(2) a(1) by simp
  have s2: "seg (lm_node w2) (Some a) xs None"
    using seg_prev [of "lm_node w1" "Some t" h ys None hn "Some a"] s1 2(2) \<open>lm_node w1 h = Some hn\<close> dist Cons by simp
  have s3: "seg (lm_node w3) (Some a) xs None" using s2 3(2) a(1) by simp
  then obtain tn where tn: "lm_node w3 t = Some tn" using seg_allocated [OF s3, of t] t by auto
  then obtain w4 where 4: "set_next (Some t) (Some a) w3 = Some w4" "lm_node w4 = (lm_node w3)(t \<mapsto> tn\<lparr>ln_next := Some a\<rparr>)" "relinks (set xs) w3 w4"
    using put_relinks [of w3 t _ "set xs" "ln_next_update (\<lambda>_. Some a)"] t by auto
  have s4: "seg (lm_node w4) (Some a) xs (Some a)"
    using seg_next [of "lm_node w3" "Some a" as t None tn "Some a"] s3 tn 4(2) dist t by simp
  have an: "lm_node w3 a = Some (n\<lparr>ln_prev := Some t, ln_next := None\<rparr>)" using 3(2) by simp
  then have sa: "seg (lm_node w4) (Some t) [a] None" using 4(2) ne' by simp
  have "relinks (insert a (set xs)) w w2" using relinks_trans [OF 1(3) 2(3), of "insert a (set xs)"] by auto
  moreover have "relinks (insert a (set xs)) w2 w4" using relinks_trans [OF 3(3) 4(3), of "insert a (set xs)"] by auto
  ultimately have "relinks (insert a (set xs)) w w4" by (rule relinks_trans) auto
  moreover have "ina_list_insert_tail l (Some a) w = Some (Inr (), l\<lparr>l_count := l_count l + 1, l_head := Some h\<rparr>, w4)"
    using dl Cons hn 1(1) 2(1) 3(1) 4(1) an by (simp add: ina_list_insert_tail_def dlist_def)
  moreover have "seg (lm_node w4) (Some a) (xs @ [a]) None" using s4 sa t by (simp add: seg_append)
  ultimately show thesis using that [of w4] dist a(1) dl Cons by (simp add: dlist_def last_or_def)
qed

text \<open>Unlinking: the node after is entered from the node before, and the other way round.\<close>

lemma list_remove_correct:
  assumes dl: "dlist w l (as @ a # bs)"
  obtains w' where "ina_list_remove l (Some a) w =
      Some (Inr (), l\<lparr>l_count := l_count l - 1, l_head := hd_or (as @ bs) None\<rparr>, w')"
    "dlist w' (l\<lparr>l_count := l_count l - 1, l_head := hd_or (as @ bs) None\<rparr>) (as @ bs)"
    "relinks (set (as @ a # bs)) w w'"
proof -
  let ?l = "l\<lparr>l_count := l_count l - 1, l_head := hd_or (as @ bs) None\<rparr>"
  have dist: "distinct (as @ a # bs)" and sg: "seg (lm_node w) (Some (last (a # bs))) (as @ a # bs) None"
    and hd: "l_head l = hd_or as (Some a)" and cnt: "l_count l - 1 = of_nat (length (as @ bs))"
    using dl by (auto simp: dlist_def last_or_def)
  have sa: "seg (lm_node w) (Some (last (a # bs))) as (Some a)"
    and sb: "seg (lm_node w) (Some a) bs None" using sg by (auto simp: seg_append)
  obtain n where n: "lm_node w a = Some n" "ln_prev n = last_or (Some (last (a # bs))) as" "ln_next n = hd_or bs None"
    using sg by (auto simp: seg_append)
  consider (only) "as = []" "bs = []" | (first) b bs' where "as = []" "bs = b # bs'"
    | (mid) as' p b bs' where "as = as' @ [p]" "bs = b # bs'" | (final) as' p where "as = as' @ [p]" "bs = []"
    by (metis list.exhaust rev_exhaust)
  then show thesis
  proof cases
    case only
    obtain w1 where "set_prev (Some a) (Some a) w = Some w1" "relinks {a} w w1"
      "lm_node w1 = (lm_node w)(a \<mapsto> n\<lparr>ln_prev := Some a\<rparr>)"
      using put_relinks [OF n(1), of "{a}" "ln_prev_update (\<lambda>_. Some a)"] by auto
    then show thesis using only n hd cnt by (intro that [of w1]) (auto simp: ina_list_remove_def dlist_def)
  next
    case (first b bs')
    obtain bn where bn: "lm_node w b = Some bn" using sb first by auto
    obtain w1 where 1: "set_prev (Some b) (Some (last bs)) w = Some w1" "relinks (set bs) w w1"
      "lm_node w1 = (lm_node w)(b \<mapsto> bn\<lparr>ln_prev := Some (last bs)\<rparr>)"
      using put_relinks [OF bn, of "set bs" "ln_prev_update (\<lambda>_. Some (last bs))"] first by auto
    have "seg (lm_node w1) (Some (last bs)) bs None"
      using seg_prev [where m = "lm_node w" and a = b and as = bs' and n = bn] bn sb 1(3) dist first by simp
    moreover have "relinks (set (as @ a # bs)) w w1" by (rule relinks_mono [OF 1(2)]) auto
    moreover have "lm_node w1 a = Some n" using n(1) 1(3) dist first by auto
    ultimately show thesis
      using first n hd cnt 1 dist by (intro that [of w1]) (auto simp: ina_list_remove_def dlist_def last_or_def)
  next
    case (mid as' p b bs')
    obtain bn where bn: "lm_node w b = Some bn" using sb mid by auto
    obtain w1 where 1: "set_prev (Some b) (Some p) w = Some w1" "relinks (set bs) w w1"
      "lm_node w1 = (lm_node w)(b \<mapsto> bn\<lparr>ln_prev := Some p\<rparr>)"
      using put_relinks [OF bn, of "set bs" "ln_prev_update (\<lambda>_. Some p)"] mid by auto
    have b1: "seg (lm_node w1) (Some p) bs None"
      using seg_prev [where m = "lm_node w" and a = b and as = bs' and n = bn] bn sb 1(3) dist mid by simp
    have a1: "seg (lm_node w1) (Some (last bs)) as (Some a)" using sa 1(3) dist mid by simp
    obtain pn where pn: "lm_node w1 p = Some pn" using seg_allocated [OF a1, of p] mid by auto
    obtain w2 where 2: "set_next (Some p) (Some b) w1 = Some w2" "relinks (set as) w1 w2"
      "lm_node w2 = (lm_node w1)(p \<mapsto> pn\<lparr>ln_next := Some b\<rparr>)"
      using put_relinks [OF pn, of "set as" "ln_next_update (\<lambda>_. Some b)"] mid by auto
    have a2: "seg (lm_node w2) (Some (last bs)) as (Some b)"
      using seg_next [where m = "lm_node w1" and a = p and as = as' and n = pn] pn a1 2(3) dist mid by simp
    have b2: "seg (lm_node w2) (Some p) bs None" using b1 2(3) dist mid by simp
    have "relinks (set (as @ a # bs)) w w2" by (rule relinks_trans [OF 1(2) 2(2)]) auto
    moreover have "lm_node w1 a = Some n" using n(1) 1(3) dist mid by auto
    moreover have "hd_or as (Some a) \<noteq> Some a" using dist mid by (cases as') auto
    ultimately show thesis
      using mid n hd cnt 1(1) 2(1) a2 b2 dist
      by (intro that [of w2]) (auto simp: ina_list_remove_def dlist_def last_or_def seg_append)
  next
    case (final as' p)
    obtain h ys where h: "as = h # ys" using final(1) by (metis append_is_Nil_conv list.exhaust not_Cons_self2)
    obtain hn where hn: "lm_node w h = Some hn" using sa h by auto
    obtain w1 where 1: "set_prev (Some h) (Some p) w = Some w1" "relinks (set as) w w1"
      "lm_node w1 = (lm_node w)(h \<mapsto> hn\<lparr>ln_prev := Some p\<rparr>)"
      using put_relinks [OF hn, of "set as" "ln_prev_update (\<lambda>_. Some p)"] h by auto
    have a1: "seg (lm_node w1) (Some p) as (Some a)"
      using seg_prev [where m = "lm_node w" and a = h and as = ys and n = hn] hn sa 1(3) dist h by simp
    obtain pn where pn: "lm_node w1 p = Some pn" using seg_allocated [OF a1, of p] final by auto
    obtain w2 where 2: "set_next (Some p) None w1 = Some w2" "relinks (set as) w1 w2"
      "lm_node w2 = (lm_node w1)(p \<mapsto> pn\<lparr>ln_next := None\<rparr>)"
      using put_relinks [OF pn, of "set as" "ln_next_update (\<lambda>_. None)"] final by auto
    have a2: "seg (lm_node w2) (Some p) as None" using seg_next [where m = "lm_node w1" and a = p and as = as' and n = pn] pn a1 2(3) dist final by simp
    have "relinks (set (as @ a # bs)) w w2" by (rule relinks_trans [OF 1(2) 2(2)]) auto
    moreover have "h \<noteq> a" using dist h by auto
    moreover have "lm_node w1 a = Some n" using n(1) 1(3) \<open>h \<noteq> a\<close> by auto
    moreover have "hd_or as None = Some h" by (simp add: h)
    moreover have "last_or None as = Some p" by (simp add: final)
    ultimately show thesis
      using n hd cnt 1(1) 2(1) a2 dist h final(2) \<open>as = as' @ [p]\<close> [symmetric]
      by (intro that [of w2]) (auto simp: ina_list_remove_def dlist_def last_or_def)
  qed
qed

text \<open>The walks.\<close>

lemma find_node_seg:
  "seg (lm_node w) pv xs None \<Longrightarrow>
   find_node P (hd_or xs None) w = Some (List.find (\<lambda>a. P (data_of (lm_node w) a)) xs)"
  by (induction xs arbitrary: pv) (auto simp: find_node.simps [of P "Some _"] find_node.simps [of P None] data_of_def)

fun run_list :: "('a \<Rightarrow> 's \<Rightarrow> unit ina_res \<times> 's) \<Rightarrow> 'a list \<Rightarrow> 's \<Rightarrow> unit ina_res \<times> 's" where
  "run_list f [] s = (Inr (), s)"
| "run_list f (d # ds) s = (case f d s of (r, s) \<Rightarrow> if is_ok r then run_list f ds s else (r, s))"

lemma foreach_loop_seg:
  "seg (lm_node w) pv xs None \<Longrightarrow>
   foreach_loop f (hd_or xs None) w s = Some (run_list f (map (data_of (lm_node w)) xs) s)"
  by (induction xs arbitrary: pv s)
     (auto simp: foreach_loop.simps [of f "Some _"] foreach_loop.simps [of f None] data_of_def split: prod.split)

section \<open>Recycled nodes\<close>

text \<open>The state between operations: the list, the stack of recycled nodes \<open>fs\<close> (in the array from
  index 1 on), room on it for \<open>n\<close> further nodes, and addresses yet to be allocated.\<close>

definition list_inv :: "llist \<Rightarrow> 'd lmem \<Rightarrow> nat list \<Rightarrow> nat list \<Rightarrow> nat \<Rightarrow> bool" where
  "list_inv l w xs fs n \<longleftrightarrow> dlist w l xs \<and> l_mp l \<noteq> None \<and> distinct (xs @ fs) \<and>
     (\<forall>a \<in> set fs. lm_node w a \<noteq> None) \<and> (\<forall>a \<ge> lm_brk w. lm_node w a = None) \<and>
     l_last_free l = length fs \<and> length (l_first_free l) = l_max_recyclable l \<and>
     length fs + n < l_max_recyclable l \<and> (\<forall>i < length fs. l_first_free l ! (i + 1) = Some (fs ! i))"

lemma node_new_fresh:
  assumes "list_inv l w xs [] n"
  shows "\<exists>w'. ina_list_node_new l w = Some (Some (lm_brk w), l, w') \<and> list_inv l w' xs [] n \<and>
    lm_node w (lm_brk w) = None \<and> lm_node w' = (lm_node w)(lm_brk w \<mapsto> \<lparr>ln_next = None, ln_prev = None, ln_data = None\<rparr>)"
proof -
  have none: "lm_node w (lm_brk w) = None" using assms by (simp add: list_inv_def)
  obtain q where q: "l_mp l = Some q" using assms by (auto simp: list_inv_def)
  have "lm_brk w \<notin> set xs" using seg_allocated none assms by (fastforce simp: list_inv_def dlist_def)
  then show ?thesis using assms none q by (auto simp: ina_list_node_new_def pool_node_def list_inv_def dlist_def)
qed

lemma node_new_recycled:
  assumes "list_inv l w xs (fs @ [a]) n"
  shows "ina_list_node_new l w = Some (Some a, l\<lparr>l_last_free := length fs\<rparr>, w)"
    and "list_inv (l\<lparr>l_last_free := length fs\<rparr>) w xs fs (n + 1)" and "a \<notin> set xs" and "lm_node w a \<noteq> None"
    and "a \<notin> set fs"
proof -
  have "l_first_free l ! (length fs + 1) = Some a" using assms by (auto simp: list_inv_def nth_append dest: spec [of _ "length fs"])
  moreover have "length fs + 1 < length (l_first_free l)" using assms by (simp add: list_inv_def)
  ultimately show "ina_list_node_new l w = Some (Some a, l\<lparr>l_last_free := length fs\<rparr>, w)"
    using assms by (simp add: ina_list_node_new_def list_inv_def)
  have "l_first_free l ! (i + 1) = Some (fs ! i)" if "i < length fs" for i
  proof -
    have "l_first_free l ! (i + 1) = Some ((fs @ [a]) ! i)" using assms that by (simp add: list_inv_def)
    then show ?thesis using that by (simp add: nth_append)
  qed
  then show "list_inv (l\<lparr>l_last_free := length fs\<rparr>) w xs fs (n + 1)"
    using assms by (auto simp: list_inv_def dlist_def)
  show "a \<notin> set xs" "lm_node w a \<noteq> None" "a \<notin> set fs" using assms by (auto simp: list_inv_def)
qed

text \<open>Linking changes nodes of the list only, so the rest of the state is kept.\<close>

lemma list_inv_relink:
  assumes "list_inv l w xs fs n" "relinks A w w'" "dlist w' (l\<lparr>l_count := c, l_head := h\<rparr>) ys" "set ys \<inter> set fs = {}"
  shows "list_inv (l\<lparr>l_count := c, l_head := h\<rparr>) w' ys fs n"
proof -
  have d: "dom (lm_node w') = dom (lm_node w)" "lm_brk w' = lm_brk w" using assms(2) by (auto simp: relinks_def)
  then have "lm_node w' a = None \<longleftrightarrow> lm_node w a = None" for a by (metis domIff)
  then show ?thesis using assms d by (auto simp: list_inv_def dlist_def)
qed

lemma set_data_inv:
  assumes "list_inv l w xs fs n" "lm_node w a = Some nd" "a \<notin> set xs"
  shows "list_inv l (w\<lparr>lm_node := (lm_node w)(a \<mapsto> nd\<lparr>ln_data := d\<rparr>)\<rparr>) xs fs n"
  using assms by (auto simp: list_inv_def dlist_def)

lemma insert_tail_data_step:
  assumes "list_inv l1 w1 xs fs n" "a \<notin> set xs" "a \<notin> set fs" "lm_node w1 a = Some nd"
    "ina_list_node_new l w = Some (Some a, l1, w1)" "\<And>b. b \<in> set xs \<Longrightarrow> data_of (lm_node w1) b = data_of (lm_node w) b"
  shows "\<exists>l' w'. ina_list_insert_tail_data l d w = Some (Inr (), l', w') \<and> list_inv l' w' (xs @ [a]) fs n \<and>
    map (data_of (lm_node w')) (xs @ [a]) = map (data_of (lm_node w)) xs @ [d]"
proof -
  let ?w2 = "w1\<lparr>lm_node := (lm_node w1)(a \<mapsto> nd\<lparr>ln_data := d\<rparr>)\<rparr>"
  have i2: "list_inv l1 ?w2 xs fs n" by (rule set_data_inv [OF assms(1,4,2)])
  then have dl: "dlist ?w2 l1 xs" by (simp add: list_inv_def)
  obtain w' where w': "ina_list_insert_tail l1 (Some a) ?w2 =
      Some (Inr (), l1\<lparr>l_count := l_count l1 + 1, l_head := hd_or (xs @ [a]) None\<rparr>, w')"
    "dlist w' (l1\<lparr>l_count := l_count l1 + 1, l_head := hd_or (xs @ [a]) None\<rparr>) (xs @ [a])"
    "relinks (insert a (set xs)) ?w2 w'"
    by (rule insert_tail_correct [OF dl assms(2), of "nd\<lparr>ln_data := d\<rparr>"]) auto
  have "data_of (lm_node w') = data_of (lm_node ?w2)" using w'(3) by (simp add: relinks_def)
  then have "map (data_of (lm_node w')) (xs @ [a]) = map (data_of (lm_node w)) xs @ [d]"
    using assms(2,6) by (auto simp: data_of_def)
  moreover have "list_inv (l1\<lparr>l_count := l_count l1 + 1, l_head := hd_or (xs @ [a]) None\<rparr>) w' (xs @ [a]) fs n"
    using assms(1,3) by (intro list_inv_relink [OF i2 w'(3,2)]) (auto simp: list_inv_def)
  ultimately show ?thesis using assms(4,5) w'(1) by (simp add: ina_list_insert_tail_data_def)
qed

lemma insert_tail_data_correct:
  assumes "list_inv l w xs fs n"
  shows "\<exists>l' w' a fs' n'. ina_list_insert_tail_data l d w = Some (Inr (), l', w') \<and> list_inv l' w' (xs @ [a]) fs' n' \<and> n \<le> n' \<and>
    map (data_of (lm_node w')) (xs @ [a]) = map (data_of (lm_node w)) xs @ [d]"
proof (cases fs rule: rev_cases)
  case Nil
  obtain w1 where w1: "ina_list_node_new l w = Some (Some (lm_brk w), l, w1)" "list_inv l w1 xs [] n"
    "lm_node w (lm_brk w) = None" "lm_node w1 = (lm_node w)(lm_brk w \<mapsto> \<lparr>ln_next = None, ln_prev = None, ln_data = None\<rparr>)"
    using node_new_fresh assms Nil by blast
  have "lm_brk w \<notin> set xs" using seg_allocated w1(3) assms by (fastforce simp: list_inv_def dlist_def)
  then show ?thesis using insert_tail_data_step [OF w1(2) _ _ _ w1(1), of _ d] w1(4) by (fastforce simp: data_of_def)
next
  case (snoc fs' a)
  note r = node_new_recycled [OF assms [unfolded snoc]]
  obtain nd where nd: "lm_node w a = Some nd" using r(4) by blast
  from insert_tail_data_step [OF r(2,3,5) nd r(1), of d] show ?thesis by (metis le_add1)
qed

lemma find_first: "(\<And>x. x \<in> set as \<Longrightarrow> \<not> P x) \<Longrightarrow> P a \<Longrightarrow> List.find P (as @ a # bs) = Some a"
  by (induction as) auto

lemma node_free_inv:
  assumes "list_inv l w xs fs (Suc n)" "a \<notin> set xs" "a \<notin> set fs" "lm_node w a \<noteq> None"
  shows "\<exists>l'. ina_list_node_free l (Some a) = Some l' \<and> list_inv l' w xs (fs @ [a]) n"
proof -
  let ?l = "l\<lparr>l_last_free := length fs + 1, l_first_free := (l_first_free l)[length fs + 1 := Some a]\<rparr>"
  have "ina_list_node_free l (Some a) = Some ?l" using assms(1) by (simp add: ina_list_node_free_def list_inv_def)
  moreover have "list_inv ?l w xs (fs @ [a]) n"
    using assms by (auto simp: list_inv_def dlist_def nth_append nth_list_update less_Suc_eq)
  ultimately show ?thesis by blast
qed

lemma remove_data_correct:
  assumes inv: "list_inv l w xs fs (Suc n)" and ds: "map (data_of (lm_node w)) xs = map Some ds"
  shows "\<exists>r l' w' xs' fs'. ina_list_remove_data l (Some d) w = Some (r, l', w') \<and> list_inv l' w' xs' fs' n \<and>
    is_ok r = (d \<in> set ds) \<and> map (data_of (lm_node w')) xs' = map Some (remove1 d ds)"
proof -
  have dl: "dlist w l xs" and sg: "seg (lm_node w) (last_or None xs) xs None" and hd: "l_head l = hd_or xs None"
    using inv by (auto simp: list_inv_def dlist_def)
  let ?P = "\<lambda>a. data_of (lm_node w) a = Some d"
  have find: "find_node (\<lambda>e. e = Some d) (l_head l) w = Some (List.find ?P xs)"
    using find_node_seg [OF sg] hd by simp
  show ?thesis
  proof (cases "\<exists>a \<in> set xs. ?P a")
    case False
    then have "List.find ?P xs = None" by (auto simp: find_None_iff)
    moreover have "d \<notin> set ds"
    proof
      assume "d \<in> set ds"
      then have "Some d \<in> set (map (data_of (lm_node w)) xs)" using ds by simp
      then show False using False by auto
    qed
    moreover have "list_inv l w xs fs n" using inv by (simp add: list_inv_def)
    ultimately show ?thesis
      using find ds by (intro exI [of _ xs] exI) (auto simp: ina_list_remove_data_def remove1_idem)
  next
    case True
    then obtain as a bs where x: "xs = as @ a # bs" and a: "?P a" and no: "\<And>b. b \<in> set as \<Longrightarrow> \<not> ?P b"
      using split_list_first_prop [of xs ?P] by blast
    have f: "List.find ?P xs = Some a" unfolding x using no a by (rule find_first)
    obtain w' where w': "ina_list_remove l (Some a) w = Some (Inr (), l\<lparr>l_count := l_count l - 1, l_head := hd_or (as @ bs) None\<rparr>, w')"
      "dlist w' (l\<lparr>l_count := l_count l - 1, l_head := hd_or (as @ bs) None\<rparr>) (as @ bs)" "relinks (set (as @ a # bs)) w w'"
      by (rule list_remove_correct [OF dl [unfolded x]])
    have dist: "distinct (xs @ fs)" using inv by (simp add: list_inv_def)
    then have i: "list_inv (l\<lparr>l_count := l_count l - 1, l_head := hd_or (as @ bs) None\<rparr>) w' (as @ bs) fs (Suc n)"
      by (intro list_inv_relink [OF inv w'(3,2)]) (auto simp: x)
    have dw: "data_of (lm_node w') = data_of (lm_node w)" "dom (lm_node w') = dom (lm_node w)" using w'(3) by (auto simp: relinks_def)
    have "lm_node w a \<noteq> None" using seg_allocated [OF sg, of a] x by simp
    then have "lm_node w' a \<noteq> None" using dw(2) by (metis domIff)
    then obtain l' where l': "ina_list_node_free (l\<lparr>l_count := l_count l - 1, l_head := hd_or (as @ bs) None\<rparr>) (Some a) = Some l'"
      "list_inv l' w' (as @ bs) (fs @ [a]) n" using node_free_inv [OF i, of a] dist x by auto
    obtain da db where d: "ds = da @ d # db" "map (data_of (lm_node w)) as = map Some da" "map (data_of (lm_node w)) bs = map Some db"
      using ds a unfolding x by (auto simp: map_eq_append_conv append_eq_map_conv Cons_eq_map_conv)
    have "d \<notin> set da"
    proof
      assume "d \<in> set da"
      then have "Some d \<in> set (map (data_of (lm_node w)) as)" using d(2) by simp
      then obtain b where "b \<in> set as" "?P b" by auto
      then show False using no by blast
    qed
    then have "remove1 d ds = da @ db" using d(1) by (simp add: remove1_append)
    then show ?thesis
      using find f w'(1) l' d dw by (auto simp: ina_list_remove_data_def)
  qed
qed

section \<open>The list implements the sequence interface\<close>

definition list_rel :: "llist \<times> 'd lmem \<Rightarrow> nat \<Rightarrow> 'd list \<Rightarrow> bool" where
  "list_rel s n ds \<longleftrightarrow> (\<exists>xs fs m. list_inv (fst s) (snd s) xs fs m \<and> n \<le> m \<and>
     map (data_of (lm_node (snd s))) xs = map Some ds)"

definition list_push :: "llist \<times> 'd lmem \<Rightarrow> 'd \<Rightarrow> (bool \<times> llist \<times> 'd lmem) option" where
  "list_push s d = do { (r, s) \<leftarrow> ina_list_insert_tail_data (fst s) (Some d) (snd s); Some (is_ok r, s) }"

definition list_rem :: "llist \<times> 'd lmem \<Rightarrow> 'd \<Rightarrow> (bool \<times> llist \<times> 'd lmem) option" where
  "list_rem s d = do { (r, s) \<leftarrow> ina_list_remove_data (fst s) (Some d) (snd s); Some (is_ok r, s) }"

lemma list_push_rel:
  assumes "list_rel s n ds"
  shows "\<exists>s'. list_push s d = Some (True, s') \<and> list_rel s' n (ds @ [d])"
proof -
  obtain xs fs m where i: "list_inv (fst s) (snd s) xs fs m" "n \<le> m" "map (data_of (lm_node (snd s))) xs = map Some ds"
    using assms by (auto simp: list_rel_def)
  obtain l' w' a fs' n' where r: "ina_list_insert_tail_data (fst s) (Some d) (snd s) = Some (Inr (), l', w')"
    "list_inv l' w' (xs @ [a]) fs' n'" "m \<le> n'" "map (data_of (lm_node w')) (xs @ [a]) = map Some ds @ [Some d]"
    using insert_tail_data_correct [OF i(1), of "Some d"] i(3) by auto
  have "list_rel (l', w') n (ds @ [d])" unfolding list_rel_def using r i(2) by fastforce
  then show ?thesis using r(1) by (simp add: list_push_def)
qed

lemma list_rem_rel:
  assumes "list_rel s (Suc n) ds"
  shows "\<exists>s'. list_rem s d = Some (d \<in> set ds, s') \<and> list_rel s' n (remove1 d ds)"
proof -
  obtain xs fs m where "list_inv (fst s) (snd s) xs fs m" "Suc n \<le> m" and d: "map (data_of (lm_node (snd s))) xs = map Some ds"
    using assms by (auto simp: list_rel_def)
  then have "list_inv (fst s) (snd s) xs fs (Suc n)" by (simp add: list_inv_def)
  from remove_data_correct [OF this d, of d] show ?thesis by (fastforce simp: list_rem_def list_rel_def)
qed

interpretation list_seq: seq_contract list_rel list_push list_rem
  by unfold_locales (rule list_push_rel list_rem_rel, assumption)+

text \<open>A new list with an array of \<open>r\<close> recycled nodes.\<close>

definition unused_above :: "'d lmem \<Rightarrow> bool" where
  "unused_above w \<longleftrightarrow> (\<forall>a \<ge> lm_brk w. lm_node w a = None)"

lemma resize_fresh:
  assumes "unused_above w" "0 < r" "l_head l = None" "l_mp l = None" "l_count l = 0" "l_cf l = 0"
  shows "\<exists>l' w'. ina_list_resize l m r w = Some (Inr (), l', w') \<and> list_inv l' w' [] [] (r - 1) \<and>
    lm_node w' = lm_node w \<and> l_max_recyclable l' = r"
  using assms by (simp add: ina_list_resize_def pool_new_def list_inv_def dlist_def unused_above_def)

lemma new_list:
  assumes "unused_above w"
  shows "\<exists>l' w'. ina_list_new 0 w = Some (Inr (), l', w') \<and> list_rel (l', w') 255 []"
  using resize_fresh [OF assms, of 256 "\<lparr>l_head = None, l_cf = 0, l_count = 0, l_max_recyclable = 256, l_mp = None,
    l_first_free = [], l_last_free = 0\<rparr>" 0]
  by (auto simp: ina_list_new_def list_rel_def)

text \<open>C2. A new list implements a sequence: after any series of appends and removals by value with
  fewer than 256 removals, \<open>ina_list_count\<close> is the length of the mathematical list obtained by
  the same series, and \<open>ina_list_foreach_arg\<close> runs its callback over exactly its elements in
  order, whether their nodes are fresh or recycled.\<close>

theorem list_is_sequence:
  assumes "unused_above w" "removals ops < 256"
  shows "\<exists>l0 w0 l w'. ina_list_new 0 w = Some (Inr (), l0, w0) \<and>
    run_seq list_push list_rem ops (l0, w0) = Some (l, w') \<and>
    ina_list_count l = of_nat (length (fold seq_abs ops [])) \<and>
    (\<forall>f arg (s :: 's). ina_list_foreach_arg l f arg w' s = Some (run_list (\<lambda>d. f d arg) (map Some (fold seq_abs ops [])) s))"
proof -
  obtain l0 w0 where n: "ina_list_new 0 w = Some (Inr (), l0, w0)" "list_rel (l0, w0) 255 []"
    using new_list [OF assms(1)] by blast
  then have "list_rel (l0, w0) (removals ops) []" using assms(2) by (fastforce simp: list_rel_def)
  then obtain l w' where r: "run_seq list_push list_rem ops (l0, w0) = Some (l, w')" "list_rel (l, w') 0 (fold seq_abs ops [])"
    using list_seq.run_refines by fastforce
  then obtain xs fs m where i: "list_inv l w' xs fs m" "map (data_of (lm_node w')) xs = map Some (fold seq_abs ops [])"
    by (auto simp: list_rel_def)
  have "length xs = length (fold seq_abs ops [])" using arg_cong [OF i(2), of length] by simp
  then have "ina_list_count l = of_nat (length (fold seq_abs ops []))"
    using i(1) by (simp add: ina_list_count_def list_inv_def dlist_def)
  moreover have "ina_list_foreach_arg l f arg w' s = Some (run_list (\<lambda>d. f d arg) (map Some (fold seq_abs ops [])) s)"
    for f arg and s :: 's
    using i foreach_loop_seg [of w' "last_or None xs" xs "\<lambda>d. f d arg" s]
    by (simp add: ina_list_foreach_arg_def list_inv_def dlist_def)
  ultimately show ?thesis using n(1) r(1) by blast
qed

definition empty_mem :: "nat lmem" where
  "empty_mem = \<lparr>lm_node = Map.empty, lm_pool = \<lambda>_. 0, lm_brk = 1, lm_pools = 0\<rparr>"

lemma empty_mem_unused: "unused_above empty_mem"
  by (simp add: empty_mem_def unused_above_def)

theorem list_is_sequence_witness:
  "\<exists>l0 w0 l w'. ina_list_new 0 empty_mem = Some (Inr (), l0, w0) \<and>
    run_seq list_push list_rem [Push 1, Push 2, Rem 1, Push 3] (l0, w0) = Some (l, w') \<and>
    ina_list_count l = 2 \<and>
    (\<forall>f arg (s :: nat). ina_list_foreach_arg l f arg w' s = Some (run_list (\<lambda>d. f d arg) [Some 2, Some 3] s))"
  using list_is_sequence [OF empty_mem_unused, of "[Push 1, Push 2, Rem 1, Push 3]"] by simp

section \<open>Recycling too many nodes\<close>

text \<open>With one node fewer on the stack of recycled nodes than \<open>max_recyclable\<close>, removing an
  element writes behind the array of recycled nodes: the test lets \<open>max_recyclable\<close> nodes pass,
  and index 0 is never used.\<close>

theorem recycling_overflows:
  assumes inv: "list_inv l w xs fs n" and full: "Suc (length fs) = l_max_recyclable l"
    and d: "Some d \<in> data_of (lm_node w) ` set xs"
  shows "ina_list_remove_data l (Some d) w = None"
proof -
  have dl: "dlist w l xs" and sg: "seg (lm_node w) (last_or None xs) xs None" and hd: "l_head l = hd_or xs None"
    using inv by (auto simp: list_inv_def dlist_def)
  obtain a where f: "List.find (\<lambda>a. data_of (lm_node w) a = Some d) xs = Some a"
    using d by (cases "List.find (\<lambda>a. data_of (lm_node w) a = Some d) xs") (auto simp: find_None_iff)
  then have "a \<in> set xs" by (auto simp: find_Some_iff)
  then obtain as bs where x: "xs = as @ a # bs" by (meson split_list)
  obtain w' where "ina_list_remove l (Some a) w = Some (Inr (), l\<lparr>l_count := l_count l - 1, l_head := hd_or (as @ bs) None\<rparr>, w')"
    by (rule list_remove_correct [OF dl [unfolded x]])
  then show ?thesis
    using find_node_seg [OF sg, of "\<lambda>e. e = Some d"] f hd full inv
    by (simp add: ina_list_remove_data_def ina_list_node_free_def list_inv_def)
qed

text \<open>A list resized to one recyclable node: the first removal is already out of bounds.\<close>

theorem recycling_overflows_witness:
  "\<exists>l w l' w'. ina_list_resize \<lparr>l_head = None, l_cf = 0, l_count = 0, l_max_recyclable = 256, l_mp = None,
      l_first_free = [], l_last_free = 0\<rparr> 0 1 empty_mem = Some (Inr (), l, w) \<and>
    ina_list_insert_tail_data l (Some 7) w = Some (Inr (), l', w') \<and> ina_list_remove_data l' (Some 7) w' = None"
proof -
  obtain l w where r: "ina_list_resize \<lparr>l_head = None, l_cf = 0, l_count = 0, l_max_recyclable = 256, l_mp = None,
      l_first_free = [], l_last_free = 0\<rparr> 0 1 empty_mem = Some (Inr (), l, w)" "list_inv l w [] [] 0" "l_max_recyclable l = 1"
    using resize_fresh [OF empty_mem_unused, of 1 "\<lparr>l_head = None, l_cf = 0, l_count = 0, l_max_recyclable = 256, l_mp = None,
      l_first_free = [], l_last_free = 0\<rparr>" 0] by auto
  obtain w1 where w1: "ina_list_node_new l w = Some (Some (lm_brk w), l, w1)" "list_inv l w1 [] [] 0"
    "lm_node w1 (lm_brk w) = Some \<lparr>ln_next = None, ln_prev = None, ln_data = None\<rparr>"
    using node_new_fresh [OF r(2)] by auto
  obtain l' w' where p: "ina_list_insert_tail_data l (Some 7) w = Some (Inr (), l', w')" "list_inv l' w' [lm_brk w] [] 0"
    "map (data_of (lm_node w')) [lm_brk w] = [Some 7]"
    using insert_tail_data_step [OF w1(2) _ _ w1(3,1), of "Some 7"] by auto
  have "l_max_recyclable l' = 1" using p(1) w1(1) r(3) by (auto simp: ina_list_insert_tail_data_def ina_list_insert_tail_def Let_def
      split: if_splits bind_splits)
  then have "ina_list_remove_data l' (Some 7) w' = None"
    using p(3) by (intro recycling_overflows [OF p(2)]) auto
  then show ?thesis using r(1) p(1) by blast
qed

end
