(* ===== verification/Inac_List_Sort.thy ===== *)
theory Inac_List_Sort
  imports Inac_List
begin

text \<open>
  Further operations of the linked list: concatenation, prepending, and the merge sort of
  \<open>src/list.c\<close>, whose split, merge and recursion run on the nodes themselves.  Shown:
  concatenation appends; prepending to a non-empty list loses the node, and the next appended
  one with it; sorting terminates with a sorted permutation of the nodes, linked in both
  directions, but without the pointer from the head to the tail that appending needs.
\<close>

section \<open>Concatenation\<close>

lemma dlist_nonempty:
  assumes "dlist w l (x # xs)"
  shows "l_head l = Some x" "seg (lm_node w) (Some (last (x # xs))) (x # xs) None" "distinct (x # xs)"
  using assms by (auto simp: dlist_def last_or_def)

lemma concat_links:
  assumes dx: "dlist w dest (x # xs)" and dy: "dlist w src (y # ys)" and dis: "set (x # xs) \<inter> set (y # ys) = {}"
  obtains h sh w1 w2 w3 where "lm_node w x = Some h" "lm_node w y = Some sh"
    "set_prev (Some x) (ln_prev sh) w = Some w1" "set_prev (Some y) (ln_prev h) w1 = Some w2"
    "set_next (ln_prev h) (Some y) w2 = Some w3"
    "seg (lm_node w3) (Some (last (y # ys))) (x # xs @ y # ys) None" "relinks (set (x # xs) \<union> set (y # ys)) w w3"
proof -
  obtain as t where t: "x # xs = as @ [t]" by (metis list.discI rev_exhaust)
  have sx: "seg (lm_node w) (Some t) (x # xs) None" using dlist_nonempty(2) [OF dx] t by simp
  have sy: "seg (lm_node w) (Some (last (y # ys))) (y # ys) None" using dlist_nonempty(2) [OF dy] by simp
  obtain h where h: "lm_node w x = Some h" "ln_prev h = Some t" using sx by auto
  obtain sh where sh: "lm_node w y = Some sh" "ln_prev sh = Some (last (y # ys))" using sy by auto
  have dxs: "distinct (x # xs)" "distinct (y # ys)" using dlist_nonempty(3) dx dy by blast+
  have txs: "t \<in> set (x # xs)" "distinct (as @ [t])" using t dxs by simp_all
  obtain w1 where 1: "set_prev (Some x) (ln_prev sh) w = Some w1" "relinks (set (x # xs)) w w1"
    "lm_node w1 = (lm_node w)(x \<mapsto> h\<lparr>ln_prev := ln_prev sh\<rparr>)"
    using put_relinks [OF h(1), of "set (x # xs)" "ln_prev_update (\<lambda>_. ln_prev sh)"] by auto
  have x1: "seg (lm_node w1) (ln_prev sh) (x # xs) None"
    using seg_prev [OF sx _ h(1), of "ln_prev sh"] dxs 1(3) by simp
  have y1: "seg (lm_node w1) (Some (last (y # ys))) (y # ys) None" "lm_node w1 y = Some sh"
    using relinks_seg [OF 1(2), of "y # ys"] sy dis sh(1) 1(3) by auto
  obtain w2 where 2: "set_prev (Some y) (ln_prev h) w1 = Some w2" "relinks (set (y # ys)) w1 w2"
    "lm_node w2 = (lm_node w1)(y \<mapsto> sh\<lparr>ln_prev := ln_prev h\<rparr>)"
    using put_relinks [OF y1(2), of "set (y # ys)" "ln_prev_update (\<lambda>_. ln_prev h)"] by auto
  have y2: "seg (lm_node w2) (Some t) (y # ys) None"
    using seg_prev [OF y1(1) _ y1(2), of "ln_prev h"] dxs 2(3) h(2) by simp
  have x2: "seg (lm_node w2) (ln_prev sh) (x # xs) None" using relinks_seg [OF 2(2), of "x # xs"] x1 dis by auto
  obtain tn where tn: "lm_node w2 t = Some tn" using seg_allocated [OF x2 txs(1)] by blast
  obtain w3 where 3: "set_next (Some t) (Some y) w2 = Some w3" "relinks (set (x # xs)) w2 w3"
    "lm_node w3 = (lm_node w2)(t \<mapsto> tn\<lparr>ln_next := Some y\<rparr>)"
    using put_relinks [OF tn txs(1), of "ln_next_update (\<lambda>_. Some y)"] by auto
  have x3: "seg (lm_node w3) (ln_prev sh) (x # xs) (Some y)"
    using seg_next [of "lm_node w2" "ln_prev sh" as t None tn "Some y"] x2 t tn 3(3) txs(2) by simp
  have "set (y # ys) \<inter> set (x # xs) = {}" using dis by blast
  from relinks_seg [OF 3(2) this] y2 have y3: "seg (lm_node w3) (Some t) (y # ys) None" by blast
  have "seg (lm_node w3) (ln_prev sh) ((x # xs) @ y # ys) None"
    using x3 y3 t unfolding seg_append by (simp add: last_or_def del: seg.simps)
  moreover have "relinks (set (x # xs) \<union> set (y # ys)) w w2" using relinks_trans [OF 1(2) 2(2)] by blast
  then have "relinks (set (x # xs) \<union> set (y # ys)) w w3" by (rule relinks_trans [OF _ 3(2)]) auto
  ultimately show thesis using that [OF h(1) sh(1) 1(1) 2(1)] 3(1) h(2) sh(2) by simp
qed

text \<open>C36. Concatenating two lists with disjoint nodes gives the list of the nodes of the first
  followed by those of the second, correctly linked and counted and with unchanged data, and
  empties the second.\<close>

theorem list_concat_appends:
  assumes "dlist w dest xs" "dlist w src ys" "set xs \<inter> set ys = {}"
  shows "\<exists>dest' src' w'. ina_list_concat dest (Some src) w = Some (dest', Some src', w') \<and>
    dlist w' dest' (xs @ ys) \<and> dlist w' src' [] \<and> data_of (lm_node w') = data_of (lm_node w)"
proof (cases ys)
  case Nil
  then show ?thesis using assms by (auto simp: ina_list_concat_def dlist_def)
next
  case (Cons y ys')
  have merge [simp]: "lm_node (pool_merge p q w') = lm_node w'" for p q and w' :: "'a lmem"
    by (simp add: pool_merge_def split: option.split)
  show ?thesis
  proof (cases xs)
    case Nil
    then show ?thesis using assms Cons by (auto simp: ina_list_concat_def dlist_def split: option.split)
  next
    case x: (Cons x xs')
    from concat_links [OF assms(1) [unfolded x] assms(2) [unfolded Cons] assms(3) [unfolded x Cons]]
    obtain h sh w1 w2 w3 where c: "lm_node w x = Some h" "lm_node w y = Some sh"
      "set_prev (Some x) (ln_prev sh) w = Some w1" "set_prev (Some y) (ln_prev h) w1 = Some w2"
      "set_next (ln_prev h) (Some y) w2 = Some w3"
      "seg (lm_node w3) (Some (last (y # ys'))) (x # xs' @ y # ys') None" "relinks (set (x # xs') \<union> set (y # ys')) w w3"
      by metis
    have "data_of (lm_node w3) = data_of (lm_node w)" using c(7) by (simp add: relinks_def)
    moreover have "distinct (xs @ ys)" "l_count dest + l_count src = of_nat (length (xs @ ys))"
      using assms by (auto simp: dlist_def)
    moreover have "l_head dest = Some x" "l_head src = Some y" using assms x Cons by (auto simp: dlist_def)
    ultimately show ?thesis
      using c(1-6) x Cons by (cases "l_mp dest") (auto simp: ina_list_concat_def dlist_def last_or_def simp del: seg.simps(2))
  qed
qed

section \<open>Prepending\<close>

text \<open>Prepending to a non-empty list loses the node: \<open>ina_list_insert_head\<close> links it in front but
  leaves the head pointer, and the next appended node is linked behind it instead of behind the
  tail.  Both are counted, and a traversal visits neither.\<close>

theorem insert_head_lost:
  assumes dl: "dlist w l (x # xs)" and ab: "a \<notin> set (x # xs)" "b \<notin> set (x # xs)" "a \<noteq> b"
    and al: "lm_node w a = Some na" "lm_node w b = Some nb"
  shows "\<exists>l1 w1 l2 w2. ina_list_insert_head l (Some a) w = Some (Inr (), l1, w1) \<and>
    ina_list_insert_tail l1 (Some b) w1 = Some (Inr (), l2, w2) \<and> ina_list_count l2 = ina_list_count l + 2 \<and>
    (\<forall>f arg (s :: 's). ina_list_foreach_arg l2 f arg w2 s =
       Some (run_list (\<lambda>d. f d arg) (map (data_of (lm_node w)) (x # xs)) s))"
proof -
  note n = dlist_nonempty [OF dl]
  obtain h where h: "lm_node w x = Some h" using n(2) by auto
  have ne: "x \<noteq> a" "x \<noteq> b" using ab by auto
  define w1 where "w1 = w\<lparr>lm_node := (lm_node w)(a \<mapsto> na\<lparr>ln_prev := ln_prev h, ln_next := Some x\<rparr>, x \<mapsto> h\<lparr>ln_prev := Some a\<rparr>)\<rparr>"
  define w2 where "w2 = w1\<lparr>lm_node := (lm_node w1)(b \<mapsto> nb\<lparr>ln_prev := Some a, ln_next := None\<rparr>, x \<mapsto> h\<lparr>ln_prev := Some b\<rparr>,
    a \<mapsto> na\<lparr>ln_prev := ln_prev h, ln_next := Some b\<rparr>)\<rparr>"
  have "ina_list_insert_head l (Some a) w = Some (Inr (), l\<lparr>l_count := l_count l + 1\<rparr>, w1)"
    using n(1) h al(1) ne by (simp add: ina_list_insert_head_def w1_def fun_upd_twist)
  moreover have "ina_list_insert_tail (l\<lparr>l_count := l_count l + 1\<rparr>) (Some b) w1 = Some (Inr (), l\<lparr>l_count := l_count l + 2\<rparr>, w2)"
    using n(1) h al ne ab by (simp add: ina_list_insert_tail_def w1_def w2_def fun_upd_twist)
  moreover have "ina_list_foreach_arg (l\<lparr>l_count := l_count l + 2\<rparr>) f arg w2 s =
      Some (run_list (\<lambda>d. f d arg) (map (data_of (lm_node w)) (x # xs)) s)" for f arg and s :: 's
  proof -
    have sg: "seg (lm_node w2) (Some b) (x # xs) None"
      using n(2,3) h ab ne by (simp add: w1_def w2_def)
    have "data_of (lm_node w2) c = data_of (lm_node w) c" if "c \<in> set (x # xs)" for c
      using that ab h by (auto simp: w1_def w2_def data_of_def)
    then have "map (data_of (lm_node w2)) (x # xs) = map (data_of (lm_node w)) (x # xs)" by (intro map_cong) auto
    then show ?thesis
      using foreach_loop_seg [OF sg, of "\<lambda>d. f d arg" s] n(1) by (simp only: ina_list_foreach_arg_def) simp
  qed
  ultimately show ?thesis by (auto simp: ina_list_count_def)
qed

section \<open>Merging and splitting\<close>

fun lmerge :: "('a \<Rightarrow> 'a \<Rightarrow> bool) \<Rightarrow> 'a list \<Rightarrow> 'a list \<Rightarrow> 'a list" where
  "lmerge lt [] ys = ys"
| "lmerge lt (x # xs) [] = x # xs"
| "lmerge lt (x # xs) (y # ys) = (if lt x y then x # lmerge lt xs (y # ys) else y # lmerge lt (x # xs) ys)"

function lsort :: "('a \<Rightarrow> 'a \<Rightarrow> bool) \<Rightarrow> 'a list \<Rightarrow> 'a list" where
  "lsort lt xs =
     (if length xs \<le> 1 then xs
      else lmerge lt (lsort lt (take ((length xs + 1) div 2) xs)) (lsort lt (drop ((length xs + 1) div 2) xs)))"
  by pat_completeness auto
termination
  by (relation "measure (length \<circ> snd)") auto

declare lsort.simps [simp del]

lemma mset_lmerge [simp]: "mset (lmerge lt xs ys) = mset xs + mset ys"
  by (induction lt xs ys rule: lmerge.induct) auto

lemma set_lmerge [simp]: "set (lmerge lt xs ys) = set xs \<union> set ys"
  by (induction lt xs ys rule: lmerge.induct) auto

lemma mset_lsort [simp]: "mset (lsort lt xs) = mset xs"
proof (induction lt xs rule: lsort.induct)
  case (1 lt xs)
  then show ?case by (subst lsort.simps) (auto simp flip: mset_append)
qed

lemma set_lsort [simp]: "set (lsort lt xs) = set xs"
  by (metis mset_lsort set_mset_mset)

lemma lmerge_nonempty: "xs \<noteq> [] \<Longrightarrow> ys \<noteq> [] \<Longrightarrow> lmerge lt xs ys \<noteq> []"
  by (cases xs; cases ys) auto

text \<open>A strict weak order, as a comparison function is expected to give one.\<close>

definition weak_order :: "('a \<Rightarrow> 'a \<Rightarrow> bool) \<Rightarrow> bool" where
  "weak_order lt \<longleftrightarrow> (\<forall>a b. lt a b \<longrightarrow> \<not> lt b a) \<and> (\<forall>a b c. \<not> lt b a \<longrightarrow> \<not> lt c b \<longrightarrow> \<not> lt c a)"

lemma weak_orderD: "weak_order lt \<Longrightarrow> lt a b \<Longrightarrow> \<not> lt b a" "weak_order lt \<Longrightarrow> \<not> lt b a \<Longrightarrow> \<not> lt c b \<Longrightarrow> \<not> lt c a"
  unfolding weak_order_def by blast+

lemma sorted_lmerge:
  "weak_order lt \<Longrightarrow> sorted_wrt (\<lambda>a b. \<not> lt b a) xs \<Longrightarrow> sorted_wrt (\<lambda>a b. \<not> lt b a) ys \<Longrightarrow>
   sorted_wrt (\<lambda>a b. \<not> lt b a) (lmerge lt xs ys)"
proof (induction lt xs ys rule: lmerge.induct)
  case (3 lt x xs y ys)
  show ?case
  proof (cases "lt x y")
    case True
    have "\<not> lt z x" if "z \<in> set ys" for z
      using weak_orderD(2) [OF "3.prems"(1) weak_orderD(1) [OF "3.prems"(1) True]] "3.prems"(3) that by simp
    then show ?thesis using 3 True weak_orderD(1) [OF "3.prems"(1) True] by simp blast
  next
    case False
    have "\<not> lt z y" if "z \<in> set xs" for z
      using weak_orderD(2) [OF "3.prems"(1) False] "3.prems"(2) that by simp
    then show ?thesis using 3 False by simp blast
  qed
qed simp_all

lemma sorted_lsort: "weak_order lt \<Longrightarrow> sorted_wrt (\<lambda>a b. \<not> lt b a) (lsort lt xs)"
proof (induction lt xs rule: lsort.induct)
  case (1 lt xs)
  show ?case
  proof (cases "length xs \<le> 1")
    case True
    then show ?thesis by (cases xs) (auto simp: lsort.simps)
  next
    case False
    then show ?thesis using sorted_lmerge [OF "1.prems" 1(1) 1(2)] "1.prems" by (subst lsort.simps) simp
  qed
qed

text \<open>Putting a node in front of a chain, as both branches of the merge do.\<close>

lemma link_front:
  assumes "seg (lm_node w) p (z # zs) None" "a \<notin> set (z # zs)" "lm_node w a = Some n" "z \<notin> set zs"
  obtains w1 w2 w3 where "set_next (Some a) (Some z) w = Some w1" "set_prev (Some z) (Some a) w1 = Some w2"
    "set_prev (Some a) None w2 = Some w3" "seg (lm_node w3) None (a # z # zs) None" "relinks (insert a (set (z # zs))) w w3"
proof -
  let ?A = "insert a (set (z # zs))"
  obtain zn where zn: "lm_node w z = Some zn" using assms(1) by auto
  obtain w1 where 1: "set_next (Some a) (Some z) w = Some w1" "relinks ?A w w1" "lm_node w1 = (lm_node w)(a \<mapsto> n\<lparr>ln_next := Some z\<rparr>)"
    using put_relinks [OF assms(3), of ?A "ln_next_update (\<lambda>_. Some z)"] by auto
  have "lm_node w1 z = Some zn" using zn 1(3) assms(2) by auto
  then obtain w2 where 2: "set_prev (Some z) (Some a) w1 = Some w2" "relinks ?A w1 w2" "lm_node w2 = (lm_node w1)(z \<mapsto> zn\<lparr>ln_prev := Some a\<rparr>)"
    using put_relinks [of w1 z zn ?A "ln_prev_update (\<lambda>_. Some a)"] by auto
  have "lm_node w2 a = Some (n\<lparr>ln_next := Some z\<rparr>)" using 1(3) 2(3) assms(2) by auto
  then obtain w3 where 3: "set_prev (Some a) None w2 = Some w3" "relinks ?A w2 w3"
    "lm_node w3 = (lm_node w2)(a \<mapsto> n\<lparr>ln_next := Some z, ln_prev := None\<rparr>)"
    using put_relinks [of w2 a _ ?A "ln_prev_update (\<lambda>_. None)"] by auto
  have "seg (lm_node w3) None (a # z # zs) None" using assms zn 1(3) 2(3) 3(3) by auto
  moreover have "relinks ?A w w3" using relinks_trans [OF relinks_trans [OF 1(2) 2(2) order_refl order_refl] 3(2) order_refl order_refl] .
  ultimately show thesis using that 1(1) 2(1) 3(1) by blast
qed

lemma distinct_lmerge: "distinct (xs @ ys) \<Longrightarrow> distinct (lmerge lt xs ys)"
  by (metis mset_append mset_eq_imp_distinct_iff mset_lmerge)

lemma merge_front:
  assumes "relinks A w w1" "seg (lm_node w1) p zs None" "zs \<noteq> []" "set zs = A" "distinct zs" "a \<notin> A" "lm_node w a = Some n"
  shows "\<exists>w2 w3 w4. set_next (Some a) (hd_or zs None) w1 = Some w2 \<and> set_prev (hd_or zs None) (Some a) w2 = Some w3 \<and>
    set_prev (Some a) None w3 = Some w4 \<and> seg (lm_node w4) None (a # zs) None \<and> relinks (insert a A) w w4"
proof -
  obtain z zs' where z: "zs = z # zs'" using assms(3) by (cases zs) auto
  have "lm_node w1 a = Some n" using assms(1,6,7) by (simp add: relinks_def)
  moreover have "seg (lm_node w1) p (z # zs') None" "a \<notin> set (z # zs')" "z \<notin> set zs'" using assms(2,4,5,6) z by simp_all
  ultimately obtain w2 w3 w4 where "set_next (Some a) (Some z) w1 = Some w2" "set_prev (Some z) (Some a) w2 = Some w3"
    "set_prev (Some a) None w3 = Some w4" "seg (lm_node w4) None (a # z # zs') None" "relinks (insert a (set (z # zs'))) w1 w4"
    using link_front [of w1 p z zs' a n] by blast
  moreover have "relinks (insert a A) w w4"
    by (rule relinks_trans [OF assms(1) \<open>relinks (insert a (set (z # zs'))) w1 w4\<close>]) (use assms(4) z in auto)
  ultimately show ?thesis unfolding z by auto
qed

lemma merge_correct:
  fixes w :: "'d lmem"
  assumes "lt = (\<lambda>a b. compare_fn (data_of (lm_node w) a) (data_of (lm_node w) b) < 0)"
    and "seg (lm_node w) p xs None" "seg (lm_node w) q ys None" "distinct (xs @ ys)"
  shows "\<exists>w' p'. ina_merge compare_fn (hd_or xs None) (hd_or ys None) w = Some (hd_or (lmerge lt xs ys) None, w') \<and>
      seg (lm_node w') p' (lmerge lt xs ys) None \<and> relinks (set xs \<union> set ys) w w' \<and> (xs \<noteq> [] \<and> ys \<noteq> [] \<longrightarrow> p' = None)"
  using assms
proof (induction lt xs ys arbitrary: p q rule: lmerge.induct)
  case (1 lt ys)
  then show ?case by (subst ina_merge.simps) auto
next
  case (2 lt x xs)
  then show ?case by (subst ina_merge.simps) auto
next
  case (3 lt x xs y ys)
  obtain a where a: "lm_node w x = Some a" "ln_next a = hd_or xs None" "seg (lm_node w) (Some x) xs None" using "3.prems"(2) by auto
  obtain b where b: "lm_node w y = Some b" "ln_next b = hd_or ys None" "seg (lm_node w) (Some y) ys None" using "3.prems"(3) by auto
  have cmp: "compare_fn (ln_data a) (ln_data b) < 0 \<longleftrightarrow> lt x y" using a(1) b(1) by (simp add: "3.prems"(1) data_of_def)
  show ?case
  proof (cases "lt x y")
    case True
    let ?zs = "lmerge lt xs (y # ys)"
    obtain w1 p1 where m: "ina_merge compare_fn (hd_or xs None) (Some y) w = Some (hd_or ?zs None, w1)"
      "seg (lm_node w1) p1 ?zs None" "relinks (set xs \<union> set (y # ys)) w w1"
      using "3.IH"(1) [OF True "3.prems"(1) a(3) "3.prems"(3)] "3.prems"(4) by auto
    have "?zs \<noteq> []" by (cases xs) auto
    from merge_front [OF m(3,2) this _ _ _ a(1)] obtain w2 w3 w4 where "set_next (Some x) (hd_or ?zs None) w1 = Some w2"
      "set_prev (hd_or ?zs None) (Some x) w2 = Some w3" "set_prev (Some x) None w3 = Some w4"
      "seg (lm_node w4) None (x # ?zs) None" "relinks (insert x (set xs \<union> set (y # ys))) w w4"
      using distinct_lmerge [of xs "y # ys" lt] "3.prems"(4) by auto
    then show ?thesis using True a(1,2) b(1) cmp m(1) by (subst ina_merge.simps) (auto simp: insert_commute)
  next
    case False
    let ?zs = "lmerge lt (x # xs) ys"
    obtain w1 p1 where m: "ina_merge compare_fn (Some x) (hd_or ys None) w = Some (hd_or ?zs None, w1)"
      "seg (lm_node w1) p1 ?zs None" "relinks (set (x # xs) \<union> set ys) w w1"
      using "3.IH"(2) [OF False "3.prems"(1,2) b(3)] "3.prems"(4) by auto
    have "?zs \<noteq> []" by (cases ys) auto
    from merge_front [OF m(3,2) this _ _ _ b(1)] obtain w2 w3 w4 where "set_next (Some y) (hd_or ?zs None) w1 = Some w2"
      "set_prev (hd_or ?zs None) (Some y) w2 = Some w3" "set_prev (Some y) None w3 = Some w4"
      "seg (lm_node w4) None (y # ?zs) None" "relinks (insert y (set (x # xs) \<union> set ys)) w w4"
      using distinct_lmerge [of "x # xs" ys lt] "3.prems"(4) by auto
    then show ?thesis using False a(1) b(1,2) cmp m(1) by (subst ina_merge.simps) (auto simp: insert_commute)
  qed
qed

text \<open>The slow pointer stops at the last node of the first half.\<close>

lemma seg_nth:
  "seg m pv xs nx \<Longrightarrow> i < length xs \<Longrightarrow> \<exists>n. m (xs ! i) = Some n \<and> ln_next n = hd_or (drop (Suc i) xs) nx"
proof (induction xs arbitrary: pv i)
  case (Cons x xs)
  then show ?case by (cases i) auto
qed simp

lemma hd_or_drop: "i < length xs \<Longrightarrow> hd_or (drop i xs) nx = Some (xs ! i)"
  by (metis Cons_nth_drop_Suc hd_or.simps(2))

lemma split_loop_correct:
  assumes "seg (lm_node w) pv xs None" "2 * k < length xs"
  shows "split_loop (Some (xs ! (2 * k))) (Some (xs ! k)) w = Some (Some (xs ! ((length xs - 1) div 2)))"
  using assms(2)
proof (induction "length xs - 2 * k" arbitrary: k rule: less_induct)
  case less
  obtain f where f: "lm_node w (xs ! (2 * k)) = Some f" "ln_next f = hd_or (drop (Suc (2 * k)) xs) None"
    using seg_nth [OF assms(1) less.prems] by blast
  obtain n where n: "lm_node w (xs ! k) = Some n" "ln_next n = hd_or (drop (Suc k) xs) None"
    using seg_nth [OF assms(1), of k] less.prems by auto
  consider "length xs = 2 * k + 1" | "length xs = 2 * k + 2" | "2 * k + 2 < length xs" using less.prems by linarith
  then show ?case
  proof cases
    case 1
    then show ?thesis using f by (subst split_loop.simps) simp
  next
    case 2
    obtain g where "lm_node w (xs ! (2 * k + 1)) = Some g" "ln_next g = None"
      using seg_nth [OF assms(1), of "2 * k + 1"] 2 by auto
    then show ?thesis using f 2 by (subst split_loop.simps) (simp add: hd_or_drop)
  next
    case 3
    obtain g where "lm_node w (xs ! (2 * k + 1)) = Some g" "ln_next g = Some (xs ! (2 * k + 2))"
      using seg_nth [OF assms(1), of "2 * k + 1"] 3 by (auto simp: hd_or_drop)
    then show ?thesis using f n 3 less.hyps [of "k + 1"] by (subst split_loop.simps) (simp add: hd_or_drop)
  qed
qed

lemma split_correct:
  assumes "seg (lm_node w) pv xs None" "distinct xs" "2 \<le> length xs"
  defines "h \<equiv> (length xs + 1) div 2"
  shows "\<exists>w'. ina_split (hd_or xs None) w = Some (hd_or (drop h xs) None, w') \<and>
    seg (lm_node w') pv (take h xs) None \<and> seg (lm_node w') (Some (last (take h xs))) (drop h xs) None \<and> relinks (set xs) w w'"
proof -
  let ?k = "(length xs - 1) div 2"
  have k: "?k < length xs" "h = Suc ?k" using assms(3) by (auto simp: h_def)
  have tk: "take h xs = take ?k xs @ [xs ! ?k]" using k by (simp add: take_Suc_conv_app_nth)
  have xs: "xs = take h xs @ drop h xs" by simp
  have sp: "seg (lm_node w) pv (take h xs) (hd_or (drop h xs) None)" "seg (lm_node w) (Some (xs ! ?k)) (drop h xs) None"
    using assms(1) by (subst (asm) xs, simp only: seg_append tk last_or_simps)+
  obtain n where n: "lm_node w (xs ! ?k) = Some n" "ln_next n = hd_or (drop h xs) None"
    using seg_nth [OF assms(1) k(1)] k(2) by auto
  obtain w' where w': "set_next (Some (xs ! ?k)) None w = Some w'" "relinks (set xs) w w'"
    "lm_node w' = (lm_node w)(xs ! ?k \<mapsto> n\<lparr>ln_next := None\<rparr>)"
    using put_relinks [OF n(1), of "set xs" "ln_next_update (\<lambda>_. None)"] k(1) by auto
  have "distinct (take h xs @ drop h xs)" using assms(2) by simp
  then have d: "xs ! ?k \<notin> set (take ?k xs)" "xs ! ?k \<notin> set (drop h xs)" unfolding tk by auto
  have "seg (lm_node w') pv (take h xs) None"
    using seg_next [OF sp(1) [unfolded tk] d(1) n(1), of None] w'(3) tk by simp
  moreover have "seg (lm_node w') (Some (xs ! ?k)) (drop h xs) None" using sp(2) w'(3) d(2) by simp
  moreover have "hd_or xs None = Some (xs ! (2 * 0))" using assms(3) by (cases xs) auto
  then have "ina_split (hd_or xs None) w = Some (hd_or (drop h xs) None, w')"
    using split_loop_correct [OF assms(1), of 0] assms(3) n w'(1) by (fastforce simp: ina_split_def)
  ultimately show ?thesis using w'(2) tk by auto
qed

lemma mergesort_correct:
  fixes w :: "'d lmem"
  assumes "seg (lm_node w) p xs None" "distinct xs" "data_of (lm_node w) = D"
    and lt: "lt = (\<lambda>a b. compare_fn (D a) (D b) < 0)"
  shows "\<exists>w' p'. ina_mergesort compare_fn (hd_or xs None) w = Some (hd_or (lsort lt xs) None, w') \<and>
    seg (lm_node w') p' (lsort lt xs) None \<and> relinks (set xs) w w' \<and> (2 \<le> length xs \<longrightarrow> p' = None)"
  using assms(1-3)
proof (induction "length xs" arbitrary: p xs w rule: less_induct)
  case less
  show ?case
  proof (cases "length xs \<le> 1")
    case True
    then show ?thesis
      using less.prems(1) by (cases xs) (auto simp: lsort.simps ina_mergesort.simps [of _ None] ina_mergesort.simps [of _ "Some _"])
  next
    case False
    define h where "h = (length xs + 1) div 2"
    have len: "length (take h xs) < length xs" "length (drop h xs) < length xs" "take h xs \<noteq> []" "drop h xs \<noteq> []"
      using False by (auto simp: h_def)
    have dist: "distinct (take h xs @ drop h xs)" using less.prems(2) by simp
    then have dis: "set (drop h xs) \<inter> set (take h xs) = {}" unfolding distinct_append by blast
    have sub: "set (take h xs) \<subseteq> set xs" "set (drop h xs) \<subseteq> set xs" by (auto dest: in_set_takeD in_set_dropD)
    obtain w1 where 1: "ina_split (hd_or xs None) w = Some (hd_or (drop h xs) None, w1)" "seg (lm_node w1) p (take h xs) None"
      "seg (lm_node w1) (Some (last (take h xs))) (drop h xs) None" "relinks (set xs) w w1"
      using split_correct [OF less.prems(1,2)] False unfolding h_def by auto
    have D1: "data_of (lm_node w1) = D" using 1(4) less.prems(3) by (simp add: relinks_def)
    obtain w2 q where 2: "ina_mergesort compare_fn (hd_or (take h xs) None) w1 = Some (hd_or (lsort lt (take h xs)) None, w2)"
      "seg (lm_node w2) q (lsort lt (take h xs)) None" "relinks (set (take h xs)) w1 w2"
      using less.hyps [OF len(1) 1(2) _ D1] dist by auto
    have D2: "data_of (lm_node w2) = D" using 2(3) D1 by (simp add: relinks_def)
    have "seg (lm_node w2) (Some (last (take h xs))) (drop h xs) None" using relinks_seg [OF 2(3) dis] 1(3) by simp
    from less.hyps [OF len(2) this _ D2] obtain w3 r where
      3: "ina_mergesort compare_fn (hd_or (drop h xs) None) w2 = Some (hd_or (lsort lt (drop h xs)) None, w3)"
      "seg (lm_node w3) r (lsort lt (drop h xs)) None" "relinks (set (drop h xs)) w2 w3" using dist by auto
    have D3: "data_of (lm_node w3) = D" using 3(3) D2 by (simp add: relinks_def)
    have s3: "seg (lm_node w3) q (lsort lt (take h xs)) None"
      using relinks_seg [OF 3(3), of "lsort lt (take h xs)"] 2(2) dis by (simp add: Int_commute)
    have ne: "lsort lt (take h xs) \<noteq> []" "lsort lt (drop h xs) \<noteq> []" using len(3,4) set_lsort by (metis set_empty)+
    have "distinct (lsort lt (take h xs) @ lsort lt (drop h xs))"
      using dist by (metis mset_append mset_eq_imp_distinct_iff mset_lsort)
    then obtain w4 where 4: "ina_merge compare_fn (hd_or (lsort lt (take h xs)) None) (hd_or (lsort lt (drop h xs)) None) w3 =
        Some (hd_or (lmerge lt (lsort lt (take h xs)) (lsort lt (drop h xs))) None, w4)"
      "seg (lm_node w4) None (lmerge lt (lsort lt (take h xs)) (lsort lt (drop h xs))) None"
      "relinks (set (take h xs) \<union> set (drop h xs)) w3 w4"
      using merge_correct [OF _ s3 3(2), of lt compare_fn] lt D3 ne by auto
    have "relinks (set xs) w w2" by (rule relinks_trans [OF 1(4) 2(3) order_refl sub(1)])
    then have "relinks (set xs) w w3" by (rule relinks_trans [OF _ 3(3) order_refl sub(2)])
    then have "relinks (set xs) w w4" by (rule relinks_trans [OF _ 4(3) order_refl]) (use sub in blast)
    moreover have "lsort lt xs = lmerge lt (lsort lt (take h xs)) (lsort lt (drop h xs))"
      using False by (subst lsort.simps) (simp add: h_def)
    moreover obtain x y ys where x: "xs = x # y # ys" using False by (cases xs; cases "tl xs") auto
    then obtain n where "lm_node w x = Some n" "ln_next n = Some y" using less.prems(1) by auto
    moreover have "hd_or (take h xs) None = hd_or xs None" using len(3) x by (cases h) auto
    ultimately show ?thesis using 1(1) 2(1) 3(1) 4(1,2) x by (subst ina_mergesort.simps) auto
  qed
qed

section \<open>Sorting\<close>

lemma list_sort_structure:
  fixes w :: "'d lmem" and compare_fn :: "'d option \<Rightarrow> 'd option \<Rightarrow> int"
  assumes dl: "dlist w l xs"
  defines "ys \<equiv> lsort (\<lambda>a b. compare_fn (data_of (lm_node w) a) (data_of (lm_node w) b) < 0) xs"
  obtains w' p where "ina_list_sort l compare_fn w = Some (Inr (), l\<lparr>l_head := hd_or ys None\<rparr>, w')"
    "seg (lm_node w') p ys None" "relinks (set xs) w w'" "2 \<le> length xs \<Longrightarrow> p = None"
proof -
  have "seg (lm_node w) (last_or None xs) xs None" "distinct xs" "l_head l = hd_or xs None" using dl by (auto simp: dlist_def)
  from mergesort_correct [OF this(1,2) refl refl, of compare_fn] this(3) show thesis
    using that unfolding ys_def by (auto simp: ina_list_sort_def)
qed

text \<open>C8. Sorting terminates, for every list and every comparison that is a strict weak order, with
  a sorted arrangement of the same elements: a traversal afterwards visits them in that order.\<close>

theorem list_sorts:
  assumes dl: "dlist w l xs" and ord: "weak_order (\<lambda>d e. compare_fn d e < 0)"
  shows "\<exists>l' w' ds. ina_list_sort l compare_fn w = Some (Inr (), l', w') \<and>
    mset ds = mset (map (data_of (lm_node w)) xs) \<and> sorted_wrt (\<lambda>d e. \<not> compare_fn e d < 0) ds \<and>
    ina_list_count l' = ina_list_count l \<and>
    (\<forall>f (arg :: 'c) (s :: 's). ina_list_foreach_arg l' f arg w' s = Some (run_list (\<lambda>d. f d arg) ds s))"
proof -
  let ?D = "data_of (lm_node w)"
  let ?ys = "lsort (\<lambda>a b. compare_fn (?D a) (?D b) < 0) xs"
  obtain w' p where s: "ina_list_sort l compare_fn w = Some (Inr (), l\<lparr>l_head := hd_or ?ys None\<rparr>, w')"
    "seg (lm_node w') p ?ys None" "relinks (set xs) w w'" by (rule list_sort_structure [OF dl])
  have "weak_order (\<lambda>a b. compare_fn (?D a) (?D b) < 0)" using ord unfolding weak_order_def by blast
  then have "sorted_wrt (\<lambda>d e. \<not> compare_fn e d < 0) (map ?D ?ys)" using sorted_lsort by (fastforce simp: sorted_wrt_map)
  moreover have "mset (map ?D ?ys) = mset (map ?D xs)" by simp
  moreover have "data_of (lm_node w') = ?D" using s(3) by (simp add: relinks_def)
  then have "ina_list_foreach_arg (l\<lparr>l_head := hd_or ?ys None\<rparr>) f arg w' t = Some (run_list (\<lambda>d. f d arg) (map ?D ?ys) t)"
    for f and arg :: 'c and t :: 's
    using foreach_loop_seg [OF s(2), of "\<lambda>d. f d arg" t] by (simp add: ina_list_foreach_arg_def)
  ultimately show ?thesis using s(1)
    by (intro exI [of _ "l\<lparr>l_head := hd_or ?ys None\<rparr>"] exI [of _ w'] exI [of _ "map ?D ?ys"]) (simp add: ina_list_count_def)
qed

text \<open>After sorting two or more elements the head has no pointer to the tail any more: the next
  append dereferences a null pointer.\<close>

theorem append_after_sort_fails:
  assumes dl: "dlist w l xs" and len: "2 \<le> length xs" and a: "a \<notin> set xs" "lm_node w a = Some n"
  shows "\<exists>l' w'. ina_list_sort l compare_fn w = Some (Inr (), l', w') \<and> ina_list_insert_tail l' (Some a) w' = None"
proof -
  let ?ys = "lsort (\<lambda>a b. compare_fn (data_of (lm_node w) a) (data_of (lm_node w) b) < 0) xs"
  obtain w' p where s: "ina_list_sort l compare_fn w = Some (Inr (), l\<lparr>l_head := hd_or ?ys None\<rparr>, w')"
    "seg (lm_node w') p ?ys None" "relinks (set xs) w w'" "p = None" using list_sort_structure [OF dl] len by blast
  have y: "set ?ys = set xs" by simp
  then obtain z zs where z: "?ys = z # zs" using len by (cases ?ys) auto
  have za: "z \<noteq> a" using y z a(1) by auto
  obtain h where h: "lm_node w' z = Some h" "ln_prev h = None" using s(2,4) z by auto
  have "lm_node w' a = Some n" using s(3) a by (simp add: relinks_def)
  then have "ina_list_insert_tail (l\<lparr>l_head := Some z\<rparr>) (Some a) w' = None"
    using h za by (simp add: ina_list_insert_tail_def Let_def)
  then show ?thesis using s(1) z by auto
qed

text \<open>A list of two nodes with the values 5 and 3, and two nodes beside it.\<close>

definition pair_mem :: "int lmem" where
  "pair_mem = \<lparr>lm_node = [1 \<mapsto> \<lparr>ln_next = Some 2, ln_prev = Some 2, ln_data = Some 5\<rparr>,
                          2 \<mapsto> \<lparr>ln_next = None, ln_prev = Some 1, ln_data = Some 3\<rparr>,
                          3 \<mapsto> \<lparr>ln_next = None, ln_prev = None, ln_data = Some 8\<rparr>,
                          4 \<mapsto> \<lparr>ln_next = None, ln_prev = None, ln_data = Some 9\<rparr>],
               lm_pool = \<lambda>_. 0, lm_brk = 5, lm_pools = 1\<rparr>"

definition pair_list :: "nat \<Rightarrow> u64 \<Rightarrow> llist" where
  "pair_list h c = \<lparr>l_head = Some h, l_cf = 0, l_count = c, l_max_recyclable = 0, l_mp = Some 0,
     l_first_free = [], l_last_free = 0\<rparr>"

definition cmp_int :: "int option \<Rightarrow> int option \<Rightarrow> int" where
  "cmp_int d e = the d - the e"

lemma pair_dlist: "dlist pair_mem (pair_list 1 2) [1, 2]"
  by (simp add: dlist_def pair_mem_def pair_list_def)

lemma cmp_int_order: "weak_order (\<lambda>d e. cmp_int d e < 0)"
  by (auto simp: weak_order_def cmp_int_def)

theorem list_sorts_witness:
  "\<exists>l' w' ds. ina_list_sort (pair_list 1 2) cmp_int pair_mem = Some (Inr (), l', w') \<and>
    mset ds = {#Some 5, Some 3#} \<and> sorted_wrt (\<lambda>d e. \<not> cmp_int e d < 0) ds \<and>
    ina_list_count l' = 2 \<and>
    (\<forall>f arg (s :: nat). ina_list_foreach_arg l' f arg w' s = Some (run_list (\<lambda>d. f d arg) ds s))"
  using list_sorts [OF pair_dlist cmp_int_order]
  by (simp add: pair_mem_def pair_list_def ina_list_count_def data_of_def)

theorem append_after_sort_fails_witness:
  "\<exists>l' w'. ina_list_sort (pair_list 1 2) cmp_int pair_mem = Some (Inr (), l', w') \<and>
    ina_list_insert_tail l' (Some 3) w' = None"
  by (rule append_after_sort_fails [OF pair_dlist]) (simp_all add: pair_mem_def)

theorem insert_head_lost_witness:
  "\<exists>l1 w1 l2 w2. ina_list_insert_head (pair_list 1 2) (Some 3) pair_mem = Some (Inr (), l1, w1) \<and>
    ina_list_insert_tail l1 (Some 4) w1 = Some (Inr (), l2, w2) \<and> ina_list_count l2 = ina_list_count (pair_list 1 2) + 2 \<and>
    (\<forall>f arg (s :: nat). ina_list_foreach_arg l2 f arg w2 s =
       Some (run_list (\<lambda>d. f d arg) (map (data_of (lm_node pair_mem)) [1, 2]) s))"
  by (rule insert_head_lost [OF pair_dlist]) (simp_all add: pair_mem_def)

lemma single_dlist: "dlist (pair_mem\<lparr>lm_node := (lm_node pair_mem)(3 \<mapsto> \<lparr>ln_next = None, ln_prev = Some 3, ln_data = Some 8\<rparr>)\<rparr>)
    (pair_list 3 1) [3]"
  "dlist (pair_mem\<lparr>lm_node := (lm_node pair_mem)(3 \<mapsto> \<lparr>ln_next = None, ln_prev = Some 3, ln_data = Some 8\<rparr>)\<rparr>)
    (pair_list 1 2) [1, 2]"
  by (simp_all add: dlist_def pair_mem_def pair_list_def)

theorem list_concat_appends_witness:
  "\<exists>w dest' src' w'. ina_list_concat (pair_list 1 2) (Some (pair_list 3 1)) w = Some (dest', Some src', w') \<and>
    dlist w' dest' ([1, 2] @ [3]) \<and> dlist w' src' [] \<and> data_of (lm_node w') = data_of (lm_node (w :: int lmem))"
  using list_concat_appends [OF single_dlist(2,1)] by fastforce

end
