(* ===== verification/Inac_Mempool.thy ===== *)
theory Inac_Mempool
  imports Inac_Hashtable "HOL-Library.Monad_Syntax"
begin

text \<open>
  Aligned allocation and the memory pools of \<open>src/memory.c\<close>, \<open>include/libinac/memory.h\<close> and
  \<open>include/libinac/mempool.h\<close>.  A pool is the list of its chunks, from the root along the
  \<open>child\<close> pointers, and the index of the chunk in use; a pointer into a pool is the identity of a
  chunk and an offset.  Sizes are 64-bit words and wrap.  What the C library and the operating
  system answer (\<open>malloc\<close>, fresh contents, shared mappings) are parameters.  An assertion that
  fails, like any other crash, is the outer \<open>None\<close>.  Shown: blocks handed out from both ends of
  the chunks never overlap and stay inside, whatever the sequence of allocations and resets;
  for which sizes the rounding wraps around; when a pool reports that it is full; what
  reallocation keeps and where it leaves its pool.
\<close>

section \<open>Aligned allocation\<close>

definition INA_MEM_ALIGN_N :: "u64 \<Rightarrow> u64 \<Rightarrow> u64" where
  "INA_MEM_ALIGN_N n a = (n + (a - 1)) AND (NOT (a - 1))"

definition INA_MEM_ALIGN :: "u64 \<Rightarrow> u64" where
  "INA_MEM_ALIGN n = (n + (16 - 1)) AND (NOT (16 - 1))"

definition ina_mem_get_aligned_size :: "u64 \<Rightarrow> u64" where
  "ina_mem_get_aligned_size query = (query + (16 - 1)) AND (NOT (16 - 1))"

text \<open>The result of \<open>ina_mem_alloc_aligned\<close>: the pointer, the address of the word in front of it
  that remembers the block of \<open>malloc\<close>, and that block.\<close>

record aligned =
  al_ptr :: u64
  al_slot :: u64
  al_base :: u64

definition align_block :: "u64 \<Rightarrow> u64 \<Rightarrow> aligned" where
  "align_block alignment p =
     (let ptr = (p + 8 + alignment - 1) AND (NOT (alignment - 1))
      in \<lparr>al_ptr = ptr, al_slot = ptr - 8, al_base = p\<rparr>)"

definition ina_mem_alloc_aligned :: "(u64 \<Rightarrow> u64 option) \<Rightarrow> u64 \<Rightarrow> u64 \<Rightarrow> aligned option ina_res" where
  "ina_mem_alloc_aligned malloc alignment sz =
     (if sz = 0 then Inr None
      else if alignment = 0 then Inl INA_ERR_INVALID_ARGUMENT
      else case malloc (sz + alignment - 1 + 8) of
             None \<Rightarrow> Inl INA_ERR_OUT_OF_MEMORY
           | Some p \<Rightarrow> Inr (Some (align_block alignment p)))"

definition ina_mem_alloc :: "(u64 \<Rightarrow> u64 option) \<Rightarrow> u64 \<Rightarrow> aligned option ina_res" where
  "ina_mem_alloc malloc sz = ina_mem_alloc_aligned malloc 8 sz"

text \<open>\<open>ina_mem_free\<close> and \<open>ina_mem_realloc\<close> read the word in front of the pointer.  A failed \<open>realloc\<close>
  is written through (\<open>None\<close>).\<close>

definition ina_mem_free :: "(u64 \<Rightarrow> u64) \<Rightarrow> u64 \<Rightarrow> u64" where
  "ina_mem_free mem ptr = mem (ptr - 8)"

definition ina_mem_realloc :: "(u64 \<Rightarrow> u64) \<Rightarrow> (u64 \<Rightarrow> u64 \<Rightarrow> u64 option) \<Rightarrow> u64 \<Rightarrow> u64 \<Rightarrow> aligned option option" where
  "ina_mem_realloc mem realloc ptr nb =
     (if nb = 0 then Some None
      else case realloc (mem (ptr - 8)) (nb + 8 - 1 + 8) of
             None \<Rightarrow> None
           | Some p \<Rightarrow> Some (Some (align_block 8 p)))"

section \<open>Pools\<close>

abbreviation MEM_MIN_POOL_SIZE :: u64 where "MEM_MIN_POOL_SIZE \<equiv> 1024"
abbreviation MEM_DYNAMIC :: u32 where "MEM_DYNAMIC \<equiv> 1"
abbreviation MEM_AUTOSIZE :: u32 where "MEM_AUTOSIZE \<equiv> 2"
abbreviation MEM_BESTFIT :: u32 where "MEM_BESTFIT \<equiv> 4"
abbreviation MEM_CHILD :: u32 where "MEM_CHILD \<equiv> 8"
abbreviation MEM_SHARED :: u32 where "MEM_SHARED \<equiv> 32"
abbreviation MEM_SHARED_EXCL :: u32 where "MEM_SHARED_EXCL \<equiv> 256"
abbreviation MEM_NOZEROFILL :: u32 where "MEM_NOZEROFILL \<equiv> 512"

record chunk =
  k_id :: nat
  k_cf :: u32
  k_size :: u64
  k_pos :: u64
  k_end :: u64
  k_m :: byte_seq

record mempool =
  p_chunks :: "chunk list"
  p_cur :: nat
  p_alignment :: u64
  p_brk :: nat

record mem_env =
  e_malloc :: "u64 \<Rightarrow> bool"
  e_fresh :: "nat \<Rightarrow> u8"
  e_shm :: "u32 \<Rightarrow> u64 \<Rightarrow> byte_seq ina_res"

record mempool_info =
  i_cf :: u32
  i_size :: u64
  i_used :: u64
  i_children :: u64

text \<open>Opening a shared mapping adds room for a reference counter, which is increased.\<close>

definition ref_count :: "byte_seq \<Rightarrow> u64" where
  "ref_count m = le_word (take 8 m)"

definition set_ref_count :: "u64 \<Rightarrow> byte_seq \<Rightarrow> byte_seq" where
  "set_ref_count c m = le_bytes 8 c @ drop 8 m"

definition ina_shm_open :: "mem_env \<Rightarrow> chunk \<Rightarrow> chunk ina_res" where
  "ina_shm_open env k =
     (let sz = INA_MEM_ALIGN (k_size k + 8)
      in case e_shm env (k_cf k) sz of
           Inl e \<Rightarrow> Inl e
         | Inr m \<Rightarrow> Inr (k\<lparr>k_size := sz, k_end := sz, k_m := set_ref_count (ref_count m + 1) m,
                             k_pos := k_pos k + 8\<rparr>))"

text \<open>Closing: the bytes left in the mapping, and whether its name is removed.\<close>

definition ina_shm_close :: "chunk \<Rightarrow> byte_seq \<times> bool" where
  "ina_shm_close k =
     (let cn = ref_count (k_m k) - 1
      in (set_ref_count cn (k_m k), cn = 0 \<or> k_cf k AND MEM_SHARED_EXCL \<noteq> 0))"

text \<open>A chunk as \<open>ina_mempool_new\<close> makes it.  The contents are filled with zeros before the result of
  the allocation is tested.\<close>

definition new_chunk :: "mem_env \<Rightarrow> nat \<Rightarrow> u64 \<Rightarrow> u32 \<Rightarrow> chunk ina_res option" where
  "new_chunk env i sz cf =
     (let sz = (if sz < MEM_MIN_POOL_SIZE then MEM_MIN_POOL_SIZE else sz);
          sz = INA_MEM_ALIGN sz;
          k = \<lparr>k_id = i, k_cf = cf, k_size = sz, k_pos = 0, k_end = sz, k_m = []\<rparr>
      in if cf AND MEM_SHARED \<noteq> 0 then Some (ina_shm_open env k)
         else if sz = 0 \<or> \<not> e_malloc env sz
              then if cf AND MEM_NOZEROFILL = 0 then None else Some (Inl INA_ERR_OUT_OF_MEMORY)
              else Some (Inr (k\<lparr>k_m := (if cf AND MEM_NOZEROFILL = 0 then replicate (unat sz) 0
                                       else map (e_fresh env) [0..<unat sz])\<rparr>)))"

definition ina_mempool_new :: "mem_env \<Rightarrow> nat \<Rightarrow> u64 \<Rightarrow> u32 \<Rightarrow> mempool ina_res option" where
  "ina_mempool_new env brk sz cf =
     do { k \<leftarrow> new_chunk env brk sz cf;
          Some (case k of
            Inl e \<Rightarrow> Inl e
          | Inr k \<Rightarrow> Inr \<lparr>p_chunks = [k], p_cur = 0,
                         p_alignment = (if cf XOR MEM_BESTFIT \<noteq> 0 then 16 else 1), p_brk = brk + 1\<rparr>) }"

text \<open>The chunks a pool releases.\<close>

definition ina_mempool_free :: "mempool \<Rightarrow> nat list" where
  "ina_mempool_free pool = map k_id (p_chunks pool)"

definition ina_mempool_set_alignment :: "mempool \<Rightarrow> u64 \<Rightarrow> mempool ina_res" where
  "ina_mempool_set_alignment pool alignment =
     (if alignment > 0 then Inr (pool\<lparr>p_alignment := alignment\<rparr>) else Inl INA_ERR_INVALID_ARGUMENT)"

definition ina_mempool_get_alignment :: "mempool \<Rightarrow> u64" where
  "ina_mempool_get_alignment pool = p_alignment pool"

abbreviation root :: "mempool \<Rightarrow> chunk" where "root pool \<equiv> hd (p_chunks pool)"
abbreviation current :: "mempool \<Rightarrow> chunk" where "current pool \<equiv> p_chunks pool ! p_cur pool"

text \<open>Merging puts the source behind the root of the destination; the chunks behind the source's
  root are lost to both.\<close>

definition ina_mempool_merge :: "mempool \<Rightarrow> mempool option \<Rightarrow> mempool ina_res" where
  "ina_mempool_merge dest src =
     (case src of
        None \<Rightarrow> Inr dest
      | Some s \<Rightarrow>
          if k_id (root s) = k_id (root dest) then Inr dest
          else if k_cf (root dest) AND MEM_SHARED \<noteq> 0 \<or> k_cf (root s) AND MEM_SHARED \<noteq> 0
          then Inl INA_ERR_OPERATION_INVALID
          else Inr (dest\<lparr>p_chunks := root dest # root s # tl (p_chunks dest),
                         p_cur := (if p_cur dest = 0 then 0 else p_cur dest + 1),
                         p_brk := max (p_brk dest) (p_brk s)\<rparr>))"

definition ina_mempool_info :: "mempool \<Rightarrow> mempool_info" where
  "ina_mempool_info pool =
     (let f = (\<lambda>info k. info\<lparr>i_size := i_size info + k_size k, i_used := i_used info + (k_pos k + (k_size k - k_end k)),
                             i_children := i_children info + 1\<rparr>);
          info = foldl f \<lparr>i_cf = k_cf (root pool), i_size = 0, i_used = 0, i_children = 0\<rparr> (p_chunks pool)
      in info\<lparr>i_children := i_children info - 1\<rparr>)"

definition ina_mempool_reset :: "mempool \<Rightarrow> mempool" where
  "ina_mempool_reset pool = pool\<lparr>p_chunks := map (\<lambda>k. k\<lparr>k_pos := 0\<rparr>) (p_chunks pool), p_cur := 0\<rparr>"

definition ina_mempool_clear :: "mempool \<Rightarrow> mempool" where
  "ina_mempool_clear pool =
     pool\<lparr>p_chunks := map (\<lambda>k. k\<lparr>k_pos := 0, k_m := replicate (length (k_m k)) 0\<rparr>) (p_chunks pool), p_cur := 0\<rparr>"

text \<open>Shrinking tests the root in every round and frees it in the first one: the pool is gone
  (inner \<open>None\<close>), and a further round that compares reads it after it was freed.\<close>

definition ina_mempool_shrink :: "mempool \<Rightarrow> u64 \<Rightarrow> (mempool_info \<times> mempool option) option" where
  "ina_mempool_shrink pool chunks =
     (let info = ina_mempool_info pool
      in if i_children info \<le> chunks then Some (info, Some pool)
         else if k_end (root pool) = k_size (root pool)
              then if i_children info - 1 > chunks then None else Some (info, None)
              else Some (info, Some (pool\<lparr>p_chunks := map (\<lambda>k. k\<lparr>k_pos := 0\<rparr>) (p_chunks pool)\<rparr>)))"

section \<open>Allocation from a pool\<close>

type_synonym pool_ptr = "nat \<times> u64"

definition fits :: "chunk \<Rightarrow> u64 \<Rightarrow> bool" where
  "fits k sz \<longleftrightarrow> \<not> (k_pos k + sz > k_end k \<or> k_pos k + sz < k_pos k)"

text \<open>The retry loop: the first chunk from \<open>i\<close> on that fits, or the last one.\<close>

function seek :: "chunk list \<Rightarrow> u64 \<Rightarrow> nat \<Rightarrow> nat" where
  "seek ks sz i = (if fits (ks ! i) sz \<or> \<not> Suc i < length ks then i else seek ks sz (Suc i))"
  by pat_completeness auto
termination
  by (relation "measure (\<lambda>(ks, sz, i). length ks - i)") auto

declare seek.simps [simp del]

definition take_low :: "mempool \<Rightarrow> nat \<Rightarrow> u64 \<Rightarrow> pool_ptr \<times> mempool" where
  "take_low pool i sz =
     (let k = p_chunks pool ! i
      in ((k_id k, k_pos k), pool\<lparr>p_chunks := (p_chunks pool)[i := k\<lparr>k_pos := k_pos k + sz\<rparr>], p_cur := i\<rparr>))"

definition take_high :: "mempool \<Rightarrow> nat \<Rightarrow> u64 \<Rightarrow> pool_ptr \<times> mempool" where
  "take_high pool i sz =
     (let k = p_chunks pool ! i
      in ((k_id k, k_end k - sz), pool\<lparr>p_chunks := (p_chunks pool)[i := k\<lparr>k_end := k_end k - sz\<rparr>], p_cur := i\<rparr>))"

definition chunk_request :: "mempool \<Rightarrow> u64 \<Rightarrow> u64" where
  "chunk_request pool sz =
     (if k_cf (root pool) AND MEM_AUTOSIZE \<noteq> 0 \<or> sz > k_size (root pool) then sz else k_size (root pool))"

text \<open>A new child of chunk \<open>i\<close>, replacing whatever followed it.\<close>

definition add_chunk :: "mem_env \<Rightarrow> mempool \<Rightarrow> nat \<Rightarrow> u64 \<Rightarrow> mempool ina_res option" where
  "add_chunk env pool i sz =
     do { k \<leftarrow> new_chunk env (p_brk pool) (chunk_request pool sz) (k_cf (root pool) OR MEM_CHILD);
          Some (case k of
            Inl e \<Rightarrow> Inl e
          | Inr k \<Rightarrow> Inr (pool\<lparr>p_chunks := take (i + 1) (p_chunks pool) @ [k], p_cur := i + 1, p_brk := p_brk pool + 1\<rparr>)) }"

definition ina_mempool_dalloc_aligned ::
  "mem_env \<Rightarrow> mempool \<Rightarrow> u64 \<Rightarrow> u64 \<Rightarrow> (pool_ptr ina_res \<times> mempool) option" where
  "ina_mempool_dalloc_aligned env pool sz alignment =
     (if alignment = 0 then None
      else let sz = INA_MEM_ALIGN_N sz alignment
           in if fits (current pool) sz
              then (let (r, pool) = take_low pool (p_cur pool) sz in Some (Inr r, pool))
              else if k_cf (root pool) AND MEM_DYNAMIC \<noteq> 0
              then let i = seek (p_chunks pool) sz (p_cur pool)
                   in if fits (p_chunks pool ! i) sz
                      then (let (r, pool) = take_low pool i sz in Some (Inr r, pool))
                      else do {
                        p \<leftarrow> add_chunk env pool i sz;
                        Some (case p of
                          Inl e \<Rightarrow> (Inl e, pool\<lparr>p_cur := i\<rparr>)
                        | Inr pool \<Rightarrow> (let (r, pool) = take_low pool (i + 1) sz in (Inr r, pool))) }
              else Some (Inl INA_ERR_POOL_FULL, pool))"

abbreviation ERR_SIZE_INVALID :: ina_rc_t where "ERR_SIZE_INVALID \<equiv> INA_ES ''SIZE'' OR INA_ERR_NOT_of ''VALID''"

text \<open>Allocation from the upper end.  A failed chunk is dereferenced (\<open>None\<close>).\<close>

definition ina_mempool_nalloc_aligned ::
  "mem_env \<Rightarrow> mempool \<Rightarrow> u64 \<Rightarrow> u64 \<Rightarrow> (pool_ptr ina_res \<times> mempool) option" where
  "ina_mempool_nalloc_aligned env pool sz alignment =
     (if alignment = 0 then None
      else let sz = INA_MEM_ALIGN_N sz alignment
           in if k_end (root pool) < sz then Some (Inl ERR_SIZE_INVALID, pool)
              else if fits (current pool) sz
              then (let (r, pool) = take_high pool (p_cur pool) sz in Some (Inr r, pool))
              else if k_cf (root pool) AND MEM_DYNAMIC \<noteq> 0
              then do {
                p \<leftarrow> add_chunk env pool (p_cur pool) sz;
                case p of
                  Inl e \<Rightarrow> None
                | Inr pool \<Rightarrow> (let (r, pool) = take_high pool (p_cur pool) sz in Some (Inr r, pool)) }
              else Some (Inl INA_ERR_POOL_FULL, pool))"

text \<open>Bytes of a block, and writing bytes into the root; outside of the chunk this is \<open>None\<close>.\<close>

definition read_block :: "mempool \<Rightarrow> pool_ptr \<Rightarrow> nat \<Rightarrow> byte_seq option" where
  "read_block pool p n =
     (case List.find (\<lambda>k. k_id k = fst p) (p_chunks pool) of
        None \<Rightarrow> None
      | Some k \<Rightarrow> if unat (snd p) + n \<le> length (k_m k) then Some (take n (drop (unat (snd p)) (k_m k))) else None)"

definition set_root :: "mempool \<Rightarrow> chunk \<Rightarrow> mempool" where
  "set_root pool k = pool\<lparr>p_chunks := k # tl (p_chunks pool)\<rparr>"

definition write_root :: "mempool \<Rightarrow> u64 \<Rightarrow> byte_seq \<Rightarrow> mempool option" where
  "write_root pool off bs =
     (let k = root pool
      in if unat off + length bs \<le> length (k_m k)
         then Some (set_root pool (k\<lparr>k_m := take (unat off) (k_m k) @ bs @ drop (unat off + length bs) (k_m k)\<rparr>))
         else None)"

text \<open>Moving a block to the lower end of the root, wherever that is.\<close>

definition move_block :: "mempool \<Rightarrow> pool_ptr \<Rightarrow> u64 \<Rightarrow> u64 \<Rightarrow> (pool_ptr ina_res \<times> mempool) option" where
  "move_block pool old old_size new_size =
     do { bs \<leftarrow> read_block pool old (unat old_size);
          pool' \<leftarrow> write_root pool (k_pos (root pool)) bs;
          let k = root pool'
          in Some (Inr (k_id k, k_pos k), set_root pool' (k\<lparr>k_pos := k_pos k + new_size\<rparr>)) }"

definition ina_mempool_ralloc_aligned ::
  "mem_env \<Rightarrow> mempool \<Rightarrow> pool_ptr \<Rightarrow> u64 \<Rightarrow> u64 \<Rightarrow> u64 \<Rightarrow> (pool_ptr ina_res \<times> mempool) option" where
  "ina_mempool_ralloc_aligned env pool old old_size new_size alignment =
     (if old_size = 0 \<or> new_size = 0 \<or> alignment = 0 then None
      else let new_size = INA_MEM_ALIGN_N new_size alignment;
               old_size = INA_MEM_ALIGN_N old_size alignment;
               k = root pool
           in if k_end k < old_size then Some (Inl ERR_SIZE_INVALID, pool)
              else if k_pos k \<ge> old_size \<and> (k_id k, k_pos k - old_size) = old
              then if k_pos k + new_size - old_size \<le> k_end k
                   then let k = k\<lparr>k_pos := k_pos k + (new_size - old_size)\<rparr>; pool = set_root pool k
                        in if new_size < old_size
                           then do { pool \<leftarrow> write_root pool (k_pos k) (replicate (unat (old_size - new_size)) 0);
                                     Some (Inr old, pool) }
                           else Some (Inr old, pool)
                   else if k_cf k AND MEM_DYNAMIC \<noteq> 0
                   then do { p \<leftarrow> add_chunk env pool (p_cur pool) new_size;
                             case p of Inl e \<Rightarrow> None | Inr pool \<Rightarrow> move_block pool old old_size new_size }
                   else Some (Inl INA_ERR_OUT_OF_MEMORY, pool)
              else if new_size \<le> old_size then Some (Inr old, pool)
              else if k_pos k + new_size \<ge> k_pos k \<and> k_pos k + new_size \<le> k_end k
              then move_block pool old old_size new_size
              else if k_cf k AND MEM_DYNAMIC \<noteq> 0
              then do { p \<leftarrow> add_chunk env pool (p_cur pool) new_size;
                        case p of Inl e \<Rightarrow> None | Inr pool \<Rightarrow> move_block pool old old_size new_size }
              else Some (Inl INA_ERR_POOL_FULL, pool))"

definition ina_mempool_dalloc :: "mem_env \<Rightarrow> mempool \<Rightarrow> u64 \<Rightarrow> (pool_ptr ina_res \<times> mempool) option" where
  "ina_mempool_dalloc env pool sz = ina_mempool_dalloc_aligned env pool sz (ina_mempool_get_alignment pool)"

definition ina_mempool_nalloc :: "mem_env \<Rightarrow> mempool \<Rightarrow> u64 \<Rightarrow> (pool_ptr ina_res \<times> mempool) option" where
  "ina_mempool_nalloc env pool sz = ina_mempool_nalloc_aligned env pool sz (ina_mempool_get_alignment pool)"

definition ina_mempool_ralloc :: "mem_env \<Rightarrow> mempool \<Rightarrow> pool_ptr \<Rightarrow> u64 \<Rightarrow> u64 \<Rightarrow> (pool_ptr ina_res \<times> mempool) option" where
  "ina_mempool_ralloc env pool old old_size new_size =
     ina_mempool_ralloc_aligned env pool old old_size new_size (ina_mempool_get_alignment pool)"

section \<open>Rounding\<close>

lemma and_plus_and_not: "(x AND m) + (x AND NOT m) = (x :: u64)"
proof -
  have "(x AND m) + (x AND NOT m) = (x AND m) OR (x AND NOT m)"
    by (rule disjunctive_add) (auto simp: bit_simps)
  also have "\<dots> = x" by (rule bit_word_eqI) (auto simp: bit_simps)
  finally show ?thesis .
qed

lemma unat_and_not: "unat (x AND NOT m) = unat x - unat (x AND m)" for x :: u64
proof -
  have "x AND NOT m = x - (x AND m)" using and_plus_and_not [of x m] by (metis add_diff_cancel_left')
  moreover have "x AND m \<le> x" by (rule word_and_le2)
  ultimately show ?thesis by (simp add: unat_sub)
qed

lemma align_n_exact:
  assumes "0 < a"
  shows "unat n + unat a \<le> 2 ^ 64 \<Longrightarrow> unat n \<le> unat (INA_MEM_ALIGN_N n a) \<and> unat (INA_MEM_ALIGN_N n a) < unat n + unat a"
    and "unat n + unat a > 2 ^ 64 \<Longrightarrow> unat (INA_MEM_ALIGN_N n a) < unat n"
proof -
  have a: "unat (a - 1) = unat a - 1" "1 \<le> unat a" using assms by (simp_all add: unat_minus_one unat_gt_0 Suc_leI)
  have le: "unat ((n + (a - 1)) AND (a - 1)) \<le> unat a - 1" using word_and_le1 [of "n + (a - 1)" "a - 1"] a by (simp add: word_le_nat_alt)
  {
    assume "unat n + unat a \<le> 2 ^ 64"
    then have "unat (n + (a - 1)) = unat n + (unat a - 1)" using a by (subst unat_add_lem [THEN iffD1]) auto
    then show "unat n \<le> unat (INA_MEM_ALIGN_N n a) \<and> unat (INA_MEM_ALIGN_N n a) < unat n + unat a"
      using le a by (auto simp: INA_MEM_ALIGN_N_def unat_and_not)
  }
  {
    assume o: "unat n + unat a > 2 ^ 64"
    have "unat (n + (a - 1)) = (unat n + (unat a - 1)) mod 2 ^ 64" using a by (simp add: unat_word_ariths)
    also have "\<dots> = unat n + (unat a - 1) - 2 ^ 64"
      using o a unsigned_less [of n, where 'a = nat] unsigned_less [of a, where 'a = nat] by (subst mod_if) (auto simp: mod_less)
    finally show "unat (INA_MEM_ALIGN_N n a) < unat n"
      using o a unsigned_less [of a, where 'a = nat] by (simp add: INA_MEM_ALIGN_N_def unat_and_not)
  }
qed

lemma align_as_n: "INA_MEM_ALIGN n = INA_MEM_ALIGN_N n 16"
  by (simp add: INA_MEM_ALIGN_def INA_MEM_ALIGN_N_def)

lemma align_pos: "1024 \<le> unat n \<Longrightarrow> unat n \<le> 2 ^ 64 - 16 \<Longrightarrow> INA_MEM_ALIGN n \<noteq> 0"
  using align_n_exact(1) [of 16 n] by (auto simp: align_as_n)

lemma align_nonzero: "INA_MEM_ALIGN n \<noteq> 0 \<Longrightarrow> unat n \<le> unat (INA_MEM_ALIGN n) \<and> unat (INA_MEM_ALIGN n) < unat n + 16"
proof (cases "unat n + 16 \<le> 2 ^ 64")
  case True
  then show ?thesis using align_n_exact(1) [of 16 n] by (simp add: align_as_n)
next
  case False
  assume "INA_MEM_ALIGN n \<noteq> 0"
  moreover have small: "unat (n + 15) < 16"
    using False unsigned_less [of n, where 'a = nat] by (simp add: unat_word_ariths mod_if) arith
  have "(n + 15) AND 15 = take_bit 4 (n + 15)" by (simp add: take_bit_eq_mask mask_eq_exp_minus_1)
  then have "unat ((n + 15) AND 15) = unat (n + 15)" using small by (simp add: take_bit_eq_mod unat_mod)
  then have "unat ((n + 15) AND NOT 15) = 0" unfolding unat_and_not by simp
  then have "(n + 15) AND NOT 15 = 0" by (metis unat_eq_0)
  ultimately show ?thesis by (simp add: INA_MEM_ALIGN_def)
qed

section \<open>Invariant\<close>

definition chunk_ok :: "chunk \<Rightarrow> bool" where
  "chunk_ok k \<longleftrightarrow> k_pos k \<le> k_end k \<and> k_end k \<le> k_size k \<and> length (k_m k) = unat (k_size k)"

lemma fits_iff: "fits k sz \<longleftrightarrow> unat (k_pos k) + unat sz \<le> unat (k_end k)"
proof -
  have "k_pos k + sz < k_pos k \<longleftrightarrow> \<not> unat (k_pos k) + unat sz < 2 ^ 64" using no_olen_add_nat [of "k_pos k" sz] by (simp add: not_le [symmetric])
  moreover have "unat (k_pos k + sz) = unat (k_pos k) + unat sz" if "unat (k_pos k) + unat sz < 2 ^ 64"
    using that by (subst unat_add_lem [THEN iffD1]) auto
  ultimately show ?thesis using unsigned_less [of "k_end k", where 'a = nat] by (auto simp: fits_def word_less_nat_alt)
qed

lemma new_chunk_ok:
  assumes "new_chunk env i sz cf = Some (Inr k)" "cf AND MEM_SHARED = 0"
  shows "chunk_ok k" "k_id k = i" "k_cf k = cf" "unat sz \<le> unat (k_end k)" "k_pos k = 0" "k_end k = k_size k"
    "unat (k_size k) < max (unat sz) 1024 + 16"
proof -
  define s where "s = (if sz < MEM_MIN_POOL_SIZE then MEM_MIN_POOL_SIZE else sz)"
  have k: "INA_MEM_ALIGN s \<noteq> 0" "k = \<lparr>k_id = i, k_cf = cf, k_size = INA_MEM_ALIGN s, k_pos = 0, k_end = INA_MEM_ALIGN s,
      k_m = (if cf AND MEM_NOZEROFILL = 0 then replicate (unat (INA_MEM_ALIGN s)) 0 else map (e_fresh env) [0..<unat (INA_MEM_ALIGN s)])\<rparr>"
    using assms by (auto simp: new_chunk_def s_def Let_def split: if_splits)
  have "unat sz \<le> unat s" "unat s = max (unat sz) 1024" by (auto simp: s_def word_less_nat_alt)
  then show "chunk_ok k" "k_id k = i" "k_cf k = cf" "unat sz \<le> unat (k_end k)" "k_pos k = 0" "k_end k = k_size k"
    "unat (k_size k) < max (unat sz) 1024 + 16"
    using k align_nonzero [OF k(1)] by (auto simp: chunk_ok_def)
qed

definition pool_inv :: "mempool \<Rightarrow> bool" where
  "pool_inv p \<longleftrightarrow> p_chunks p \<noteq> [] \<and> p_cur p < length (p_chunks p) \<and> (\<forall>k \<in> set (p_chunks p). chunk_ok k \<and> k_id k < p_brk p) \<and>
     distinct (map k_id (p_chunks p)) \<and> k_cf (root p) AND MEM_SHARED = 0 \<and> unat (k_size (root p)) \<le> 2 ^ 63 + 16"

text \<open>A block is the identity of a chunk, an offset and a length.\<close>

type_synonym block = "nat \<times> nat \<times> nat"

fun apart :: "block \<Rightarrow> block \<Rightarrow> bool" where
  "apart (i, off, len) (i', off', len') \<longleftrightarrow> i \<noteq> i' \<or> off + len \<le> off' \<or> off' + len' \<le> off"

fun block_in :: "chunk \<Rightarrow> block \<Rightarrow> bool" where
  "block_in k (i, off, len) \<longleftrightarrow> off + len \<le> unat (k_pos k) \<or> unat (k_end k) \<le> off \<and> off + len \<le> unat (k_size k)"

definition blocks_inv :: "mempool \<Rightarrow> block list \<Rightarrow> bool" where
  "blocks_inv p bs \<longleftrightarrow> pool_inv p \<and> sorted_wrt apart bs \<and>
     (\<forall>b \<in> set bs. fst b < p_brk p \<and> (\<forall>k \<in> set (p_chunks p). k_id k = fst b \<longrightarrow> block_in k b))"

lemma seek_range: "i < length ks \<Longrightarrow> i \<le> seek ks sz i \<and> seek ks sz i < length ks"
  by (induction ks sz i rule: seek.induct) (subst (1 2) seek.simps, auto)

lemma seek_stop: "i < length ks \<Longrightarrow> \<not> fits (ks ! seek ks sz i) sz \<Longrightarrow> seek ks sz i = length ks - 1"
  by (induction ks sz i rule: seek.induct) (metis Suc_lessI diff_Suc_1 seek.simps)

text \<open>The retry loop stops at the first chunk that fits.\<close>

lemma seek_first: "i \<le> j \<Longrightarrow> j < seek ks sz i \<Longrightarrow> \<not> fits (ks ! j) sz"
proof (induction ks sz i rule: seek.induct)
  case (1 ks sz i)
  have stop: "\<not> (fits (ks ! i) sz \<or> \<not> Suc i < length ks)" using "1.prems" by (auto simp: seek.simps [of ks sz i] split: if_splits)
  then have "seek ks sz i = seek ks sz (Suc i)" by (subst seek.simps) simp
  then show ?case using "1.IH" [OF stop] "1.prems" stop by (cases "j = i") auto
qed

text \<open>Replacing a chunk by one that has moved its lower or its upper mark.\<close>

lemma replace_chunk:
  assumes inv: "blocks_inv p bs" and i: "i < length (p_chunks p)" and k: "k = p_chunks p ! i"
    and k': "k_id k' = k_id k" "k_cf k' = k_cf k" "k_size k' = k_size k" "chunk_ok k'"
    and keep: "\<And>b. block_in k b \<Longrightarrow> block_in k' b \<and> apart b (k_id k, off, len)" and new: "block_in k' (k_id k, off, len)"
  shows "blocks_inv (p\<lparr>p_chunks := (p_chunks p)[i := k'], p_cur := i\<rparr>) ((k_id k, off, len) # bs)"
proof -
  let ?ks = "(p_chunks p)[i := k']"
  have pi: "pool_inv p" using inv by (simp add: blocks_inv_def)
  have ids: "map k_id ?ks = map k_id (p_chunks p)" using k k'(1) i by (simp add: map_update list_update_same_conv)
  have hd: "k_cf (hd ?ks) = k_cf (root p) \<and> k_size (hd ?ks) = k_size (root p)"
    using k k' i by (cases "p_chunks p"; cases i) auto
  have kin: "k \<in> set (p_chunks p)" using k i by simp
  have "pool_inv (p\<lparr>p_chunks := ?ks, p_cur := i\<rparr>)"
    using pi ids hd k'(1,4) kin i by (auto simp: pool_inv_def dest!: set_update_subset_insert [THEN subsetD])
  moreover have "block_in c b" if bb: "b \<in> set ((k_id k, off, len) # bs)" and cc: "c \<in> set ?ks" and eq: "k_id c = fst b" for b c
  proof (cases "c = k'")
    case True
    have "block_in k b" if "b \<in> set bs" using that inv kin eq True k'(1) by (simp add: blocks_inv_def)
    then show ?thesis using bb keep [of b] new True by auto
  next
    case False
    then have c: "c \<in> set (p_chunks p)" using cc set_update_subset_insert [of "p_chunks p" i k'] by auto
    have "k_id c \<noteq> k_id k"
    proof
      assume "k_id c = k_id k"
      then have "c = k" using pi c kin by (auto simp: pool_inv_def distinct_map inj_on_def)
      then obtain j where "j < length ?ks" "?ks ! j = k" using cc by (auto simp: in_set_conv_nth)
      moreover have "j = i" using calculation pi i k by (auto simp: pool_inv_def distinct_conv_nth nth_list_update split: if_splits) (metis nth_map)
      ultimately show False using i False \<open>c = k\<close> by simp
    qed
    then show ?thesis using bb eq inv c by (auto simp: blocks_inv_def)
  qed
  moreover have "apart (k_id k, off, len) b" if "b \<in> set bs" for b
  proof (cases "fst b = k_id k")
    case True
    then have "block_in k b" using inv that kin by (auto simp: blocks_inv_def)
    then show ?thesis using keep [of b] by (cases b) auto
  qed (cases b, auto)
  moreover have "fst b < p_brk p" if "b \<in> set ((k_id k, off, len) # bs)" for b
    using that inv pi kin by (auto simp: blocks_inv_def pool_inv_def)
  ultimately show ?thesis using inv by (auto simp: blocks_inv_def)
qed

lemma take_low_inv:
  assumes inv: "blocks_inv p bs" and i: "i < length (p_chunks p)" "fits (p_chunks p ! i) sz"
  shows "case take_low p i sz of ((j, off), p') \<Rightarrow> blocks_inv p' ((j, unat off, unat sz) # bs)"
proof -
  let ?k = "p_chunks p ! i" and ?k' = "(p_chunks p ! i)\<lparr>k_pos := k_pos (p_chunks p ! i) + sz\<rparr>"
  have f: "unat (k_pos ?k) + unat sz \<le> unat (k_end ?k)" using i(2) by (simp add: fits_iff)
  then have u: "unat (k_pos ?k + sz) = unat (k_pos ?k) + unat sz"
    using unsigned_less [of "k_end ?k", where 'a = nat] by (subst unat_add_lem [THEN iffD1]) auto
  have ok: "chunk_ok ?k" using inv i(1) by (auto simp: blocks_inv_def pool_inv_def)
  then have "chunk_ok ?k'" using f u by (simp add: chunk_ok_def word_le_nat_alt)
  moreover have "block_in ?k' b \<and> apart b (k_id ?k, unat (k_pos ?k), unat sz)" if "block_in ?k b" for b
    using that f u by (cases b) auto
  ultimately show ?thesis
    using replace_chunk [OF inv i(1) refl, of ?k' "unat (k_pos ?k)" "unat sz"] u by (simp add: take_low_def Let_def)
qed

lemma take_high_inv:
  assumes inv: "blocks_inv p bs" and i: "i < length (p_chunks p)" "fits (p_chunks p ! i) sz"
  shows "case take_high p i sz of ((j, off), p') \<Rightarrow> blocks_inv p' ((j, unat off, unat sz) # bs)"
proof -
  let ?k = "p_chunks p ! i" and ?k' = "(p_chunks p ! i)\<lparr>k_end := k_end (p_chunks p ! i) - sz\<rparr>"
  have f: "unat (k_pos ?k) + unat sz \<le> unat (k_end ?k)" using i(2) by (simp add: fits_iff)
  then have u: "unat (k_end ?k - sz) = unat (k_end ?k) - unat sz" by (simp add: unat_sub word_le_nat_alt)
  have ok: "chunk_ok ?k" using inv i(1) by (auto simp: blocks_inv_def pool_inv_def)
  then have "chunk_ok ?k'" using f u by (auto simp: chunk_ok_def word_le_nat_alt)
  moreover have "block_in ?k' b \<and> apart b (k_id ?k, unat (k_end ?k - sz), unat sz)" if "block_in ?k b" for b
    using that f u by (cases b) auto
  moreover have "unat (k_end ?k) \<le> unat (k_size ?k)" using ok by (simp add: chunk_ok_def word_le_nat_alt)
  ultimately show ?thesis
    using replace_chunk [OF inv i(1) refl, of ?k' "unat (k_end ?k - sz)" "unat sz"] u f by (simp add: take_high_def Let_def)
qed

text \<open>A new chunk is behind the current one, fresh, and large enough for the request.\<close>

lemma or_child: "cf AND MEM_SHARED = 0 \<Longrightarrow> (cf OR MEM_CHILD) AND MEM_SHARED = 0"
  by (simp add: bit.conj_disj_distrib2)

lemma request_ge: "unat sz \<le> unat (chunk_request p sz)"
  by (auto simp: chunk_request_def word_less_nat_alt not_less)

lemma add_chunk_inv:
  assumes inv: "blocks_inv p bs" and i: "i < length (p_chunks p)" and add: "add_chunk env p i sz = Some (Inr p')"
  shows "blocks_inv p' bs" "fits (p_chunks p' ! (i + 1)) sz" "p_cur p' = i + 1" "i + 1 < length (p_chunks p')"
proof -
  let ?cf = "k_cf (root p) OR MEM_CHILD"
  have pi: "pool_inv p" using inv by (simp add: blocks_inv_def)
  obtain k where k: "new_chunk env (p_brk p) (chunk_request p sz) ?cf = Some (Inr k)"
    and p': "p' = p\<lparr>p_chunks := take (i + 1) (p_chunks p) @ [k], p_cur := i + 1, p_brk := p_brk p + 1\<rparr>"
    using add by (auto simp: add_chunk_def split: bind_splits sum.splits)
  note kk = new_chunk_ok [OF k or_child]
  have sh: "k_cf (root p) AND MEM_SHARED = 0" using pi by (simp add: pool_inv_def)
  have len: "length (take (i + 1) (p_chunks p)) = i + 1" using i by simp
  have sub: "set (take (i + 1) (p_chunks p)) \<subseteq> set (p_chunks p)" by (rule set_take_subset)
  have "hd (take (i + 1) (p_chunks p) @ [k]) = root p" using i by (cases "p_chunks p") auto
  moreover have "distinct (map k_id (take (i + 1) (p_chunks p)))" 
    using pi by (metis distinct_take pool_inv_def take_map)
  moreover have "k_id c < p_brk p" "chunk_ok c" if "c \<in> set (take (i + 1) (p_chunks p))" for c
    using pi that sub by (auto simp: pool_inv_def)
  ultimately have "pool_inv p'" using pi i kk(1,2) [OF sh] p' by (fastforce simp: pool_inv_def)
  moreover have "block_in c b" if "b \<in> set bs" "c \<in> set (p_chunks p')" "k_id c = fst b" for b c
  proof (cases "c = k")
    case True
    then show ?thesis using that inv kk(2) [OF sh] by (auto simp: blocks_inv_def)
  next
    case False
    then have "c \<in> set (p_chunks p)" using that(2) p' sub by auto
    then show ?thesis using that inv by (auto simp: blocks_inv_def)
  qed
  ultimately show "blocks_inv p' bs" using inv p' by (fastforce simp: blocks_inv_def)
  have "p_chunks p' ! (i + 1) = k" using p' len by (simp add: nth_append)
  then show "fits (p_chunks p' ! (i + 1)) sz"
    using kk(4,5) [OF sh] request_ge [of sz p] by (simp add: fits_iff)
  show "p_cur p' = i + 1" "i + 1 < length (p_chunks p')" using p' len by simp_all
qed

lemma add_chunk_succeeds:
  assumes "pool_inv p" "e_malloc env = (\<lambda>_. True)" "unat sz \<le> 2 ^ 63 + 2 ^ 32"
  shows "\<exists>p'. add_chunk env p i sz = Some (Inr p')"
proof -
  let ?s = "if chunk_request p sz < MEM_MIN_POOL_SIZE then MEM_MIN_POOL_SIZE else chunk_request p sz"
  have "unat (chunk_request p sz) \<le> 2 ^ 63 + 2 ^ 32" using assms by (auto simp: chunk_request_def pool_inv_def)
  then have "unat ?s \<le> 2 ^ 64 - 16" "1024 \<le> unat ?s" by (auto simp: word_less_nat_alt)
  then have "INA_MEM_ALIGN ?s \<noteq> 0" by (intro align_pos)
  then show ?thesis using assms or_child [of "k_cf (root p)"] by (auto simp: add_chunk_def new_chunk_def Let_def pool_inv_def)
qed

section \<open>Runs of allocations\<close>

fun run_cmds :: "('c \<Rightarrow> 's \<Rightarrow> 's option) \<Rightarrow> 'c list \<Rightarrow> 's \<Rightarrow> 's option" where
  "run_cmds step [] s = Some s"
| "run_cmds step (c # cs) s = Option.bind (step c s) (run_cmds step cs)"

text \<open>An arena: every command keeps the invariant with the list of live blocks, and crashes only where \<open>fails\<close> allows it.\<close>

locale arena =
  fixes inv :: "'s \<Rightarrow> block list \<Rightarrow> bool"
    and okc :: "'c \<Rightarrow> bool"
    and fails :: "'c \<Rightarrow> bool"
    and step :: "'c \<Rightarrow> 's \<times> block list \<Rightarrow> ('s \<times> block list) option"
  assumes step_inv: "inv s bs \<Longrightarrow> okc c \<Longrightarrow> step c (s, bs) = Some (s', bs') \<Longrightarrow> inv s' bs'"
    and step_fails: "inv s bs \<Longrightarrow> okc c \<Longrightarrow> step c (s, bs) = None \<Longrightarrow> fails c"
begin

lemma run_inv:
  "inv s bs \<Longrightarrow> list_all okc cs \<Longrightarrow>
   case run_cmds step cs (s, bs) of None \<Rightarrow> list_ex fails cs | Some (s', bs') \<Rightarrow> inv s' bs'"
proof (induction cs arbitrary: s bs)
  case (Cons c cs)
  show ?case
  proof (cases "step c (s, bs)")
    case None
    then show ?thesis using Cons.prems step_fails [of s bs c] by simp
  next
    case (Some r)
    obtain s1 bs1 where r: "r = (s1, bs1)" by (cases r)
    then have "inv s1 bs1" using Some Cons.prems step_inv [of s bs c] by simp
    then show ?thesis using Some r Cons.IH [of s1 bs1] Cons.prems by (auto split: option.splits)
  qed
qed simp

end

datatype pool_op = DAlloc u64 u64 | NAlloc u64 u64 | Reset | Clear

fun pool_op_ok :: "pool_op \<Rightarrow> bool" where
  "pool_op_ok (DAlloc sz a) \<longleftrightarrow> unat sz \<le> 2 ^ 63 \<and> 0 < a \<and> unat a \<le> 2 ^ 32"
| "pool_op_ok (NAlloc sz a) \<longleftrightarrow> unat sz \<le> 2 ^ 63 \<and> 0 < a \<and> unat a \<le> 2 ^ 32"
| "pool_op_ok Reset \<longleftrightarrow> True"
| "pool_op_ok Clear \<longleftrightarrow> True"

text \<open>The pool and the blocks that are live; a block has the size the caller asked for, rounded up.\<close>

definition note_block :: "u64 \<Rightarrow> block list \<Rightarrow> pool_ptr ina_res \<times> mempool \<Rightarrow> mempool \<times> block list" where
  "note_block sz bs r = (case r of (Inl e, p) \<Rightarrow> (p, bs) | (Inr (i, off), p) \<Rightarrow> (p, (i, unat off, unat sz) # bs))"

fun pool_step :: "mem_env \<Rightarrow> pool_op \<Rightarrow> mempool \<times> block list \<Rightarrow> (mempool \<times> block list) option" where
  "pool_step env (DAlloc sz a) (p, bs) = map_option (note_block (INA_MEM_ALIGN_N sz a) bs) (ina_mempool_dalloc_aligned env p sz a)"
| "pool_step env (NAlloc sz a) (p, bs) = map_option (note_block (INA_MEM_ALIGN_N sz a) bs) (ina_mempool_nalloc_aligned env p sz a)"
| "pool_step env Reset (p, bs) = Some (ina_mempool_reset p, [])"
| "pool_step env Clear (p, bs) = Some (ina_mempool_clear p, [])"

lemma low_then_note:
  assumes "blocks_inv p bs" "i < length (p_chunks p)" "fits (p_chunks p ! i) sz"
  shows "\<exists>p' bs'. note_block sz bs (let (r, p) = take_low p i sz in (Inr r, p)) = (p', bs') \<and> blocks_inv p' bs'"
  using take_low_inv [OF assms] by (auto simp: note_block_def split: prod.splits)

lemma high_then_note:
  assumes "blocks_inv p bs" "i < length (p_chunks p)" "fits (p_chunks p ! i) sz"
  shows "\<exists>p' bs'. note_block sz bs (let (r, p) = take_high p i sz in (Inr r, p)) = (p', bs') \<and> blocks_inv p' bs'"
  using take_high_inv [OF assms] by (auto simp: note_block_def split: prod.splits)

lemma cur_irrelevant: "blocks_inv p bs \<Longrightarrow> i < length (p_chunks p) \<Longrightarrow> blocks_inv (p\<lparr>p_cur := i\<rparr>) bs"
  by (simp add: blocks_inv_def pool_inv_def)

lemma aligned_bound: "unat sz \<le> 2 ^ 63 \<Longrightarrow> 0 < a \<Longrightarrow> unat a \<le> 2 ^ 32 \<Longrightarrow> unat (INA_MEM_ALIGN_N sz a) \<le> 2 ^ 63 + 2 ^ 32"
  using align_n_exact(1) [of a sz] by simp

text \<open>What an allocation leaves, and that it crashes only when \<open>malloc\<close> refuses memory.\<close>

definition refuses :: "mem_env \<Rightarrow> bool" where
  "refuses env \<longleftrightarrow> (\<exists>n. \<not> e_malloc env n)"

definition step_good :: "mem_env \<Rightarrow> (mempool \<times> block list) option \<Rightarrow> bool" where
  "step_good env r \<longleftrightarrow> (case r of None \<Rightarrow> refuses env | Some (p, bs) \<Rightarrow> blocks_inv p bs)"

lemma grow_cases:
  assumes "pool_inv p" "unat sz \<le> 2 ^ 63 + 2 ^ 32"
  obtains "refuses env" "add_chunk env p i sz = None" | e where "refuses env" "add_chunk env p i sz = Some (Inl e)"
    | p1 where "add_chunk env p i sz = Some (Inr p1)"
proof (cases "refuses env")
  case True
  then show ?thesis using that by (cases "add_chunk env p i sz") (metis sum.exhaust)+
next
  case False
  then have "e_malloc env = (\<lambda>_. True)" by (auto simp: refuses_def)
  then show ?thesis using add_chunk_succeeds [OF assms(1) _ assms(2)] that(3) by blast
qed

lemma dalloc_inv:
  assumes inv: "blocks_inv p bs" and ok: "pool_op_ok (DAlloc sz a)"
  shows "step_good env (pool_step env (DAlloc sz a) (p, bs))"
proof -
  let ?sz = "INA_MEM_ALIGN_N sz a" and ?i = "seek (p_chunks p) (INA_MEM_ALIGN_N sz a) (p_cur p)"
  have pi: "pool_inv p" and c: "p_cur p < length (p_chunks p)" using inv by (auto simp: blocks_inv_def pool_inv_def)
  have a: "a \<noteq> 0" "unat ?sz \<le> 2 ^ 63 + 2 ^ 32" using ok aligned_bound [of sz a] by auto
  have si: "?i < length (p_chunks p)" using seek_range [OF c] by blast
  consider (here) "fits (current p) ?sz" | (full) "\<not> fits (current p) ?sz" "k_cf (root p) AND MEM_DYNAMIC = 0"
    | (later) "\<not> fits (current p) ?sz" "k_cf (root p) AND MEM_DYNAMIC \<noteq> 0" "fits (p_chunks p ! ?i) ?sz"
    | (grow) "\<not> fits (current p) ?sz" "k_cf (root p) AND MEM_DYNAMIC \<noteq> 0" "\<not> fits (p_chunks p ! ?i) ?sz" by blast
  then show ?thesis
  proof cases
    case here
    then show ?thesis using low_then_note [OF inv c here] a
      by (auto simp: ina_mempool_dalloc_aligned_def Let_def step_good_def split: prod.splits)
  next
    case full
    then show ?thesis using inv a by (simp add: ina_mempool_dalloc_aligned_def Let_def note_block_def step_good_def)
  next
    case later
    then show ?thesis using low_then_note [OF inv si later(3)] a
      by (auto simp: ina_mempool_dalloc_aligned_def Let_def step_good_def split: prod.splits)
  next
    case grow
    show ?thesis
    proof (rule grow_cases [OF pi a(2), where env = env and i = ?i])
      fix p1 assume p1: "add_chunk env p ?i ?sz = Some (Inr p1)"
      note n = add_chunk_inv [OF inv si p1]
      show ?thesis using low_then_note [OF n(1,4,2)] grow a p1
        by (auto simp: ina_mempool_dalloc_aligned_def Let_def step_good_def split: prod.splits)
    qed (use grow a cur_irrelevant [OF inv si] in \<open>auto simp: ina_mempool_dalloc_aligned_def Let_def step_good_def note_block_def\<close>)
  qed
qed

lemma nalloc_inv:
  assumes inv: "blocks_inv p bs" and ok: "pool_op_ok (NAlloc sz a)"
  shows "step_good env (pool_step env (NAlloc sz a) (p, bs))"
proof -
  let ?sz = "INA_MEM_ALIGN_N sz a"
  have pi: "pool_inv p" and c: "p_cur p < length (p_chunks p)" using inv by (auto simp: blocks_inv_def pool_inv_def)
  have a: "a \<noteq> 0" "unat ?sz \<le> 2 ^ 63 + 2 ^ 32" using ok aligned_bound [of sz a] by auto
  consider (bogus) "k_end (root p) < ?sz" | (here) "\<not> k_end (root p) < ?sz" "fits (current p) ?sz"
    | (full) "\<not> k_end (root p) < ?sz" "\<not> fits (current p) ?sz" "k_cf (root p) AND MEM_DYNAMIC = 0"
    | (grow) "\<not> k_end (root p) < ?sz" "\<not> fits (current p) ?sz" "k_cf (root p) AND MEM_DYNAMIC \<noteq> 0" by blast
  then show ?thesis
  proof cases
    case here
    then show ?thesis using high_then_note [OF inv c here(2)] a
      by (auto simp: ina_mempool_nalloc_aligned_def Let_def step_good_def split: prod.splits)
  next
    case grow
    show ?thesis
    proof (rule grow_cases [OF pi a(2), where env = env and i = "p_cur p"])
      fix p1 assume p1: "add_chunk env p (p_cur p) ?sz = Some (Inr p1)"
      note n = add_chunk_inv [OF inv c p1]
      show ?thesis using high_then_note [OF n(1,4,2)] grow a p1 n(3)
        by (auto simp: ina_mempool_nalloc_aligned_def Let_def step_good_def split: prod.splits)
    qed (use grow a in \<open>auto simp: ina_mempool_nalloc_aligned_def Let_def step_good_def\<close>)
  qed (use inv a in \<open>simp_all add: ina_mempool_nalloc_aligned_def Let_def note_block_def step_good_def\<close>)
qed

lemma reset_inv: "blocks_inv p bs \<Longrightarrow> blocks_inv (ina_mempool_reset p) []" "blocks_inv p bs \<Longrightarrow> blocks_inv (ina_mempool_clear p) []"
  by (cases "p_chunks p"; auto simp: blocks_inv_def pool_inv_def ina_mempool_reset_def ina_mempool_clear_def chunk_ok_def comp_def)+

lemma pool_step_good: "blocks_inv p bs \<Longrightarrow> pool_op_ok c \<Longrightarrow> step_good env (pool_step env c (p, bs))"
  using dalloc_inv nalloc_inv reset_inv by (cases c) (auto simp: step_good_def)

text \<open>A command is an operation together with what \<open>malloc\<close> does during it.\<close>

fun pool_cmd :: "mem_env \<times> pool_op \<Rightarrow> mempool \<times> block list \<Rightarrow> (mempool \<times> block list) option" where
  "pool_cmd (env, c) s = pool_step env c s"

interpretation pool_arena: arena blocks_inv "\<lambda>(_, c). pool_op_ok c" "\<lambda>(env, _). refuses env" pool_cmd
proof
  show "blocks_inv p' bs'" if "blocks_inv p bs" "case c of (_, c) \<Rightarrow> pool_op_ok c" "pool_cmd c (p, bs) = Some (p', bs')" for p bs c p' bs'
    using that pool_step_good [of p bs "snd c" "fst c"] by (cases c) (auto simp: step_good_def)
  show "case c of (env, _) \<Rightarrow> refuses env" if "blocks_inv p bs" "case c of (_, c) \<Rightarrow> pool_op_ok c" "pool_cmd c (p, bs) = None" for p bs c
    using that pool_step_good [of p bs "snd c" "fst c"] by (cases c) (auto simp: step_good_def)
qed

lemma new_pool_inv:
  assumes "ina_mempool_new env brk sz cf = Some (Inr p)" "cf AND MEM_SHARED = 0" "unat sz \<le> 2 ^ 63"
  shows "blocks_inv p []"
proof -
  obtain k where k: "new_chunk env brk sz cf = Some (Inr k)" "p_chunks p = [k]" "p_cur p = 0" "p_brk p = brk + 1"
    using assms(1) by (auto simp: ina_mempool_new_def split: bind_splits sum.splits)
  show ?thesis using k new_chunk_ok [OF k(1) assms(2)] assms(2,3) by (auto simp: blocks_inv_def pool_inv_def)
qed

text \<open>C3. Blocks never overlap.  From a new pool that is not shared and has at most 2^63 bytes, any sequence of
  allocations from the lower and the upper end, with sizes up to 2^63 and positive alignments up to 2^32,
  and of resets, leaves blocks that are pairwise disjoint and lie inside their chunks, counting those handed out
  since the last reset.  \<open>malloc\<close> may refuse any request at any time; only then can the run crash.\<close>

theorem pool_blocks_disjoint:
  assumes "ina_mempool_new env brk sz cf = Some (Inr p)" "cf AND MEM_SHARED = 0" "unat sz \<le> 2 ^ 63"
    and "list_all (\<lambda>(_, c). pool_op_ok c) cs"
  shows "case run_cmds pool_cmd cs (p, []) of
      None \<Rightarrow> list_ex (\<lambda>(env, _). refuses env) cs
    | Some (p', bs) \<Rightarrow> sorted_wrt apart bs \<and>
        (\<forall>(i, off, len) \<in> set bs. \<forall>k \<in> set (p_chunks p'). k_id k = i \<longrightarrow> off + len \<le> length (k_m k))"
proof -
  have r: "case run_cmds pool_cmd cs (p, []) of None \<Rightarrow> list_ex (\<lambda>(env, _). refuses env) cs | Some (p', bs) \<Rightarrow> blocks_inv p' bs"
    using pool_arena.run_inv [OF new_pool_inv [OF assms(1-3)] assms(4)] .
  have "off + len \<le> length (k_m k)"
    if "blocks_inv p' bs" "(i, off, len) \<in> set bs" "k \<in> set (p_chunks p')" "k_id k = i" for p' bs i off len k
  proof -
    have "block_in k (i, off, len)" "chunk_ok k" using that by (fastforce simp: blocks_inv_def pool_inv_def)+
    then show ?thesis by (auto simp: chunk_ok_def word_le_nat_alt)
  qed
  then show ?thesis using r by (auto simp: blocks_inv_def split: option.splits)
qed

definition easy_env :: mem_env where
  "easy_env = \<lparr>e_malloc = \<lambda>_. True, e_fresh = \<lambda>_. 0, e_shm = \<lambda>_ _. Inl INA_ERR_OUT_OF_MEMORY\<rparr>"

definition small_chunk :: "u32 \<Rightarrow> u64 \<Rightarrow> chunk" where
  "small_chunk cf pos = \<lparr>k_id = 0, k_cf = cf, k_size = 1024, k_pos = pos, k_end = 1024, k_m = replicate 1024 0\<rparr>"

definition small_pool :: "u32 \<Rightarrow> u64 \<Rightarrow> mempool" where
  "small_pool cf pos = \<lparr>p_chunks = [small_chunk cf pos], p_cur = 0, p_alignment = 16, p_brk = 1\<rparr>"

lemma small_pool_new: "ina_mempool_new easy_env 0 100 MEM_DYNAMIC = Some (Inr (small_pool MEM_DYNAMIC 0))"
  by (simp add: ina_mempool_new_def new_chunk_def easy_env_def small_pool_def small_chunk_def INA_MEM_ALIGN_def Let_def)

theorem pool_blocks_disjoint_witness:
  "\<exists>p' bs. run_cmds pool_cmd (map (Pair easy_env) [DAlloc 100 16, NAlloc 300 8, DAlloc 800 16, Reset, DAlloc 5000 1]) (small_pool MEM_DYNAMIC 0, []) = Some (p', bs) \<and>
    sorted_wrt apart bs \<and>
    (\<forall>(i, off, len) \<in> set bs. \<forall>k \<in> set (p_chunks p'). k_id k = i \<longrightarrow> off + len \<le> length (k_m k))"
  using pool_blocks_disjoint [OF small_pool_new, of "map (Pair easy_env) [DAlloc 100 16, NAlloc 300 8, DAlloc 800 16, Reset, DAlloc 5000 1]"]
  by (auto simp: easy_env_def refuses_def simp del: pool_cmd.simps pool_step.simps run_cmds.simps split: option.splits)

section \<open>Limits of single operations\<close>

text \<open>Allocation from a pool of fixed size: the block starts at the lower mark and the mark moves
  by the rounded size when that fits below the upper mark, and otherwise the pool is unchanged and
  reported as full.\<close>

theorem fixed_pool_dalloc:
  assumes "k_cf (root p) AND MEM_DYNAMIC = 0" "0 < a"
  shows "ina_mempool_dalloc_aligned env p sz a =
    Some (if unat (k_pos (current p)) + unat (INA_MEM_ALIGN_N sz a) \<le> unat (k_end (current p))
          then (Inr (k_id (current p), k_pos (current p)),
                p\<lparr>p_chunks := (p_chunks p)[p_cur p := (current p)\<lparr>k_pos := k_pos (current p) + INA_MEM_ALIGN_N sz a\<rparr>]\<rparr>)
          else (Inl INA_ERR_POOL_FULL, p))"
  using assms by (simp add: ina_mempool_dalloc_aligned_def Let_def fits_iff take_low_def)

theorem fixed_pool_dalloc_witness:
  "ina_mempool_dalloc_aligned easy_env (small_pool 0 1000) 100 16 = Some (Inl INA_ERR_POOL_FULL, small_pool 0 1000)"
  using fixed_pool_dalloc [of "small_pool 0 1000" 16 easy_env 100]
  by (simp add: small_pool_def small_chunk_def INA_MEM_ALIGN_N_def)

text \<open>The rounding of sizes wraps around exactly when size and alignment together exceed 2^64, and
  then an allocation that fits after the wrap succeeds with a block smaller than the request.\<close>

theorem dalloc_wraps:
  assumes "0 < a" "fits (current p) (INA_MEM_ALIGN_N sz a)" "p_cur p < length (p_chunks p)"
  shows "\<exists>off p'. ina_mempool_dalloc_aligned env p sz a = Some (Inr (k_id (current p), off), p') \<and>
    (k_pos (current p') - k_pos (current p) < sz \<longleftrightarrow> unat sz + unat a > 2 ^ 64)"
proof -
  have "INA_MEM_ALIGN_N sz a < sz \<longleftrightarrow> unat sz + unat a > 2 ^ 64"
    using align_n_exact [OF assms(1), of sz] by (cases "unat sz + unat a \<le> 2 ^ 64") (auto simp: word_less_nat_alt)
  then show ?thesis using assms by (simp add: ina_mempool_dalloc_aligned_def Let_def take_low_def)
qed

theorem dalloc_wraps_witness:
  "\<exists>off p'. ina_mempool_dalloc_aligned easy_env (small_pool 0 1000) (- 1) 16 = Some (Inr (0, off), p') \<and>
    (k_pos (current p') - 1000 < - 1 \<longleftrightarrow> unat (- 1 :: u64) + unat (16 :: u64) > 2 ^ 64)"
proof -
  have "INA_MEM_ALIGN_N (- 1) 16 = 0" by (simp add: INA_MEM_ALIGN_N_def)
  then have "fits (current (small_pool 0 1000)) (INA_MEM_ALIGN_N (- 1) 16)"
    by (simp add: fits_iff small_pool_def small_chunk_def)
  from dalloc_wraps [OF _ this, of easy_env] show ?thesis by (simp add: small_pool_def small_chunk_def)
qed

section \<open>Reallocation\<close>

lemma move_block_correct:
  assumes inv: "pool_inv p" and rd: "read_block p old (unat osz) = Some bs" and room: "unat (k_pos (root p)) + unat osz \<le> length (k_m (root p))"
  shows "\<exists>p'. move_block p old osz nsz = Some (Inr (k_id (root p), k_pos (root p)), p') \<and>
    read_block p' (k_id (root p), k_pos (root p)) (unat osz) = Some bs \<and> k_pos (root p') = k_pos (root p) + nsz"
proof -
  obtain k ks where k: "p_chunks p = k # ks" using inv by (cases "p_chunks p") (auto simp: pool_inv_def)
  have len: "length bs = unat osz" using rd by (auto simp: read_block_def split: option.splits if_splits)
  show ?thesis using rd room len k by (simp add: move_block_def write_root_def set_root_def read_block_def Let_def)
qed

text \<open>Growing a block that is not the last one, in a pool with room: the new block lies at the lower
  mark, carries the old contents, and the mark moves by the new size.\<close>

theorem ralloc_moves:
  assumes "pool_inv p" "0 < old_size" "0 < new_size" "0 < a"
    and "INA_MEM_ALIGN_N old_size a < INA_MEM_ALIGN_N new_size a"
    and "unat (k_pos (root p)) + unat (INA_MEM_ALIGN_N new_size a) \<le> unat (k_end (root p))"
    and "old \<noteq> (k_id (root p), k_pos (root p) - INA_MEM_ALIGN_N old_size a)"
    and "read_block p old (unat (INA_MEM_ALIGN_N old_size a)) = Some bs"
  shows "\<exists>p'. ina_mempool_ralloc_aligned env p old old_size new_size a = Some (Inr (k_id (root p), k_pos (root p)), p') \<and>
    read_block p' (k_id (root p), k_pos (root p)) (unat (INA_MEM_ALIGN_N old_size a)) = Some bs \<and>
    k_pos (root p') = k_pos (root p) + INA_MEM_ALIGN_N new_size a"
proof -
  let ?o = "INA_MEM_ALIGN_N old_size a" and ?n = "INA_MEM_ALIGN_N new_size a" and ?k = "root p"
  have "chunk_ok ?k" using assms(1) by (auto simp: pool_inv_def)
  then have "unat (k_pos ?k) + unat ?o \<le> length (k_m ?k)" using assms(5,6) by (auto simp: chunk_ok_def word_less_nat_alt word_le_nat_alt)
  from move_block_correct [OF assms(1,8) this, of ?n] obtain p' where m: "move_block p old ?o ?n = Some (Inr (k_id ?k, k_pos ?k), p')"
    "read_block p' (k_id ?k, k_pos ?k) (unat ?o) = Some bs" "k_pos (root p') = k_pos ?k + ?n" by blast
  have "\<not> k_end ?k < ?o" using assms(5,6) by (auto simp: word_less_nat_alt)
  moreover have "\<not> ?n \<le> ?o" using assms(5) by simp
  moreover have "k_pos ?k \<le> k_pos ?k + ?n \<and> k_pos ?k + ?n \<le> k_end ?k" using assms(6) fits_iff [of ?k ?n] by (auto simp: fits_def not_less)
  ultimately have "ina_mempool_ralloc_aligned env p old old_size new_size a = move_block p old ?o ?n"
    using assms(2-4,7) by (auto simp: ina_mempool_ralloc_aligned_def Let_def)
  then show ?thesis using m by simp
qed

theorem ralloc_moves_witness:
  "\<exists>p'. ina_mempool_ralloc_aligned easy_env (small_pool 0 512) (0, 64) 16 100 16 = Some (Inr (0, 512), p') \<and>
    read_block p' (0, 512) 16 = Some (replicate 16 0) \<and> k_pos (root p') = 512 + 112"
proof -
  have o: "INA_MEM_ALIGN_N 16 16 = 16" "INA_MEM_ALIGN_N 100 16 = 112" by (simp_all add: INA_MEM_ALIGN_N_def)
  have "pool_inv (small_pool 0 512)" by (simp add: pool_inv_def small_pool_def small_chunk_def chunk_ok_def)
  moreover have "read_block (small_pool 0 512) (0, 64) 16 = Some (replicate 16 0)"
    by (simp add: read_block_def small_pool_def small_chunk_def)
  ultimately show ?thesis
    using ralloc_moves [of "small_pool 0 512" 16 100 16 "(0, 64)" "replicate 16 0" easy_env]
    by (simp only: o) (simp add: small_pool_def small_chunk_def)
qed

text \<open>Growing the last block of a dynamic pool beyond the root leaves the pool: a chunk is added,
  but the result still points at the lower mark of the root, and the new block reaches behind the
  upper mark.\<close>

theorem ralloc_overruns:
  assumes inv: "pool_inv p" and dyn: "k_cf (root p) AND MEM_DYNAMIC \<noteq> 0" and sizes: "0 < old_size" "0 < new_size" "0 < a"
    and last: "INA_MEM_ALIGN_N old_size a \<le> k_pos (root p)" "old = (k_id (root p), k_pos (root p) - INA_MEM_ALIGN_N old_size a)"
    and big: "\<not> k_pos (root p) + INA_MEM_ALIGN_N new_size a - INA_MEM_ALIGN_N old_size a \<le> k_end (root p)"
      "unat (INA_MEM_ALIGN_N new_size a) \<le> 2 ^ 63 + 2 ^ 32"
    and room: "unat (k_pos (root p)) + unat (INA_MEM_ALIGN_N old_size a) \<le> length (k_m (root p))"
    and env: "e_malloc env = (\<lambda>_. True)"
  shows "\<exists>p'. ina_mempool_ralloc_aligned env p old old_size new_size a = Some (Inr (k_id (root p), k_pos (root p)), p') \<and>
    unat (k_pos (root p)) + unat (INA_MEM_ALIGN_N new_size a) > unat (k_end (root p))"
proof -
  let ?o = "INA_MEM_ALIGN_N old_size a" and ?n = "INA_MEM_ALIGN_N new_size a" and ?k = "root p"
  have ok: "k_pos ?k \<le> k_end ?k" using inv by (auto simp: pool_inv_def chunk_ok_def)
  obtain p1 where p1: "add_chunk env p (p_cur p) ?n = Some (Inr p1)" using add_chunk_succeeds [OF inv env big(2)] by blast
  obtain k ks where k: "p_chunks p = k # ks" using inv by (cases "p_chunks p") (auto simp: pool_inv_def)
  obtain k' where p1': "p1 = p\<lparr>p_chunks := take (p_cur p + 1) (p_chunks p) @ [k'], p_cur := p_cur p + 1, p_brk := p_brk p + 1\<rparr>"
    using p1 by (auto simp: add_chunk_def split: bind_splits sum.splits)
  have r1: "root p1 = ?k" using p1' k by simp
  have bi: "blocks_inv p []" using inv by (simp add: blocks_inv_def)
  have inv1: "pool_inv p1" using add_chunk_inv(1) [OF bi _ p1] inv by (auto simp: blocks_inv_def pool_inv_def)
  have "read_block p1 old (unat ?o) \<noteq> None"
    using k p1' last room by (simp add: read_block_def unat_sub word_le_nat_alt)
  then obtain bs where "read_block p1 old (unat ?o) = Some bs" by blast
  from move_block_correct [OF inv1 this, of ?n] room r1 obtain p' where
    "move_block p1 old ?o ?n = Some (Inr (k_id ?k, k_pos ?k), p')" by auto
  moreover have "\<not> k_end ?k < ?o" using last(1) ok by (simp add: not_less)
  ultimately have "ina_mempool_ralloc_aligned env p old old_size new_size a = Some (Inr (k_id ?k, k_pos ?k), p')"
    using sizes last big(1) dyn p1 by (auto simp: ina_mempool_ralloc_aligned_def Let_def)
  moreover have "unat (k_pos ?k) + unat ?n > unat (k_end ?k)"
  proof (rule ccontr)
    assume "\<not> ?thesis"
    then have le: "unat (k_pos ?k) + unat ?n \<le> unat (k_end ?k)" by simp
    then have "unat (k_pos ?k + ?n) = unat (k_pos ?k) + unat ?n"
      using unsigned_less [of "k_end ?k", where 'a = nat] by (subst unat_add_lem [THEN iffD1]) auto
    moreover have "?o \<le> k_pos ?k + ?n" using last(1) calculation by (simp add: word_le_nat_alt)
    ultimately show False using big(1) le by (simp add: word_le_nat_alt unat_sub)
  qed
  ultimately show ?thesis by blast
qed

theorem ralloc_overruns_witness:
  "\<exists>p'. ina_mempool_ralloc_aligned easy_env (small_pool MEM_DYNAMIC 1008) (0, 992) 16 64 16 = Some (Inr (0, 1008), p') \<and>
    unat (1008 :: u64) + unat (64 :: u64) > unat (1024 :: u64)"
proof -
  have o: "INA_MEM_ALIGN_N 16 16 = 16" "INA_MEM_ALIGN_N 64 16 = 64" by (simp_all add: INA_MEM_ALIGN_N_def)
  have "pool_inv (small_pool MEM_DYNAMIC 1008)" by (simp add: pool_inv_def small_pool_def small_chunk_def chunk_ok_def)
  then show ?thesis
    using ralloc_overruns [of "small_pool MEM_DYNAMIC 1008" 16 64 16 "(0, 992)" easy_env]
    by (simp only: o) (simp add: small_pool_def small_chunk_def easy_env_def)
qed

section \<open>Aligned blocks\<close>

lemma unat_pow2: "e < 64 \<Longrightarrow> unat (2 ^ e :: u64) = 2 ^ e"
  using unat_of_nat_small [of "2 ^ e", where 'a = 64] power_strict_increasing [of e 64 "2 :: nat"] by simp

lemma align_dvd: "e < 64 \<Longrightarrow> 2 ^ e dvd unat ((x :: u64) AND NOT (2 ^ e - 1))"
proof -
  assume e: "e < 64"
  have "x AND (2 ^ e - 1) = take_bit e x" by (simp add: take_bit_eq_mask mask_eq_exp_minus_1)
  moreover have "unat (take_bit e x) = unat x mod 2 ^ e" using e by (simp add: take_bit_eq_mod unat_mod unat_pow2)
  ultimately have "unat (x AND (2 ^ e - 1)) = unat x mod 2 ^ e" by simp
  then show ?thesis unfolding unat_and_not by (simp add: minus_mod_eq_mult_div)
qed

text \<open>C35. Aligned allocation with a power of two as alignment, which the code does not test, and a positive size whose sum with
  the alignment and the hidden word does not exceed 64 bits, which it does not test either: with a block
  of \<open>malloc\<close> that does not wrap around the address space, the returned pointer is a multiple of the alignment, the requested bytes and the word in front
  of them lie inside the block, and freeing the pointer finds the block again.\<close>

theorem aligned_block_inside:
  assumes e: "e < 64" and a: "a = 2 ^ e" and sz: "0 < sz" "unat sz + unat a + 7 < 2 ^ 64"
    and mal: "malloc (sz + a - 1 + 8) = Some p" and p: "unat p + (unat sz + unat a + 7) \<le> 2 ^ 64"
  shows "\<exists>al. ina_mem_alloc_aligned malloc a sz = Inr (Some al) \<and> unat a dvd unat (al_ptr al) \<and>
    unat p \<le> unat (al_slot al) \<and> unat (al_slot al) + 8 = unat (al_ptr al) \<and>
    unat (al_ptr al) + unat sz \<le> unat p + (unat sz + unat a + 7) \<and>
    ina_mem_free (mem(al_slot al := al_base al)) (al_ptr al) = p"
proof -
  let ?x = "p + 8 + a - 1"
  let ?ptr = "?x AND NOT (a - 1)"
  have a1: "0 < a" "1 \<le> unat a" using a e by (simp_all add: word_gt_0 unat_pow2)
  have ua: "unat (a - 1) = unat a - 1" using a1(1) by (simp add: unat_minus_one)
  have "0 < unat sz" using sz(1) by (simp add: unat_gt_0)
  then have lt: "unat p + (8 + (unat a - 1)) < 2 ^ 64" using p a1(2) by linarith
  have xe: "?x = p + (8 + (a - 1))" by simp
  have u8: "unat (8 + (a - 1)) = 8 + (unat a - 1)" using lt ua by (subst unat_add_lem [THEN iffD1]) auto
  have "unat (p + (8 + (a - 1))) = unat p + unat (8 + (a - 1))"
    by (rule unat_add_lem [THEN iffD1]) (use lt in \<open>simp only: u8 len_num1 len_bit0; simp\<close>)
  then have x: "unat ?x = unat p + (8 + (unat a - 1))" by (simp only: xe u8)
  have le: "unat (?x AND (a - 1)) \<le> unat a - 1" using word_and_le1 [of ?x "a - 1"] ua by (simp add: word_le_nat_alt)
  have ptr: "unat ?ptr \<le> unat p + (8 + (unat a - 1))" "unat p + 8 \<le> unat ?ptr"
    unfolding unat_and_not x using le by linarith+
  then have slot: "unat (?ptr - 8) = unat ?ptr - 8" by (simp add: unat_sub word_le_nat_alt)
  have "unat a dvd unat ?ptr" using align_dvd [OF e, of ?x] a e by (simp add: unat_pow2)
  moreover have "ina_mem_alloc_aligned malloc a sz = Inr (Some \<lparr>al_ptr = ?ptr, al_slot = ?ptr - 8, al_base = p\<rparr>)"
    using sz(1) a1(1) mal by (auto simp: ina_mem_alloc_aligned_def align_block_def Let_def)
  ultimately show ?thesis using ptr slot a1(2) by (auto simp: ina_mem_free_def)
qed

theorem aligned_block_inside_witness:
  "\<exists>al. ina_mem_alloc_aligned (\<lambda>_. Some 1000) 64 100 = Inr (Some al) \<and> unat (64 :: u64) dvd unat (al_ptr al) \<and>
    unat (1000 :: u64) \<le> unat (al_slot al) \<and> unat (al_slot al) + 8 = unat (al_ptr al) \<and>
    unat (al_ptr al) + unat (100 :: u64) \<le> unat (1000 :: u64) + (unat (100 :: u64) + unat (64 :: u64) + 7) \<and>
    ina_mem_free ((\<lambda>_. 0)(al_slot al := al_base al)) (al_ptr al) = 1000"
  by (rule aligned_block_inside [where e = 6]) simp_all

end
