(* ===== verification/Inac_Str.thy ===== *)
theory Inac_Str
  imports Inac_Mempool
begin

text \<open>
  The strings of \<open>src/string.c\<close> and \<open>include/libinac/string.h\<close>.  A string is a pointer to the data
  behind a header with the allocated size and the length; here it is the record \<open>ina_str\<close> with
  exactly the bytes of the block behind the header, so that every access outside of the block is a
  crash (\<open>None\<close>).  A null pointer is the inner \<open>None\<close> of a result and \<open>None\<close> of an argument.  A C string
  is the memory it is read from, with its terminator; a source never overlaps its destination.
  Shown: any run of edits refines the same edits on byte lists, with the terminator kept in place.
\<close>

section \<open>Memory\<close>

definition mem_read :: "byte_seq \<Rightarrow> nat \<Rightarrow> nat \<Rightarrow> byte_seq option" where
  "mem_read m i n = (if i + n \<le> length m then Some (take n (drop i m)) else None)"

definition mem_write :: "byte_seq \<Rightarrow> nat \<Rightarrow> byte_seq \<Rightarrow> byte_seq option" where
  "mem_write m i bs = (if i + length bs \<le> length m then Some (take i m @ bs @ drop (i + length bs) m) else None)"

definition c_text :: "byte_seq \<Rightarrow> byte_seq" where
  "c_text m = takeWhile (\<lambda>c. c \<noteq> 0) m"

text \<open>\<open>strlen\<close> runs past a memory without terminator.\<close>

definition c_strlen :: "byte_seq \<Rightarrow> nat option" where
  "c_strlen m = (if 0 \<in> set m then Some (length (c_text m)) else None)"

text \<open>\<open>strchr\<close> also finds the terminator.\<close>

definition c_strchr :: "byte_seq \<Rightarrow> u8 \<Rightarrow> bool" where
  "c_strchr m c \<longleftrightarrow> c \<in> set (c_text m) \<or> c = 0"

text \<open>The sign of the result is that of \<open>memcmp\<close>; its size is one that C libraries use.\<close>

fun c_memcmp :: "byte_seq \<Rightarrow> byte_seq \<Rightarrow> int" where
  "c_memcmp (a # as) (b # bs) = (if a = b then c_memcmp as bs else uint a - uint b)"
| "c_memcmp _ _ = 0"

section \<open>Strings on the heap\<close>

abbreviation INA_MAX_PREALLOC :: u64 where "INA_MAX_PREALLOC \<equiv> 524288"
abbreviation INA_POOLED :: u32 where "INA_POOLED \<equiv> 0x80000000"

text \<open>\<open>s_heap\<close> tells a block of \<open>ina_mem_alloc\<close>, which can be reallocated, from a buffer of the caller.\<close>

record ina_str =
  s_size :: u32
  s_len :: u32
  s_data :: byte_seq
  s_heap :: bool

text \<open>A block of \<open>n\<close> bytes with a header.  The aligned allocator asks for 15 bytes more; when that wraps
  around, or the block is shorter than the header, writing the header runs out of it.\<close>

definition str_alloc :: "mem_env \<Rightarrow> u64 \<Rightarrow> ina_str option option" where
  "str_alloc env n =
     (if n = 0 \<or> \<not> e_malloc env (n + 15) then Some None
      else if n < 8 \<or> n + 15 < n then None
      else Some (Some \<lparr>s_size = 0, s_len = 0, s_data = map (e_fresh env) [0..<unat n - 8], s_heap = True\<rparr>))"

definition str_realloc :: "mem_env \<Rightarrow> ina_str \<Rightarrow> u64 \<Rightarrow> ina_str option" where
  "str_realloc env h n =
     (if \<not> s_heap h \<or> \<not> e_malloc env (n + 15) then None
      else let k = unat n - 8
           in Some (h\<lparr>s_data := take k (s_data h) @ map (e_fresh env) [length (s_data h)..<k]\<rparr>))"

definition ina_ensure_size :: "mem_env \<Rightarrow> ina_str \<Rightarrow> u64 \<Rightarrow> ina_str option" where
  "ina_ensure_size env hdr len =
     (let size = ucast (s_size hdr AND NOT INA_POOLED) :: u64
      in if size - ucast (s_len hdr) - 1 > len then Some hdr
         else let newlen = ucast (s_len hdr) + len;
                  newlen = (if newlen < INA_MAX_PREALLOC then newlen * 2 else newlen + INA_MAX_PREALLOC);
                  hdr = hdr\<lparr>s_size := ucast (newlen + 1)\<rparr>
              in str_realloc env hdr (8 + ucast (s_size hdr)))"

definition ina_str_new :: "mem_env \<Rightarrow> u64 \<Rightarrow> ina_str option option" where
  "ina_str_new env len =
     do { h \<leftarrow> str_alloc env (len + 1 + 8);
          case h of
            None \<Rightarrow> Some None
          | Some hdr \<Rightarrow> do {
              d \<leftarrow> mem_write (s_data hdr) 0 [0];
              Some (Some (hdr\<lparr>s_size := ucast (len + 1), s_len := 0, s_data := d\<rparr>)) } }"

text \<open>The common end of the constructors: the copy, the length and the terminator.\<close>

definition str_fill :: "ina_str \<Rightarrow> byte_seq \<Rightarrow> u64 \<Rightarrow> ina_str option" where
  "str_fill hdr blk len =
     do { bs \<leftarrow> mem_read blk 0 (unat len);
          d \<leftarrow> mem_write (s_data hdr) 0 bs;
          d \<leftarrow> mem_write d (unat len) [0];
          Some (hdr\<lparr>s_data := d, s_len := ucast len\<rparr>) }"

definition ina_str_new_fromblk :: "mem_env \<Rightarrow> byte_seq option \<Rightarrow> u64 \<Rightarrow> ina_str option option" where
  "ina_str_new_fromblk env blk len =
     (case blk of
        None \<Rightarrow> ina_str_new env len
      | Some blk \<Rightarrow> do {
          s \<leftarrow> ina_str_new env len;
          case s of None \<Rightarrow> Some None | Some hdr \<Rightarrow> map_option Some (str_fill hdr blk len) })"

definition ina_str_new_fromcstr :: "mem_env \<Rightarrow> byte_seq option \<Rightarrow> ina_str option option" where
  "ina_str_new_fromcstr env cstr =
     do { len \<leftarrow> (case cstr of None \<Rightarrow> Some 0 | Some m \<Rightarrow> c_strlen m);
          s \<leftarrow> ina_str_new env (of_nat len);
          case s of
            None \<Rightarrow> Some None
          | Some hdr \<Rightarrow> map_option Some (str_fill hdr (case cstr of None \<Rightarrow> [] | Some m \<Rightarrow> m) (of_nat len)) }"

definition ina_str_dup :: "mem_env \<Rightarrow> ina_str option \<Rightarrow> ina_str option option" where
  "ina_str_dup env str =
     (case str of None \<Rightarrow> Some None | Some s \<Rightarrow> ina_str_new_fromcstr env (Some (s_data s)))"

text \<open>Whether the block is given back.\<close>

definition ina_str_free :: "ina_str option \<Rightarrow> bool" where
  "ina_str_free str = (case str of None \<Rightarrow> False | Some s \<Rightarrow> s_size s AND INA_POOLED = 0)"

definition ina_str_len :: "ina_str option \<Rightarrow> u64" where
  "ina_str_len str = (case str of None \<Rightarrow> 0 | Some s \<Rightarrow> ucast (s_len s))"

definition ina_str_size :: "ina_str option \<Rightarrow> u64" where
  "ina_str_size str = (case str of None \<Rightarrow> 0 | Some s \<Rightarrow> ucast (s_size s AND NOT INA_POOLED))"

definition ina_str_available :: "ina_str option \<Rightarrow> u64" where
  "ina_str_available str =
     (case str of None \<Rightarrow> 0 | Some s \<Rightarrow> ucast ((s_size s AND NOT INA_POOLED) - s_len s - 1))"

definition ina_str_ncpy :: "mem_env \<Rightarrow> ina_str option \<Rightarrow> byte_seq option \<Rightarrow> u64 \<Rightarrow> ina_str option" where
  "ina_str_ncpy env dest src n =
     do { d \<leftarrow> dest;
          case src of
            None \<Rightarrow> Some d
          | Some src \<Rightarrow> do {
              d \<leftarrow> ina_ensure_size env d n;
              bs \<leftarrow> mem_read src 0 (unat n);
              m \<leftarrow> mem_write (s_data d) 0 bs;
              m \<leftarrow> mem_write m (unat n) [0];
              Some (d\<lparr>s_data := m, s_len := ucast n\<rparr>) } }"

text \<open>Appending to a string that has the room.\<close>

definition str_append :: "ina_str \<Rightarrow> byte_seq \<Rightarrow> u64 \<Rightarrow> ina_str option" where
  "str_append d src n =
     do { bs \<leftarrow> mem_read src 0 (unat n);
          m \<leftarrow> mem_write (s_data d) (unat (s_len d)) bs;
          let len = ucast (ucast (s_len d) + n) :: u32
          in do { m \<leftarrow> mem_write m (unat len) [0];
                  Some (d\<lparr>s_data := m, s_len := len\<rparr>) } }"

definition ina_str_ncat :: "mem_env \<Rightarrow> ina_str option \<Rightarrow> byte_seq option \<Rightarrow> u64 \<Rightarrow> ina_str option" where
  "ina_str_ncat env dest src n =
     do { d \<leftarrow> dest;
          case src of
            None \<Rightarrow> Some d
          | Some src \<Rightarrow> do { d \<leftarrow> ina_ensure_size env d n; str_append d src n } }"

text \<open>The assertion about the length of \<open>src\<close> comes before the test for a null pointer.\<close>

definition ina_str_ncatcstr :: "mem_env \<Rightarrow> ina_str option \<Rightarrow> byte_seq option \<Rightarrow> u64 \<Rightarrow> ina_str option" where
  "ina_str_ncatcstr env dest src n =
     do { d \<leftarrow> dest;
          src \<leftarrow> src;
          l \<leftarrow> c_strlen src;
          if (of_nat l :: u64) \<le> n
          then do { d \<leftarrow> ina_ensure_size env d n; str_append d src n }
          else None }"

definition ina_str_append_chr :: "mem_env \<Rightarrow> ina_str option \<Rightarrow> u8 \<Rightarrow> ina_str option" where
  "ina_str_append_chr env dest c =
     do { d \<leftarrow> dest;
          d \<leftarrow> ina_ensure_size env d 1;
          m \<leftarrow> mem_write (s_data d) (unat (s_len d)) [c];
          let len = s_len d + 1
          in do { m \<leftarrow> mem_write m (unat len) [0];
                  Some (d\<lparr>s_data := m, s_len := len\<rparr>) } }"

definition ina_str_cpy :: "mem_env \<Rightarrow> ina_str option \<Rightarrow> ina_str option \<Rightarrow> ina_str option" where
  "ina_str_cpy env dest src = ina_str_ncpy env dest (map_option s_data src) (ina_str_len src)"

definition ina_str_cat :: "mem_env \<Rightarrow> ina_str option \<Rightarrow> ina_str option \<Rightarrow> ina_str option" where
  "ina_str_cat env dest src = ina_str_ncat env dest (map_option s_data src) (ina_str_len src)"

definition ina_str_catcstr :: "mem_env \<Rightarrow> ina_str option \<Rightarrow> byte_seq option \<Rightarrow> ina_str option" where
  "ina_str_catcstr env dest src =
     do { m \<leftarrow> src; l \<leftarrow> c_strlen m; ina_str_ncatcstr env dest (Some m) (of_nat l) }"

text \<open>Null pointers are compared like empty strings until the first byte behind them is read.\<close>

definition ina_str_cmp :: "ina_str option \<Rightarrow> ina_str option \<Rightarrow> int option" where
  "ina_str_cmp lhs rhs =
     do { l \<leftarrow> lhs; r \<leftarrow> rhs;
          let minlen = unat (min (ina_str_len lhs) (ina_str_len rhs))
          in do { a \<leftarrow> mem_read (s_data l) 0 minlen;
                  b \<leftarrow> mem_read (s_data r) 0 minlen;
                  if c_memcmp a b = 0
                  then do { c1 \<leftarrow> mem_read (s_data l) minlen 1; c2 \<leftarrow> mem_read (s_data r) minlen 1;
                            Some (uint (hd c1) - uint (hd c2)) }
                  else Some (c_memcmp a b) } }"

definition to_upper :: "u8 \<Rightarrow> u8" where
  "to_upper c = (if 224 AND c = 96 then c XOR 32 else c)"

definition to_lower :: "u8 \<Rightarrow> u8" where
  "to_lower c = (if 224 AND c = 64 then c XOR 32 else c)"

fun case_loop :: "(u8 \<Rightarrow> u8) \<Rightarrow> byte_seq \<Rightarrow> byte_seq option" where
  "case_loop f [] = None"
| "case_loop f (c # cs) = (if f c = 0 then Some (f c # cs) else map_option ((#) (f c)) (case_loop f cs))"

definition ina_str_toupper :: "ina_str option \<Rightarrow> ina_str option option" where
  "ina_str_toupper str =
     (case str of None \<Rightarrow> Some None
      | Some s \<Rightarrow> map_option (\<lambda>d. Some (s\<lparr>s_data := d\<rparr>)) (case_loop to_upper (s_data s)))"

definition ina_str_tolower :: "ina_str option \<Rightarrow> ina_str option option" where
  "ina_str_tolower str =
     (case str of None \<Rightarrow> Some None
      | Some s \<Rightarrow> map_option (\<lambda>d. Some (s\<lparr>s_data := d\<rparr>)) (case_loop to_lower (s_data s)))"

definition ina_str_truncate :: "ina_str option \<Rightarrow> u64 \<Rightarrow> ina_str option option" where
  "ina_str_truncate str pos =
     (case str of None \<Rightarrow> Some None
      | Some s \<Rightarrow>
          if pos \<le> ucast (s_len s)
          then map_option (\<lambda>d. Some (s\<lparr>s_data := d, s_len := ucast pos\<rparr>)) (mem_write (s_data s) (unat pos) [0])
          else None)"

text \<open>The two loops of trimming; the back one may start one byte in front of the data.\<close>

function trim_front :: "(u8 \<Rightarrow> bool) \<Rightarrow> byte_seq \<Rightarrow> nat \<Rightarrow> nat \<Rightarrow> nat" where
  "trim_front P d n sp = (if sp < n \<and> P (d ! sp) then trim_front P d n (Suc sp) else sp)"
  by pat_completeness auto
termination
  by (relation "measure (\<lambda>(P, d, n, sp). n - sp)") auto

function trim_back :: "(u8 \<Rightarrow> bool) \<Rightarrow> byte_seq \<Rightarrow> int \<Rightarrow> int" where
  "trim_back P d ep = (if ep > 0 \<and> P (d ! nat ep) then trim_back P d (ep - 1) else ep)"
  by pat_completeness auto
termination
  by (relation "measure (\<lambda>(P, d, ep). nat ep)") auto

declare trim_front.simps [simp del] trim_back.simps [simp del]

definition ina_str_trim :: "ina_str option \<Rightarrow> byte_seq option \<Rightarrow> ina_str option" where
  "ina_str_trim str chars =
     do { s \<leftarrow> str;
          case chars of
            None \<Rightarrow> Some s
          | Some chars \<Rightarrow>
              if 0 \<notin> set chars \<or> unat (s_len s) > length (s_data s) then None
              else let P = c_strchr chars;
                       sp = trim_front P (s_data s) (unat (s_len s)) 0;
                       ep = trim_back P (s_data s) (int (unat (s_len s)) - 1);
                       len = (if int sp > ep then 0 else nat (ep - int sp) + 1)
                   in do { bs \<leftarrow> mem_read (s_data s) sp len;
                           m \<leftarrow> mem_write (s_data s) 0 bs;
                           m \<leftarrow> mem_write m len [0];
                           Some (s\<lparr>s_data := m, s_len := of_nat len\<rparr>) } }"

definition ina_str_substr_internal :: "u64 \<Rightarrow> u64 \<Rightarrow> u64 \<Rightarrow> u64" where
  "ina_str_substr_internal start e len =
     (if len = 0 then 0
      else let newlen = (if start > e then 0 else (e - start) + 1)
           in if newlen = 0 then newlen
              else if start \<ge> len then 0
              else if e \<ge> len
              then let e = len - 1 in if start > e then 0 else (e - start) + 1
              else newlen)"

definition ina_str_substr :: "mem_env \<Rightarrow> ina_str option \<Rightarrow> u64 \<Rightarrow> u64 \<Rightarrow> ina_str option option" where
  "ina_str_substr env str start e =
     do { s \<leftarrow> str;
          ina_str_new_fromblk env (Some (drop (unat start) (s_data s)))
            (ina_str_substr_internal start e (ina_str_len str)) }"

text \<open>A buffer of the caller.  A buffer of eight bytes passes the test and has no room for the
  terminator.\<close>

definition ina_str_assign_buf :: "byte_seq option \<Rightarrow> u64 \<Rightarrow> ina_str ina_res option" where
  "ina_str_assign_buf buf len =
     (case buf of
        None \<Rightarrow> Some (Inl INA_ERR_INVALID_ARGUMENT)
      | Some b \<Rightarrow>
          if len < 8 \<or> len > 2147483647 - 8 then Some (Inl INA_ERR_INVALID_ARGUMENT)
          else if length b < 8 then None
          else do { d \<leftarrow> mem_write (drop 8 b) 0 [0];
                    Some (Inr \<lparr>s_size = ucast len - 8, s_len = 0, s_data = d, s_heap = False\<rparr>) })"

text \<open>The released buffer: the text moved over the header, without a terminator.\<close>

definition ina_str_release_buf :: "ina_str option \<Rightarrow> byte_seq ina_res option" where
  "ina_str_release_buf str =
     (case str of
        None \<Rightarrow> Some (Inl INA_ERR_INVALID_ARGUMENT)
      | Some s \<Rightarrow> do {
          bs \<leftarrow> mem_read (s_data s) 0 (unat (s_len s));
          map_option Inr (mem_write (le_bytes 4 (s_size s) @ le_bytes 4 (s_len s) @ s_data s) 0 bs) })"

definition ina_str_adjust_len :: "ina_str option \<Rightarrow> ina_str option" where
  "ina_str_adjust_len str =
     do { s \<leftarrow> str; l \<leftarrow> c_strlen (s_data s); Some (s\<lparr>s_len := of_nat l\<rparr>) }"

section \<open>Formatted output\<close>

text \<open>\<open>vsnprintf\<close> for a format and arguments that expand to \<open>txt\<close> (\<open>None\<close>: an encoding error).\<close>

definition c_vsnprintf :: "byte_seq \<Rightarrow> nat \<Rightarrow> byte_seq option \<Rightarrow> (int \<times> byte_seq) option" where
  "c_vsnprintf m n txt =
     (case txt of
        None \<Rightarrow> Some (-1, m)
      | Some t \<Rightarrow> if n = 0 then Some (int (length t), m)
                  else map_option (Pair (int (length t))) (mem_write m 0 (take (n - 1) t @ [0])))"

definition ina_str_vsnprintf :: "mem_env \<Rightarrow> ina_str \<Rightarrow> u64 \<Rightarrow> byte_seq option \<Rightarrow> (int \<times> ina_str) option" where
  "ina_str_vsnprintf env str len txt =
     (if len = 0 \<or> ucast (s_size str) < len then None
      else do {
        (l, m) \<leftarrow> c_vsnprintf (s_data str) (unat len) txt;
        let str = str\<lparr>s_data := m\<rparr>
        in if l \<ge> sint (ucast len :: u32)
           then do {
             e \<leftarrow> ina_str_new env (word_of_int l);
             case e of
               None \<Rightarrow> Some (-1, str)
             | Some extra \<Rightarrow> do {
                 (l, m) \<leftarrow> c_vsnprintf (s_data extra) (nat (l + 1)) txt;
                 Some (l, extra\<lparr>s_data := m, s_len := (if l \<ge> 0 then word_of_int l else s_len extra)\<rparr>) } }
           else Some (l, if l \<ge> 0 then str\<lparr>s_len := word_of_int l\<rparr> else str) })"

definition ina_str_sprintf :: "mem_env \<Rightarrow> byte_seq option \<Rightarrow> ina_str option option" where
  "ina_str_sprintf env txt =
     do { s \<leftarrow> ina_str_new env 128;
          case s of
            None \<Rightarrow> Some None
          | Some str \<Rightarrow> do {
              (n, str) \<leftarrow> ina_str_vsnprintf env str 128 txt;
              Some (if n \<le> 0 then None else Some str) } }"

definition ina_str_snprintf :: "mem_env \<Rightarrow> ina_str \<Rightarrow> u64 \<Rightarrow> byte_seq option \<Rightarrow> (int \<times> ina_str) option" where
  "ina_str_snprintf env str len txt = (if len = 0 then None else ina_str_vsnprintf env str len txt)"

section \<open>Reading and writing memory\<close>

lemma mem_read_Some: "i + n \<le> length m \<Longrightarrow> mem_read m i n = Some (take n (drop i m))"
  by (simp add: mem_read_def)

lemma mem_write_Some:
  "i + length bs \<le> length m \<Longrightarrow> mem_write m i bs = Some (take i m @ bs @ drop (i + length bs) m)"
  by (simp add: mem_write_def)

lemma c_text_append [simp]: "0 \<notin> set xs \<Longrightarrow> c_text (xs @ 0 # ys) = xs"
  by (auto simp: c_text_def takeWhile_append)

lemma c_strlen_append [simp]: "0 \<notin> set xs \<Longrightarrow> c_strlen (xs @ 0 # ys) = Some (length xs)"
  by (simp add: c_strlen_def)

lemma c_strchr_append: "0 \<notin> set xs \<Longrightarrow> c_strchr (xs @ 0 # ys) c \<longleftrightarrow> c \<in> set xs \<or> c = 0"
  by (simp add: c_strchr_def)

section \<open>The invariant and the text of a string\<close>

definition str_ok :: "ina_str \<Rightarrow> bool" where
  "str_ok s \<longleftrightarrow> s_heap s \<and> length (s_data s) = unat (s_size s) \<and> unat (s_size s) < 2 ^ 31 \<and>
     unat (s_len s) < unat (s_size s) \<and> s_data s ! unat (s_len s) = 0"

definition str_text :: "ina_str \<Rightarrow> byte_seq" where
  "str_text s = take (unat (s_len s)) (s_data s)"

definition mallocs :: "mem_env \<Rightarrow> bool" where
  "mallocs env \<longleftrightarrow> e_malloc env = (\<lambda>_. True)"

lemma str_okD:
  assumes "str_ok s"
  shows "length (s_data s) = unat (s_size s)" "unat (s_size s) < 2 ^ 31" "unat (s_len s) < unat (s_size s)" "s_heap s"
    "length (str_text s) = unat (s_len s)"
  using assms by (auto simp: str_ok_def str_text_def)

lemma unat_up [simp]: "unat (ucast (x :: u32) :: u64) = unat x"
  using unsigned_less [of x, where 'a = nat]
  by (simp add: unsigned_ucast_eq take_bit_nat_eq_self)

lemma not_pooled:
  assumes "unat (x :: u32) < 2 ^ 31"
  shows "x AND NOT INA_POOLED = x" "x AND INA_POOLED = 0"
proof -
  have "NOT INA_POOLED = mask 31" by (simp add: mask_eq_exp_minus_1)
  then have "x AND NOT INA_POOLED = take_bit 31 x" by (simp only: take_bit_eq_mask)
  moreover have "take_bit 31 x = x" using assms by (simp add: word_unat_eq_iff unsigned_take_bit_eq take_bit_nat_eq_self)
  ultimately show x: "x AND NOT INA_POOLED = x" by simp
  have "(x AND NOT INA_POOLED) AND INA_POOLED = 0" by (simp only: and.assoc) simp
  then show "x AND INA_POOLED = 0" unfolding x .
qed

text \<open>A write of a text and its terminator gives a well-formed string with that text.\<close>

lemma written_ok:
  assumes "str_ok s" "length (m :: byte_seq) = length (s_data s)" "unat l < length (s_data s)" "take (unat l) m = t" "m ! unat l = 0"
  shows "str_ok (s\<lparr>s_data := m, s_len := l\<rparr>) \<and> str_text (s\<lparr>s_data := m, s_len := l\<rparr>) = t"
  using assms by (simp add: str_ok_def str_text_def)

text \<open>What growing keeps, and the room it makes.\<close>

definition has_room :: "ina_str \<Rightarrow> ina_str \<Rightarrow> nat \<Rightarrow> bool" where
  "has_room s s' n \<longleftrightarrow> s_heap s' \<and> length (s_data s') = unat (s_size s') \<and> unat (s_size s') < 2 ^ 31 \<and>
     unat (s_len s) + n < unat (s_size s') \<and> s_len s' = s_len s \<and>
     take (unat (s_len s)) (s_data s') = str_text s"

lemma ensure_room:
  assumes ok: "str_ok s" and env: "mallocs env" and n: "unat (s_len s) + unat n < 2 ^ 30"
  shows "\<exists>s'. ina_ensure_size env s n = Some s' \<and> has_room s s' (unat n)"
proof -
  note s = str_okD [OF ok]
  have sz: "unat (ucast (s_size s AND NOT INA_POOLED) :: u64) = unat (s_size s)"
    unfolding not_pooled(1) [OF s(2)] by simp
  have ln: "unat (ucast (s_len s) :: u64) = unat (s_len s)" by simp
  let ?size = "ucast (s_size s AND NOT INA_POOLED) :: u64"
  let ?len = "ucast (s_len s) :: u64"
  have av: "unat (?size - ?len - 1) = unat (s_size s) - unat (s_len s) - 1"
    using s(3) sz ln by (subst unat_sub, simp_all add: word_le_nat_alt unat_sub)
  show ?thesis
  proof (cases "?size - ?len - 1 > n")
    case True
    then have "unat (s_len s) + unat n < unat (s_size s)" using av by (simp add: word_less_nat_alt)
    then show ?thesis using True s by (auto simp: ina_ensure_size_def has_room_def str_text_def)
  next
    case False
    let ?nl = "?len + n"
    have nl: "unat ?nl = unat (s_len s) + unat n" using n ln by (subst unat_add_lem [THEN iffD1]) auto
    define nl2 where "nl2 = (if ?nl < INA_MAX_PREALLOC then ?nl * 2 else ?nl + INA_MAX_PREALLOC)"
    have nl2: "unat nl2 + 1 < 2 ^ 31" "unat (s_len s) + unat n \<le> unat nl2"
      using n nl by (auto simp: nl2_def word_less_nat_alt unat_word_ariths)
    have k1: "unat (nl2 + 1) = unat nl2 + 1" using nl2(1) by (subst unat_add_lem [THEN iffD1]) auto
    have k2: "unat (ucast (nl2 + 1) :: u32) = unat nl2 + 1"
      using nl2(1) k1 by (simp add: unsigned_ucast_eq take_bit_nat_eq_self)
    have k3: "unat (8 + ucast (ucast (nl2 + 1) :: u32) :: u64) - 8 = unat nl2 + 1"
      using k2 nl2(1) by (subst unat_add_lem [THEN iffD1]) auto
    have "unat (s_size s) - unat (s_len s) - 1 \<le> unat n" using False av by (simp add: word_less_nat_alt)
    then have le: "length (s_data s) \<le> unat nl2 + 1" using nl2(2) s(1,3) by simp
    have "ina_ensure_size env s n = Some (s\<lparr>s_size := ucast (nl2 + 1), s_data := s_data s @ map (e_fresh env) [length (s_data s)..<unat nl2 + 1]\<rparr>)"
      using False env s(4) le k3
      by (simp add: ina_ensure_size_def str_realloc_def mallocs_def nl2_def [symmetric] Let_def)
    then show ?thesis using s nl2 k2 le by (auto simp: has_room_def str_text_def)
  qed
qed

section \<open>Each edit on the text\<close>

lemma unat_down: "unat (n :: u64) < 2 ^ 32 \<Longrightarrow> unat (ucast n :: u32) = unat n"
  by (simp add: unsigned_ucast_eq take_bit_nat_eq_self)

lemma room_ok:
  assumes "has_room s s' n" "length (m :: byte_seq) = length (s_data s')" "unat l \<le> unat (s_len s) + n"
    "take (unat l) m = t" "m ! unat l = 0"
  shows "str_ok (s'\<lparr>s_data := m, s_len := l\<rparr>) \<and> str_text (s'\<lparr>s_data := m, s_len := l\<rparr>) = t"
  using assms by (simp add: str_ok_def str_text_def has_room_def)

lemma mem_terminate:
  "length a + length b < length m \<Longrightarrow>
     mem_write (a @ b @ drop (length a + length b) m) (length a + length b) [0] =
       Some (a @ b @ 0 # drop (Suc (length a + length b)) m)"
  by (simp add: mem_write_def drop_Suc tl_drop)

lemma ncpy_text:
  assumes ok: "str_ok s" and env: "mallocs env" and n: "unat (s_len s) + unat n < 2 ^ 30" and src: "unat n \<le> length src"
  shows "\<exists>s'. ina_str_ncpy env (Some s) (Some src) n = Some s' \<and> str_ok s' \<and> str_text s' = take (unat n) src"
proof -
  obtain d where d: "ina_ensure_size env s n = Some d" "has_room s d (unat n)" using ensure_room [OF ok env n] by blast
  define b where "b = take (unat n) src"
  let ?m = "b @ 0 # drop (Suc (length b)) (s_data d)"
  have len: "length b = unat n" "length b < length (s_data d)" "unat (ucast n :: u32) = length b"
    using d src n by (auto simp: b_def has_room_def unat_down)
  have r: "mem_read src 0 (unat n) = Some b" using src by (simp add: mem_read_def b_def)
  have w: "mem_write (s_data d) 0 b = Some (b @ drop (length b) (s_data d))"
    using len by (simp add: mem_write_def)
  have t: "mem_write (b @ drop (length b) (s_data d)) (unat n) [0] = Some ?m"
    using mem_terminate [of "[]" b "s_data d"] len by simp
  have "ina_str_ncpy env (Some s) (Some src) n = Some (d\<lparr>s_data := ?m, s_len := ucast n\<rparr>)"
    by (simp add: ina_str_ncpy_def d r w t)
  moreover have "str_ok (d\<lparr>s_data := ?m, s_len := ucast n\<rparr>) \<and> str_text (d\<lparr>s_data := ?m, s_len := ucast n\<rparr>) = b"
    by (rule room_ok [OF d(2)]) (use len in \<open>auto simp: nth_append\<close>)
  ultimately show ?thesis using b_def by blast
qed

lemma append_text:
  assumes d: "has_room s d k" and k: "k = unat n" and n: "unat (s_len s) + unat n < 2 ^ 30" and src: "unat n \<le> length src"
  shows "\<exists>s'. str_append d src n = Some s' \<and> str_ok s' \<and> str_text s' = str_text s @ take (unat n) src"
proof -
  define a b where "a = take (unat (s_len s)) (s_data d)" and "b = take (unat n) src"
  define l where "l = (ucast (ucast (s_len d) + n :: u64) :: u32)"
  let ?m = "a @ b @ 0 # drop (Suc (length a + length b)) (s_data d)"
  have eq: "a = str_text s" "s_len d = s_len s" using d by (auto simp: a_def has_room_def)
  have len: "length a = unat (s_len s)" "length b = unat n" "length a + length b < length (s_data d)"
  proof -
    have "unat (s_len s) + unat n < length (s_data d)" using d k by (simp add: has_room_def)
    then show "length a = unat (s_len s)" "length b = unat n" "length a + length b < length (s_data d)"
      using src by (simp_all add: a_def b_def)
  qed
  have "unat (ucast (s_len s) + n :: u64) = unat (s_len s) + unat n" using n by (subst unat_add_lem [THEN iffD1]) auto
  then have l: "unat l = length a + length b" using n len eq by (simp add: l_def unat_down)
  have r: "mem_read src 0 (unat n) = Some b" using src by (simp add: mem_read_def b_def)
  have w: "mem_write (s_data d) (unat (s_len d)) b = Some (a @ b @ drop (length a + length b) (s_data d))"
    using len eq(2) by (simp add: mem_write_def a_def)
  have "str_append d src n = Some (d\<lparr>s_data := ?m, s_len := l\<rparr>)"
    unfolding str_append_def l_def [symmetric] Let_def l by (simp add: r w mem_terminate [OF len(3)])
  moreover have "str_ok (d\<lparr>s_data := ?m, s_len := l\<rparr>) \<and> str_text (d\<lparr>s_data := ?m, s_len := l\<rparr>) = a @ b"
    by (rule room_ok [OF d]) (use len l k in \<open>auto simp: nth_append\<close>)
  ultimately show ?thesis using eq b_def by blast
qed

lemma ncat_text:
  assumes ok: "str_ok s" and env: "mallocs env" and n: "unat (s_len s) + unat n < 2 ^ 30" and src: "unat n \<le> length src"
  shows "\<exists>s'. ina_str_ncat env (Some s) (Some src) n = Some s' \<and> str_ok s' \<and> str_text s' = str_text s @ take (unat n) src"
proof -
  obtain d where d: "ina_ensure_size env s n = Some d" "has_room s d (unat n)" using ensure_room [OF ok env n] by blast
  show ?thesis using append_text [OF d(2) refl n src] by (simp add: ina_str_ncat_def d)
qed

lemma append_chr_as_append:
  assumes "unat (s_len d) + 1 < 2 ^ 30"
  shows "str_append d [c] 1 =
     do { m \<leftarrow> mem_write (s_data d) (unat (s_len d)) [c];
          m \<leftarrow> mem_write m (unat (s_len d + 1)) [0];
          Some (d\<lparr>s_data := m, s_len := s_len d + 1\<rparr>) }"
proof -
  let ?x = "s_len d"
  have "unat (ucast ?x + 1 :: u64) = unat ?x + 1" using assms by (subst unat_add_lem [THEN iffD1]) auto
  moreover have "unat (?x + 1) = unat ?x + 1" using assms by (subst unat_add_lem [THEN iffD1]) auto
  ultimately have "(ucast (ucast ?x + 1 :: u64) :: u32) = ?x + 1"
    using assms by (simp only: word_unat_eq_iff) (simp add: unat_down)
  then show ?thesis by (simp add: str_append_def mem_read_Some Let_def)
qed

lemma append_chr_text:
  assumes ok: "str_ok s" and env: "mallocs env" and n: "unat (s_len s) + 1 < 2 ^ 30"
  shows "\<exists>s'. ina_str_append_chr env (Some s) c = Some s' \<and> str_ok s' \<and> str_text s' = str_text s @ [c]"
proof -
  obtain d where d: "ina_ensure_size env s 1 = Some d" "has_room s d 1" using ensure_room [OF ok env, of 1] n by auto
  have "\<exists>s'. str_append d [c] 1 = Some s' \<and> str_ok s' \<and> str_text s' = str_text s @ take (unat (1 :: u64)) [c]"
    by (rule append_text [OF d(2)]) (use n in simp_all)
  moreover have "unat (s_len d) + 1 < 2 ^ 30" using d(2) n by (simp add: has_room_def)
  ultimately show ?thesis by (simp add: append_chr_as_append ina_str_append_chr_def d Let_def)
qed

lemma truncate_text:
  assumes ok: "str_ok s" and pos: "unat pos \<le> unat (s_len s)"
  shows "\<exists>s'. ina_str_truncate (Some s) pos = Some (Some s') \<and> str_ok s' \<and> str_text s' = take (unat pos) (str_text s)"
proof -
  note s = str_okD [OF ok]
  let ?m = "take (unat pos) (s_data s) @ [0] @ drop (unat pos + 1) (s_data s)"
  have u: "unat (ucast pos :: u32) = unat pos" using pos s by (intro unat_down) simp
  have w: "mem_write (s_data s) (unat pos) [0] = Some ?m" using s pos by (simp add: mem_write_def)
  have "ina_str_truncate (Some s) pos = Some (Some (s\<lparr>s_data := ?m, s_len := ucast pos\<rparr>))"
    using pos by (simp add: ina_str_truncate_def w word_le_nat_alt)
  moreover have "str_ok (s\<lparr>s_data := ?m, s_len := ucast pos\<rparr>) \<and>
      str_text (s\<lparr>s_data := ?m, s_len := ucast pos\<rparr>) = take (unat pos) (str_text s)"
    by (rule written_ok [OF ok]) (use s pos u in \<open>simp_all add: str_text_def nth_append min_def\<close>)
  ultimately show ?thesis by blast
qed

text \<open>Trimming.\<close>

definition trim_text :: "(u8 \<Rightarrow> bool) \<Rightarrow> byte_seq \<Rightarrow> byte_seq" where
  "trim_text P t = rev (dropWhile P (rev (dropWhile P t)))"

lemma trim_front_eq:
  "sp \<le> n \<Longrightarrow> n \<le> length d \<Longrightarrow> trim_front P d n sp = sp + length (takeWhile P (drop sp (take n d)))"
proof (induction P d n sp rule: trim_front.induct)
  case (1 P d n sp)
  show ?case
  proof (cases "sp < n")
    case True
    then have "drop sp (take n d) = d ! sp # drop (Suc sp) (take n d)" using 1(3) by (simp add: Cons_nth_drop_Suc [symmetric])
    then show ?thesis using 1 True by (subst trim_front.simps) auto
  next
    case False
    then show ?thesis using 1(2) by (subst trim_front.simps) auto
  qed
qed

lemma trim_back_eq:
  assumes "\<not> P x" "list_all P post" "take n d = xs @ x # post" "n \<le> length d"
  shows "trim_back P d (int n - 1) = int (length xs)"
  using assms(2-)
proof (induction post arbitrary: n rule: rev_induct)
  case Nil
  then have "n = Suc (length xs)" by (metis length_append_singleton length_take min.absorb2)
  moreover from this Nil have "d ! length xs = x" by (metis lessI nth_append_length nth_take)
  ultimately show ?case using assms(1) by (subst trim_back.simps) auto
next
  case (snoc y post)
  let ?k = "length xs + 1 + length post"
  have n: "n = Suc ?k" using arg_cong [OF snoc(3), of length] snoc(4) by simp
  have "d ! ?k = (take n d) ! ?k" using n by simp
  also have "\<dots> = y" unfolding snoc(3) by (simp add: nth_append)
  finally have y: "P (d ! ?k)" using snoc(2) by simp
  have "take ?k d = take ?k (take n d)" using n by (simp add: min_def)
  also have "\<dots> = xs @ x # post" unfolding snoc(3) by simp
  finally have ih: "trim_back P d (int ?k - 1) = int (length xs)" using snoc(2,4) n by (intro snoc.IH) auto
  have e: "nat (int n - 1) = ?k" "(int n - 1 > 0) = True" "int n - 1 - 1 = int ?k - 1" using n by simp_all
  show ?case by (subst trim_back.simps) (simp only: e y ih simp_thms if_True)
qed

lemma trim_text_split:
  "t = takeWhile P t @ trim_text P t @ rev (takeWhile P (rev (dropWhile P t)))"
proof -
  have "dropWhile P t = trim_text P t @ rev (takeWhile P (rev (dropWhile P t)))"
    unfolding trim_text_def by (metis rev_append rev_rev_ident takeWhile_dropWhile_id)
  then show ?thesis by (metis takeWhile_dropWhile_id)
qed

lemma trim_bounds:
  fixes P :: "u8 \<Rightarrow> bool"
  assumes "n \<le> length d"
  defines "t \<equiv> take n d"
  defines "sp \<equiv> trim_front P d n 0" and "ep \<equiv> trim_back P d (int n - 1)"
  shows "sp = length (takeWhile P t)" "(if int sp > ep then 0 else nat (ep - int sp) + 1) = length (trim_text P t)"
proof -
  show sp: "sp = length (takeWhile P t)" using trim_front_eq [of 0 n d P] assms by simp
  show "(if int sp > ep then 0 else nat (ep - int sp) + 1) = length (trim_text P t)"
  proof (cases "trim_text P t = []")
    case True
    have "\<forall>x\<in>set (dropWhile P t). P x" using True by (simp add: trim_text_def)
    then have "dropWhile P t = []" using hd_dropWhile [of P t] hd_in_set by blast
    then have "takeWhile P t = t" by (metis append_Nil2 takeWhile_dropWhile_id)
    then have "sp = length t" unfolding sp by (rule arg_cong)
    then have "sp = n" using assms(1) t_def by simp
    moreover have "trim_back P d e \<le> e" for e by (induction P d e rule: trim_back.induct) (subst trim_back.simps, auto)
    ultimately have "int sp > ep" using ep_def by (smt (verit))
    then show ?thesis using True by simp
  next
    case False
    let ?post = "rev (takeWhile P (rev (dropWhile P t)))"
    obtain ys x where y: "trim_text P t = ys @ [x]" using False by (metis rev_exhaust)
    then have "hd (dropWhile P (rev (dropWhile P t))) = x" by (metis hd_rev last_snoc rev_rev_ident trim_text_def)
    moreover have "dropWhile P (rev (dropWhile P t)) \<noteq> []" using False by (simp add: trim_text_def)
    ultimately have x: "\<not> P x" using hd_dropWhile by blast
    have "take n d = (takeWhile P t @ ys) @ x # ?post" using trim_text_split [of t P] y t_def by simp
    moreover have "list_all P ?post" by (auto simp: list_all_iff dest: set_takeWhileD)
    ultimately have "ep = int (length (takeWhile P t @ ys))" unfolding ep_def using x assms(1) by (intro trim_back_eq)
    then show ?thesis using sp y by simp
  qed
qed

lemma trim_text_correct:
  assumes ok: "str_ok s" and z: "0 \<in> set chars"
  shows "\<exists>s'. ina_str_trim (Some s) (Some chars) = Some s' \<and> str_ok s' \<and> str_text s' = trim_text (c_strchr chars) (str_text s)"
proof -
  note s = str_okD [OF ok]
  let ?P = "c_strchr chars"
  define b where "b = trim_text ?P (str_text s)"
  let ?m = "b @ 0 # drop (Suc (length b)) (s_data s)"
  define sp where "sp = trim_front ?P (s_data s) (unat (s_len s)) 0"
  define ep where "ep = trim_back ?P (s_data s) (int (unat (s_len s)) - 1)"
  have sp: "sp = length (takeWhile ?P (str_text s))" and len: "(if int sp > ep then 0 else nat (ep - int sp) + 1) = length b"
    using trim_bounds [of "unat (s_len s)" "s_data s" ?P] s unfolding sp_def ep_def b_def str_text_def by auto
  note sp' = trim_text_split [of "str_text s" ?P, folded b_def]
  have le: "sp + length b \<le> unat (s_len s)" using arg_cong [OF sp', of length] sp s(5) by simp
  have "take (length b) (drop sp (str_text s)) = b" unfolding sp by (subst sp') simp
  moreover have "length b \<le> unat (s_len s) - sp" using le by simp
  ultimately have r: "mem_read (s_data s) sp (length b) = Some b"
    using le s by (simp add: mem_read_def str_text_def drop_take)
  have w: "mem_write (s_data s) 0 b = Some (b @ drop (length b) (s_data s))" using le s by (simp add: mem_write_def)
  have t: "mem_write (b @ drop (length b) (s_data s)) (length b) [0] = Some ?m"
    using mem_terminate [of "[]" b "s_data s"] le s by simp
  have u: "unat (of_nat (length b) :: u32) = length b" using le s by (intro unat_of_nat_small) simp
  have "ina_str_trim (Some s) (Some chars) = Some (s\<lparr>s_data := ?m, s_len := of_nat (length b)\<rparr>)"
  proof -
    have "ina_str_trim (Some s) (Some chars) =
        (let len = (if int sp > ep then 0 else nat (ep - int sp) + 1)
         in do { bs \<leftarrow> mem_read (s_data s) sp len; m \<leftarrow> mem_write (s_data s) 0 bs; m \<leftarrow> mem_write m len [0];
                 Some (s\<lparr>s_data := m, s_len := of_nat len\<rparr>) })"
      using z s by (simp only: ina_str_trim_def sp_def ep_def Let_def) simp
    then show ?thesis unfolding len Let_def by (simp add: r w t)
  qed
  moreover have "str_ok (s\<lparr>s_data := ?m, s_len := of_nat (length b)\<rparr>) \<and> str_text (s\<lparr>s_data := ?m, s_len := of_nat (length b)\<rparr>) = b"
    by (rule written_ok [OF ok]) (use u le s in \<open>auto simp: nth_append\<close>)
  ultimately show ?thesis using b_def by blast
qed

text \<open>Changing the case stops at the first zero byte.\<close>

definition case_text :: "(u8 \<Rightarrow> u8) \<Rightarrow> byte_seq \<Rightarrow> byte_seq" where
  "case_text f t = map f (c_text t) @ drop (length (c_text t)) t"

lemma case_loop_eq:
  assumes "\<And>c. f c = 0 \<longleftrightarrow> c = 0"
  shows "case_loop f m = (if 0 \<in> set m then Some (case_text f m) else None)"
proof -
  have "f 0 = 0" by (simp add: assms)
  then show ?thesis by (induction m) (auto simp: case_text_def c_text_def assms)
qed

lemma case_text_prefix:
  "take n (case_text f (take n m @ 0 # r)) = case_text f (take n m)" if "n \<le> length m" for n
proof (cases "0 \<in> set (take n m)")
  case True
  moreover have "length (takeWhile (\<lambda>c. c \<noteq> 0) (take n m)) \<le> n" by (rule order_trans [OF length_takeWhile_le]) simp
  ultimately show ?thesis using that by (auto simp: case_text_def c_text_def takeWhile_append)
next
  case False
  then have "c_text (take n m) = take n m" by (auto simp: c_text_def takeWhile_eq_all_conv)
  then show ?thesis using that False unfolding case_text_def by (simp add: min_def)
qed

lemma to_upper_zero: "to_upper c = 0 \<longleftrightarrow> c = 0"
  by (auto simp: to_upper_def dest: arg_cong [where f = "\<lambda>x. x XOR 32"])

lemma to_lower_zero: "to_lower c = 0 \<longleftrightarrow> c = 0"
  by (auto simp: to_lower_def dest: arg_cong [where f = "\<lambda>x. x XOR 32"])

lemma case_length [simp]: "length (case_text f t) = length t"
  using length_takeWhile_le [of "\<lambda>c. c \<noteq> 0" t] by (simp add: case_text_def c_text_def)

lemma case_text_correct:
  assumes ok: "str_ok s" and f: "\<And>c. f c = 0 \<longleftrightarrow> c = 0"
  shows "\<exists>d. case_loop f (s_data s) = Some d \<and> str_ok (s\<lparr>s_data := d\<rparr>) \<and> str_text (s\<lparr>s_data := d\<rparr>) = case_text f (str_text s)"
proof -
  note s = str_okD [OF ok]
  let ?l = "unat (s_len s)"
  have split: "s_data s = take ?l (s_data s) @ 0 # drop (Suc ?l) (s_data s)"
    using ok s by (metis id_take_nth_drop str_ok_def)
  then have "0 \<in> set (s_data s)" by (metis in_set_conv_decomp)
  then have "case_loop f (s_data s) = Some (case_text f (s_data s))" by (simp add: case_loop_eq [OF f])
  moreover have "take ?l (case_text f (s_data s)) = case_text f (take ?l (s_data s))"
    using case_text_prefix [of ?l "s_data s" f "drop (Suc ?l) (s_data s)", folded split] s by simp
  moreover have "case_text f (s_data s) ! ?l = 0"
  proof -
    have "\<not> ?l < length (c_text (s_data s))"
    proof
      assume l: "?l < length (c_text (s_data s))"
      then have "c_text (s_data s) ! ?l \<noteq> 0"
        using nth_mem set_takeWhileD [of _ "\<lambda>c. c \<noteq> 0" "s_data s"] unfolding c_text_def by blast
      then show False using l ok by (simp add: c_text_def takeWhile_nth str_ok_def)
    qed
    then show ?thesis using ok s by (simp add: case_text_def nth_append str_ok_def)
  qed
  ultimately show ?thesis using ok s by (simp add: str_ok_def str_text_def)
qed

section \<open>Runs of edits\<close>

text \<open>The edits of a string, with texts given without their terminators.\<close>

datatype str_op = Cat byte_seq | Chr u8 | Cpy byte_seq | Truncate nat | Trim byte_seq | Upper | Lower

fun str_step :: "mem_env \<Rightarrow> str_op \<Rightarrow> ina_str \<Rightarrow> ina_str option" where
  "str_step env (Cat src) s = ina_str_ncat env (Some s) (Some src) (of_nat (length src))"
| "str_step env (Chr c) s = ina_str_append_chr env (Some s) c"
| "str_step env (Cpy src) s = ina_str_ncpy env (Some s) (Some src) (of_nat (length src))"
| "str_step env (Truncate pos) s = Option.bind (ina_str_truncate (Some s) (of_nat pos)) id"
| "str_step env (Trim chars) s = ina_str_trim (Some s) (Some (chars @ [0]))"
| "str_step env Upper s = Option.bind (ina_str_toupper (Some s)) id"
| "str_step env Lower s = Option.bind (ina_str_tolower (Some s)) id"

fun text_step :: "str_op \<Rightarrow> byte_seq \<Rightarrow> byte_seq" where
  "text_step (Cat src) t = t @ src"
| "text_step (Chr c) t = t @ [c]"
| "text_step (Cpy src) t = src"
| "text_step (Truncate pos) t = take pos t"
| "text_step (Trim chars) t = trim_text (\<lambda>c. c \<in> set chars \<or> c = 0) t"
| "text_step Upper t = case_text to_upper t"
| "text_step Lower t = case_text to_lower t"

fun str_op_ok :: "str_op \<Rightarrow> byte_seq \<Rightarrow> bool" where
  "str_op_ok (Cat src) t \<longleftrightarrow> length t + length src < 2 ^ 30"
| "str_op_ok (Chr c) t \<longleftrightarrow> length t + 1 < 2 ^ 30"
| "str_op_ok (Cpy src) t \<longleftrightarrow> length t + length src < 2 ^ 30"
| "str_op_ok (Truncate pos) t \<longleftrightarrow> pos \<le> length t"
| "str_op_ok (Trim chars) t \<longleftrightarrow> 0 \<notin> set chars"
| "str_op_ok _ t \<longleftrightarrow> True"

fun run_ops :: "('op \<Rightarrow> 's \<Rightarrow> 's option) \<Rightarrow> 'op list \<Rightarrow> 's \<Rightarrow> 's option" where
  "run_ops step [] s = Some s"
| "run_ops step (x # xs) s = do { s \<leftarrow> step x s; run_ops step xs s }"

fun run_allowed :: "('op \<Rightarrow> 't \<Rightarrow> bool) \<Rightarrow> ('op \<Rightarrow> 't \<Rightarrow> 't) \<Rightarrow> 'op list \<Rightarrow> 't \<Rightarrow> bool" where
  "run_allowed allowed spec [] t \<longleftrightarrow> True"
| "run_allowed allowed spec (x # xs) t \<longleftrightarrow> allowed x t \<and> run_allowed allowed spec xs (spec x t)"

text \<open>What an editable text promises: each permitted edit succeeds, keeps the representation
  well-formed and acts on the text as the list operation does.\<close>

locale text_contract =
  fixes ok :: "'s \<Rightarrow> bool" and text_of :: "'s \<Rightarrow> 't"
    and step :: "'op \<Rightarrow> 's \<Rightarrow> 's option" and spec :: "'op \<Rightarrow> 't \<Rightarrow> 't" and allowed :: "'op \<Rightarrow> 't \<Rightarrow> bool"
  assumes step_refines: "ok s \<Longrightarrow> allowed x (text_of s) \<Longrightarrow> \<exists>s'. step x s = Some s' \<and> ok s' \<and> text_of s' = spec x (text_of s)"
begin

lemma run_refines:
  "ok s \<Longrightarrow> run_allowed allowed spec xs (text_of s) \<Longrightarrow> \<exists>s'. run_ops step xs s = Some s' \<and> ok s' \<and> text_of s' = fold spec xs (text_of s)"
proof (induction xs arbitrary: s)
  case (Cons x xs)
  then obtain s1 where "step x s = Some s1" "ok s1" "text_of s1 = spec x (text_of s)" using step_refines [of s x] by auto
  then show ?case using Cons.IH [of s1] Cons.prems(2) by simp
qed simp

end

lemma str_op_small: "str_op_ok (Truncate pos) (str_text s) \<Longrightarrow> str_ok s \<Longrightarrow> unat (of_nat pos :: u64) = pos"
  by (intro unat_of_nat_small) (use str_okD [of s] in simp)

lemma str_step_refines:
  assumes ok: "str_ok s" and env: "mallocs env" and x: "str_op_ok x (str_text s)"
  shows "\<exists>s'. str_step env x s = Some s' \<and> str_ok s' \<and> str_text s' = text_step x (str_text s)"
proof (cases x)
  case (Cat src)
  then have "unat (of_nat (length src) :: u64) = length src" using x by (intro unat_of_nat_small) simp
  then show ?thesis using ncat_text [OF ok env, of "of_nat (length src)" src] x Cat str_okD(5) [OF ok] by simp
next
  case (Chr c)
  then show ?thesis using append_chr_text [OF ok env] x str_okD(5) [OF ok] by simp
next
  case (Cpy src)
  then have "unat (of_nat (length src) :: u64) = length src" using x by (intro unat_of_nat_small) simp
  then show ?thesis using ncpy_text [OF ok env, of "of_nat (length src)" src] x Cpy str_okD(5) [OF ok] by simp
next
  case (Truncate pos)
  then have "unat (of_nat pos :: u64) = pos" using x ok str_op_small by blast
  then show ?thesis using truncate_text [OF ok, of "of_nat pos"] x Truncate str_okD(5) [OF ok] by auto
next
  case (Trim chars)
  then have "c_strchr (chars @ [0]) = (\<lambda>c. c \<in> set chars \<or> c = 0)" using x by (auto simp: c_strchr_append)
  then show ?thesis using trim_text_correct [OF ok, of "chars @ [0]"] Trim by simp
next
  case Upper
  then show ?thesis using case_text_correct [OF ok to_upper_zero] by (auto simp: ina_str_toupper_def)
next
  case Lower
  then show ?thesis using case_text_correct [OF ok to_lower_zero] by (auto simp: ina_str_tolower_def)
qed

interpretation heap_text: text_contract "\<lambda>s. str_ok s \<and> mallocs env" str_text "str_step env" text_step str_op_ok for env
  by unfold_locales (use str_step_refines in blast)

lemma new_text:
  assumes env: "mallocs env" and n: "unat n < 2 ^ 30"
  shows "\<exists>s. ina_str_new env n = Some (Some s) \<and> str_ok s \<and> str_text s = [] \<and> unat (s_size s) = unat n + 1"
proof -
  have u: "unat (n + 1) = unat n + 1" "unat (n + 1 + 8) = unat n + 9"
    using n by (simp_all add: unat_word_ariths)
  have v: "unat (n + 1 + 8 + 15) = unat n + 24" using n by (simp add: unat_word_ariths)
  have z: "n + 1 + 8 \<noteq> 0" using u(2) by (metis add_is_0 unat_0 zero_neq_numeral)
  have "\<not> n + 1 + 8 < 8" "\<not> n + 1 + 8 + 15 < n + 1 + 8" unfolding word_less_nat_alt u(2) v by simp_all
  then have "str_alloc env (n + 1 + 8) = Some (Some \<lparr>s_size = 0, s_len = 0, s_data = map (e_fresh env) [0..<Suc (unat n)], s_heap = True\<rparr>)"
    using env z unfolding str_alloc_def mallocs_def u(2) by simp
  then show ?thesis using n u(1)
    by (auto simp: ina_str_new_def mem_write_def str_ok_def str_text_def unat_down upt_conv_Cons simp del: upt_Suc)
qed

lemma fill_text:
  assumes ok: "str_ok s" and n: "unat n < unat (s_size s)" "unat n \<le> length blk"
  shows "\<exists>s'. str_fill s blk n = Some s' \<and> str_ok s' \<and> str_text s' = take (unat n) blk"
proof -
  note s = str_okD [OF ok]
  define b where "b = take (unat n) blk"
  let ?m = "b @ 0 # drop (Suc (length b)) (s_data s)"
  have len: "length b = unat n" "unat (ucast n :: u32) = length b" using n s by (auto simp: b_def unat_down)
  have r: "mem_read blk 0 (unat n) = Some b" using n by (simp add: mem_read_def b_def)
  have w: "mem_write (s_data s) 0 b = Some (b @ drop (length b) (s_data s))" using len n s by (simp add: mem_write_def)
  have t: "mem_write (b @ drop (length b) (s_data s)) (unat n) [0] = Some ?m"
    using mem_terminate [of "[]" b "s_data s"] len n s by simp
  have "str_fill s blk n = Some (s\<lparr>s_data := ?m, s_len := ucast n\<rparr>)" by (simp add: str_fill_def r w t)
  moreover have "str_ok (s\<lparr>s_data := ?m, s_len := ucast n\<rparr>) \<and> str_text (s\<lparr>s_data := ?m, s_len := ucast n\<rparr>) = b"
    by (rule written_ok [OF ok]) (use len n s in \<open>auto simp: nth_append\<close>)
  ultimately show ?thesis using b_def by blast
qed

lemma fromblk_text:
  assumes env: "mallocs env" and n: "unat n < 2 ^ 30" "unat n \<le> length blk"
  shows "\<exists>s. ina_str_new_fromblk env (Some blk) n = Some (Some s) \<and> str_ok s \<and> str_text s = take (unat n) blk"
proof -
  obtain s where s: "ina_str_new env n = Some (Some s)" "str_ok s" "unat (s_size s) = unat n + 1" using new_text [OF env n(1)] by blast
  then show ?thesis using fill_text [OF s(2) _ n(2)] by (auto simp: ina_str_new_fromblk_def)
qed

text \<open>C15. Any run of appends, copies, truncations, trims and case changes on a string made from a block
  of bytes succeeds and leaves the text that the same list operations give, as long as a step does
  not bring together 2^30 bytes or more: the reported length is that of the text and the
  terminator stands behind it.  Embedded zero bytes are kept by appends, trimmed at both ends and
  stop a change of case.\<close>

theorem str_is_text:
  assumes "mallocs env" "length blk < 2 ^ 30" "run_allowed str_op_ok text_step ops blk"
  shows "\<exists>s0 s. ina_str_new_fromblk env (Some blk) (of_nat (length blk)) = Some (Some s0) \<and>
    run_ops (str_step env) ops s0 = Some s \<and>
    str_text s = fold text_step ops blk \<and>
    ina_str_len (Some s) = of_nat (length (fold text_step ops blk)) \<and>
    s_data s ! length (fold text_step ops blk) = 0"
proof -
  have u: "unat (of_nat (length blk) :: u64) = length blk" using assms(2) by (intro unat_of_nat_small) simp
  obtain s0 where s0: "ina_str_new_fromblk env (Some blk) (of_nat (length blk)) = Some (Some s0)" "str_ok s0" "str_text s0 = blk"
    using fromblk_text [OF assms(1), of "of_nat (length blk)" blk] u assms(2) by auto
  obtain s where s: "run_ops (str_step env) ops s0 = Some s" "str_ok s" "str_text s = fold text_step ops blk"
    using heap_text.run_refines [of s0 env ops] s0 assms by auto
  have "length (fold text_step ops blk) = unat (s_len s)" using str_okD(5) [OF s(2)] s(3) by simp
  then show ?thesis using s0(1) s by (auto simp: ina_str_len_def str_ok_def)
qed

theorem str_is_text_witness:
  "\<exists>s0 s. ina_str_new_fromblk easy_env (Some [32, 97, 98]) (of_nat (length [32, 97, 98 :: u8])) = Some (Some s0) \<and>
    run_ops (str_step easy_env) [Cat [99, 32], Chr 9, Trim [32, 9], Upper, Truncate 2] s0 = Some s \<and>
    str_text s = fold text_step [Cat [99, 32], Chr 9, Trim [32, 9], Upper, Truncate 2] [32, 97, 98] \<and>
    ina_str_len (Some s) = of_nat (length (fold text_step [Cat [99, 32], Chr 9, Trim [32, 9], Upper, Truncate 2] [32, 97, 98])) \<and>
    s_data s ! length (fold text_step [Cat [99, 32], Chr 9, Trim [32, 9], Upper, Truncate 2] [32, 97, 98]) = 0"
  by (rule str_is_text) (simp_all add: mallocs_def easy_env_def trim_text_def case_text_def c_text_def)

end
