(* ===== verification/Inac_Str_Scan.thy ===== *)
theory Inac_Str_Scan
  imports Inac_Str
begin

text \<open>
  Splitting, tokenizing and wildcard matching of \<open>src/string.c\<close>.  The functions read C strings, given
  as the memory that holds them with the terminator; reading or writing outside of that memory is
  \<open>None\<close>.  Shown: splitting cuts at every separator but one that starts at the last byte, and
  joining the pieces gives the string back; the tokenizer leaves its cursor behind the
  terminator after the last token; the wildcard matcher always stops, accepts only strings
  that the pattern describes, and misses some of them.
\<close>

section \<open>Splitting\<close>

definition alloc_slots :: "mem_env \<Rightarrow> nat \<Rightarrow> bool" where
  "alloc_slots env slots \<longleftrightarrow> e_malloc env (of_nat (8 * slots) + 15)"

text \<open>Whether the separator stands at \<open>j\<close>.  The comparison reads all of its length.\<close>

definition sep_at :: "byte_seq \<Rightarrow> byte_seq \<Rightarrow> nat \<Rightarrow> nat \<Rightarrow> bool option" where
  "sep_at str sep seplen j =
     (if seplen = 1 \<and> str ! j = sep ! 0 then Some True
      else do { a \<leftarrow> mem_read str j seplen; b \<leftarrow> mem_read sep 0 seplen; Some (c_memcmp a b = 0) })"

text \<open>The result: the array of tokens or the null pointer, and the value stored in \<open>count\<close>, if any.\<close>

type_synonym split_result = "ina_str list option \<times> nat option"

definition split_final :: "mem_env \<Rightarrow> byte_seq \<Rightarrow> nat \<Rightarrow> nat \<Rightarrow> nat \<Rightarrow> ina_str list \<Rightarrow> split_result option" where
  "split_final env str len slots start tokens =
     do { t \<leftarrow> ina_str_new_fromblk env (Some (drop start str)) (of_nat len - of_nat start);
          case t of
            None \<Rightarrow> Some (None, Some 0)
          | Some t \<Rightarrow> if length tokens + 1 < slots
                      then Some (Some (tokens @ [t]), Some (length tokens + 1)) else None }"

function split_loop ::
  "mem_env \<Rightarrow> byte_seq \<Rightarrow> byte_seq \<Rightarrow> nat \<Rightarrow> nat \<Rightarrow> nat \<Rightarrow> nat \<Rightarrow> nat \<Rightarrow> ina_str list \<Rightarrow> split_result option" where
  "split_loop env str sep len seplen slots j start tokens =
     (if j < len - 1
      then let full = slots < length tokens + 3
           in if full \<and> \<not> alloc_slots env (slots * 2) then Some (None, Some 0)
              else let slots = (if full then slots * 2 else slots)
                   in case sep_at str sep seplen j of
                        None \<Rightarrow> None
                      | Some False \<Rightarrow> split_loop env str sep len seplen slots (j + 1) start tokens
                      | Some True \<Rightarrow>
                          case ina_str_new_fromblk env (Some (drop start str)) (of_nat j - of_nat start) of
                            None \<Rightarrow> None
                          | Some None \<Rightarrow> Some (None, Some 0)
                          | Some (Some t) \<Rightarrow>
                              if length tokens < slots
                              then split_loop env str sep len seplen slots (j + (seplen - 1) + 1) (j + seplen) (tokens @ [t])
                              else None
      else split_final env str len slots start tokens)"
  by pat_completeness auto
termination
  by (relation "measure (\<lambda>(env, str, sep, len, seplen, slots, j, start, tokens). len - j)") auto

declare split_loop.simps [simp del]

definition ina_str_split :: "mem_env \<Rightarrow> byte_seq option \<Rightarrow> byte_seq option \<Rightarrow> split_result option" where
  "ina_str_split env str sep =
     (case (str, sep) of
        (Some str, Some sep) \<Rightarrow> do {
          len \<leftarrow> c_strlen str;
          seplen \<leftarrow> c_strlen sep;
          if len = 0 \<or> seplen = 0 then Some (None, Some 0)
          else if \<not> alloc_slots env 5 then Some (None, None)
          else split_loop env str sep len seplen 5 0 0 [] }
      | _ \<Rightarrow> Some (None, Some 0))"

text \<open>What is freed: the tokens up to the null pointer.\<close>

definition ina_str_split_free_tokens :: "ina_str list option \<Rightarrow> bool list" where
  "ina_str_split_free_tokens tokens =
     (case tokens of None \<Rightarrow> [] | Some ts \<Rightarrow> map (\<lambda>t. ina_str_free (Some t)) ts)"

section \<open>Tokenizing\<close>

text \<open>The map of 256 bits is filled with unsigned and read with signed characters.\<close>

definition tok_slot :: "u8 \<Rightarrow> nat" where
  "tok_slot c = unat (drop_bit 5 (c AND NOT 31))"

definition tok_slot_signed :: "u8 \<Rightarrow> int" where
  "tok_slot_signed c = drop_bit 5 (sint c AND NOT 31)"

definition tok_bit :: "u8 \<Rightarrow> u64" where
  "tok_bit c = push_bit (unat (c AND 31)) 1"

definition tokmap_add :: "u64 list \<Rightarrow> u8 \<Rightarrow> u64 list" where
  "tokmap_add tm c = tm[tok_slot c := tm ! tok_slot c OR tok_bit c]"

definition tokmap_has :: "u64 list \<Rightarrow> u8 \<Rightarrow> bool option" where
  "tokmap_has tm c =
     (let i = tok_slot_signed c
      in if i < 0 \<or> length tm \<le> nat i then None else Some (tm ! nat i AND tok_bit c \<noteq> 0))"

function tok_skip :: "u64 list \<Rightarrow> byte_seq \<Rightarrow> nat \<Rightarrow> nat option" where
  "tok_skip tm m p =
     (if p < length m
      then case tokmap_has tm (m ! p) of
             None \<Rightarrow> None
           | Some b \<Rightarrow> if b then tok_skip tm m (p + 1) else Some p
      else None)"
  by pat_completeness auto
termination
  by (relation "measure (\<lambda>(tm, m, p). length m - p)") auto

function tok_scan :: "u64 list \<Rightarrow> byte_seq \<Rightarrow> nat \<Rightarrow> nat option" where
  "tok_scan tm m p =
     (if p + 1 < length m
      then case tokmap_has tm (m ! (p + 1)) of
             None \<Rightarrow> None
           | Some b \<Rightarrow> if b then Some (p + 1) else tok_scan tm m (p + 1)
      else None)"
  by pat_completeness auto
termination
  by (relation "measure (\<lambda>(tm, m, p). length m - p)") auto

declare tok_skip.simps [simp del] tok_scan.simps [simp del]

text \<open>On the memory \<open>m\<close>, with \<open>str\<close> and \<open>*next\<close> as offsets: the token, the memory and \<open>*next\<close>.\<close>

definition ina_str_tok ::
  "byte_seq \<Rightarrow> nat option \<Rightarrow> byte_seq option \<Rightarrow> nat option \<Rightarrow> (nat option \<times> byte_seq \<times> nat option) option" where
  "ina_str_tok m str sep nxt =
     (case sep of
        None \<Rightarrow> Some (None, m, nxt)
      | Some sep \<Rightarrow> do {
          l \<leftarrow> c_strlen sep;
          if l = 0 then Some (None, m, nxt)
          else case (case str of Some p \<Rightarrow> Some p | None \<Rightarrow> nxt) of
                 None \<Rightarrow> Some (None, m, None)
               | Some p \<Rightarrow>
                   let tokmap = foldl tokmap_add (replicate 8 0) (c_text sep)
                   in do {
                     p \<leftarrow> tok_skip tokmap m p;
                     if m ! p = 0 then Some (None, m, None)
                     else do {
                       e \<leftarrow> tok_scan (tokmap[0 := tokmap ! 0 OR 1]) m p;
                       Some (Some p, m[e := 0], Some (e + 1)) } } })"

section \<open>Wildcards\<close>

abbreviation STAR :: u8 where "STAR \<equiv> 42"
abbreviation QMARK :: u8 where "QMARK \<equiv> 63"

text \<open>\<open>Match\<close> is \<open>INA_SUCCESS\<close> and \<open>No_Match\<close> is \<open>INA_ERROR(INA_ES_TEXT|INA_ERR_NOT_MATCH)\<close>.  A read outside of
  one of the strings is \<open>Overrun\<close>, and \<open>None\<close> is a loop that does not end.\<close>

datatype wild_result = Overrun | Match | No_Match

text \<open>The two inner loops: over stars, and forward to a character.\<close>

fun skip_stars :: "byte_seq \<Rightarrow> nat \<Rightarrow> nat" where
  "skip_stars [] w = w"
| "skip_stars (c # cs) w = (if c = STAR then skip_stars cs (w + 1) else w)"

fun fast_forward :: "u8 \<Rightarrow> byte_seq \<Rightarrow> nat \<Rightarrow> (nat, wild_result) sum" where
  "fast_forward c [] t = Inr Overrun"
| "fast_forward c (x # xs) t =
     (if x = c then Inl t
      else case xs of [] \<Rightarrow> Inr Overrun | y # _ \<Rightarrow> if y = 0 then Inr No_Match else fast_forward c xs (t + 1))"

text \<open>The end of a round: both pointers advance, and the end of the text is tested.\<close>

definition wild_tail :: "byte_seq \<Rightarrow> byte_seq \<Rightarrow> nat \<Rightarrow> nat \<Rightarrow> wild_result option" where
  "wild_tail T W t w =
     (if length T \<le> t then Some Overrun
      else if T ! t \<noteq> 0 then None
      else let w = skip_stars (drop w W) w
           in if length W \<le> w then Some Overrun else if W ! w = 0 then Some Match else Some No_Match)"

partial_function (option) wild_loop ::
  "byte_seq \<Rightarrow> byte_seq \<Rightarrow> nat \<Rightarrow> nat \<Rightarrow> (nat \<times> nat) option \<Rightarrow> wild_result option" where
  "wild_loop T W t w bk =
     (if length W \<le> w then Some Overrun
      else if W ! w = STAR
      then let w = skip_stars (drop w W) w
           in if length W \<le> w then Some Overrun
              else if W ! w = 0 then Some Match
              else case (if W ! w \<noteq> QMARK then fast_forward (W ! w) (drop t T) t else Inl t) of
                     Inr r \<Rightarrow> Some r
                   | Inl t \<Rightarrow> (case wild_tail T W (t + 1) (w + 1) of
                                 Some r \<Rightarrow> Some r
                               | None \<Rightarrow> wild_loop T W (t + 1) (w + 1) (Some (t, w)))
      else if length T \<le> t then Some Overrun
      else if T ! t \<noteq> W ! w \<and> W ! w \<noteq> QMARK
      then case bk of
             None \<Rightarrow> Some No_Match
           | Some (tb, wb) \<Rightarrow>
               if w \<noteq> wb \<and> T ! t \<noteq> W ! wb then wild_loop T W (tb + 1) wb (Some (tb + 1, wb))
               else let w = (if w \<noteq> wb then wb + 1 else w)
                    in if T ! t \<noteq> 0 then wild_loop T W (t + 1) w bk else Some No_Match
      else case wild_tail T W (t + 1) (w + 1) of
             Some r \<Rightarrow> Some r
           | None \<Rightarrow> wild_loop T W (t + 1) (w + 1) bk)"

declare wild_loop.simps [code]

definition ina_str_wildcard_match :: "byte_seq \<Rightarrow> byte_seq \<Rightarrow> wild_result option" where
  "ina_str_wildcard_match tame wildcard = wild_loop tame wildcard 0 0 None"

section \<open>Splitting cuts and joins\<close>

text \<open>The reference: cut at every separator, but look for none at the last byte.\<close>

function text_split :: "byte_seq \<Rightarrow> byte_seq \<Rightarrow> byte_seq \<Rightarrow> byte_seq list" where
  "text_split sep cur rest =
     (if length rest \<le> 1 then [cur @ rest]
      else if sep \<noteq> [] \<and> take (length sep) rest = sep then cur # text_split sep [] (drop (length sep) rest)
      else text_split sep (cur @ [hd rest]) (tl rest))"
  by pat_completeness auto
termination
  by (relation "measure (\<lambda>(sep, cur, rest). length rest)") (auto intro!: diff_less)

declare text_split.simps [simp del]

fun join_with :: "byte_seq \<Rightarrow> byte_seq list \<Rightarrow> byte_seq" where
  "join_with sep [] = []"
| "join_with sep [x] = x"
| "join_with sep (x # y # xs) = x @ sep @ join_with sep (y # xs)"

lemma text_split_nonempty: "text_split sep cur rest \<noteq> []"
  by (induction sep cur rest rule: text_split.induct) (subst text_split.simps, simp)

lemma join_with_cons: "xs \<noteq> [] \<Longrightarrow> join_with sep (x # xs) = x @ sep @ join_with sep xs"
  by (cases xs) auto

lemma text_split_joins: "join_with sep (text_split sep cur rest) = cur @ rest"
proof (induction sep cur rest rule: text_split.induct)
  case (1 sep cur rest)
  show ?case
  proof (cases "length rest \<le> 1")
    case True
    then show ?thesis by (subst text_split.simps) simp
  next
    case False
    then have "rest \<noteq> []" by auto
    then have "hd rest # tl rest = rest" by simp
    moreover have "sep @ drop (length sep) rest = rest" if "take (length sep) rest = sep" using that by (metis append_take_drop_id)
    ultimately show ?thesis using 1 False
      by (subst text_split.simps) (auto simp: join_with_cons text_split_nonempty)
  qed
qed

text \<open>No separator starts inside of the part already read.\<close>

definition clean :: "byte_seq \<Rightarrow> byte_seq \<Rightarrow> byte_seq \<Rightarrow> bool" where
  "clean sep cur rest \<longleftrightarrow> (\<forall>i < length cur. take (length sep) (drop i (cur @ rest)) \<noteq> sep)"

lemma sublist_at: "sublist sep xs \<Longrightarrow> sep \<noteq> [] \<Longrightarrow> \<exists>i < length xs. take (length sep) (drop i (xs @ ys)) = sep"
proof -
  assume "sublist sep xs" "sep \<noteq> []"
  then obtain ps ss where "xs = ps @ sep @ ss" by (auto simp: sublist_def)
  then show ?thesis using \<open>sep \<noteq> []\<close> by (intro exI [of _ "length ps"]) auto
qed

lemma clean_no_sublist: "clean sep cur rest \<Longrightarrow> sep \<noteq> [] \<Longrightarrow> \<not> sublist sep cur"
  unfolding clean_def using sublist_at by blast

lemma clean_step: "clean sep cur (c # rest) \<Longrightarrow> take (length sep) (c # rest) \<noteq> sep \<Longrightarrow> clean sep (cur @ [c]) rest"
  by (auto simp: clean_def less_Suc_eq)

text \<open>All pieces but the last are free of the separator, and it does not stand inside of the last.\<close>

definition cut_ok :: "byte_seq \<Rightarrow> byte_seq list \<Rightarrow> bool" where
  "cut_ok sep toks \<longleftrightarrow> (\<forall>tok \<in> set (butlast toks). \<not> sublist sep tok) \<and> \<not> sublist sep (butlast (last toks))"

lemma cut_ok_cons: "toks \<noteq> [] \<Longrightarrow> cut_ok sep (tok # toks) \<longleftrightarrow> \<not> sublist sep tok \<and> cut_ok sep toks"
  by (auto simp: cut_ok_def)

lemma sublist_butlast: "sublist sep (butlast xs) \<Longrightarrow> sublist sep xs"
  by (cases xs rule: rev_cases) (auto simp: sublist_def, blast)

lemma text_split_clean: "sep \<noteq> [] \<Longrightarrow> clean sep cur rest \<Longrightarrow> cut_ok sep (text_split sep cur rest)"
proof (induction sep cur rest rule: text_split.induct)
  case (1 sep cur rest)
  note cl = clean_no_sublist [OF 1(4,3)]
  show ?case
  proof (cases "length rest \<le> 1")
    case True
    then have "butlast (cur @ rest) = cur \<or> butlast (cur @ rest) = butlast cur" by (cases rest) (auto simp: butlast_append)
    then have "\<not> sublist sep (butlast (cur @ rest))" using cl sublist_butlast by metis
    then show ?thesis using True by (subst text_split.simps) (simp add: cut_ok_def)
  next
    case False
    then obtain c r where rest: "rest = c # r" by (cases rest) auto
    show ?thesis
    proof (cases "take (length sep) rest = sep")
      case True
      have "clean sep [] (drop (length sep) rest)" by (simp add: clean_def)
      then have "cut_ok sep (text_split sep [] (drop (length sep) rest))" using 1(1) False True 1(3) by blast
      then show ?thesis using False True 1(3) cl by (subst text_split.simps) (simp add: cut_ok_cons text_split_nonempty)
    next
      case no: False
      have "cut_ok sep (text_split sep (cur @ [hd rest]) (tl rest))"
        using 1(2) [OF False] no 1(3) clean_step 1(4) rest by auto
      then show ?thesis using False no by (subst text_split.simps) simp
    qed
  qed
qed

lemma memcmp_zero: "length a = length b \<Longrightarrow> c_memcmp a b = 0 \<longleftrightarrow> a = b"
  by (induction a b rule: list_induct2) (auto simp: word_uint_eq_iff)

text \<open>A short separator is compared inside of the string and its terminator.\<close>

lemma sep_at_eq:
  assumes "0 \<notin> set sep" "0 < length sep" "length sep \<le> 3" "j + 1 < length t"
  shows "sep_at (t @ [0]) (sep @ [0]) (length sep) j = Some (take (length sep) (drop j t) = sep)"
proof -
  let ?n = "length sep"
  have r: "mem_read (t @ [0]) j ?n = Some (take ?n (drop j (t @ [0])))" "mem_read (sep @ [0]) 0 ?n = Some sep"
    using assms by (auto simp: mem_read_def)
  have "take ?n (drop j (t @ [0])) = sep \<longleftrightarrow> take ?n (drop j t) = sep"
  proof (cases "j + ?n \<le> length t")
    case False
    then have "take ?n (drop j (t @ [0])) = drop j t @ [0]" using assms by (simp add: take_Cons' )
    then have "take ?n (drop j (t @ [0])) \<noteq> sep" using assms(1) by (metis in_set_conv_decomp)
    moreover have "length (take ?n (drop j t)) < ?n" using False assms(4) by simp
    ultimately show ?thesis by (metis nat_neq_iff)
  qed (use assms in simp)
  moreover have "take ?n (drop j t) = sep" if "?n = 1" "(t @ [0]) ! j = (sep @ [0]) ! 0"
    using that assms by (cases sep) (auto simp: nth_append take_Suc_conv_app_nth)
  moreover have "c_memcmp (take ?n (drop j (t @ [0]))) sep = 0 \<longleftrightarrow> take ?n (drop j (t @ [0])) = sep"
    using assms by (intro memcmp_zero) simp
  ultimately show ?thesis by (auto simp: sep_at_def r)
qed

lemma piece_made:
  assumes env: "mallocs env" and t: "start \<le> j" "j \<le> length t" "length t < 2 ^ 30"
  shows "\<exists>s. ina_str_new_fromblk env (Some (drop start (t @ [0]))) (of_nat j - of_nat start) = Some (Some s) \<and>
           str_text s = take (j - start) (drop start t)"
proof -
  have "(of_nat j - of_nat start :: u64) = of_nat (j - start)" using t(1) by (simp add: of_nat_diff)
  moreover have u: "unat (of_nat (j - start) :: u64) = j - start" using t by (intro unat_of_nat_small) simp
  moreover have "\<exists>s. ina_str_new_fromblk env (Some (drop start (t @ [0]))) (of_nat (j - start)) = Some (Some s) \<and>
      str_ok s \<and> str_text s = take (unat (of_nat (j - start) :: u64)) (drop start (t @ [0]))"
    by (rule fromblk_text [OF env]) (use t u in auto)
  ultimately show ?thesis using t by auto
qed

definition split_state :: "byte_seq \<Rightarrow> nat \<Rightarrow> nat \<Rightarrow> nat \<Rightarrow> ina_str list \<Rightarrow> bool" where
  "split_state t slots j start toks \<longleftrightarrow> start \<le> j \<and> j \<le> length t \<and> length toks + 2 \<le> slots"

lemma split_loop_eq:
  assumes sep: "0 \<notin> set sep" "0 < length sep" "length sep \<le> 3" and env: "mallocs env" and t: "length t < 2 ^ 30"
    and "split_state t slots j start toks"
  shows "\<exists>r. split_loop env (t @ [0]) (sep @ [0]) (length t) (length sep) slots j start toks = Some (Some r, Some (length r)) \<and>
     map str_text r = map str_text toks @ text_split sep (take (j - start) (drop start t)) (drop j t)"
  using assms(6)
proof (induction "length t - j" arbitrary: j start slots toks rule: less_induct)
  case less
  note st = less.prems [unfolded split_state_def]
  let ?cur = "take (j - start) (drop start t)"
  let ?loop = "split_loop env (t @ [0]) (sep @ [0]) (length t) (length sep)"
  show ?case
  proof (cases "j + 1 < length t")
    case False
    obtain s where s: "ina_str_new_fromblk env (Some (drop start (t @ [0]))) (of_nat (length t) - of_nat start) = Some (Some s)"
        "str_text s = drop start t" using piece_made [OF env, of start "length t" t] st t by auto
    have "?cur @ drop j t = drop start t" using st by (metis append_take_drop_id drop_drop le_add_diff_inverse2)
    moreover have "text_split sep ?cur (drop j t) = [?cur @ drop j t]" using False by (subst text_split.simps) auto
    ultimately show ?thesis using False s st by (subst split_loop.simps) (auto simp: split_final_def)
  next
    case True
    define slots' where "slots' = (if slots < length toks + 3 then slots * 2 else slots)"
    have sl: "length toks + 3 \<le> slots'" "alloc_slots env (slots * 2)"
      using st env by (auto simp: slots'_def mallocs_def alloc_slots_def)
    let ?hit = "take (length sep) (drop j t) = sep"
    have at: "sep_at (t @ [0]) (sep @ [0]) (length sep) j = Some ?hit" by (rule sep_at_eq [OF sep True])
    show ?thesis
    proof (cases ?hit)
      case hit: True
      let ?j = "j + length sep"
      have le: "?j \<le> length t" using arg_cong [OF hit, of length] True by (simp add: min_def split: if_splits)
      obtain s where s: "ina_str_new_fromblk env (Some (drop start (t @ [0]))) (of_nat j - of_nat start) = Some (Some s)"
          "str_text s = ?cur" using piece_made [OF env, of start j t] st t by auto
      have "split_state t slots' ?j ?j (toks @ [s])" using le sl by (simp add: split_state_def)
      moreover have "length t - ?j < length t - j" using True sep(2) by linarith
      ultimately obtain r where r: "?loop slots' ?j ?j (toks @ [s]) = Some (Some r, Some (length r))"
        "map str_text r = map str_text (toks @ [s]) @ text_split sep (take (?j - ?j) (drop ?j t)) (drop ?j t)" using less.hyps by blast
      have "?loop slots j start toks = ?loop slots' ?j ?j (toks @ [s])"
      proof -
        have "?loop slots j start toks = ?loop slots' (j + (length sep - 1) + 1) ?j (toks @ [s])"
          using True hit at s sl by (subst split_loop.simps) (auto simp: slots'_def [symmetric] Let_def)
        moreover have "j + (length sep - 1) + 1 = ?j" using sep(2) by simp
        ultimately show ?thesis by (simp only:)
      qed
      moreover have "text_split sep ?cur (drop j t) = ?cur # text_split sep [] (drop ?j t)"
        using True hit sep by (subst text_split.simps) (auto simp: add.commute)
      ultimately show ?thesis using r s(2) by simp
    next
      case no: False
      have "split_state t slots' (j + 1) start toks" using st True sl by (simp add: split_state_def)
      moreover have "length t - (j + 1) < length t - j" using True by simp
      ultimately obtain r where r: "?loop slots' (j + 1) start toks = Some (Some r, Some (length r))"
        "map str_text r = map str_text toks @ text_split sep (take (j + 1 - start) (drop start t)) (drop (j + 1) t)" using less.hyps by blast
      have "?loop slots j start toks = ?loop slots' (j + 1) start toks"
        using True no at sl by (subst split_loop.simps) (auto simp: slots'_def [symmetric] Let_def)
      moreover have "take (j + 1 - start) (drop start t) = ?cur @ [hd (drop j t)]"
      proof -
        have "j - start < length (drop start t)" using st True by simp linarith
        from take_Suc_conv_app_nth [OF this] show ?thesis using st True by (simp add: Suc_diff_le hd_drop_conv_nth)
      qed
      moreover have "text_split sep ?cur (drop j t) = text_split sep (?cur @ [hd (drop j t)]) (drop (j + 1) t)"
        using True no by (subst text_split.simps) (auto simp: drop_Suc tl_drop)
      ultimately show ?thesis using r by simp
    qed
  qed
qed

text \<open>C17. Splitting a string of less than 2^30 bytes at a separator of one to three bytes returns an
  array whose stored count is its length; joining the pieces with the separator gives the string
  back, no piece but the last contains the separator, and the last one at most at its end.\<close>

theorem split_joins:
  assumes "mallocs env" "0 \<notin> set t" "t \<noteq> []" "length t < 2 ^ 30" "0 \<notin> set sep" "sep \<noteq> []" "length sep \<le> 3"
  shows "\<exists>toks. ina_str_split env (Some (t @ [0])) (Some (sep @ [0])) = Some (Some toks, Some (length toks)) \<and>
    join_with sep (map str_text toks) = t \<and>
    (\<forall>tok \<in> set (butlast toks). \<not> sublist sep (str_text tok)) \<and>
    \<not> sublist sep (butlast (str_text (last toks)))"
proof -
  obtain r where r: "split_loop env (t @ [0]) (sep @ [0]) (length t) (length sep) 5 0 0 [] = Some (Some r, Some (length r))"
      "map str_text r = text_split sep [] t"
    using split_loop_eq [OF assms(5) _ assms(7) assms(1,4), of 5 0 0 "[]"] assms(6) by (auto simp: split_state_def)
  have c: "cut_ok sep (map str_text r)" unfolding r(2) by (rule text_split_clean [OF assms(6)]) (simp add: clean_def)
  have ne: "r \<noteq> []" using r(2) text_split_nonempty [of sep "[]" t] by auto
  have "ina_str_split env (Some (t @ [0])) (Some (sep @ [0])) = Some (Some r, Some (length r))"
    using assms r by (simp add: ina_str_split_def alloc_slots_def mallocs_def)
  moreover have "join_with sep (map str_text r) = t" unfolding r(2) by (simp add: text_split_joins)
  ultimately show ?thesis using c ne by (auto simp: cut_ok_def map_butlast [symmetric] last_map)
qed

theorem split_joins_witness:
  "\<exists>toks. ina_str_split easy_env (Some ([97, 44, 98, 44] @ [0])) (Some ([44] @ [0])) = Some (Some toks, Some (length toks)) \<and>
    join_with [44] (map str_text toks) = [97, 44, 98, 44] \<and> \<not> sublist [44] (butlast (str_text (last toks)))"
  using split_joins [of easy_env "[97, 44, 98, 44]" "[44]"] by (auto simp: mallocs_def easy_env_def)

section \<open>Wildcards: what a pattern describes\<close>

primrec wild_match :: "byte_seq \<Rightarrow> byte_seq \<Rightarrow> bool" where
  "wild_match [] t \<longleftrightarrow> t = []"
| "wild_match (c # p) t \<longleftrightarrow>
     (if c = STAR then \<exists>k \<le> length t. wild_match p (drop k t)
      else t \<noteq> [] \<and> (c = QMARK \<or> hd t = c) \<and> wild_match p (tl t))"

lemma wild_match_char:
  assumes "i < length t" "j < length p" "p ! j \<noteq> STAR" "p ! j = QMARK \<or> t ! i = p ! j" "wild_match (drop (Suc j) p) (drop (Suc i) t)"
  shows "wild_match (drop j p) (drop i t)"
  using assms by (subst Cons_nth_drop_Suc [symmetric]) (auto simp: hd_drop_conv_nth drop_Suc tl_drop)

lemma skip_stars_spec:
  "skip_stars cs w = w + length (takeWhile (\<lambda>c. c = STAR) cs)"
  by (induction cs arbitrary: w) auto

lemma skip_stars_range:
  assumes "w \<le> length p" "0 \<notin> set p"
  defines "w' \<equiv> skip_stars (drop w (p @ [0])) w"
  shows "w \<le> w'" "w' \<le> length p" "(p @ [0]) ! w' \<noteq> STAR" "\<And>i. w \<le> i \<Longrightarrow> i < w' \<Longrightarrow> p ! i = STAR"
proof -
  let ?d = "drop w (p @ [0])"
  let ?k = "length (takeWhile (\<lambda>c. c = STAR) ?d)"
  have d: "?d = drop w p @ [0]" using assms(1) by simp
  then have k: "?k = length (takeWhile (\<lambda>c. c = STAR) (drop w p))" using takeWhile_tail [of "\<lambda>c. c = STAR" 0] by simp
  have w': "w' = w + ?k" unfolding w'_def by (rule skip_stars_spec)
  show "w \<le> w'" using w' by simp
  have "?k \<le> length p - w" unfolding k by (rule order_trans [OF length_takeWhile_le]) simp
  then show le: "w' \<le> length p" using w' assms(1) by simp
  have "?k < length ?d" using le w' assms(1) by simp
  then have "?d ! ?k \<noteq> STAR" by (rule nth_length_takeWhile)
  moreover have "?d ! ?k = (p @ [0]) ! w'" unfolding w' using assms(1) by (intro nth_drop) simp
  ultimately show "(p @ [0]) ! w' \<noteq> STAR" by simp
  fix i assume i: "w \<le> i" "i < w'"
  then have k: "i - w < ?k" using w' by simp
  then have "takeWhile (\<lambda>c. c = STAR) ?d ! (i - w) = STAR" by (blast dest: set_takeWhileD nth_mem)
  then have "?d ! (i - w) = STAR" using takeWhile_nth [OF k] by simp
  moreover have "i - w < length p - w" using i le by linarith
  ultimately show "p ! i = STAR" using i le assms(1) by (simp add: nth_append)
qed

lemma wild_match_stars:
  assumes "\<And>i. w \<le> i \<Longrightarrow> i < w' \<Longrightarrow> p ! i = STAR" "w \<le> w'" "w' \<le> length p" "wild_match (drop w' p) t"
  shows "wild_match (drop w p) t"
  using assms(2)
proof (induction rule: inc_induct)
  case base
  show ?case by (rule assms(4))
next
  case (step n)
  have "p ! n = STAR" "n < length p" using assms(1,3) step(1,2) by auto
  then have "drop n p = STAR # drop (Suc n) p" by (metis Cons_nth_drop_Suc)
  then show ?case using step(3) by (simp only: wild_match.simps) (auto intro: exI [of _ 0])
qed

lemma wild_match_star_any:
  assumes "\<And>i. w \<le> i \<Longrightarrow> i < w' \<Longrightarrow> p ! i = STAR" "w < w'" "w' \<le> length p" "i \<le> k" "k \<le> length t" "wild_match (drop w' p) (drop k t)"
  shows "wild_match (drop w p) (drop i t)"
proof -
  have "wild_match (drop (Suc w) p) (drop k t)" by (rule wild_match_stars [OF _ _ assms(3,6)]) (use assms(1,2) in auto)
  moreover have "p ! w = STAR" "w < length p" using assms by auto
  then have "drop w p = STAR # drop (Suc w) p" by (metis Cons_nth_drop_Suc)
  ultimately show ?thesis using assms(4,5) by (simp only: wild_match.simps) (auto intro!: exI [of _ "k - i"])
qed

lemma fast_forward_step: "fast_forward c (x # xs) i = Inl k \<Longrightarrow> x \<noteq> c \<Longrightarrow> fast_forward c xs (Suc i) = Inl k"
  by (cases xs) (auto split: if_splits)

lemma fast_forward_found:
  "fast_forward c (drop i (t @ [0])) i = Inl k \<Longrightarrow> i \<le> length t \<Longrightarrow> i \<le> k \<and> k \<le> length t \<and> (t @ [0]) ! k = c"
proof (induction "length t - i" arbitrary: i)
  case 0
  then show ?case by (auto split: if_splits)
next
  case (Suc n)
  then have d: "drop i (t @ [0]) = t ! i # drop (Suc i) (t @ [0])" by (simp add: Cons_nth_drop_Suc nth_append drop_append)
  show ?case
  proof (cases "t ! i = c")
    case True
    then show ?thesis using Suc d by (auto simp: nth_append)
  next
    case False
    then have ff: "fast_forward c (drop (Suc i) (t @ [0])) (Suc i) = Inl k"
      using fast_forward_step Suc(3) [unfolded d] by blast
    have "n = length t - Suc i" "Suc i \<le> length t" using Suc.hyps(2) by simp_all
    then have "Suc i \<le> k \<and> k \<le> length t \<and> (t @ [0]) ! k = c" using Suc.hyps(1) [OF _ ff] by simp
    then show ?thesis by simp
  qed
qed

text \<open>What the loop keeps: the pointers stay in their strings, the bookmark is behind them, and both a
  match of the rests and a match from the bookmark on are matches of the whole.\<close>

definition wild_inv :: "byte_seq \<Rightarrow> byte_seq \<Rightarrow> nat \<Rightarrow> nat \<Rightarrow> (nat \<times> nat) option \<Rightarrow> bool" where
  "wild_inv t p i j bk \<longleftrightarrow> i \<le> length t \<and> j \<le> length p \<and>
     (wild_match (drop j p) (drop i t) \<longrightarrow> wild_match p t) \<and>
     (case bk of None \<Rightarrow> True
      | Some (tb, wb) \<Rightarrow> tb \<le> i \<and> wb \<le> j \<and> (j \<noteq> wb \<longrightarrow> tb < i) \<and> wb < length p \<and> p ! wb \<noteq> STAR \<and>
          (\<forall>k. tb \<le> k \<longrightarrow> k \<le> length t \<longrightarrow> wild_match (drop wb p) (drop k t) \<longrightarrow> wild_match p t))"

definition wild_measure :: "byte_seq \<Rightarrow> byte_seq \<Rightarrow> nat \<Rightarrow> (nat \<times> nat) option \<Rightarrow> nat \<times> nat \<times> nat" where
  "wild_measure t p i bk =
     (case bk of None \<Rightarrow> (length p + 1, length t, length t - i)
      | Some (tb, wb) \<Rightarrow> (length p - wb, length t - tb, length t - i))"

definition wild_good :: "byte_seq \<Rightarrow> byte_seq \<Rightarrow> wild_result option \<Rightarrow> bool" where
  "wild_good t p r \<longleftrightarrow> (\<exists>x. r = Some x \<and> (x = Match \<longrightarrow> wild_match p t))"

lemma wild_tail_good:
  assumes "0 \<notin> set t" "0 \<notin> set p" "i < length t" "j < length p" "p ! j \<noteq> STAR" "p ! j = QMARK \<or> t ! i = p ! j"
    "wild_match (drop j p) (drop i t) \<longrightarrow> wild_match p t"
  shows "(\<exists>r. wild_tail (t @ [0]) (p @ [0]) (i + 1) (j + 1) = Some r \<and> (r = Match \<longrightarrow> wild_match p t)) \<or>
     wild_tail (t @ [0]) (p @ [0]) (i + 1) (j + 1) = None \<and> Suc i < length t \<and>
     (wild_match (drop (Suc j) p) (drop (Suc i) t) \<longrightarrow> wild_match p t)"
proof -
  have whole: "wild_match (drop (Suc j) p) (drop (Suc i) t) \<Longrightarrow> wild_match p t"
    using assms wild_match_char by blast
  show ?thesis
  proof (cases "Suc i = length t")
    case True
    let ?w = "skip_stars (drop (Suc j) (p @ [0])) (Suc j)"
    note w = skip_stars_range [of "Suc j" p, OF _ assms(2)]
    have "wild_match p t" if "?w = length p"
    proof -
      have "wild_match (drop (Suc j) p) []"
        by (rule wild_match_stars [of _ ?w]) (use w assms(4) that in \<open>auto simp: Suc_le_eq\<close>)
      then show ?thesis using whole True by simp
    qed
    moreover have "?w = length p" if z: "(p @ [0]) ! ?w = 0"
    proof (rule ccontr)
      assume "?w \<noteq> length p"
      then have lt: "?w < length p" using w(2) assms(4) by (simp add: Suc_le_eq)
      then have "(p @ [0]) ! ?w = p ! ?w" by (simp only: nth_append if_True)
      then show False using z nth_mem [OF lt] assms(2) by simp
    qed
    ultimately have m: "(p @ [0]) ! ?w = 0 \<longrightarrow> wild_match p t" by blast
    have eq: "wild_tail (t @ [0]) (p @ [0]) (i + 1) (j + 1) =
        Some (if length (p @ [0]) \<le> ?w then Overrun else if (p @ [0]) ! ?w = 0 then Match else No_Match)"
      using True by (simp only: wild_tail_def Let_def) (simp del: drop_append)
    show ?thesis by (rule disjI1, rule exI, rule conjI, rule eq) (use m in \<open>simp del: drop_append\<close>)
  next
    case False
    then have "Suc i < length t" "t ! Suc i \<noteq> 0" using assms(1,3) by (auto simp: in_set_conv_nth)
    then show ?thesis using whole by (auto simp: wild_tail_def nth_append)
  qed
qed

lemma fast_forward_not_match: "fast_forward c xs i = Inr r \<Longrightarrow> r \<noteq> Match"
  by (induction c xs i rule: fast_forward.induct) (auto split: if_splits list.splits)

lemma text_char: "0 \<notin> set t \<Longrightarrow> i \<le> length t \<Longrightarrow> (t @ [0]) ! i = (if i < length t then t ! i else 0) \<and> ((t @ [0]) ! i = 0 \<longleftrightarrow> i = length t)"
  by (auto simp: nth_append in_set_conv_nth)

text \<open>The rest of a round that has matched one character.\<close>

lemma wild_round_good:
  assumes z: "0 \<notin> set t" "0 \<notin> set p" and i: "i \<le> length t" and j: "j < length p" "p ! j \<noteq> STAR"
    and m: "p ! j = QMARK \<or> (t @ [0]) ! i = p ! j" and whole: "wild_match (drop j p) (drop i t) \<longrightarrow> wild_match p t"
    and next_ok: "Suc i < length t \<Longrightarrow> wild_match (drop (Suc j) p) (drop (Suc i) t) \<longrightarrow> wild_match p t \<Longrightarrow> wild_good t p R"
  shows "wild_good t p (case wild_tail (t @ [0]) (p @ [0]) (i + 1) (j + 1) of Some r \<Rightarrow> Some r | None \<Rightarrow> R)"
proof (cases "i = length t")
  case True
  then show ?thesis by (simp add: wild_tail_def wild_good_def)
next
  case False
  then have "i < length t" "p ! j = QMARK \<or> t ! i = p ! j" using i m by (auto simp: nth_append)
  from wild_tail_good [OF z this(1) j this(2) whole] next_ok show ?thesis by (auto simp: wild_good_def)
qed

text \<open>One round, for a loop whose further rounds are good.  First a star in the pattern.\<close>

abbreviation "wild_rel \<equiv> less_than <*lex*> less_than <*lex*> less_than"

lemma wild_star_good:
  assumes z: "0 \<notin> set t" "0 \<notin> set p" and inv: "wild_inv t p i j bk" and star: "(p @ [0]) ! j = STAR"
    and ih: "\<And>i' j' bk'. wild_inv t p i' j' bk' \<Longrightarrow> (wild_measure t p i' bk', wild_measure t p i bk) \<in> wild_rel
      \<Longrightarrow> wild_good t p (wild_loop (t @ [0]) (p @ [0]) i' j' bk')"
  shows "wild_good t p (wild_loop (t @ [0]) (p @ [0]) i j bk)"
proof -
  let ?T = "t @ [0]" and ?W = "p @ [0]"
  let ?go = "\<lambda>k w. case wild_tail ?T ?W (k + 1) (w + 1) of Some r \<Rightarrow> Some r | None \<Rightarrow> wild_loop ?T ?W (k + 1) (w + 1) (Some (k, w))"
  define w where "w = skip_stars (drop j ?W) j"
  let ?ff = "if ?W ! w \<noteq> QMARK then fast_forward (?W ! w) (drop i ?T) i else Inl i"
  have ij: "i \<le> length t" "j \<le> length p" and whole: "wild_match (drop j p) (drop i t) \<Longrightarrow> wild_match p t"
    using inv by (auto simp: wild_inv_def)
  have bj: "\<And>tb wb. bk = Some (tb, wb) \<Longrightarrow> wb \<le> j" using inv by (simp add: wild_inv_def)
  note w = skip_stars_range [OF ij(2) z(2), folded w_def]
  have jw: "j < w" using w(1,3) star by (cases "j = w") auto
  have any: "wild_match p t" if "i \<le> k" "k \<le> length t" "wild_match (drop w p) (drop k t)" for k
    by (rule whole, rule wild_match_star_any [OF w(4) jw w(2) that])
  have loop: "wild_loop ?T ?W i j bk = (if ?W ! w = 0 then Some Match else case ?ff of Inr r \<Rightarrow> Some r | Inl k \<Rightarrow> ?go k w)"
    using star ij w(2) by (subst wild_loop.simps) (simp add: w_def [symmetric] Let_def del: drop_append)
  show ?thesis
  proof (cases "w = length p")
    case True
    then show ?thesis using any [of "length t"] ij loop by (simp add: wild_good_def)
  next
    case False
    then have wp: "w < length p" "?W ! w = p ! w" "p ! w \<noteq> 0" "p ! w \<noteq> STAR"
      using w(2,3) z(2) by (auto simp: nth_append in_set_conv_nth)
    have r: "r \<noteq> Match" if "?ff = Inr r" for r using that fast_forward_not_match by (auto split: if_splits)
    have "wild_good t p (?go k w)" if ff: "?ff = Inl k" for k
    proof -
      have k: "i \<le> k" "k \<le> length t" "p ! w = QMARK \<or> ?T ! k = p ! w"
        using ff fast_forward_found [of "p ! w" i t k] ij wp by (auto split: if_splits)
      show ?thesis
      proof (rule wild_round_good [OF z k(2) wp(1,4) k(3)])
        assume "Suc k < length t" "wild_match (drop (Suc w) p) (drop (Suc k) t) \<longrightarrow> wild_match p t"
        moreover have "\<forall>ka. k \<le> ka \<longrightarrow> ka \<le> length t \<longrightarrow> wild_match (drop w p) (drop ka t) \<longrightarrow> wild_match p t"
          using any k(1) le_trans by blast
        ultimately have "wild_inv t p (k + 1) (w + 1) (Some (k, w))" using wp by (auto simp: wild_inv_def)
        then show "wild_good t p (wild_loop ?T ?W (k + 1) (w + 1) (Some (k, w)))"
          by (rule ih) (use bj jw wp(1) in \<open>auto simp: wild_measure_def split: option.splits\<close>)
      qed (use any k in blast)
    qed
    then show ?thesis unfolding loop using wp r by (cases ?ff) (auto simp: wild_good_def)
  qed
qed

text \<open>Then a mismatch, with the bookmark it falls back to.\<close>

lemma wild_mismatch_good:
  assumes z: "0 \<notin> set t" and inv: "wild_inv t p i j (Some (tb, wb))"
    and star: "(p @ [0]) ! j \<noteq> STAR" and no: "(t @ [0]) ! i \<noteq> (p @ [0]) ! j" "(p @ [0]) ! j \<noteq> QMARK"
    and ih: "\<And>i' j' bk'. wild_inv t p i' j' bk' \<Longrightarrow> (wild_measure t p i' bk', wild_measure t p i (Some (tb, wb))) \<in> wild_rel
      \<Longrightarrow> wild_good t p (wild_loop (t @ [0]) (p @ [0]) i' j' bk')"
  shows "wild_good t p (wild_loop (t @ [0]) (p @ [0]) i j (Some (tb, wb)))"
proof -
  let ?T = "t @ [0]" and ?W = "p @ [0]"
  define w where "w = (if j \<noteq> wb then wb + 1 else j)"
  note iv = inv [unfolded wild_inv_def, simplified]
  have loop: "wild_loop ?T ?W i j (Some (tb, wb)) =
      (if j \<noteq> wb \<and> ?T ! i \<noteq> ?W ! wb then wild_loop ?T ?W (tb + 1) wb (Some (tb + 1, wb))
       else if ?T ! i \<noteq> 0 then wild_loop ?T ?W (i + 1) w (Some (tb, wb)) else Some No_Match)"
  proof -
    have "\<not> length ?W \<le> j" "\<not> length ?T \<le> i" using iv by auto
    then show ?thesis
      by (subst wild_loop.simps) (simp only: star no simp_thms if_False if_True option.case prod.case Let_def w_def)
  qed
  consider (reset) "j \<noteq> wb" "?T ! i \<noteq> ?W ! wb" | (forward) "j = wb \<or> ?T ! i = ?W ! wb" "?T ! i \<noteq> 0" | (fail) "j = wb \<or> ?T ! i = ?W ! wb" "?T ! i = 0" by blast
  then show ?thesis
  proof cases
    case reset
    have b: "\<forall>k. Suc tb \<le> k \<longrightarrow> k \<le> length t \<longrightarrow> wild_match (drop wb p) (drop k t) \<longrightarrow> wild_match p t"
      using iv Suc_leD by blast
    moreover have le: "Suc tb \<le> length t" using iv reset by auto
    moreover have "wild_match (drop wb p) (drop (Suc tb) t) \<longrightarrow> wild_match p t" using b le by blast
    ultimately have "wild_inv t p (tb + 1) wb (Some (tb + 1, wb))" using iv by (simp add: wild_inv_def)
    then have "wild_good t p (wild_loop ?T ?W (tb + 1) wb (Some (tb + 1, wb)))"
      by (rule ih) (use iv reset in \<open>auto simp: wild_measure_def\<close>)
    then show ?thesis using loop reset by simp
  next
    case forward
    then have i: "i < length t" "?T ! i = t ! i" using iv by (cases "i = length t", auto simp: nth_append)+
    have "wild_match p t" if m: "wild_match (drop w p) (drop (Suc i) t)"
    proof (cases "j = wb")
      case True
      then have "wild_match (drop wb p) (drop (Suc i) t)" using m by (simp add: w_def)
      moreover have "tb \<le> Suc i" "Suc i \<le> length t" using iv i by auto
      ultimately show ?thesis using iv by blast
    next
      case False
      then have "t ! i = p ! wb" using forward i iv by (simp add: nth_append)
      moreover have "wb < length p" "p ! wb \<noteq> STAR" "tb \<le> i" "i \<le> length t" using iv by blast+
      moreover have "wild_match (drop (Suc wb) p) (drop (Suc i) t)" using m False by (simp add: w_def)
      ultimately have "wild_match (drop wb p) (drop i t)" using wild_match_char i(1) by blast
      then show ?thesis using iv \<open>tb \<le> i\<close> \<open>i \<le> length t\<close> by blast
    qed
    then have "wild_inv t p (i + 1) w (Some (tb, wb))" using iv i by (auto simp: wild_inv_def w_def)
    then have "wild_good t p (wild_loop ?T ?W (i + 1) w (Some (tb, wb)))"
      by (rule ih) (use i in \<open>auto simp: wild_measure_def\<close>)
    then show ?thesis using loop forward by auto
  next
    case fail
    then show ?thesis using loop by (auto simp: wild_good_def)
  qed
qed

text \<open>Then a character that fits, and all together.\<close>

lemma wild_fit_good:
  assumes z: "0 \<notin> set t" "0 \<notin> set p" and inv: "wild_inv t p i j bk"
    and star: "(p @ [0]) ! j \<noteq> STAR" and fit: "(t @ [0]) ! i = (p @ [0]) ! j \<or> (p @ [0]) ! j = QMARK"
    and ih: "\<And>i' j' bk'. wild_inv t p i' j' bk' \<Longrightarrow> (wild_measure t p i' bk', wild_measure t p i bk) \<in> wild_rel
      \<Longrightarrow> wild_good t p (wild_loop (t @ [0]) (p @ [0]) i' j' bk')"
  shows "wild_good t p (wild_loop (t @ [0]) (p @ [0]) i j bk)"
proof -
  let ?T = "t @ [0]" and ?W = "p @ [0]"
  have ij: "i \<le> length t" "j \<le> length p" using inv by (auto simp: wild_inv_def)
  have loop: "wild_loop ?T ?W i j bk =
      (case wild_tail ?T ?W (i + 1) (j + 1) of Some r \<Rightarrow> Some r | None \<Rightarrow> wild_loop ?T ?W (i + 1) (j + 1) bk)"
    using ij star fit by (subst wild_loop.simps) auto
  show ?thesis
  proof (cases "i = length t")
    case True
    then show ?thesis unfolding loop by (simp add: wild_tail_def wild_good_def)
  next
    case False
    then have j: "j < length p" "?W ! j = p ! j" using fit ij text_char [OF z(1) ij(1)] text_char [OF z(2) ij(2)] by (auto split: if_splits)
    show ?thesis unfolding loop
    proof (rule wild_round_good [OF z ij(1) j(1)])
      assume "Suc i < length t" "wild_match (drop (Suc j) p) (drop (Suc i) t) \<longrightarrow> wild_match p t"
      then have "wild_inv t p (i + 1) (j + 1) bk" using inv j by (auto simp: wild_inv_def split: option.splits)
      then show "wild_good t p (wild_loop ?T ?W (i + 1) (j + 1) bk)"
        by (rule ih) (use \<open>Suc i < length t\<close> in \<open>auto simp: wild_measure_def split: option.splits\<close>)
    qed (use star fit j inv in \<open>auto simp: wild_inv_def\<close>)
  qed
qed

lemma wf_wild: "wf wild_rel"
  by auto

lemma wild_loop_good:
  assumes z: "0 \<notin> set t" "0 \<notin> set p" and "wild_inv t p i j bk"
  shows "wild_good t p (wild_loop (t @ [0]) (p @ [0]) i j bk)"
  using assms(3)
proof (induction "wild_measure t p i bk" arbitrary: i bk j rule: wf_induct_rule [OF wf_wild])
  case (1 i bk j)
  let ?T = "t @ [0]" and ?W = "p @ [0]"
  have ij: "i \<le> length t" "j \<le> length p" using "1.prems" by (auto simp: wild_inv_def)
  have ih: "wild_inv t p i' j' bk' \<Longrightarrow> (wild_measure t p i' bk', wild_measure t p i bk) \<in> wild_rel
      \<Longrightarrow> wild_good t p (wild_loop ?T ?W i' j' bk')" for i' j' bk' using "1.hyps" by blast
  consider "?W ! j = STAR" | (fit) "?W ! j \<noteq> STAR" "?T ! i = ?W ! j \<or> ?W ! j = QMARK" | (no) "?W ! j \<noteq> STAR" "?T ! i \<noteq> ?W ! j" "?W ! j \<noteq> QMARK" by blast
  then show ?case
  proof cases
    case no
    show ?thesis
    proof (cases bk)
      case None
      then show ?thesis using no ij by (subst wild_loop.simps) (simp add: wild_good_def)
    next
      case (Some b)
      then obtain tb wb where b: "bk = Some (tb, wb)" by (cases b) auto
      show ?thesis unfolding b by (rule wild_mismatch_good [OF z(1) "1.prems" [unfolded b] no]) (use ih b in blast)
    qed
  qed (rule wild_star_good [OF z "1.prems" _ ih] wild_fit_good [OF z "1.prems" _ _ ih]; assumption)+
qed

text \<open>Without a star, the loop is the plain comparison.\<close>

lemma wild_loop_plain:
  assumes "0 \<notin> set t" "0 \<notin> set p" "STAR \<notin> set p" "i < length t" "j \<le> length p"
  shows "wild_loop (t @ [0]) (p @ [0]) i j None = Some (if wild_match (drop j p) (drop i t) then Match else No_Match)"
  using assms(4,5)
proof (induction "length t - i" arbitrary: i j)
  case (Suc n)
  let ?T = "t @ [0]" and ?W = "p @ [0]"
  have ti: "?T ! i = t ! i" "t ! i \<noteq> 0" using Suc.prems assms(1) by (auto simp: nth_append in_set_conv_nth)
  have d: "drop i t = t ! i # drop (Suc i) t" using Suc.prems by (simp add: Cons_nth_drop_Suc)
  show ?case
  proof (cases "j = length p")
    case True
    then show ?thesis using ti Suc.prems by (subst wild_loop.simps) simp
  next
    case False
    then have j: "j < length p" "?W ! j = p ! j" "p ! j \<noteq> STAR" "p ! j \<noteq> 0"
      using Suc.prems assms(2,3) by (auto simp: nth_append in_set_conv_nth)
    have e: "drop j p = p ! j # drop (Suc j) p" using j(1) by (simp add: Cons_nth_drop_Suc)
    let ?fit = "t ! i = p ! j \<or> p ! j = QMARK"
    have loop: "wild_loop ?T ?W i j None = (if ?fit then case wild_tail ?T ?W (i + 1) (j + 1) of Some r \<Rightarrow> Some r
        | None \<Rightarrow> wild_loop ?T ?W (i + 1) (j + 1) None else Some No_Match)"
      using Suc.prems j ti(1) by (subst wild_loop.simps) auto
    have "(case wild_tail ?T ?W (i + 1) (j + 1) of Some r \<Rightarrow> Some r | None \<Rightarrow> wild_loop ?T ?W (i + 1) (j + 1) None) =
        Some (if wild_match (drop (Suc j) p) (drop (Suc i) t) then Match else No_Match)"
    proof (cases "Suc i = length t")
      case True
      have w: "skip_stars (drop (Suc j) ?W) (Suc j) = Suc j"
      proof -
        have "drop (Suc j) ?W = ?W ! Suc j # drop (Suc (Suc j)) ?W" using j(1) by (intro Cons_nth_drop_Suc [symmetric]) simp
        moreover have "?W ! Suc j \<noteq> STAR" using j(1) assms(3) by (cases "Suc j = length p") (auto simp: nth_append in_set_conv_nth)
        ultimately show ?thesis by (simp only: skip_stars.simps if_False)
      qed
      have "?W ! Suc j = 0 \<longleftrightarrow> Suc j = length p" using text_char [OF assms(2) Suc_leI [OF j(1)]] by blast
      moreover have "wild_match (drop (Suc j) p) [] \<longleftrightarrow> Suc j = length p"
      proof (cases "drop (Suc j) p")
        case (Cons a list)
        then have "a \<in> set p" by (metis in_set_dropD list.set_intros(1))
        then have "a \<noteq> STAR" "length (drop (Suc j) p) \<noteq> 0" using assms(3) Cons by auto
        then show ?thesis using Cons by auto
      qed (use j(1) in auto)
      moreover have "wild_tail ?T ?W (i + 1) (j + 1) = Some (if ?W ! Suc j = 0 then Match else No_Match)"
        using True w j(1) by (simp only: wild_tail_def Let_def) (simp del: drop_append)
      ultimately show ?thesis using True by simp
    next
      case False
      then have "Suc i < length t" using Suc.prems by simp
      moreover from this have "?T ! Suc i \<noteq> 0" using assms(1) by (auto simp: nth_append in_set_conv_nth)
      ultimately show ?thesis using Suc.hyps(1) [of "Suc i" "Suc j"] Suc.hyps(2) j(1) by (simp add: wild_tail_def)
    qed
    then show ?thesis unfolding loop d e using j(3) by auto
  qed
qed simp

text \<open>A run that stays inside the memory does not change when the memory is longer.\<close>

lemma skip_stars_longer: "skip_stars cs w < w + length cs \<Longrightarrow> skip_stars (cs @ ys) w = skip_stars cs w"
  by (induction cs w rule: skip_stars.induct) auto

lemma skip_stars_drop: "w < length W \<Longrightarrow> skip_stars (drop w W) w < length W \<Longrightarrow> skip_stars (drop w (W @ ys)) w = skip_stars (drop w W) w"
  using skip_stars_longer [of "drop w W" w ys] by simp

lemma skip_stars_ge: "w \<le> skip_stars cs w"
  by (induction cs w rule: skip_stars.induct) auto

lemma fast_forward_longer: "fast_forward c xs t \<noteq> Inr Overrun \<Longrightarrow> fast_forward c (xs @ ys) t = fast_forward c xs t"
proof (induction c xs t rule: fast_forward.induct)
  case (2 c x xs t)
  then show ?case by (cases xs) (simp_all split: if_splits)
qed simp

lemma wild_tail_longer: "wild_tail T W t w \<noteq> Some Overrun \<Longrightarrow> wild_tail (T @ xs) (W @ ys) t w = wild_tail T W t w"
proof -
  assume r: "wild_tail T W t w \<noteq> Some Overrun"
  show ?thesis
  proof (cases "T ! t = 0")
    case True
    then have t: "t < length T" and w: "skip_stars (drop w W) w < length W"
      using r by (auto simp: wild_tail_def Let_def split: if_splits)
    then have "w < length W" using skip_stars_ge [of w "drop w W"] by simp
    then show ?thesis using t w True skip_stars_drop [of w W ys] by (simp add: wild_tail_def Let_def nth_append del: drop_append)
  next
    case False
    then show ?thesis using r by (auto simp: wild_tail_def Let_def nth_append split: if_splits)
  qed
qed

definition mark_inside :: "byte_seq \<Rightarrow> (nat \<times> nat) option \<Rightarrow> bool" where
  "mark_inside W bk \<longleftrightarrow> (case bk of None \<Rightarrow> True | Some (tb, wb) \<Rightarrow> wb < length W)"

text \<open>One round of the loop, with \<open>loop\<close> for the rest, in the two cases of its pattern character.\<close>

definition star_round :: "(byte_seq \<Rightarrow> byte_seq \<Rightarrow> nat \<Rightarrow> nat \<Rightarrow> (nat \<times> nat) option \<Rightarrow> wild_result option) \<Rightarrow>
    byte_seq \<Rightarrow> byte_seq \<Rightarrow> nat \<Rightarrow> nat \<Rightarrow> wild_result option" where
  "star_round loop T W t w =
     (let w = skip_stars (drop w W) w
      in if length W \<le> w then Some Overrun
         else if W ! w = 0 then Some Match
         else case (if W ! w \<noteq> QMARK then fast_forward (W ! w) (drop t T) t else Inl t) of
                Inr r \<Rightarrow> Some r
              | Inl t \<Rightarrow> (case wild_tail T W (t + 1) (w + 1) of
                            Some r \<Rightarrow> Some r
                          | None \<Rightarrow> loop T W (t + 1) (w + 1) (Some (t, w))))"

definition plain_round :: "(byte_seq \<Rightarrow> byte_seq \<Rightarrow> nat \<Rightarrow> nat \<Rightarrow> (nat \<times> nat) option \<Rightarrow> wild_result option) \<Rightarrow>
    byte_seq \<Rightarrow> byte_seq \<Rightarrow> nat \<Rightarrow> nat \<Rightarrow> (nat \<times> nat) option \<Rightarrow> wild_result option" where
  "plain_round loop T W t w bk =
     (if length T \<le> t then Some Overrun
      else if T ! t \<noteq> W ! w \<and> W ! w \<noteq> QMARK
      then case bk of
             None \<Rightarrow> Some No_Match
           | Some (tb, wb) \<Rightarrow>
               if w \<noteq> wb \<and> T ! t \<noteq> W ! wb then loop T W (tb + 1) wb (Some (tb + 1, wb))
               else let w = (if w \<noteq> wb then wb + 1 else w)
                    in if T ! t \<noteq> 0 then loop T W (t + 1) w bk else Some No_Match
      else case wild_tail T W (t + 1) (w + 1) of
             Some r \<Rightarrow> Some r
           | None \<Rightarrow> loop T W (t + 1) (w + 1) bk)"

lemma wild_loop_round:
  "wild_loop T W t w bk =
     (if length W \<le> w then Some Overrun else if W ! w = STAR then star_round wild_loop T W t w else plain_round wild_loop T W t w bk)"
  by (subst wild_loop.simps) (simp only: star_round_def plain_round_def)

lemma tail_longer:
  assumes IH: "\<And>T W t w bk r. loop T W t w bk = Some r \<Longrightarrow> r \<noteq> Overrun \<Longrightarrow> mark_inside W bk \<Longrightarrow> wild_loop (T @ xs) (W @ ys) t w bk = Some r"
    and run: "(case wild_tail T W t w of Some r \<Rightarrow> Some r | None \<Rightarrow> loop T W t w bk) = Some r" "r \<noteq> Overrun" "mark_inside W bk"
  shows "(case wild_tail (T @ xs) (W @ ys) t w of Some r \<Rightarrow> Some r | None \<Rightarrow> wild_loop (T @ xs) (W @ ys) t w bk) = Some r"
proof -
  have "wild_tail T W t w \<noteq> Some Overrun" using run by auto
  from wild_tail_longer [OF this, of xs ys] show ?thesis using run IH [of T W t w bk r] by (auto split: option.splits)
qed

lemma star_round_longer:
  assumes IH: "\<And>T W t w bk r. loop T W t w bk = Some r \<Longrightarrow> r \<noteq> Overrun \<Longrightarrow> mark_inside W bk \<Longrightarrow> wild_loop (T @ xs) (W @ ys) t w bk = Some r"
    and run: "star_round loop T W t w = Some r" "r \<noteq> Overrun" and w: "w < length W"
  shows "star_round wild_loop (T @ xs) (W @ ys) t w = Some r"
proof -
  define w' where "w' = skip_stars (drop w W) w"
  have w': "w' < length W" using run unfolding w'_def by (auto simp: star_round_def Let_def split: if_splits)
  have sk: "skip_stars (drop w (W @ ys)) w = w'" using skip_stars_drop [OF w] w' by (simp add: w'_def)
  define ff where "ff = (if W ! w' \<noteq> QMARK then fast_forward (W ! w') (drop t T) t else Inl t)"
  show ?thesis
  proof (cases "W ! w' = 0")
    case True
    then show ?thesis using run w' sk by (simp add: star_round_def w'_def [symmetric] nth_append Let_def del: drop_append)
  next
    case False
    have run': "(case ff of Inr r \<Rightarrow> Some r | Inl t \<Rightarrow> (case wild_tail T W (t + 1) (w' + 1) of
        Some r \<Rightarrow> Some r | None \<Rightarrow> loop T W (t + 1) (w' + 1) (Some (t, w')))) = Some r"
      using run w' False by (simp add: star_round_def w'_def [symmetric] ff_def [symmetric] Let_def)
    then have "ff \<noteq> Inr Overrun" using run(2) by auto
    then have "(if W ! w' \<noteq> QMARK then fast_forward (W ! w') (drop t (T @ xs)) t else Inl t) = ff"
      using fast_forward_longer [of "W ! w'" "drop t T" t "drop (t - length T) xs"] by (auto simp: ff_def)
    then have "star_round wild_loop (T @ xs) (W @ ys) t w = (case ff of Inr r \<Rightarrow> Some r | Inl t \<Rightarrow> (case wild_tail (T @ xs) (W @ ys) (t + 1) (w' + 1) of
        Some r \<Rightarrow> Some r | None \<Rightarrow> wild_loop (T @ xs) (W @ ys) (t + 1) (w' + 1) (Some (t, w'))))"
      using w' False sk by (auto simp: star_round_def nth_append Let_def simp del: drop_append)
    moreover have "mark_inside W (Some (t', w'))" for t' using w' by (simp add: mark_inside_def)
    note tail_longer [where loop = loop, OF IH _ run(2) this, of T "t' + 1" "w' + 1" t' for t']
    ultimately show ?thesis using run' by (cases ff) simp_all
  qed
qed

lemma plain_round_longer:
  assumes IH: "\<And>T W t w bk r. loop T W t w bk = Some r \<Longrightarrow> r \<noteq> Overrun \<Longrightarrow> mark_inside W bk \<Longrightarrow> wild_loop (T @ xs) (W @ ys) t w bk = Some r"
    and run: "plain_round loop T W t w bk = Some r" "r \<noteq> Overrun" and w: "w < length W" and bk: "mark_inside W bk"
  shows "plain_round wild_loop (T @ xs) (W @ ys) t w bk = Some r"
proof -
  have t: "t < length T" using run by (auto simp: plain_round_def split: if_splits)
  show ?thesis
  proof (cases "T ! t \<noteq> W ! w \<and> W ! w \<noteq> QMARK")
    case False
    then show ?thesis using run(1) w t tail_longer [where loop = loop, OF IH _ run(2) bk, of T "t + 1" "w + 1"] by (auto simp: plain_round_def nth_append)
  next
    case True
    show ?thesis
    proof (cases bk)
      case None
      then show ?thesis using run w t True by (simp add: plain_round_def nth_append)
    next
      case (Some b)
      obtain tb wb where b: "b = (tb, wb)" by (cases b)
      have wb: "wb < length W" using bk Some b by (simp add: mark_inside_def)
      have m: "mark_inside W (Some (tb + 1, wb))" using wb by (simp add: mark_inside_def)
      show ?thesis using run w t True wb m bk Some b IH unfolding plain_round_def Let_def
        by (auto simp: nth_append split: if_splits)
    qed
  qed
qed

lemma wild_loop_longer:
  assumes "wild_loop T W t w bk = Some r" "r \<noteq> Overrun" "mark_inside W bk"
  shows "wild_loop (T @ xs) (W @ ys) t w bk = Some r"
proof -
  have "r \<noteq> Overrun \<longrightarrow> mark_inside W bk \<longrightarrow> wild_loop (T @ xs) (W @ ys) t w bk = Some r"
  proof (rule wild_loop.raw_induct [OF _ assms(1)], fold star_round_def plain_round_def, intro impI)
    fix loop T W t w bk r
    assume IH: "\<And>T W t w bk r. loop T W t w bk = Some r \<Longrightarrow> r \<noteq> Overrun \<longrightarrow> mark_inside W bk \<longrightarrow> wild_loop (T @ xs) (W @ ys) t w bk = Some r"
      and run: "(if length W \<le> w then Some Overrun else if W ! w = STAR then star_round loop T W t w else plain_round loop T W t w bk) = Some r"
      and r: "r \<noteq> Overrun" and bk: "mark_inside W bk"
    have w: "w < length W" using run r by (auto split: if_splits)
    have step: "loop T W t w bk = Some r \<Longrightarrow> r \<noteq> Overrun \<Longrightarrow> mark_inside W bk \<Longrightarrow> wild_loop (T @ xs) (W @ ys) t w bk = Some r" for T W t w bk r
      using IH by blast
    show "wild_loop (T @ xs) (W @ ys) t w bk = Some r"
      using run r w star_round_longer [OF step _ r w] plain_round_longer [OF step _ r w bk]
      by (subst wild_loop_round) (auto simp: nth_append split: if_splits)
  qed
  then show ?thesis using assms(2,3) by blast
qed

text \<open>C16. Wildcard matching of any string with any pattern stops or reads behind the end of one of them.  As long as it
  does not, the answer does not depend on what lies behind the terminators, and when it is a match the pattern
  describes the string, where a question mark stands for one character and a star for any number.
  For a pattern without stars and a non-empty string nothing behind the terminators is read and the answer is exact.\<close>

theorem wildcard_sound:
  assumes "0 \<notin> set t" "0 \<notin> set p"
  shows "(\<exists>r. ina_str_wildcard_match (t @ [0]) (p @ [0]) = Some r \<and>
      (r \<noteq> Overrun \<longrightarrow> ina_str_wildcard_match (t @ 0 # xs) (p @ 0 # ys) = Some r \<and> (r = Match \<longrightarrow> wild_match p t))) \<and>
    (STAR \<notin> set p \<longrightarrow> t \<noteq> [] \<longrightarrow>
      ina_str_wildcard_match (t @ 0 # xs) (p @ 0 # ys) = Some (if wild_match p t then Match else No_Match))"
proof -
  have longer: "ina_str_wildcard_match (t @ 0 # xs) (p @ 0 # ys) = Some r"
    if "ina_str_wildcard_match (t @ [0]) (p @ [0]) = Some r" "r \<noteq> Overrun" for r
    using wild_loop_longer [of "t @ [0]" "p @ [0]" 0 0 None r xs ys] that by (simp add: ina_str_wildcard_match_def mark_inside_def)
  have "\<exists>r. ina_str_wildcard_match (t @ [0]) (p @ [0]) = Some r \<and> (r = Match \<longrightarrow> wild_match p t)"
    using wild_loop_good [OF assms, of 0 0 None] by (auto simp: ina_str_wildcard_match_def wild_inv_def wild_good_def)
  moreover have "ina_str_wildcard_match (t @ [0]) (p @ [0]) = Some (if wild_match p t then Match else No_Match)" if "STAR \<notin> set p" "t \<noteq> []"
    using wild_loop_plain [OF assms, of 0 0] that by (auto simp: ina_str_wildcard_match_def)
  moreover have "(if b then Match else No_Match) \<noteq> Overrun" for b by simp
  ultimately show ?thesis using longer by blast
qed

theorem wildcard_sound_witness: "ina_str_wildcard_match ([97, 98] @ 0 # [99]) ([97, 63] @ 0 # [42]) = Some Match"
  using wildcard_sound [of "[97, 98]" "[97, 63]" "[99]" "[42]"] by simp

text \<open>With a star the matcher can reject a match and overrun.  For every ordinary character \<open>c\<close>, the
  string \<open>ccccc\<close> is rejected by the pattern \<open>*ccc\<close>, which describes it; matching \<open>cc\<close> with \<open>*c\<close> reads behind the
  terminators; and so does matching the empty string with the empty pattern.\<close>

theorem wildcard_misses:
  assumes "c \<noteq> 0" "c \<noteq> STAR" "c \<noteq> QMARK"
  shows "ina_str_wildcard_match [c, c, c, c, c, 0] [STAR, c, c, c, 0] = Some No_Match \<and>
    wild_match [STAR, c, c, c] [c, c, c, c, c] \<and>
    ina_str_wildcard_match [c, c, 0] [STAR, c, 0] = Some Overrun \<and>
    ina_str_wildcard_match [0] [0] = Some Overrun"
proof -
  have "wild_match [c, c, c] (drop 2 [c, c, c, c, c])" using assms by simp
  then have "wild_match [STAR, c, c, c] [c, c, c, c, c]" by (simp only: wild_match.simps) (auto intro: exI [of _ 2])
  then show ?thesis using assms by (simp add: ina_str_wildcard_match_def wild_loop.simps wild_tail_def Let_def del: wild_match.simps)
qed

theorem wildcard_misses_witness:
  "ina_str_wildcard_match [97, 97, 97, 97, 97, 0] [STAR, 97, 97, 97, 0] = Some No_Match \<and>
    wild_match [STAR, 97, 97, 97] [97, 97, 97, 97, 97] \<and>
    ina_str_wildcard_match [97, 97, 0] [STAR, 97, 0] = Some Overrun \<and>
    ina_str_wildcard_match [0] [0] = Some Overrun"
  by (rule wildcard_misses) simp_all

section \<open>Tokenizing: one call\<close>

lemma tok_bit_eq: "bit (tok_bit c) n \<longleftrightarrow> n = unat c mod 32" "(w :: u64) AND tok_bit c \<noteq> 0 \<longleftrightarrow> bit w (unat c mod 32)"
proof -
  have "(31 :: u8) = mask 5" by (simp add: mask_eq_exp_minus_1)
  then have "c AND 31 = take_bit 5 c" by (simp only: take_bit_eq_mask)
  then have low: "unat (c AND 31) = unat c mod 32" by (simp add: unsigned_take_bit_eq take_bit_eq_mod unat_mod)
  show b: "bit (tok_bit c) n \<longleftrightarrow> n = unat c mod 32" for n by (auto simp: tok_bit_def low bit_simps)
  have "bit (w AND tok_bit c) n \<longleftrightarrow> bit w n \<and> n = unat c mod 32" for n by (simp add: bit_and_iff b)
  then show "w AND tok_bit c \<noteq> 0 \<longleftrightarrow> bit w (unat c mod 32)" by (metis bit_0_eq bit_word_eqI bot_apply bot_bool_def)
qed

lemma tok_slot_eq: "tok_slot c = unat c div 32"
proof -
  have m: "(31 :: u8) = mask 5" by (simp add: mask_eq_exp_minus_1)
  have "drop_bit 5 (c AND NOT 31) = drop_bit 5 c" unfolding m
    by (rule bit_word_eqI) (auto simp: bit_simps dest: bit_imp_le_length)
  then show ?thesis unfolding tok_slot_def using unsigned_less [of c, where 'a = nat]
    by (simp only: unsigned_drop_bit_eq) (simp add: drop_bit_eq_div take_bit_nat_eq_self)
qed

lemma tok_slot_signed_eq: "unat c < 128 \<Longrightarrow> tok_slot_signed c = int (unat c div 32)"
proof -
  assume "unat c < 128"
  then have "int (unat c) < int 128" by (simp only: of_nat_less_iff)
  then have "uint c < 2 ^ 7" by simp
  then have "signed_take_bit 7 (uint c) = uint c" using uint_ge_0 [of c] by (intro signed_take_bit_int_eq_self) linarith+
  then have s: "sint c = uint c" by (simp add: sint_uint)
  have m: "(31 :: int) = mask 5" by (simp add: mask_eq_exp_minus_1)
  have "drop_bit 5 (x AND NOT 31) = drop_bit 5 x" for x :: int unfolding m by (rule bit_eqI) (auto simp: bit_simps)
  then show ?thesis unfolding tok_slot_signed_def s by (simp only:) (simp add: drop_bit_eq_div zdiv_int)
qed

lemma tokmap_has_bit:
  "unat c < 128 \<Longrightarrow> length tm = 8 \<Longrightarrow> tokmap_has tm c = Some (bit (tm ! (unat c div 32)) (unat c mod 32))"
  by (auto simp: tokmap_has_def tok_slot_signed_eq tok_bit_eq Let_def)

lemma tokmap_add_bit:
  assumes "length tm = 8"
  shows "length (tokmap_add tm d) = 8"
    "bit (tokmap_add tm d ! (unat c div 32)) (unat c mod 32) \<longleftrightarrow> bit (tm ! (unat c div 32)) (unat c mod 32) \<or> c = d"
proof -
  have "unat d div 32 < 8" "unat c div 32 < 8" using unsigned_less [of d, where 'a = nat] unsigned_less [of c, where 'a = nat] by simp_all
  moreover have "c = d \<longleftrightarrow> unat c div 32 = unat d div 32 \<and> unat c mod 32 = unat d mod 32" by (metis div_mult_mod_eq word_unat_eq_iff)
  ultimately show "length (tokmap_add tm d) = 8"
    "bit (tokmap_add tm d ! (unat c div 32)) (unat c mod 32) \<longleftrightarrow> bit (tm ! (unat c div 32)) (unat c mod 32) \<or> c = d"
    using assms by (auto simp: tokmap_add_def tok_slot_eq nth_list_update bit_or_iff tok_bit_eq)
qed

lemma tokmap_fold:
  "length tm = 8 \<Longrightarrow> length (foldl tokmap_add tm seps) = 8 \<and>
     (bit (foldl tokmap_add tm seps ! (unat c div 32)) (unat c mod 32) \<longleftrightarrow> bit (tm ! (unat c div 32)) (unat c mod 32) \<or> c \<in> set seps)"
  by (induction seps arbitrary: tm) (auto simp: tokmap_add_bit)

abbreviation ascii :: "u8 \<Rightarrow> bool" where "ascii c \<equiv> unat c < 128"
abbreviation sep_map :: "byte_seq \<Rightarrow> u64 list" where "sep_map sep \<equiv> foldl tokmap_add (replicate 8 0) sep"

lemma sep_map_has: "ascii c \<Longrightarrow> tokmap_has (sep_map sep) c = Some (c \<in> set sep)"
  using tokmap_fold [of "replicate 8 0" sep c] by (simp add: tokmap_has_bit)

lemma sep_map_end:
  assumes "ascii c"
  shows "tokmap_has ((sep_map sep)[0 := sep_map sep ! 0 OR 1]) c = Some (c \<in> set sep \<or> c = 0)"
proof -
  have "(sep_map sep)[0 := sep_map sep ! 0 OR 1] = tokmap_add (sep_map sep) 0" by (simp add: tokmap_add_def tok_slot_def tok_bit_def)
  then show ?thesis using tokmap_fold [of "replicate 8 0" sep c] assms by (simp add: tokmap_has_bit tokmap_add_bit)
qed

lemma tok_skip_eq:
  assumes "\<forall>x \<in> set lead. ascii x \<and> x \<in> set sep" "ascii c" "c \<notin> set sep"
  shows "tok_skip (sep_map sep) (a @ lead @ c # rest) (length a) = Some (length a + length lead)"
  using assms(1)
proof (induction lead arbitrary: a)
  case Nil
  then show ?case using assms by (subst tok_skip.simps) (simp add: sep_map_has)
next
  case (Cons x lead)
  then show ?case using Cons.IH [of "a @ [x]"] by (subst tok_skip.simps) (simp add: sep_map_has)
qed

lemma tok_scan_eq:
  assumes "\<forall>x \<in> set tk. ascii x \<and> x \<notin> set sep \<and> x \<noteq> 0" "ascii c" "c \<in> set sep \<or> c = 0"
  shows "tok_scan ((sep_map sep)[0 := sep_map sep ! 0 OR 1]) (a @ x # tk @ c # rest) (length a) = Some (length a + 1 + length tk)"
  using assms(1)
proof (induction tk arbitrary: a x)
  case Nil
  then show ?case using assms by (subst tok_scan.simps) (simp add: sep_map_end nth_append)
next
  case (Cons y tk)
  then show ?case using Cons.IH [of "a @ [x]" y] by (subst tok_scan.simps) (simp add: sep_map_end nth_append)
qed

text \<open>One call of the tokenizer on ASCII text: the separators in front are skipped, the token is
  returned, the byte behind it is overwritten with a terminator and the cursor is set one further.
  When that byte was the terminator of the string, the cursor is outside of it, and the next
  call reads behind the string.\<close>

theorem tok_step:
  assumes "0 \<notin> set sep" "sep \<noteq> []" "\<forall>x \<in> set lead. ascii x \<and> x \<in> set sep"
    "tk \<noteq> []" "\<forall>x \<in> set tk. ascii x \<and> x \<notin> set sep \<and> x \<noteq> 0" "ascii c" "c \<in> set sep \<or> c = 0"
  shows "ina_str_tok (a @ lead @ tk @ c # rest) (Some (length a)) (Some (sep @ [0])) nxt =
      Some (Some (length a + length lead), a @ lead @ tk @ 0 # rest, Some (length (a @ lead @ tk) + 1)) \<and>
    ina_str_tok (a @ lead @ tk @ [0]) None (Some (sep @ [0])) (Some (length (a @ lead @ tk) + 1)) = None"
proof -
  obtain y ys where tk: "tk = y # ys" using assms(4) by (cases tk) auto
  let ?m = "a @ lead @ tk @ c # rest"
  have skip: "tok_skip (sep_map sep) ?m (length a) = Some (length a + length lead)"
    unfolding tk using assms(3,5) tk by (simp add: tok_skip_eq)
  have scan: "tok_scan ((sep_map sep)[0 := sep_map sep ! 0 OR 1]) ?m (length a + length lead) = Some (length (a @ lead @ tk))"
    unfolding tk using tok_scan_eq [of ys sep c "a @ lead" y rest] assms(5-7) tk by simp
  have y: "?m ! (length a + length lead) \<noteq> 0" using assms(5) tk by (simp add: nth_append)
  have upd: "?m[length (a @ lead @ tk) := 0] = a @ lead @ tk @ 0 # rest"
    using list_update_length [of "a @ lead @ tk" c rest 0] by simp
  have "ina_str_tok ?m (Some (length a)) (Some (sep @ [0])) nxt =
      Some (Some (length a + length lead), a @ lead @ tk @ 0 # rest, Some (length (a @ lead @ tk) + 1))"
    using assms(1,2) y unfolding ina_str_tok_def Let_def by (simp add: skip scan upd [simplified])
  moreover have "tok_skip (sep_map sep) (a @ lead @ tk @ [0]) (length (a @ lead @ tk) + 1) = None"
    by (subst tok_skip.simps) simp
  ultimately show ?thesis using assms(1,2) by (simp add: ina_str_tok_def Let_def)
qed

theorem tok_step_witness:
  "ina_str_tok ([] @ [32] @ [97, 98] @ 32 # [99, 0]) (Some (length ([] :: byte_seq))) (Some ([32] @ [0])) None =
      Some (Some (length ([] :: byte_seq) + length [32 :: u8]), [] @ [32] @ [97, 98] @ 0 # [99, 0],
        Some (length ([] @ [32 :: u8] @ [97, 98]) + 1)) \<and>
    ina_str_tok ([] @ [32] @ [97, 98] @ [0]) None (Some ([32] @ [0])) (Some (length ([] @ [32 :: u8] @ [97, 98]) + 1)) = None"
  by (rule tok_step) simp_all

end
