(* ===== verification/Inac_Str_Pool.thy ===== *)
theory Inac_Str_Pool
  imports Inac_Str_Scan
begin

text \<open>
  Strings allocated from a memory pool, the \<open>_using_pool\<close> functions of \<open>src/string.c\<close>.  Such a string is
  a place in the pool of theory \<open>Inac_Mempool\<close>: eight bytes of header, then the data, all read and
  written in the bytes of the pool's chunk.  Shown: what the constructor that copies a block leaves
  in the pool, and that it writes no terminator.
\<close>

section \<open>Bytes of a pool\<close>

definition patch :: "byte_seq \<Rightarrow> nat \<Rightarrow> byte_seq \<Rightarrow> byte_seq" where
  "patch m i bs = take i m @ bs @ drop (i + length bs) m"

definition write_block :: "mempool \<Rightarrow> pool_ptr \<Rightarrow> byte_seq \<Rightarrow> mempool option" where
  "write_block pool p bs =
     (case List.find (\<lambda>k. k_id k = fst p) (p_chunks pool) of
        None \<Rightarrow> None
      | Some k \<Rightarrow>
          if unat (snd p) + length bs \<le> length (k_m k)
          then Some (pool\<lparr>p_chunks := map (\<lambda>k. if k_id k = fst p then k\<lparr>k_m := patch (k_m k) (unat (snd p)) bs\<rparr> else k) (p_chunks pool)\<rparr>)
          else None)"

abbreviation ptr_at :: "pool_ptr \<Rightarrow> u64 \<Rightarrow> pool_ptr" where "ptr_at p n \<equiv> (fst p, snd p + n)"

text \<open>The fields of the header at \<open>p\<close>; the data starts eight bytes behind it.\<close>

definition get_size :: "mempool \<Rightarrow> pool_ptr \<Rightarrow> u32 option" where
  "get_size pool p = map_option le_word (read_block pool p 4)"

definition get_len :: "mempool \<Rightarrow> pool_ptr \<Rightarrow> u32 option" where
  "get_len pool p = map_option le_word (read_block pool (ptr_at p 4) 4)"

definition set_size :: "mempool \<Rightarrow> pool_ptr \<Rightarrow> u32 \<Rightarrow> mempool option" where
  "set_size pool p v = write_block pool p (le_bytes 4 v)"

definition set_len :: "mempool \<Rightarrow> pool_ptr \<Rightarrow> u32 \<Rightarrow> mempool option" where
  "set_len pool p v = write_block pool (ptr_at p 4) (le_bytes 4 v)"

section \<open>Operations\<close>

text \<open>Results carry the header's place and the pool; \<open>Inl\<close> is the null pointer with the error that was set.
  A null pointer for the pool is \<open>None\<close>.\<close>

type_synonym pool_res = "(pool_ptr ina_res \<times> mempool option) option"

definition ina_str_new_using_pool :: "mem_env \<Rightarrow> u64 \<Rightarrow> mempool option \<Rightarrow> pool_res" where
  "ina_str_new_using_pool env len pool =
     (case pool of
        None \<Rightarrow> Some (Inl INA_ERR_INVALID_ARGUMENT, None)
      | Some pool \<Rightarrow> do {
          (r, pool) \<leftarrow> ina_mempool_dalloc env pool (len + 1 + 8);
          case r of
            Inl e \<Rightarrow> Some (Inl e, Some pool)
          | Inr p \<Rightarrow> do {
              pool \<leftarrow> set_size pool p (ucast (ucast INA_POOLED OR (len + 1)));
              pool \<leftarrow> set_len pool p 0;
              pool \<leftarrow> write_block pool (ptr_at p 8) [0];
              Some (Inr p, Some pool) } })"

text \<open>The common part of the constructors: the copy and the length, but no terminator.\<close>

definition pool_fill :: "pool_res \<Rightarrow> byte_seq \<Rightarrow> u64 \<Rightarrow> pool_res" where
  "pool_fill s blk len =
     do { (r, pool) \<leftarrow> s;
          case (r, pool) of
            (Inr p, Some pool) \<Rightarrow> do {
              bs \<leftarrow> mem_read blk 0 (unat len);
              pool \<leftarrow> write_block pool (ptr_at p 8) bs;
              pool \<leftarrow> set_len pool p (ucast len);
              Some (Inr p, Some pool) }
          | _ \<Rightarrow> Some (r, pool) }"

definition ina_str_new_fromblk_using_pool :: "mem_env \<Rightarrow> byte_seq option \<Rightarrow> u64 \<Rightarrow> mempool option \<Rightarrow> pool_res" where
  "ina_str_new_fromblk_using_pool env blk len pool =
     (case (blk, pool) of
        (Some blk, Some _) \<Rightarrow> pool_fill (ina_str_new_using_pool env len pool) blk len
      | _ \<Rightarrow> Some (Inl INA_ERR_INVALID_ARGUMENT, pool))"

definition ina_str_new_fromcstr_using_pool :: "mem_env \<Rightarrow> byte_seq option \<Rightarrow> mempool option \<Rightarrow> pool_res" where
  "ina_str_new_fromcstr_using_pool env cstr pool =
     do { len \<leftarrow> (case cstr of None \<Rightarrow> Some 0 | Some m \<Rightarrow> c_strlen m);
          pool_fill (ina_str_new_using_pool env (of_nat len) pool) (case cstr of None \<Rightarrow> [] | Some m \<Rightarrow> m) (of_nat len) }"

text \<open>For a null string no pool string is made (outer \<open>Some None\<close>).\<close>

definition ina_str_dup_using_pool ::
  "mem_env \<Rightarrow> ina_str option \<Rightarrow> mempool option \<Rightarrow> (pool_ptr ina_res \<times> mempool option) option option" where
  "ina_str_dup_using_pool env str pool =
     (case str of
        None \<Rightarrow> Some None
      | Some s \<Rightarrow> map_option Some (ina_str_new_fromcstr_using_pool env (Some (s_data s)) pool))"

text \<open>Growing.  The new size is written before the block is moved; a failed move is dereferenced.\<close>

definition ina_ensure_size_pool :: "mem_env \<Rightarrow> mempool \<Rightarrow> pool_ptr \<Rightarrow> u64 \<Rightarrow> (pool_ptr \<times> mempool) option" where
  "ina_ensure_size_pool env pool p len =
     do { size \<leftarrow> get_size pool p;
          l \<leftarrow> get_len pool p;
          if size AND INA_POOLED = 0 then None
          else let old_size = ucast (size AND NOT INA_POOLED) :: u64
               in if old_size - ucast l - 1 > len then Some (p, pool)
                  else let newlen = ucast l + len;
                           newlen = (if newlen < INA_MAX_PREALLOC then newlen * 2 else newlen + INA_MAX_PREALLOC);
                           new_size = ucast (newlen + 1) :: u32
                       in do {
                         pool \<leftarrow> set_size pool p new_size;
                         (r, pool) \<leftarrow> ina_mempool_ralloc env pool p (8 + old_size) (8 + ucast new_size);
                         case r of
                           Inl e \<Rightarrow> None
                         | Inr p \<Rightarrow> do {
                             s \<leftarrow> get_size pool p;
                             pool \<leftarrow> set_size pool p (s OR INA_POOLED);
                             Some (p, pool) } } }"

definition pool_append :: "mem_env \<Rightarrow> pool_ptr \<Rightarrow> byte_seq \<Rightarrow> u64 \<Rightarrow> mempool \<Rightarrow> (pool_ptr \<times> mempool) option" where
  "pool_append env dest src n pool =
     do { (p, pool) \<leftarrow> ina_ensure_size_pool env pool dest n;
          l \<leftarrow> get_len pool p;
          bs \<leftarrow> mem_read src 0 (unat n);
          pool \<leftarrow> write_block pool (ptr_at p (8 + ucast l)) bs;
          let len = ucast (ucast l + n) :: u32
          in do {
            pool \<leftarrow> set_len pool p len;
            pool \<leftarrow> write_block pool (ptr_at p (8 + ucast len)) [0];
            Some (p, pool) } }"

definition ina_str_ncat_using_pool ::
  "mem_env \<Rightarrow> pool_ptr option \<Rightarrow> byte_seq option \<Rightarrow> u64 \<Rightarrow> mempool \<Rightarrow> (pool_ptr \<times> mempool) option" where
  "ina_str_ncat_using_pool env dest src n pool =
     do { d \<leftarrow> dest;
          case src of None \<Rightarrow> Some (d, pool) | Some src \<Rightarrow> pool_append env d src n pool }"

text \<open>Here the assertion asks for a source of at least \<open>n\<close> characters, where the function without a
  pool asks for at most \<open>n\<close>.\<close>

definition ina_str_ncatcstr_using_pool ::
  "mem_env \<Rightarrow> pool_ptr option \<Rightarrow> byte_seq option \<Rightarrow> u64 \<Rightarrow> mempool \<Rightarrow> (pool_ptr \<times> mempool) option" where
  "ina_str_ncatcstr_using_pool env dest src n pool =
     do { d \<leftarrow> dest;
          src \<leftarrow> src;
          l \<leftarrow> c_strlen src;
          if (of_nat l :: u64) \<ge> n then pool_append env d src n pool else None }"

definition ina_str_cat_using_pool ::
  "mem_env \<Rightarrow> pool_ptr option \<Rightarrow> ina_str option \<Rightarrow> mempool \<Rightarrow> (pool_ptr \<times> mempool) option" where
  "ina_str_cat_using_pool env dest src pool =
     ina_str_ncat_using_pool env dest (map_option s_data src) (ina_str_len src) pool"

definition ina_str_catcstr_using_pool ::
  "mem_env \<Rightarrow> pool_ptr option \<Rightarrow> byte_seq option \<Rightarrow> mempool \<Rightarrow> (pool_ptr \<times> mempool) option" where
  "ina_str_catcstr_using_pool env dest src pool =
     do { m \<leftarrow> src; l \<leftarrow> c_strlen m; ina_str_ncatcstr_using_pool env dest (Some m) (of_nat l) pool }"

definition ina_str_substr_using_pool :: "mem_env \<Rightarrow> ina_str option \<Rightarrow> u64 \<Rightarrow> u64 \<Rightarrow> mempool option \<Rightarrow> pool_res" where
  "ina_str_substr_using_pool env str start e pool =
     do { s \<leftarrow> str;
          ina_str_new_fromblk_using_pool env (Some (drop (unat start) (s_data s)))
            (ina_str_substr_internal start e (ina_str_len str)) pool }"

section \<open>What a constructor leaves in the pool\<close>

text \<open>A pool with one chunk \<open>k\<close> and a free block of \<open>n + 9\<close> bytes at its lower end.\<close>

lemma write_one:
  "unat (snd p) + length bs \<le> length (k_m k) \<Longrightarrow> fst p = k_id k \<Longrightarrow> p_chunks pool = [k] \<Longrightarrow>
     write_block pool p bs = Some (pool\<lparr>p_chunks := [k\<lparr>k_m := patch (k_m k) (unat (snd p)) bs\<rparr>]\<rparr>)"
  by (simp add: write_block_def)

lemma length_patch [simp]: "i + length bs \<le> length m \<Longrightarrow> length (patch m i bs) = length m"
  by (simp add: patch_def)

lemma nth_patch: "i + length bs \<le> length m \<Longrightarrow> n < length m \<Longrightarrow>
  patch m i bs ! n = (if i \<le> n \<and> n < i + length bs then bs ! (n - i) else m ! n)"
  by (auto simp: patch_def nth_append min_def)

lemma dalloc_one:
  assumes "p_chunks pool = [k]" "p_cur pool = 0" "0 < p_alignment pool" "fits k (INA_MEM_ALIGN_N n (p_alignment pool))"
  shows "ina_mempool_dalloc env pool n =
    Some (Inr (k_id k, k_pos k), pool\<lparr>p_chunks := [k\<lparr>k_pos := k_pos k + INA_MEM_ALIGN_N n (p_alignment pool)\<rparr>], p_cur := 0\<rparr>)"
  using assms by (simp add: ina_mempool_dalloc_def ina_mempool_get_alignment_def ina_mempool_dalloc_aligned_def take_low_def Let_def)

lemma small_plus: "unat x + m < 2 ^ 64 \<Longrightarrow> unat (x + of_nat m :: u64) = unat x + m"
proof -
  assume a: "unat x + m < 2 ^ 64"
  then have "unat (of_nat m :: u64) = m" by (intro unat_of_nat_small) simp
  then show ?thesis using a by (subst unat_add_lem [THEN iffD1]) auto
qed

text \<open>The bytes that the constructor writes into a chunk, in the order of the writes.\<close>

definition str_bytes :: "byte_seq \<Rightarrow> nat \<Rightarrow> u32 \<Rightarrow> byte_seq \<Rightarrow> u32 \<Rightarrow> byte_seq" where
  "str_bytes m pos sz b len =
     patch (patch (patch (patch (patch m pos (le_bytes 4 sz)) (pos + 4) (le_bytes 4 (0 :: u32))) (pos + 8) [0])
       (pos + 8) b) (pos + 4) (le_bytes 4 len)"

lemma str_bytes_read:
  assumes "pos + length b + 9 \<le> length m" "b \<noteq> []"
  shows "length (str_bytes m pos sz b len) = length m"
    "take (length b) (drop (pos + 8) (str_bytes m pos sz b len)) = b"
    "take 4 (drop (pos + 4) (str_bytes m pos sz b len)) = le_bytes 4 len"
    "take 1 (drop (pos + 8 + length b) (str_bytes m pos sz b len)) = take 1 (drop (pos + 8 + length b) m)"
proof -
  have b: "0 < length b" using assms(2) by simp
  show l: "length (str_bytes m pos sz b len) = length m" using assms by (simp add: str_bytes_def)
  note nth = str_bytes_def nth_patch
  show "take (length b) (drop (pos + 8) (str_bytes m pos sz b len)) = b"
    by (rule nth_equalityI) (use assms l in \<open>auto simp: nth\<close>)
  show "take 4 (drop (pos + 4) (str_bytes m pos sz b len)) = le_bytes 4 len"
    by (rule nth_equalityI) (use assms l in \<open>auto simp: nth\<close>)
  show "take 1 (drop (pos + 8 + length b) (str_bytes m pos sz b len)) = take 1 (drop (pos + 8 + length b) m)"
    by (rule nth_equalityI) (use assms b l in \<open>auto simp: nth\<close>)
qed

abbreviation with_bytes :: "mempool \<Rightarrow> chunk \<Rightarrow> byte_seq \<Rightarrow> mempool" where
  "with_bytes pool k m \<equiv> pool\<lparr>p_chunks := [k\<lparr>k_m := m\<rparr>]\<rparr>"

lemma write_with:
  "unat (snd p) + length bs \<le> length m \<Longrightarrow> fst p = k_id k \<Longrightarrow>
     write_block (with_bytes pool k m) p bs = Some (with_bytes pool k (patch m (unat (snd p)) bs))"
  by (simp add: write_block_def)

lemma read_with:
  "read_block (with_bytes pool k m) (k_id k, q) n = (if unat q + n \<le> length m then Some (take n (drop (unat q) m)) else None)"
  by (simp add: read_block_def)

lemma fromblk_one:
  assumes alloc: "ina_mempool_dalloc env pool (len + 1 + 8) = Some (Inr (k_id k, q), with_bytes pool' k m)"
    and room: "unat q + unat len + 9 \<le> length m" "length m < 2 ^ 64" and blk: "unat len \<le> length blk"
  shows "ina_str_new_fromblk_using_pool env (Some blk) len (Some pool) =
    Some (Inr (k_id k, q), Some (with_bytes pool' k
      (str_bytes m (unat q) (ucast (ucast INA_POOLED OR (len + 1))) (take (unat len) blk) (ucast len))))"
proof -
  have u: "unat (q + 4) = unat q + 4" "unat (q + 8) = unat q + 8"
    using small_plus [of q 4] small_plus [of q 8] room by simp_all
  have r: "mem_read blk 0 (unat len) = Some (take (unat len) blk)" using blk by (simp add: mem_read_def)
  show ?thesis using room blk u unfolding ina_str_new_fromblk_using_pool_def ina_str_new_using_pool_def pool_fill_def option.case prod.case alloc
    by (simp add: r set_size_def set_len_def write_with str_bytes_def)
qed

text \<open>Making a string of \<open>len > 0\<close> bytes in a pool whose chunk has the room returns the lower end of
  the free space, with the bytes copied behind the header and the length set; the byte where the
  terminator belongs keeps what was in the pool before.\<close>

theorem pool_str_unterminated:
  assumes pool: "p_chunks pool = [k]" "p_cur pool = 0" "0 < p_alignment pool" and k: "chunk_ok k"
    and f: "fits k (INA_MEM_ALIGN_N (len + 1 + 8) (p_alignment pool))"
    and len: "0 < len" "unat len + 9 + unat (p_alignment pool) \<le> 2 ^ 64" "unat len \<le> length blk"
  shows "\<exists>pool'. ina_str_new_fromblk_using_pool env (Some blk) len (Some pool) = Some (Inr (k_id k, k_pos k), Some pool') \<and>
    read_block pool' (k_id k, k_pos k + 8) (unat len) = Some (take (unat len) blk) \<and>
    read_block pool' (k_id k, k_pos k + 4) 4 = Some (le_bytes 4 (ucast len :: u32)) \<and>
    read_block pool' (k_id k, k_pos k + 8 + len) 1 = read_block pool (k_id k, k_pos k + 8 + len) 1"
proof -
  define al where "al = INA_MEM_ALIGN_N (len + 1 + 8) (p_alignment pool)"
  define b where "b = take (unat len) blk"
  let ?pos = "unat (k_pos k)"
  let ?m = "str_bytes (k_m k) ?pos (ucast (ucast INA_POOLED OR (len + 1))) b (ucast len)"
  let ?pool = "with_bytes (pool\<lparr>p_cur := 0\<rparr>) (k\<lparr>k_pos := k_pos k + al\<rparr>)"
  have b: "length b = unat len" "b \<noteq> []" using len(1,3) by (auto simp: b_def word_less_nat_alt)
  have "0 < unat (p_alignment pool)" using pool(3) by (simp add: word_less_nat_alt)
  then have u9: "unat (len + 1 + 8) = unat len + 9" using len(2) small_plus [of len 9] by (simp add: add.assoc)
  have al: "unat len + 9 \<le> unat al" using align_n_exact(1) [OF pool(3), of "len + 1 + 8"] len(2) u9 by (simp add: al_def)
  have "?pos + unat al \<le> unat (k_end k)" using f unfolding fits_iff al_def .
  then have room: "?pos + unat len + 9 \<le> length (k_m k)" and lt: "length (k_m k) < 2 ^ 64"
    using al k unsigned_less [of "k_size k", where 'a = nat] by (auto simp: chunk_ok_def word_le_nat_alt)
  have u: "unat (k_pos k + 4) = ?pos + 4" "unat (k_pos k + 8) = ?pos + 8" "unat (k_pos k + 8 + len) = ?pos + 8 + unat len"
    using small_plus [of "k_pos k" 4] small_plus [of "k_pos k" 8] small_plus [of "k_pos k" "8 + unat len"] room lt by (simp_all add: add.assoc)
  have d: "ina_mempool_dalloc env pool (len + 1 + 8) = Some (Inr (k_id (k\<lparr>k_pos := k_pos k + al\<rparr>), k_pos k), ?pool (k_m k))"
    using dalloc_one [OF pool f] by (simp add: al_def)
  note str = str_bytes_read [of ?pos b "k_m k", unfolded b(1), OF room b(2)]
  have "read_block pool (k_id k, k_pos k + 8 + len) 1 = Some (take 1 (drop (?pos + 8 + unat len) (k_m k)))"
    using room u(3) pool(1) by (simp add: read_block_def)
  then show ?thesis using fromblk_one [OF d room lt len(3)] str room
      read_with [where pool = "pool\<lparr>p_cur := 0\<rparr>" and k = "k\<lparr>k_pos := k_pos k + al\<rparr>"]
    by (intro exI [of _ "?pool ?m"]) (simp add: u b_def [symmetric])
qed

theorem pool_str_unterminated_witness:
  "\<exists>pool'. ina_str_new_fromblk_using_pool easy_env (Some [97, 98]) 2 (Some (small_pool MEM_DYNAMIC 0)) =
      Some (Inr (k_id (root (small_pool MEM_DYNAMIC 0)), k_pos (root (small_pool MEM_DYNAMIC 0))), Some pool') \<and>
    read_block pool' (k_id (root (small_pool MEM_DYNAMIC 0)), k_pos (root (small_pool MEM_DYNAMIC 0)) + 8) (unat (2 :: u64)) =
      Some (take (unat (2 :: u64)) [97, 98]) \<and>
    read_block pool' (k_id (root (small_pool MEM_DYNAMIC 0)), k_pos (root (small_pool MEM_DYNAMIC 0)) + 4) 4 =
      Some (le_bytes 4 (ucast (2 :: u64) :: u32)) \<and>
    read_block pool' (k_id (root (small_pool MEM_DYNAMIC 0)), k_pos (root (small_pool MEM_DYNAMIC 0)) + 8 + 2) 1 =
      read_block (small_pool MEM_DYNAMIC 0) (k_id (root (small_pool MEM_DYNAMIC 0)), k_pos (root (small_pool MEM_DYNAMIC 0)) + 8 + 2) 1"
  by (rule pool_str_unterminated)
    (simp_all add: small_pool_def small_chunk_def chunk_ok_def fits_def INA_MEM_ALIGN_N_def)

end
