(* ===== verification/Inac_Cron_Pattern.thy ===== *)
theory Inac_Cron_Pattern
  imports Inac_Error "HOL-Library.Signed_Division"
begin

text \<open>
  The pattern parser of the cron component (\<open>src/cron.c\<close>, lines 53-213 and 272-335): the
  field parser with its name tables, ranges, steps and lists, the timetable it fills, and the
  rule that couples days of the month with days of the week.

  A pattern is the text in front of the terminator; reading the character at the end gives
  the terminator.  C \<open>int\<close> values are \<open>int\<close> with every overflow, and every index outside of
  the array, an undefined run (\<open>None\<close>); \<open>smod\<close> is the truncating remainder of C.  The array
  is written before an error is found, so it is part of every result.
\<close>

section \<open>Text and numbers\<close>

definition peek :: "string \<Rightarrow> char" where
  "peek s = (case s of [] \<Rightarrow> CHR 0x00 | c # _ \<Rightarrow> c)"

lemma peek_Cons [simp]: "peek (c # s) = c"
  by (simp add: peek_def)

lemma peek_Nil [simp]: "peek [] = CHR 0x00"
  by (simp add: peek_def)

definition is_blank :: "char \<Rightarrow> bool" where
  "is_blank c \<longleftrightarrow> c = CHR '' '' \<or> c = CHR 0x09 \<or> c = CHR 0x0A"

definition is_stop :: "char \<Rightarrow> bool" where
  "is_stop c \<longleftrightarrow> is_blank c \<or> c = CHR 0x00"

definition is_digit :: "char \<Rightarrow> bool" where
  "is_digit c \<longleftrightarrow> c \<in> set ''0123456789''"

definition is_cspace :: "char \<Rightarrow> bool" where
  "is_cspace c \<longleftrightarrow> c = CHR '' '' \<or> c \<in> {CHR 0x09, CHR 0x0A, CHR 0x0B, CHR 0x0C, CHR 0x0D}"

definition dec_value :: "string \<Rightarrow> int" where
  "dec_value ds = foldl (\<lambda>a c. 10 * a + (of_char c - 48)) 0 ds"

text \<open>The C library's \<open>strtol\<close> in base 10 on a 64-bit \<open>long\<close>: white space, a sign, digits, the
  value clamped; without digits nothing is consumed.\<close>

definition c_strtol :: "string \<Rightarrow> int \<times> string" where
  "c_strtol s =
     (let p = dropWhile is_cspace s;
          neg = (peek p = CHR ''-'');
          p = (if peek p = CHR ''-'' \<or> peek p = CHR ''+'' then tl p else p);
          ds = takeWhile is_digit p;
          v = (if neg then - dec_value ds else dec_value ds)
      in if ds = [] then (0, s)
         else (max (- (2 ^ 63)) (min (2 ^ 63 - 1) v), dropWhile is_digit p))"

definition to_int :: "int \<Rightarrow> int" where
  "to_int v = signed_take_bit 31 v"

definition int_ok :: "int \<Rightarrow> bool" where
  "int_ok v \<longleftrightarrow> - (2 ^ 31) \<le> v \<and> v < 2 ^ 31"

section \<open>The field parser\<close>

definition dow_array :: "string list" where
  "dow_array = [''sun'', ''mon'', ''tue'', ''wed'', ''thu'', ''fri'', ''sat'',
                ''Sun'', ''Mon'', ''Tue'', ''Wed'', ''Thu'', ''Fri'', ''Sat'']"

definition mon_array :: "string list" where
  "mon_array = [''jan'', ''feb'', ''mar'', ''apr'', ''may'', ''jun'',
                ''jul'', ''aug'', ''sep'', ''oct'', ''nov'', ''dec'',
                ''Jan'', ''Feb'', ''Mar'', ''Apr'', ''May'', ''Jun'',
                ''Jul'', ''Aug'', ''Sep'', ''Oct'', ''Nov'', ''Dec'']"

fun starts_with :: "string \<Rightarrow> string \<Rightarrow> bool" where
  "starts_with s [] = True"
| "starts_with [] (c # cs) = False"
| "starts_with (d # s) (c # cs) = (d = c \<and> starts_with s cs)"

fun find_name :: "string list \<Rightarrow> string \<Rightarrow> (nat \<times> nat) option" where
  "find_name [] s = None"
| "find_name (n # ns) s =
     (if starts_with s n then Some (0, length n)
      else map_option (\<lambda>(i, l). (Suc i, l)) (find_name ns s))"

text \<open>One value of a field: the new \<open>n1\<close>, \<open>n2\<close> and the rest of the text.  The inner \<open>None\<close> is
  \<open>skip == 0\<close>, which makes the caller return \<open>NULL\<close>.\<close>

definition field_value ::
    "int \<Rightarrow> int \<Rightarrow> string list option \<Rightarrow> int \<Rightarrow> int \<Rightarrow> string \<Rightarrow> (int \<times> int \<times> string) option option" where
  "field_value modvalue off names n1 n2 ptr =
     (if peek ptr = CHR ''*'' then Some (Some (0, modvalue - 1, tl ptr))
      else if is_digit (peek ptr) then
        (let (v, ptr') = c_strtol ptr; n = to_int v + off
         in if \<not> int_ok n then None
            else if n1 < 0 then Some (Some (n, n2, ptr'))
            else Some (Some (n1, n, ptr')))
      else case names of
        None \<Rightarrow> Some None
      | Some ns \<Rightarrow>
          (case find_name ns ptr of
             None \<Rightarrow> Some None
           | Some (i, l) \<Rightarrow>
               if n1 < 0 then Some (Some (int i, n2, drop l ptr))
               else Some (Some (n1, int i, drop l ptr))))"

text \<open>The do-while loop that fills the array; the result carries the remaining \<open>failsafe\<close>.\<close>

fun fill_loop :: "int \<Rightarrow> int \<Rightarrow> int \<Rightarrow> nat \<Rightarrow> u8 list \<Rightarrow> int \<Rightarrow> int \<Rightarrow> (u8 list \<times> nat) option" where
  "fill_loop modvalue skip n2 0 ary s0 n1 = Some (ary, 0)"
| "fill_loop modvalue skip n2 (Suc failsafe) ary s0 n1 =
     (let n1 = (n1 + 1) smod modvalue; s0 = s0 - 1; i = n1 smod modvalue
      in if \<not> int_ok s0 \<or> s0 = 0 \<and> (i < 0 \<or> int (length ary) \<le> i) then None
         else let (ary, s0) = (if s0 = 0 then (ary[nat i := 1], skip) else (ary, s0))
              in if n1 = n2 then Some (ary, Suc failsafe)
                 else fill_loop modvalue skip n2 failsafe ary s0 n1)"

definition FAILSAFE :: nat where
  "FAILSAFE = 1024"

definition field_skip :: "string \<Rightarrow> int \<times> string" where
  "field_skip ptr =
     (if peek ptr = CHR ''/'' then (let (v, p) = c_strtol (tl ptr) in (to_int v, p)) else (1, ptr))"

definition fill :: "int \<Rightarrow> int \<Rightarrow> int \<Rightarrow> int \<Rightarrow> u8 list \<Rightarrow> (u8 list \<times> nat) option" where
  "fill modvalue skip n1 n2 ary =
     (if \<not> int_ok (n1 - 1) then None else fill_loop modvalue skip n2 FAILSAFE ary 1 (n1 - 1))"

lemma dropWhile_length: "length (dropWhile P s) \<le> length s"
  by (rule length_dropWhile_le)

lemma strtol_rest: "length (snd (c_strtol s)) \<le> length s"
proof -
  let ?p = "dropWhile is_cspace s"
  have 1: "length ?p \<le> length s" by (rule dropWhile_length)
  have 2: "length (tl ?p) \<le> length s" using 1 by simp
  have 3: "length (dropWhile is_digit q) \<le> length q" for q by (rule dropWhile_length)
  show ?thesis using 1 2 3 [of ?p] 3 [of "tl ?p"] by (auto simp: c_strtol_def Let_def)
qed

lemma digit_not_space: "is_digit c \<Longrightarrow> \<not> is_cspace c \<and> c \<noteq> CHR ''-'' \<and> c \<noteq> CHR ''+''"
  by (auto simp: is_digit_def is_cspace_def)

lemma strtol_digits:
  assumes "is_digit (peek s)"
  shows "c_strtol s = (min (2 ^ 63 - 1) (max (- (2 ^ 63)) (dec_value (takeWhile is_digit s))), dropWhile is_digit s)"
proof -
  obtain c t where s: "s = c # t" using assms by (cases s) (auto simp: peek_def is_digit_def)
  then have c: "is_digit c" using assms by (simp add: peek_def)
  show ?thesis using s c digit_not_space [OF c] by (simp add: c_strtol_def peek_def min_def max_def)
qed

lemma field_value_rest: "field_value m off names n1 n2 s = Some (Some (a, b, s')) \<Longrightarrow> length s' \<le> length s"
  using strtol_rest [of s]
  by (auto simp: field_value_def Let_def split: if_splits prod.splits option.splits)

lemma field_skip_rest: "(k, s') = field_skip s \<Longrightarrow> length s' \<le> length s"
  using strtol_rest [of "tl s"] by (auto simp: field_skip_def Let_def split: if_splits prod.splits)

lemma peek_tl: "peek s = c \<Longrightarrow> c \<noteq> CHR 0x00 \<Longrightarrow> length (tl s) < length s"
  by (cases s) (auto simp: peek_def)

lemma advance_dash:
  assumes "field_value m off names n1 n2 s = Some (Some (a, b, t))" "peek t = CHR ''-''"
  shows "length t - Suc 0 < length s"
  using field_value_rest [OF assms(1)] peek_tl [OF assms(2)] by simp

lemma advance_comma:
  assumes "field_value m off names n1 n2 s = Some (Some (a, b, t))" "(k, u) = field_skip t" "peek u = CHR '',''"
  shows "length u - Suc 0 < length s"
  using field_value_rest [OF assms(1)] field_skip_rest [OF assms(2)] peek_tl [OF assms(3)] by simp

function parse_loop ::
    "int \<Rightarrow> int \<Rightarrow> string list option \<Rightarrow> u8 list \<Rightarrow> int \<Rightarrow> int \<Rightarrow> string \<Rightarrow> (u8 list \<times> string option) option" where
  "parse_loop modvalue off names ary n1 n2 ptr =
     (if is_stop (peek ptr) then Some (ary, Some ptr)
      else case field_value modvalue off names n1 n2 ptr of
        None \<Rightarrow> None
      | Some None \<Rightarrow> Some (ary, None)
      | Some (Some (n1, n2, ptr)) \<Rightarrow>
          if peek ptr = CHR ''-'' \<and> n2 < 0 then parse_loop modvalue off names ary n1 n2 (tl ptr)
          else (case field_skip ptr of (skip, ptr) \<Rightarrow>
            (case fill modvalue skip n1 (if n2 < 0 then n1 else n2) ary of
               None \<Rightarrow> None
             | Some (ary, failsafe) \<Rightarrow>
                 if failsafe = 0 then Some (ary, None)
                 else if peek ptr \<noteq> CHR '','' then Some (ary, Some ptr)
                 else parse_loop modvalue off names ary (-1) (-1) (tl ptr))))"
  by pat_completeness auto

termination
  by (relation "measure (\<lambda>(_, _, _, _, _, _, ptr). length ptr)")
     (auto dest: advance_dash advance_comma)

declare parse_loop.simps [simp del]

definition ina_parse_field ::
    "u8 list \<Rightarrow> int \<Rightarrow> int \<Rightarrow> string list option \<Rightarrow> string option \<Rightarrow> (u8 list \<times> string option) option" where
  "ina_parse_field ary modvalue off names ptr =
     (case ptr of
        None \<Rightarrow> Some (ary, None)
      | Some ptr \<Rightarrow>
          (case parse_loop modvalue off names ary (-1) (-1) ptr of
             None \<Rightarrow> None
           | Some (ary, None) \<Rightarrow> Some (ary, None)
           | Some (ary, Some ptr) \<Rightarrow>
               if \<not> is_stop (peek ptr) then Some (ary, None)
               else Some (ary, Some (dropWhile is_blank ptr))))"

section \<open>Patterns\<close>

record timetable =
  mins :: "u8 list"
  hours :: "u8 list"
  days :: "u8 list"
  mons :: "u8 list"
  dow :: "u8 list"

definition zero_timetable :: timetable where
  "zero_timetable = \<lparr>mins = replicate 60 0, hours = replicate 24 0, days = replicate 32 0,
                     mons = replicate 12 0, dow = replicate 7 0\<rparr>"

definition parse_fields :: "string option \<Rightarrow> timetable \<Rightarrow> (timetable \<times> string option) option" where
  "parse_fields buf tt =
     Option.bind (ina_parse_field (mins tt) 60 0 None buf) (\<lambda>(mi, buf).
     Option.bind (ina_parse_field (hours tt) 24 0 None buf) (\<lambda>(ho, buf).
     Option.bind (ina_parse_field (days tt) 32 0 None buf) (\<lambda>(da, buf).
     Option.bind (ina_parse_field (mons tt) 12 (-1) (Some mon_array) buf) (\<lambda>(mo, buf).
     Option.bind (ina_parse_field (dow tt) 7 0 (Some dow_array) buf) (\<lambda>(dw, buf).
     Some (\<lparr>mins = mi, hours = ho, days = da, mons = mo, dow = dw\<rparr>, buf))))))"

definition fix_days :: "timetable \<Rightarrow> timetable" where
  "fix_days tt =
     (let weekUsed = (0 \<in> set (dow tt)); daysUsed = (0 \<in> set (days tt));
          tt' = (if weekUsed \<and> \<not> daysUsed then tt\<lparr>days := replicate (length (days tt)) 0\<rparr> else tt)
      in if daysUsed \<and> \<not> weekUsed then tt'\<lparr>dow := replicate (length (dow tt')) 0\<rparr> else tt')"

definition ina_cron_parse_pattern :: "string option \<Rightarrow> timetable option \<Rightarrow> (unit ina_res \<times> timetable option) option" where
  "ina_cron_parse_pattern pattern tt =
     (case (pattern, tt) of
        (Some pat, Some tt) \<Rightarrow>
          if pat = [] then Some (Inl INA_ERR_INVALID_ARGUMENT, Some tt)
          else (case parse_fields (Some pat) tt of
                  None \<Rightarrow> None
                | Some (tt, None) \<Rightarrow> Some (Inl INA_ERR_INVALID_PATTERN, Some tt)
                | Some (tt, Some _) \<Rightarrow> Some (Inr (), Some (fix_days tt)))
      | _ \<Rightarrow> Some (Inl INA_ERR_INVALID_ARGUMENT, tt))"

definition INA_ERR_NOT_IMPLEMENTED :: ina_rc_t where
  "INA_ERR_NOT_IMPLEMENTED = INA_ERR_NOT_of ''IMPLEMENTED''"

definition ina_cron_make_pattern :: "timetable option \<Rightarrow> string option \<Rightarrow> string ina_res" where
  "ina_cron_make_pattern tt pattern = Inl INA_ERR_NOT_IMPLEMENTED"

section \<open>Filling\<close>

text \<open>The cells that a range from \<open>p\<close> over \<open>r\<close> further cells selects, the first one after \<open>s\<close> cells
  and then every \<open>k\<close>-th, and the array with these cells set.\<close>

definition cells :: "nat \<Rightarrow> nat \<Rightarrow> nat \<Rightarrow> nat \<Rightarrow> nat \<Rightarrow> nat set" where
  "cells p s k r m = set (map (\<lambda>j. (p + j) mod m) (filter (\<lambda>j. s \<le> j \<and> (j - s) mod k = 0) [0..<Suc r]))"

definition mark :: "u8 list \<Rightarrow> nat set \<Rightarrow> u8 list" where
  "mark ary C = map (\<lambda>j. if j \<in> C then 1 else ary ! j) [0..<length ary]"

lemma mark_length [simp]: "length (mark ary C) = length ary"
  by (simp add: mark_def)

lemma mark_nth [simp]: "j < length ary \<Longrightarrow> mark ary C ! j = (if j \<in> C then 1 else ary ! j)"
  by (simp add: mark_def)

lemma mark_empty [simp]: "mark ary {} = ary"
  by (simp add: list_eq_iff_nth_eq)

lemma mark_mark: "mark (mark ary C) D = mark ary (C \<union> D)"
  by (rule nth_equalityI) auto

lemma mark_update: "i < length ary \<Longrightarrow> mark (ary[i := 1]) C = mark ary (insert i C)"
  by (rule nth_equalityI) (auto simp: nth_list_update)

lemma mark_single: "i < length ary \<Longrightarrow> ary[i := 1] = mark ary {i}"
  by (simp flip: mark_update [of i ary "{}"])

lemma mem_cells: "x \<in> cells p s k r m \<longleftrightarrow> (\<exists>j \<le> r. s \<le> j \<and> (j - s) mod k = 0 \<and> x = (p + j) mod m)"
proof -
  have "x \<in> cells p s k r m \<longleftrightarrow> (\<exists>j. j < Suc r \<and> s \<le> j \<and> (j - s) mod k = 0 \<and> x = (p + j) mod m)"
    by (auto simp: cells_def image_iff simp del: upt_Suc )
  then show ?thesis by (simp add: less_Suc_eq_le)
qed

lemma cells_0: "cells p s k 0 m = (if s = 0 then {p mod m} else {})"
  by (auto simp: mem_cells)

lemma suc_add_mod: "Suc (p mod m + i) mod m = Suc (p + i) mod (m :: nat)"
  by (metis add_Suc_right mod_add_left_eq)

lemma cells_Suc:
  assumes "0 < k" "s < k"
  shows "cells p s k (Suc r) m =
    (if s = 0 then {p mod m} else {}) \<union> cells (Suc (p mod m)) (if s = 0 then k - 1 else s - 1) k r m"
    (is "?L = ?A \<union> ?R")
proof (intro set_eqI iffI)
  fix x assume "x \<in> ?L"
  then obtain j where j: "j \<le> Suc r" "s \<le> j" "(j - s) mod k = 0" "x = (p + j) mod m" by (auto simp: mem_cells)
  show "x \<in> ?A \<union> ?R"
  proof (cases j)
    case 0 then show ?thesis using j by simp
  next
    case (Suc i)
    have x: "x = (Suc (p mod m) + i) mod m" using j(4) Suc by (simp add: suc_add_mod)
    have "k \<le> Suc i" if "s = 0" using j(3) Suc that by (intro dvd_imp_le) auto
    then have "(if s = 0 then k - 1 else s - 1) \<le> i \<and> (i - (if s = 0 then k - 1 else s - 1)) mod k = 0"
      using j(2,3) Suc assms by (auto simp: le_mod_geq)
    then show ?thesis using j(1) Suc x by (auto simp: mem_cells)
  qed
next
  fix x assume "x \<in> ?A \<union> ?R"
  then consider "s = 0" "x = p mod m"
    | i where "i \<le> r" "(if s = 0 then k - 1 else s - 1) \<le> i" "(i - (if s = 0 then k - 1 else s - 1)) mod k = 0"
        "x = (Suc (p mod m) + i) mod m"
    by (auto simp: mem_cells split: if_splits)
  then show "x \<in> ?L"
  proof cases
    case 1 then show ?thesis by (auto simp: mem_cells intro!: exI [of _ 0])
  next
    case 2
    have "(Suc i - s) mod k = 0" using 2(2,3) assms by (auto split: if_splits simp: le_mod_geq [of k "Suc i"])
    then show ?thesis using 2 assms by (auto simp: mem_cells suc_add_mod intro!: exI [of _ "Suc i"] split: if_splits)
  qed
qed

lemma smod_nat: "int p smod int m = int (p mod m)"
  by (cases "p = 0") (simp_all add: signed_modulo_int_def zmod_int)

lemma fill_loop_marks:
  assumes "0 < m" "length ary = m" "0 < k" "int k < 2 ^ 31" "s < k" "p \<le> m" "r < m" "(p + r) mod m = b" "r < f"
  shows "fill_loop (int m) (int k) (int b) f ary (int s + 1) (int p - 1) = Some (mark ary (cells p s k r m), f - r)"
  using assms
proof (induction r arbitrary: f ary s p)
  case 0
  then obtain f' where f: "f = Suc f'" by (cases f) auto
  have p: "int p smod int m = int (p mod m)" by (rule smod_nat)
  have b: "b < m" using 0 by auto
  have "int b smod int m = int b" using b by (simp add: smod_nat)
  then show ?case using 0 f p b by (auto simp: int_ok_def cells_0 mark_single)
next
  case (Suc r)
  then obtain f' where f: "f = Suc f'" by (cases f) auto
  let ?q = "p mod m" and ?s = "if s = 0 then k - 1 else s - 1" and ?a = "if s = 0 then ary[p mod m := 1] else ary"
  have q: "int p smod int m = int ?q" "int ?q smod int m = int ?q" "?q < m"
    using Suc.prems(1) by (auto simp: smod_nat)
  have ne: "int ?q \<noteq> int b"
  proof
    assume "int ?q = int b"
    then have "(p + Suc r) mod m = (p + 0) mod m" using Suc.prems(8) by simp
    then have "m dvd Suc r" using mod_eq_dvd_iff_nat [of "p + 0" "p + Suc r" m] by simp
    then show False using Suc.prems(7) by (auto dest: dvd_imp_le)
  qed
  have "fill_loop (int m) (int k) (int b) f ary (int s + 1) (int p - 1) =
      fill_loop (int m) (int k) (int b) f' ?a (int ?s + 1) (int (Suc ?q) - 1)"
    using Suc.prems(2-5) f q ne by (cases "s = 0") (simp_all add: int_ok_def of_nat_diff Let_def)
  also have "\<dots> = Some (mark ?a (cells (Suc ?q) ?s k r m), f' - r)"
    using Suc.prems f q(3) by (intro Suc.IH) (simp_all add: suc_add_mod Suc_le_eq less_imp_diff_less)
  also have "mark ?a (cells (Suc ?q) ?s k r m) = mark ary (cells p s k (Suc r) m)"
    using Suc.prems q by (subst cells_Suc) (auto simp: mark_update)
  finally show ?case using f by simp
qed

lemma fill_marks:
  assumes "0 < m" "m \<le> FAILSAFE" "length ary = m" "0 < k" "int k < 2 ^ 31" "a < m" "b < m"
  shows "\<exists>f. 0 < f \<and> fill (int m) (int k) (int a) (int b) ary = Some (mark ary (cells a 0 k ((b + m - a) mod m) m), f)"
proof -
  let ?r = "(b + m - a) mod m"
  have "(a + ?r) mod m = b" using assms by (simp add: mod_add_right_eq)
  moreover have r: "?r < m" using assms by simp
  ultimately have "fill_loop (int m) (int k) (int b) FAILSAFE ary (int 0 + 1) (int a - 1) =
      Some (mark ary (cells a 0 k ?r m), FAILSAFE - ?r)"
    using assms less_le_trans [OF r assms(2)] by (intro fill_loop_marks) auto
  moreover have "int_ok (int a - 1)" using assms by (simp add: int_ok_def FAILSAFE_def)
  ultimately show ?thesis using less_le_trans [OF r assms(2)] assms by (auto simp: fill_def)
qed

section \<open>Standard fields\<close>

text \<open>The notation of cron fields: a value is a number or the name of one, an item is a star, a value
  or a range with an optional step, and a field is a list of items with commas between them.\<close>

datatype cron_value = Num nat | Name nat
datatype cron_range = Star | One cron_value | Span cron_value cron_value
type_synonym cron_item = "cron_range \<times> nat option"

fun value_text :: "string list \<Rightarrow> cron_value \<Rightarrow> string" where
  "value_text ns (Num n) = digits_in 10 n"
| "value_text ns (Name i) = ns ! i"

fun value_cell :: "int \<Rightarrow> cron_value \<Rightarrow> nat" where
  "value_cell off (Num n) = nat (int n + off)"
| "value_cell off (Name i) = i"

fun range_text :: "string list \<Rightarrow> cron_range \<Rightarrow> string" where
  "range_text ns Star = ''*''"
| "range_text ns (One v) = value_text ns v"
| "range_text ns (Span v w) = value_text ns v @ ''-'' @ value_text ns w"

fun range_bounds :: "nat \<Rightarrow> int \<Rightarrow> cron_range \<Rightarrow> nat \<times> nat" where
  "range_bounds m off Star = (0, m - 1)"
| "range_bounds m off (One v) = (value_cell off v, value_cell off v)"
| "range_bounds m off (Span v w) = (value_cell off v, value_cell off w)"

fun step_text :: "nat option \<Rightarrow> string" where
  "step_text None = []"
| "step_text (Some k) = ''/'' @ digits_in 10 k"

definition item_text :: "string list \<Rightarrow> cron_item \<Rightarrow> string" where
  "item_text ns it = range_text ns (fst it) @ step_text (snd it)"

definition item_cells :: "nat \<Rightarrow> int \<Rightarrow> cron_item \<Rightarrow> nat set" where
  "item_cells m off it =
     (case range_bounds m off (fst it) of (a, b) \<Rightarrow>
        cells a 0 (case snd it of None \<Rightarrow> 1 | Some k \<Rightarrow> k) ((b + m - a) mod m) m)"

fun field_text :: "string list \<Rightarrow> cron_item list \<Rightarrow> string" where
  "field_text ns [] = []"
| "field_text ns [it] = item_text ns it"
| "field_text ns (it # its) = item_text ns it @ '','' @ field_text ns its"

definition field_cells :: "nat \<Rightarrow> int \<Rightarrow> cron_item list \<Rightarrow> nat set" where
  "field_cells m off its = (\<Union>it \<in> set its. item_cells m off it)"

text \<open>Fields in range: numbers that stand for a cell, the lower-case names, and steps from 1 on.\<close>

fun value_ok :: "nat \<Rightarrow> int \<Rightarrow> string list option \<Rightarrow> cron_value \<Rightarrow> bool" where
  "value_ok m off names (Num n) \<longleftrightarrow> 0 \<le> int n + off \<and> int n + off < int m \<and> int n < 2 ^ 31"
| "value_ok m off names (Name i) \<longleftrightarrow> i < m \<and> names \<noteq> None"

fun range_ok :: "nat \<Rightarrow> int \<Rightarrow> string list option \<Rightarrow> cron_range \<Rightarrow> bool" where
  "range_ok m off names Star \<longleftrightarrow> True"
| "range_ok m off names (One v) \<longleftrightarrow> value_ok m off names v"
| "range_ok m off names (Span v w) \<longleftrightarrow> value_ok m off names v \<and> value_ok m off names w"

definition item_ok :: "nat \<Rightarrow> int \<Rightarrow> string list option \<Rightarrow> cron_item \<Rightarrow> bool" where
  "item_ok m off names it \<longleftrightarrow>
     range_ok m off names (fst it) \<and> (case snd it of None \<Rightarrow> True | Some k \<Rightarrow> 0 < k \<and> int k < 2 ^ 31)"

definition names_of :: "string list option \<Rightarrow> string list" where
  "names_of names = (case names of None \<Rightarrow> [] | Some ns \<Rightarrow> ns)"

text \<open>A table of names is usable for a field of \<open>m\<close> cells when the first \<open>m\<close> names are found, whatever
  follows, and begin with a letter.\<close>

definition names_ok :: "nat \<Rightarrow> string list option \<Rightarrow> bool" where
  "names_ok m names \<longleftrightarrow>
     (case names of None \<Rightarrow> True
      | Some ns \<Rightarrow> m \<le> length ns \<and>
          list_all (\<lambda>i. let n = ns ! i in n \<noteq> [] \<and> \<not> is_digit (hd n) \<and> \<not> is_stop (hd n) \<and> hd n \<noteq> CHR ''*'' \<and>
            list_all (\<lambda>j. length (ns ! j) = length n \<and> ns ! j \<noteq> n) [0..<i]) [0..<m])"

lemma mon_names_ok: "names_ok 12 (Some mon_array)"
  by code_simp

lemma dow_names_ok: "names_ok 7 (Some dow_array)"
  by code_simp

lemma digit_code: "d < 10 \<Longrightarrow> is_digit (digit_char d) \<and> (of_char (digit_char d) :: int) = 48 + int d"
proof -
  have "\<forall>d \<in> set [0..<10]. is_digit (digit_char d) \<and> (of_char (digit_char d) :: int) = 48 + int d"
    by code_simp
  then show "d < 10 \<Longrightarrow> ?thesis" by auto
qed

lemma digits_value: "list_all is_digit (digits_in 10 n) \<and> dec_value (digits_in 10 n) = int n"
proof (induction n rule: less_induct)
  case (less n)
  show ?case
  proof (cases "n < 10")
    case True
    then show ?thesis using digit_code [of n] by (simp add: digits_in.simps [of 10 n] dec_value_def)
  next
    case False
    then have "digits_in 10 n = digits_in 10 (n div 10) @ [digit_char (n mod 10)]" by (simp add: digits_in.simps [of 10 n])
    moreover have "int n = 10 * int (n div 10) + int (n mod 10)" by presburger
    ultimately show ?thesis using less.IH [of "n div 10"] False digit_code [of "n mod 10"]
      by (simp add: dec_value_def)
  qed
qed

lemma digits_span:
  assumes "\<not> is_digit (peek r)"
  shows "takeWhile is_digit (digits_in 10 n @ r) = digits_in 10 n \<and> dropWhile is_digit (digits_in 10 n @ r) = r"
proof -
  have "\<forall>c \<in> set (digits_in 10 n). is_digit c" using digits_value [of n] by (simp add: list_all_iff)
  moreover have "takeWhile is_digit r = [] \<and> dropWhile is_digit r = r" using assms by (cases r) (auto simp: peek_def)
  ultimately show ?thesis by (simp add: takeWhile_append2 dropWhile_append2)
qed

lemma peek_append: "s \<noteq> [] \<Longrightarrow> peek (s @ r) = hd s"
  by (cases s) (auto simp: peek_def)

lemma digits_peek: "is_digit (peek (digits_in 10 n @ r))"
  using digits_value [of n] by (cases "digits_in 10 n") (auto simp: peek_append peek_def)

lemma to_int_small: "- (2 ^ 31) \<le> v \<Longrightarrow> v < 2 ^ 31 \<Longrightarrow> to_int v = v"
  by (simp add: to_int_def signed_take_bit_int_eq_self)

lemma strtol_number:
  assumes "\<not> is_digit (peek r)" "int n < 2 ^ 31"
  shows "c_strtol (digits_in 10 n @ r) = (int n, r)"
  using strtol_digits [OF digits_peek, of n r] digits_span [OF assms(1), of n] digits_value [of n] assms(2) by simp

lemma starts_self [simp]: "starts_with (n @ r) n"
  by (induction n) auto

lemma starts_other: "length n' = length n \<Longrightarrow> n' \<noteq> n \<Longrightarrow> \<not> starts_with (n @ r) n'"
  by (induction n n' rule: list_induct2') auto

lemma find_name_skip:
  "\<forall>n' \<in> set ns. \<not> starts_with s n' \<Longrightarrow>
    find_name (ns @ ms) s = map_option (\<lambda>(i, l). (length ns + i, l)) (find_name ms s)"
  by (induction ns) (auto simp: option.map_comp comp_def case_prod_beta' option.map_ident)

lemma find_name_at:
  assumes "names_ok m (Some ns)" "i < m"
  shows "find_name ns (ns ! i @ r) = Some (i, length (ns ! i))"
proof -
  have len: "i < length ns" using assms by (auto simp: names_ok_def)
  have "\<forall>j < i. length (ns ! j) = length (ns ! i) \<and> ns ! j \<noteq> ns ! i"
    using assms by (auto simp: names_ok_def list_all_iff Let_def)
  then have "\<And>j. j < i \<Longrightarrow> \<not> starts_with (ns ! i @ r) (ns ! j)" by (intro starts_other) blast+
  then have "\<forall>n' \<in> set (take i ns). \<not> starts_with (ns ! i @ r) n'"
    using len by (auto simp: in_set_conv_nth)
  note skip = find_name_skip [OF this, of "ns ! i # drop (Suc i) ns"]
  have eq: "take i ns @ ns ! i # drop (Suc i) ns = ns" using len by (rule id_take_nth_drop [symmetric])
  show ?thesis using skip [unfolded eq] len by simp
qed

lemma field_value_ok:
  assumes "names_ok m names" "value_ok m off names v" "\<not> is_digit (peek r)" "int m < 2 ^ 31"
  shows "field_value mv off names n1 n2 (value_text (names_of names) v @ r) =
    Some (Some (if n1 < 0 then (int (value_cell off v), n2, r) else (n1, int (value_cell off v), r)))"
proof (cases v)
  case (Num n)
  have d: "is_digit (peek (digits_in 10 n @ r))" by (rule digits_peek)
  then have "peek (digits_in 10 n @ r) \<noteq> CHR ''*''" by (auto simp: is_digit_def)
  moreover have "c_strtol (digits_in 10 n @ r) = (int n, r)" using assms Num by (intro strtol_number) auto
  moreover have "int_ok (int n + off)" using assms Num by (simp add: int_ok_def)
  ultimately show ?thesis using assms Num d by (simp add: field_value_def to_int_small)
next
  case (Name i)
  then obtain ns where ns: "names = Some ns" and i: "i < m" using assms by auto
  have "ns ! i \<noteq> []" "\<not> is_digit (hd (ns ! i))" "hd (ns ! i) \<noteq> CHR ''*''"
    using assms(1) ns i by (auto simp: names_ok_def list_all_iff Let_def)
  then show ?thesis using ns Name find_name_at [of m ns i r] assms(1) i
    by (simp add: field_value_def names_of_def peek_append)
qed

lemma value_text_peek:
  assumes "names_ok m names" "value_ok m off names v"
  shows "\<not> is_stop (peek (value_text (names_of names) v @ r))"
proof (cases v)
  case (Num n)
  then show ?thesis using digits_peek [of n r] by (auto simp: is_digit_def is_stop_def is_blank_def)
next
  case (Name i)
  then show ?thesis using assms
    by (auto simp: names_ok_def list_all_iff Let_def names_of_def peek_append split: option.splits)
qed

lemma value_cell_less: "value_ok m off names v \<Longrightarrow> value_cell off v < m"
  by (cases v) auto

lemma field_skip_ok:
  assumes "peek r = CHR '','' \<or> is_stop (peek r)" "\<And>k. st = Some k \<Longrightarrow> int k < 2 ^ 31"
  shows "field_skip (step_text st @ r) = (int (case st of None \<Rightarrow> 1 | Some k \<Rightarrow> k), r)"
proof -
  have "\<not> is_digit (peek r)" using assms(1) by (auto simp: is_stop_def is_blank_def is_digit_def)
  moreover have "peek r \<noteq> CHR ''/''" using assms(1) by (auto simp: is_stop_def is_blank_def)
  ultimately show ?thesis using assms(2)
    by (cases st) (simp_all add: field_skip_def peek_append strtol_number to_int_small)
qed

lemma step_peek:
  assumes "peek r = CHR '','' \<or> is_stop (peek r)"
  shows "peek (step_text st @ r) \<noteq> CHR ''-'' \<and> \<not> is_digit (peek (step_text st @ r))"
  using assms by (cases st) (auto simp: peek_append is_stop_def is_blank_def is_digit_def)

lemma parse_last_value:
  assumes fv: "field_value (int m) off names n1 n2 ptr = Some (Some (int a, b', step_text st @ r))"
    and r: "peek r = CHR '','' \<or> is_stop (peek r)" and st: "\<And>k. st = Some k \<Longrightarrow> 0 < k \<and> int k < 2 ^ 31"
    and m: "0 < m" "m \<le> FAILSAFE" "length ary = m" and b: "a < m" "b < m" "(if b' < 0 then int a else b') = int b"
    and ptr: "\<not> is_stop (peek ptr)"
  shows "parse_loop (int m) off names ary n1 n2 ptr =
    (let ary' = mark ary (cells a 0 (case st of None \<Rightarrow> 1 | Some k \<Rightarrow> k) ((b + m - a) mod m) m)
     in if peek r = CHR '','' then parse_loop (int m) off names ary' (-1) (-1) (tl r) else Some (ary', Some r))"
proof -
  let ?k = "case st of None \<Rightarrow> 1 | Some k \<Rightarrow> k"
  have k: "0 < ?k" "int ?k < 2 ^ 31" using st by (auto split: option.split)
  obtain f where "0 < f" "fill (int m) (int ?k) (int a) (int b) ary = Some (mark ary (cells a 0 ?k ((b + m - a) mod m) m), f)"
    using fill_marks [OF m k b(1,2)] by blast
  moreover have "field_skip (step_text st @ r) = (int ?k, r)" using st by (intro field_skip_ok [OF r]) auto
  ultimately show ?thesis using fv ptr step_peek [OF r, of st] by (subst parse_loop.simps) (simp add: Let_def b(3))
qed

lemma parse_item:
  assumes names: "names_ok m names" and it: "item_ok m off names it" and m: "0 < m" "m \<le> FAILSAFE" "length ary = m"
    and r: "peek r = CHR '','' \<or> is_stop (peek r)"
  shows "parse_loop (int m) off names ary (-1) (-1) (item_text (names_of names) it @ r) =
    (let ary' = mark ary (item_cells m off it)
     in if peek r = CHR '','' then parse_loop (int m) off names ary' (-1) (-1) (tl r) else Some (ary', Some r))"
proof -
  obtain rg st where i: "it = (rg, st)" by force
  have st: "\<And>k. st = Some k \<Longrightarrow> 0 < k \<and> int k < 2 ^ 31" using it i by (auto simp: item_ok_def)
  have nd: "\<not> is_digit (peek (step_text st @ r))" using step_peek [OF r] by blast
  have "int m < 2 ^ 31" using m(2) by (simp add: FAILSAFE_def)
  note fv = field_value_ok [OF names _ _ this]
  show ?thesis
  proof (cases rg)
    case Star
    have "field_value (int m) off names (-1) (-1) (''*'' @ step_text st @ r) = Some (Some (int 0, int m - 1, step_text st @ r))"
      by (simp add: field_value_def peek_append)
    moreover have "(m + m - Suc 0) mod m = m - Suc 0" using mod_add_self2 [of "m - 1" m] m by simp
    ultimately show ?thesis using parse_last_value [OF _ r st m, where off = off and names = names and ?n1.0 = "-1" and ?n2.0 = "-1" and
        ptr = "''*'' @ step_text st @ r" and a = 0 and b' = "int m - 1" and b = "m - 1"] m i Star
      by (simp add: item_text_def item_cells_def peek_append is_stop_def is_blank_def of_nat_diff)
  next
    case (One v)
    then have v: "value_ok m off names v" using it i by (simp add: item_ok_def)
    have "field_value (int m) off names (-1) (-1) (value_text (names_of names) v @ step_text st @ r) =
        Some (Some (int (value_cell off v), -1, step_text st @ r))" using fv [OF v nd] by simp
    from parse_last_value [OF this r st m value_cell_less [OF v] value_cell_less [OF v]] show ?thesis
      using i One value_text_peek [OF names v] by (simp add: item_text_def item_cells_def)
  next
    case (Span v w)
    then have v: "value_ok m off names v" "value_ok m off names w" using it i by (simp_all add: item_ok_def)
    let ?t = "value_text (names_of names) w @ step_text st @ r"
    have "\<not> is_digit (peek (''-'' @ ?t))" by (simp add: peek_append is_digit_def)
    from fv [OF v(1) this] have f1: "field_value (int m) off names (-1) (-1) (value_text (names_of names) v @ ''-'' @ ?t) =
        Some (Some (int (value_cell off v), -1, ''-'' @ ?t))" by simp
    have "parse_loop (int m) off names ary (-1) (-1) (value_text (names_of names) v @ ''-'' @ ?t) =
        parse_loop (int m) off names ary (int (value_cell off v)) (-1) ?t"
      using f1 value_text_peek [OF names v(1), of "''-'' @ ?t"] by (subst parse_loop.simps) (simp add: peek_append)
    moreover have "field_value (int m) off names (int (value_cell off v)) (-1) ?t =
        Some (Some (int (value_cell off v), int (value_cell off w), step_text st @ r))" using fv [OF v(2) nd] by simp
    ultimately show ?thesis
      using parse_last_value [OF _ r st m value_cell_less [OF v(1)] value_cell_less [OF v(2)], of off names
          "int (value_cell off v)" "-1" ?t "int (value_cell off w)"]
        i Span value_text_peek [OF names v(2)] by (simp add: item_text_def item_cells_def)
  qed
qed

lemma parse_items:
  assumes "names_ok m names" "\<forall>it \<in> set its. item_ok m off names it" "0 < m" "m \<le> FAILSAFE" "length ary = m"
    "is_stop (peek r)" "its \<noteq> []"
  shows "parse_loop (int m) off names ary (-1) (-1) (field_text (names_of names) its @ r) =
    Some (mark ary (field_cells m off its), Some r)"
  using assms
proof (induction "names_of names" its arbitrary: ary rule: field_text.induct)
  case 1 then show ?case by simp
next
  case (2 it)
  have "peek r \<noteq> CHR '',''" using 2 by (auto simp: is_stop_def is_blank_def)
  then show ?case using parse_item [of m names off it ary r] 2 by (simp add: field_cells_def)
next
  case (3 it it' its)
  then show ?case using parse_item [of m names off it ary "'','' @ field_text (names_of names) (it' # its) @ r"]
    by (simp add: peek_append mark_mark field_cells_def)
qed

lemma field_ok:
  assumes "names_ok m names" "\<forall>it \<in> set its. item_ok m off names it" "0 < m" "m \<le> FAILSAFE" "length ary = m"
    "is_stop (peek r)" "its \<noteq> []"
  shows "ina_parse_field ary (int m) off names (Some (field_text (names_of names) its @ r)) =
    Some (mark ary (field_cells m off its), Some (dropWhile is_blank r))"
  using parse_items [OF assms] assms(6) by (simp add: ina_parse_field_def)

section \<open>Patterns of five fields\<close>

text \<open>The broken-down time of \<open>localtime\<close>, as far as cron reads it, with the ranges the C library
  documents, and the test of a timetable against it, which stands twice in the source.\<close>

record tm =
  tm_min :: nat
  tm_hour :: nat
  tm_mday :: nat
  tm_mon :: nat
  tm_wday :: nat

definition tm_ok :: "tm \<Rightarrow> bool" where
  "tm_ok t \<longleftrightarrow> tm_min t < 60 \<and> tm_hour t < 24 \<and> 1 \<le> tm_mday t \<and> tm_mday t \<le> 31 \<and> tm_mon t < 12 \<and> tm_wday t < 7"

definition tt_match :: "timetable \<Rightarrow> tm \<Rightarrow> bool" where
  "tt_match tt t \<longleftrightarrow>
     mins tt ! tm_min t \<noteq> 0 \<and> hours tt ! tm_hour t \<noteq> 0 \<and>
     (days tt ! tm_mday t \<noteq> 0 \<or> dow tt ! tm_wday t \<noteq> 0) \<and> mons tt ! tm_mon t \<noteq> 0"

definition field_good :: "nat \<Rightarrow> int \<Rightarrow> string list option \<Rightarrow> cron_item list \<Rightarrow> bool" where
  "field_good m off names its \<longleftrightarrow> its \<noteq> [] \<and> list_all (item_ok m off names) its"

record cron_fields =
  f_min :: "cron_item list"
  f_hour :: "cron_item list"
  f_day :: "cron_item list"
  f_mon :: "cron_item list"
  f_dow :: "cron_item list"

definition fields_good :: "cron_fields \<Rightarrow> bool" where
  "fields_good f \<longleftrightarrow> field_good 60 0 None (f_min f) \<and> field_good 24 0 None (f_hour f) \<and>
     field_good 32 0 None (f_day f) \<and> field_good 12 (-1) (Some mon_array) (f_mon f) \<and>
     field_good 7 0 (Some dow_array) (f_dow f)"

definition pattern_text :: "cron_fields \<Rightarrow> string" where
  "pattern_text f = field_text [] (f_min f) @ '' '' @ field_text [] (f_hour f) @ '' '' @ field_text [] (f_day f) @
     '' '' @ field_text mon_array (f_mon f) @ '' '' @ field_text dow_array (f_dow f)"

text \<open>What five fields mean: minute, hour and month are selected; when only one of the two day fields
  is restricted that one decides, otherwise either of them may select the day.\<close>

definition day_due :: "nat set \<Rightarrow> nat set \<Rightarrow> tm \<Rightarrow> bool" where
  "day_due D W t \<longleftrightarrow>
     (if D = set [0..<32] \<and> W \<noteq> set [0..<7] then tm_wday t \<in> W
      else if W = set [0..<7] \<and> D \<noteq> set [0..<32] then tm_mday t \<in> D
      else tm_mday t \<in> D \<or> tm_wday t \<in> W)"

definition fields_due :: "cron_fields \<Rightarrow> tm \<Rightarrow> bool" where
  "fields_due f t \<longleftrightarrow>
     tm_min t \<in> field_cells 60 0 (f_min f) \<and> tm_hour t \<in> field_cells 24 0 (f_hour f) \<and>
     tm_mon t \<in> field_cells 12 (-1) (f_mon f) \<and>
     day_due (field_cells 32 0 (f_day f)) (field_cells 7 0 (f_dow f)) t"

lemma cells_bound: "0 < m \<Longrightarrow> cells a s k r m \<subseteq> {..<m}"
  by (auto simp: mem_cells)

lemma field_cells_bound: "0 < m \<Longrightarrow> field_cells m off its \<subseteq> {..<m}"
  by (simp add: field_cells_def item_cells_def UN_subset_iff cells_bound split: prod.split)

lemma range_text_peek:
  assumes "names_ok m names" "range_ok m off names rg"
  shows "\<not> is_stop (peek (range_text (names_of names) rg @ r))"
proof (cases rg)
  case Star then show ?thesis by (simp add: is_stop_def is_blank_def)
next
  case (One v) then show ?thesis using value_text_peek [OF assms(1), of off v r] assms(2) by simp
next
  case (Span v w)
  then show ?thesis using value_text_peek [OF assms(1), of off v "''-'' @ value_text (names_of names) w @ r"] assms(2) by simp
qed

lemma field_text_peek:
  assumes "names_ok m names" "field_good m off names its"
  shows "\<not> is_stop (peek (field_text (names_of names) its @ r))"
proof -
  obtain it its' where its: "its = it # its'" using assms(2) by (cases its) (auto simp: field_good_def)
  then have "range_ok m off names (fst it)" using assms(2) by (simp add: field_good_def item_ok_def)
  note range_text_peek [OF assms(1) this]
  then show ?thesis using its by (cases its') (simp_all add: item_text_def)
qed

lemma field_next:
  assumes "names_ok m names" "field_good m off names its" "0 < m" "m \<le> FAILSAFE" "length ary = m"
    and "is_stop (peek r)"
  shows "ina_parse_field ary (int m) off names (Some (field_text (names_of names) its @ r)) =
    Some (mark ary (field_cells m off its), Some (dropWhile is_blank r))"
  using assms by (intro field_ok) (auto simp: field_good_def list_all_iff)

lemma blank_before:
  assumes "names_ok m names" "field_good m off names its"
  shows "dropWhile is_blank ('' '' @ field_text (names_of names) its @ r) = field_text (names_of names) its @ r"
proof -
  have "\<not> is_blank (peek (field_text (names_of names) its @ r))"
    using field_text_peek [OF assms, of r] by (simp add: is_stop_def)
  then show ?thesis by (cases "field_text (names_of names) its @ r") (auto simp: is_blank_def)
qed

lemma parse_pattern_fields:
  assumes "fields_good f"
  shows "parse_fields (Some (pattern_text f)) zero_timetable =
    Some (\<lparr>mins = mark (replicate 60 0) (field_cells 60 0 (f_min f)),
           hours = mark (replicate 24 0) (field_cells 24 0 (f_hour f)),
           days = mark (replicate 32 0) (field_cells 32 0 (f_day f)),
           mons = mark (replicate 12 0) (field_cells 12 (-1) (f_mon f)),
           dow = mark (replicate 7 0) (field_cells 7 0 (f_dow f))\<rparr>, Some [])"
proof -
  have N: "names_ok m None" for m by (simp add: names_ok_def)
  have n: "names_of None = []" "names_of (Some ns) = ns" for ns by (simp_all add: names_of_def)
  have sp: "is_stop (peek ('' '' @ q))" "is_stop (peek [])" for q by (simp_all add: is_stop_def is_blank_def)
  have g: "field_good 60 0 None (f_min f)" "field_good 24 0 None (f_hour f)" "field_good 32 0 None (f_day f)"
    "field_good 12 (-1) (Some mon_array) (f_mon f)" "field_good 7 0 (Some dow_array) (f_dow f)"
    using assms by (simp_all add: fields_good_def)
  note F = field_next [OF _ _ _ _ _ sp(1)] and B = blank_before
  have 5: "ina_parse_field (replicate 7 0) 7 0 (Some dow_array) (Some (field_text dow_array (f_dow f))) =
      Some (mark (replicate 7 0) (field_cells 7 0 (f_dow f)), Some [])"
    using field_next [OF dow_names_ok g(5) _ _ _ sp(2)] by (simp add: n FAILSAFE_def)
  show ?thesis
    using F [OF N g(1), of "replicate 60 0"] F [OF N g(2), of "replicate 24 0"] F [OF N g(3), of "replicate 32 0"]
      F [OF mon_names_ok g(4), of "replicate 12 0"] B [OF N g(2)] B [OF N g(3)] B [OF mon_names_ok g(4)]
      B [OF dow_names_ok g(5), of "[]"] 5
    by (simp add: parse_fields_def pattern_text_def zero_timetable_def n FAILSAFE_def)
qed

lemma zero_in_mark: "0 \<in> set (mark (replicate m 0) C) \<longleftrightarrow> \<not> {..<m} \<subseteq> C"
  by (auto simp: in_set_conv_nth mark_def)

text \<open>C19. A pattern of five well-formed fields is accepted, and the timetable it leaves matches a broken-down
  time exactly when the fields select it: minute, hour and month by their lists, ranges and steps (ranges may
  wrap around), and the day by the coupled rule for days of the month and of the week.\<close>

theorem cron_pattern_meaning:
  assumes "fields_good f" "tm_ok t"
  shows "\<exists>tt. ina_cron_parse_pattern (Some (pattern_text f)) (Some zero_timetable) = Some (Inr (), Some tt) \<and>
    tt_match tt t = fields_due f t"
proof -
  have "pattern_text f \<noteq> []" by (simp add: pattern_text_def)
  moreover have "field_cells 32 0 (f_day f) \<subseteq> {..<32}" "field_cells 7 0 (f_dow f) \<subseteq> {..<7}"
    by (simp_all add: field_cells_bound)
  ultimately show ?thesis using parse_pattern_fields [OF assms(1)] assms(2)
    by (auto simp: ina_cron_parse_pattern_def fix_days_def Let_def zero_in_mark tt_match_def fields_due_def
        day_due_def tm_ok_def atLeast0LessThan)
qed

definition demo_fields :: cron_fields where
  "demo_fields = \<lparr>f_min = [(Span (Num 50) (Num 20), Some 15)], f_hour = [(One (Num 9), None), (One (Num 17), None)],
     f_day = [(Star, None)], f_mon = [(Span (Name 0) (Num 6), None)], f_dow = [(Span (Name 1) (Name 5), None)]\<rparr>"

theorem cron_pattern_meaning_witness:
  "\<exists>tt. ina_cron_parse_pattern (Some ''50-20/15 9,17 * jan-6 mon-fri'') (Some zero_timetable) = Some (Inr (), Some tt) \<and>
    tt_match tt \<lparr>tm_min = 5, tm_hour = 17, tm_mday = 3, tm_mon = 5, tm_wday = 2\<rparr> = True"
proof -
  let ?t = "\<lparr>tm_min = 5, tm_hour = 17, tm_mday = 3, tm_mon = 5, tm_wday = 2\<rparr> :: tm"
  have g: "fields_good demo_fields" by code_simp
  have t: "tm_ok ?t" by code_simp
  have p: "pattern_text demo_fields = ''50-20/15 9,17 * jan-6 mon-fri''" by code_simp
  have d: "fields_due demo_fields ?t = True" by code_simp
  show ?thesis using cron_pattern_meaning [OF g t] unfolding p d .
qed

section \<open>Values outside of the field\<close>

lemma fill_loop_exhausted:
  assumes "0 < m" "length ary = m" "0 < k" "int k < 2 ^ 31" "s < k" "m \<le> b"
  shows "\<exists>ary'. fill_loop (int m) (int k) (int b) f ary (int s + 1) (int p - 1) = Some (ary', 0) \<and> length ary' = m"
  using assms
proof (induction f arbitrary: ary s p)
  case 0 then show ?case by simp
next
  case (Suc f)
  let ?q = "p mod m" and ?s = "if s = 0 then k - 1 else s - 1" and ?a = "if s = 0 then ary[p mod m := 1] else ary"
  have q: "int p smod int m = int ?q" "int ?q smod int m = int ?q" "?q < m" using Suc.prems(1) by (auto simp: smod_nat)
  then have "?q \<noteq> b" using Suc.prems(6) by simp
  then have "fill_loop (int m) (int k) (int b) (Suc f) ary (int s + 1) (int p - 1) =
      fill_loop (int m) (int k) (int b) f ?a (int ?s + 1) (int (Suc ?q) - 1)"
    using Suc.prems(2-5) q by (cases "s = 0") (simp_all add: int_ok_def of_nat_diff Let_def)
  moreover have "length ?a = m" "?s < k" using Suc.prems by auto
  ultimately show ?case using Suc.IH [of ?a ?s "Suc ?q"] Suc.prems by simp
qed

lemma fill_exhausted:
  assumes "0 < m" "length ary = m" "m \<le> b" "int a < 2 ^ 31"
  shows "\<exists>ary'. fill (int m) 1 (int a) (int b) ary = Some (ary', 0) \<and> length ary' = m"
  using fill_loop_exhausted [of m ary 1 0 b FAILSAFE a] assms by (simp add: fill_def int_ok_def)

lemma one_value_field:
  assumes "field_value (int m) off names (-1) (-1) ptr = Some (Some (v, -1, r))" "\<not> is_stop (peek ptr)"
    and "is_stop (peek r) \<or> peek r = CHR '',''" "fill (int m) 1 v v ary = R" "R = None \<or> (\<exists>a. R = Some (a, 0))"
  shows "ina_parse_field ary (int m) off names (Some ptr) = map_option (\<lambda>(a, _). (a, None)) R"
proof -
  have "peek r \<noteq> CHR ''-'' \<and> field_skip r = (1, r)" using assms(3) by (auto simp: is_stop_def is_blank_def field_skip_def)
  then have "parse_loop (int m) off names ary (-1) (-1) ptr = map_option (\<lambda>(a, _). (a, None)) R"
    using assms by (subst parse_loop.simps) auto
  then show ?thesis using assms(5) by (auto simp: ina_parse_field_def)
qed

text \<open>A single value beyond the end of its field is an error: the fill loop uses up its 1024
  rounds and the field parser returns \<open>NULL\<close>, which makes the pattern invalid.  This concerns numbers, and
  also the capitalised names of weekdays and months: the tables list them, but at positions behind the field.\<close>

theorem cron_value_rejected:
  assumes "0 < m" "length ary = m" "is_stop (peek r) \<or> peek r = CHR '',''"
    and "names_ok M names" "value_ok M off names v" "int M < 2 ^ 31" "m \<le> value_cell off v"
  shows "\<exists>ary'. ina_parse_field ary (int m) off names (Some (value_text (names_of names) v @ r)) = Some (ary', None)"
proof -
  have "\<not> is_digit (peek r)" using assms(3) by (auto simp: is_stop_def is_blank_def is_digit_def)
  from field_value_ok [OF assms(4,5) this assms(6)]
  have "field_value (int m) off names (-1) (-1) (value_text (names_of names) v @ r) =
      Some (Some (int (value_cell off v), -1, r))" by simp
  note one = one_value_field [OF this value_text_peek [OF assms(4,5)] assms(3) refl]
  have "int (value_cell off v) < 2 ^ 31" using value_cell_less [OF assms(5)] assms(6) by linarith
  from fill_exhausted [OF assms(1,2,7) this] one show ?thesis by fastforce
qed

theorem cron_value_rejected_witness:
  "\<exists>ary'. ina_parse_field (replicate 7 0) 7 0 (Some dow_array) (Some ''Mon'') = Some (ary', None)"
proof -
  have "names_ok 14 (Some dow_array)" by code_simp
  from cron_value_rejected [of 7 "replicate 7 0" "[]", OF _ _ _ this, of 0 "Name 8"]
  show ?thesis by (simp add: is_stop_def names_of_def dow_array_def)
qed

text \<open>Months are counted from one, but nothing refuses month zero: the parser writes in front of the
  array of months.  The pattern is \<open>0 0 0 0 *\<close> of the test suite, for example.\<close>

theorem cron_month_zero:
  assumes "is_stop (peek r) \<or> peek r = CHR '',''"
  shows "ina_parse_field ary 12 (-1) (Some mon_array) (Some (''0'' @ r)) = None"
proof -
  have nd: "\<not> is_digit (peek r)" using assms by (auto simp: is_stop_def is_blank_def is_digit_def)
  have "c_strtol (''0'' @ r) = (0, r)" using strtol_number [OF nd, of 0] by (simp add: digits_in.simps [of 10 0] digit_char_def)
  then have "field_value (int 12) (-1) (Some mon_array) (-1) (-1) (''0'' @ r) = Some (Some (-1, -1, r))"
    by (simp add: field_value_def is_digit_def to_int_small int_ok_def)
  moreover have "\<not> is_stop (peek (''0'' @ r))" by (simp add: is_stop_def is_blank_def)
  moreover have "fill (int 12) 1 (-1) (-1) ary = None"
    by (simp add: fill_def int_ok_def FAILSAFE_def numeral_eq_Suc signed_modulo_int_def)
  ultimately show ?thesis using one_value_field [OF _ _ assms, of 12 "-1" "Some mon_array" "''0'' @ r" "-1"] by simp
qed

theorem cron_month_zero_witness:
  "ina_parse_field (replicate 12 0) 12 (-1) (Some mon_array) (Some ''0 *'') = None"
  using cron_month_zero [of "'' *''" "replicate 12 0"] by (simp add: is_stop_def is_blank_def)

text \<open>Fields that are missing at the end of a pattern are not noticed: a pattern of one field is
  accepted, and its timetable never matches.\<close>

theorem cron_short_pattern:
  assumes "field_good 60 0 None its" "tm_ok t"
  shows "\<exists>tt. ina_cron_parse_pattern (Some (field_text [] its)) (Some zero_timetable) = Some (Inr (), Some tt) \<and>
    \<not> tt_match tt t"
proof -
  have N: "names_ok 60 None" by (simp add: names_ok_def)
  have "ina_parse_field (replicate 60 0) 60 0 None (Some (field_text [] its)) =
      Some (mark (replicate 60 0) (field_cells 60 0 its), Some [])"
    using field_next [OF N assms(1), of "replicate 60 0" "[]"] by (simp add: names_of_def FAILSAFE_def is_stop_def)
  moreover have "ina_parse_field a m off ns (Some []) = Some (a, Some [])" for a m off ns
    by (simp add: ina_parse_field_def parse_loop.simps is_stop_def)
  moreover have "field_text [] its \<noteq> []" using field_text_peek [OF N assms(1), of "[]"] by (auto simp: is_stop_def names_of_def)
  ultimately show ?thesis using assms(2)
    by (auto simp: ina_cron_parse_pattern_def parse_fields_def zero_timetable_def fix_days_def tt_match_def tm_ok_def Let_def)
qed

theorem cron_short_pattern_witness:
  "\<exists>tt. ina_cron_parse_pattern (Some ''*'') (Some zero_timetable) = Some (Inr (), Some tt) \<and>
    \<not> tt_match tt \<lparr>tm_min = 0, tm_hour = 0, tm_mday = 1, tm_mon = 0, tm_wday = 0\<rparr>"
  using cron_short_pattern [of "[(Star, None)]" "\<lparr>tm_min = 0, tm_hour = 0, tm_mday = 1, tm_mon = 0, tm_wday = 0\<rparr>"]
  by (simp add: field_good_def item_ok_def tm_ok_def item_text_def)

end
