(* ===== verification/Inac_Fsm.thy ===== *)
theory Inac_Fsm
  imports Inac_Prelude
begin

text \<open>
  The state machine macros of \<open>include/libinac/fsm.h\<close>: a 16-bit status word with the last event
  in its high and the state in its low byte, a transition table indexed by event and state, and
  the two functions that take a transition.

  The status is passed to these functions by address and the actions receive a user pointer; in
  the library the status is a member of the user data, so an action can change it.  The model
  therefore keeps one store \<open>'u\<close> and reads and writes the status in it with \<open>rd\<close> and \<open>wr\<close>.  An
  index outside of the table, and an action that is undefined, are \<open>None\<close>.
\<close>

section \<open>Status words\<close>

type_synonym fsm_status = u16
type_synonym fsm_state = u8

definition INA_LOW :: "u16 \<Rightarrow> u8" where
  "INA_LOW x = ucast x"

definition INA_HIGH :: "u16 \<Rightarrow> u8" where
  "INA_HIGH x = ucast (drop_bit 8 x)"

definition INA_TOWORD :: "u8 \<Rightarrow> u8 \<Rightarrow> u16" where
  "INA_TOWORD x y = push_bit 8 (ucast x) OR ucast y"

definition get_fsm_state :: "fsm_status \<Rightarrow> fsm_state" where
  "get_fsm_state s = INA_LOW s"

definition set_fsm_state :: "fsm_state \<Rightarrow> fsm_status \<Rightarrow> fsm_status" where
  "set_fsm_state ns s = INA_TOWORD (INA_HIGH s) ns"

definition get_fsm_event :: "fsm_status \<Rightarrow> u8" where
  "get_fsm_event s = INA_HIGH s"

definition set_fsm_event :: "u8 \<Rightarrow> fsm_status \<Rightarrow> fsm_status" where
  "set_fsm_event e s = INA_TOWORD e (INA_LOW s)"

section \<open>Transitions\<close>

record 'u fsm_transition =
  action :: "('u \<Rightarrow> 'u option) option"
  next_state :: fsm_state

type_synonym 'u fsm_table = "'u fsm_transition list list"

definition INA_FSM_TRANSITION :: "('u \<Rightarrow> 'u option) \<Rightarrow> fsm_state \<Rightarrow> 'u fsm_transition" where
  "INA_FSM_TRANSITION act ns = \<lparr>action = Some act, next_state = ns\<rparr>"

definition INA_FSM_NO_TRANSITION :: "fsm_state \<Rightarrow> 'u fsm_transition" where
  "INA_FSM_NO_TRANSITION st = \<lparr>action = None, next_state = st\<rparr>"

definition table_at :: "'u fsm_table \<Rightarrow> u8 \<Rightarrow> u8 \<Rightarrow> 'u fsm_transition option" where
  "table_at tbl e st =
     (if unat e < length tbl \<and> unat st < length (tbl ! unat e) then Some (tbl ! unat e ! unat st) else None)"

definition run_action :: "'u fsm_transition \<Rightarrow> 'u \<Rightarrow> 'u option" where
  "run_action tr u = (case action tr of None \<Rightarrow> Some u | Some f \<Rightarrow> f u)"

definition next_fsm_state ::
    "'u fsm_table \<Rightarrow> ('u \<Rightarrow> fsm_status) \<Rightarrow> (fsm_status \<Rightarrow> 'u \<Rightarrow> 'u) \<Rightarrow> 'u \<Rightarrow> (fsm_state \<times> 'u) option" where
  "next_fsm_state tbl rd wr u =
     Option.bind (table_at tbl (get_fsm_event (rd u)) (get_fsm_state (rd u))) (\<lambda>tr.
     Option.bind (run_action tr u) (\<lambda>u.
     Some (next_state tr, wr (set_fsm_state (next_state tr) (rd u)) u)))"

definition fsm_fire_event ::
    "'u fsm_table \<Rightarrow> ('u \<Rightarrow> fsm_status) \<Rightarrow> (fsm_status \<Rightarrow> 'u \<Rightarrow> 'u) \<Rightarrow> u8 \<Rightarrow> 'u \<Rightarrow> (fsm_state \<times> 'u) option" where
  "fsm_fire_event tbl rd wr e u =
     Option.bind (table_at tbl e (get_fsm_state (rd u))) (\<lambda>tr.
     Option.bind (run_action tr u) (\<lambda>u.
     let u = wr (set_fsm_event e (rd u)) u;
         u = wr (set_fsm_state (next_state tr) (rd u)) u
     in Some (next_state tr, u)))"

section \<open>Status words hold two bytes\<close>

named_theorems fsm_simps \<open>reading back what was written to a status word\<close>

lemma INA_LOW_word [fsm_simps, simp]: "INA_LOW (INA_TOWORD x y) = y"
  unfolding INA_LOW_def INA_TOWORD_def
  by (rule bit_word_eqI) (auto simp: bit_simps)

lemma INA_HIGH_word [fsm_simps, simp]: "INA_HIGH (INA_TOWORD x y) = x"
  unfolding INA_HIGH_def INA_TOWORD_def
  by (rule bit_word_eqI) (auto simp: bit_simps dest: bit_imp_le_length)

lemma INA_TOWORD_parts [fsm_simps, simp]: "INA_TOWORD (INA_HIGH s) (INA_LOW s) = s"
  unfolding INA_HIGH_def INA_LOW_def INA_TOWORD_def
  by (rule bit_word_eqI) (auto simp: bit_simps)

lemma fsm_get_set [fsm_simps, simp]:
  "get_fsm_state (set_fsm_state st s) = st" "get_fsm_event (set_fsm_state st s) = get_fsm_event s"
  "get_fsm_event (set_fsm_event e s) = e" "get_fsm_state (set_fsm_event e s) = get_fsm_state s"
  by (simp_all add: get_fsm_state_def set_fsm_state_def get_fsm_event_def set_fsm_event_def)

lemma fsm_status_eqI: "get_fsm_state s = get_fsm_state t \<Longrightarrow> get_fsm_event s = get_fsm_event t \<Longrightarrow> s = t"
  by (metis INA_TOWORD_parts get_fsm_state_def get_fsm_event_def)

section \<open>Machines\<close>

text \<open>A table is complete for \<open>ne\<close> events and \<open>ns\<close> states when it has a transition for each
  pair and every transition leads to one of the states.\<close>

definition table_complete :: "nat \<Rightarrow> nat \<Rightarrow> 'u fsm_table \<Rightarrow> bool" where
  "table_complete ne ns tbl \<longleftrightarrow>
     length tbl = ne \<and> list_all (\<lambda>row. length row = ns \<and> list_all (\<lambda>tr. unat (next_state tr) < ns) row) tbl"

fun fire_events ::
    "'u fsm_table \<Rightarrow> ('u \<Rightarrow> fsm_status) \<Rightarrow> (fsm_status \<Rightarrow> 'u \<Rightarrow> 'u) \<Rightarrow> u8 list \<Rightarrow> 'u \<Rightarrow> 'u option" where
  "fire_events tbl rd wr [] u = Some u"
| "fire_events tbl rd wr (e # es) u =
     Option.bind (fsm_fire_event tbl rd wr e u) (\<lambda>(_, u). fire_events tbl rd wr es u)"

text \<open>The interface between a machine and its store: the status is a cell of the store, every action
  of the table is defined on the stores in which it can be fired and keeps them so.\<close>

locale fsm_store =
  fixes tbl :: "'u fsm_table" and rd :: "'u \<Rightarrow> fsm_status" and wr :: "fsm_status \<Rightarrow> 'u \<Rightarrow> 'u"
    and ne ns :: nat and ok :: "'u \<Rightarrow> bool"
  assumes rd_wr: "rd (wr s u) = s"
    and ok_wr: "ok u \<Longrightarrow> ok (wr s u)"
    and complete: "table_complete ne ns tbl"
    and actions: "ok u \<Longrightarrow> row \<in> set tbl \<Longrightarrow> tr \<in> set row \<Longrightarrow> \<exists>u'. run_action tr u = Some u' \<and> ok u'"
begin

lemma table_defined:
  assumes "unat e < ne" "unat st < ns"
  obtains tr where "table_at tbl e st = Some tr" "tr \<in> set (tbl ! unat e)" "tbl ! unat e \<in> set tbl" "unat (next_state tr) < ns"
proof -
  have "unat e < length tbl" using complete assms by (simp add: table_complete_def)
  then have row: "tbl ! unat e \<in> set tbl" by simp
  then have r: "length (tbl ! unat e) = ns" "list_all (\<lambda>tr. unat (next_state tr) < ns) (tbl ! unat e)"
    using complete by (auto simp: table_complete_def list_all_iff)
  then have "tbl ! unat e ! unat st \<in> set (tbl ! unat e)" using assms by simp
  then show ?thesis using that [of "tbl ! unat e ! unat st"] r row assms \<open>unat e < length tbl\<close>
    by (simp add: table_at_def list_all_iff)
qed

lemma fire_ok:
  assumes "ok u" "unat e < ne" "unat (get_fsm_state (rd u)) < ns"
  obtains st u' where "fsm_fire_event tbl rd wr e u = Some (st, u')" "ok u'" "unat st < ns"
    "get_fsm_state (rd u') = st" "get_fsm_event (rd u') = e"
proof -
  obtain tr where tr: "table_at tbl e (get_fsm_state (rd u)) = Some tr" "tr \<in> set (tbl ! unat e)"
    "tbl ! unat e \<in> set tbl" "unat (next_state tr) < ns" using table_defined [OF assms(2,3)] .
  obtain u1 where "run_action tr u = Some u1" "ok u1" using actions [OF assms(1) tr(3,2)] by blast
  then show ?thesis using that tr by (simp add: fsm_fire_event_def Let_def rd_wr ok_wr)
qed

lemma fire_events_ok:
  assumes "ok u" "\<forall>e \<in> set es. unat e < ne" "unat (get_fsm_state (rd u)) < ns"
  shows "\<exists>u'. fire_events tbl rd wr es u = Some u' \<and> ok u' \<and> unat (get_fsm_state (rd u')) < ns \<and>
    (es \<noteq> [] \<longrightarrow> get_fsm_event (rd u') = last es)"
  using assms
proof (induction es arbitrary: u)
  case Nil then show ?case by simp
next
  case (Cons e es)
  then obtain st u1 where "fsm_fire_event tbl rd wr e u = Some (st, u1)" "ok u1" "unat st < ns"
    "get_fsm_state (rd u1) = st" "get_fsm_event (rd u1) = e" by (auto intro: fire_ok [of u e])
  then show ?case using Cons.IH [of u1] Cons.prems by (cases es) auto
qed

end

end
