(* ===== verification/Inac_Process.thy ===== *)
theory Inac_Process
  imports Inac_Error Inac_Fsm
begin

text \<open>
  Processes (\<open>src/process.c\<close>, the variant for systems other than Windows): the state machine of
  a process, its actions on top of \<open>fork\<close>, \<open>kill\<close> and \<open>waitpid\<close>, and the operations that fire
  events.  The operating system is the record \<open>os\<close> of functions on a world \<open>'w\<close>; a run in which
  an assertion fails or a missing descriptor is read is \<open>None\<close>.  In the child (\<open>fork\<close> gives 0)
  the start action returns only when the change of directory fails, with the process unchanged; that is
  the branch for 0, and the arguments of the \<open>execv\<close> that otherwise replaces the child are \<open>child_args\<close>.
  Pointers that a definition takes by value stand for arguments that are not \<open>NULL\<close>.
  The global return code that \<open>INA_OS_ERROR\<close> also sets is not threaded through.
\<close>

section \<open>Data\<close>

record 'w os =
  os_fork :: "'w \<Rightarrow> int \<times> 'w"
  os_kill :: "int \<Rightarrow> int \<Rightarrow> 'w \<Rightarrow> int \<times> 'w"
  os_waitpid :: "int \<Rightarrow> bool \<Rightarrow> 'w \<Rightarrow> (int \<times> int) \<times> 'w"
  os_errno :: "'w \<Rightarrow> int"

record descriptor =
  full_path :: string
  working_dir :: "string option"
  startup_args :: "string option"
  stop_wait_time_ms :: int
  d_cf :: u32
  c_ref :: u32

record process =
  p_init :: bool
  p_descriptor :: "descriptor option"
  p_state :: fsm_status
  exit_code :: int
  last_rc :: ina_rc_t
  pid :: int

definition INA_PROCESS_CF_WAIT :: u32 where "INA_PROCESS_CF_WAIT = 4"

definition INA_PROCESS_STARTABLE :: fsm_state where "INA_PROCESS_STARTABLE = 0"
definition INA_PROCESS_RUNNING :: fsm_state where "INA_PROCESS_RUNNING = 1"
definition INA_PROCESS_STOPPED :: fsm_state where "INA_PROCESS_STOPPED = 2"
definition INA_PROCESS_START :: u8 where "INA_PROCESS_START = 0"
definition INA_PROCESS_STOP :: u8 where "INA_PROCESS_STOP = 1"
definition INA_PROCESS_RESET :: u8 where "INA_PROCESS_RESET = 2"

lemmas process_enums = INA_PROCESS_STARTABLE_def INA_PROCESS_RUNNING_def INA_PROCESS_STOPPED_def
  INA_PROCESS_START_def INA_PROCESS_STOP_def INA_PROCESS_RESET_def

definition ESRCH :: int where "ESRCH = 3"
definition SIGTERM :: int where "SIGTERM = 15"

definition WIFEXITED :: "int \<Rightarrow> bool" where
  "WIFEXITED st \<longleftrightarrow> st AND 0x7F = 0"

definition WEXITSTATUS :: "int \<Rightarrow> int" where
  "WEXITSTATUS st = drop_bit 8 st AND 0xFF"

definition os_error :: "u64 \<Rightarrow> 'w os \<Rightarrow> ina_rc_t \<Rightarrow> 'w \<Rightarrow> ina_rc_t" where
  "os_error vhex os code w = INA_RC_PACK vhex code (of_int (os_errno os w))"

definition waits :: "process \<Rightarrow> bool option" where
  "waits p = map_option (\<lambda>d. d_cf d AND INA_PROCESS_CF_WAIT \<noteq> 0) (p_descriptor p)"

section \<open>Actions\<close>

definition ina_process_is_running :: "u64 \<Rightarrow> 'w os \<Rightarrow> process \<times> 'w \<Rightarrow> (bool \<times> process \<times> 'w) option" where
  "ina_process_is_running vhex os u =
     (let (p, w) = u; (k, w) = os_kill os (pid p) 0 w; gone = (k = -1);
          failed = INA_ES ''OPERATION'' OR INA_ERR ''FAILED'';
          check = (let ((r, status), w) = os_waitpid os (pid p) True w
                   in if r = -1 then (False, p\<lparr>last_rc := os_error vhex os failed w\<rparr>, w)
                      else if r = 0 then (True, p\<lparr>last_rc := INA_SUCCESS\<rparr>, w)
                      else if exit_code p < 0 \<and> WIFEXITED status
                        then (False, p\<lparr>exit_code := WEXITSTATUS status, last_rc := INA_SUCCESS\<rparr>, w)
                      else (False, p, w))
      in if gone \<and> os_errno os w \<noteq> ESRCH then Some (False, p\<lparr>last_rc := os_error vhex os failed w\<rparr>, w)
         else if gone then
           (case waits p of
              None \<Rightarrow> None
            | Some True \<Rightarrow> Some (False, p\<lparr>last_rc := INA_SUCCESS\<rparr>, w)
            | Some False \<Rightarrow> Some check)
         else Some check)"

definition ina_process_do_start :: "u64 \<Rightarrow> 'w os \<Rightarrow> process \<times> 'w \<Rightarrow> (process \<times> 'w) option" where
  "ina_process_do_start vhex os u =
     (let (p, w) = u; (r, w) = os_fork os w
      in if r < 0 then Some (p\<lparr>last_rc := os_error vhex os (INA_ES ''PROCESS'' OR INA_ERR_NOT_of ''CREATED'') w\<rparr>, w)
         else if r = 0 then Some (p, w)
         else let p = p\<lparr>pid := r\<rparr>
              in (case waits p of
                    None \<Rightarrow> None
                  | Some False \<Rightarrow> Some (p, w)
                  | Some True \<Rightarrow>
                      let ((_, status), w) = os_waitpid os r False w
                      in if WIFEXITED status
                         then Some (p\<lparr>p_state := set_fsm_state INA_PROCESS_STOPPED (p_state p),
                                      exit_code := WEXITSTATUS status\<rparr>, w)
                         else Some (p, w)))"

definition ina_process_do_stop :: "u64 \<Rightarrow> 'w os \<Rightarrow> process \<times> 'w \<Rightarrow> process \<times> 'w" where
  "ina_process_do_stop vhex os u =
     (let (p, w) = u
      in if 0 < pid p then
           (let (k, w) = os_kill os (pid p) 0 w
            in if k \<noteq> ESRCH then
                 (let (k, w) = os_kill os (pid p) SIGTERM w
                  in if k = -1
                     then (p\<lparr>last_rc := os_error vhex os (INA_ES ''PROCESS'' OR INA_ERR_NOT_of ''STOPPED'') w\<rparr>, w)
                     else (p\<lparr>last_rc := INA_SUCCESS\<rparr>, w))
               else (p\<lparr>last_rc := os_error vhex os (INA_ES ''OPERATION'' OR INA_ERR ''FAILED'') w\<rparr>, w))
         else (p, w))"

definition ina_process_do_reset :: "process \<times> 'w \<Rightarrow> process \<times> 'w" where
  "ina_process_do_reset u =
     (let (p, w) = u in (p\<lparr>pid := 0, exit_code := -1, last_rc := ina_err_clear_rc (last_rc p)\<rparr>, w))"

definition ina_process_fsm_event_start :: "u64 \<Rightarrow> 'w os \<Rightarrow> process \<times> 'w \<Rightarrow> (process \<times> 'w) option" where
  "ina_process_fsm_event_start vhex os u = (if p_descriptor (fst u) = None then None else ina_process_do_start vhex os u)"

definition ina_process_fsm_event_stop :: "u64 \<Rightarrow> 'w os \<Rightarrow> process \<times> 'w \<Rightarrow> (process \<times> 'w) option" where
  "ina_process_fsm_event_stop vhex os u = (if p_descriptor (fst u) = None then None else Some (ina_process_do_stop vhex os u))"

definition ina_process_fsm_event_reset :: "process \<times> 'w \<Rightarrow> (process \<times> 'w) option" where
  "ina_process_fsm_event_reset u = (if p_descriptor (fst u) = None then None else Some (ina_process_do_reset u))"

definition ina_process_fsm_event_error :: "process \<times> 'w \<Rightarrow> (process \<times> 'w) option" where
  "ina_process_fsm_event_error u = Some u"

definition process_fsm_transitions :: "u64 \<Rightarrow> 'w os \<Rightarrow> (process \<times> 'w) fsm_table" where
  "process_fsm_transitions vhex os =
    [[INA_FSM_TRANSITION (ina_process_fsm_event_start vhex os) INA_PROCESS_RUNNING,
      INA_FSM_TRANSITION ina_process_fsm_event_error INA_PROCESS_STARTABLE,
      INA_FSM_TRANSITION ina_process_fsm_event_error INA_PROCESS_STARTABLE],
     [INA_FSM_TRANSITION ina_process_fsm_event_error INA_PROCESS_RUNNING,
      INA_FSM_TRANSITION (ina_process_fsm_event_stop vhex os) INA_PROCESS_STOPPED,
      INA_FSM_TRANSITION ina_process_fsm_event_error INA_PROCESS_RUNNING],
     [INA_FSM_TRANSITION ina_process_fsm_event_error INA_PROCESS_STOPPED,
      INA_FSM_TRANSITION ina_process_fsm_event_error INA_PROCESS_STOPPED,
      INA_FSM_TRANSITION ina_process_fsm_event_reset INA_PROCESS_STARTABLE]]"

definition status_of :: "process \<times> 'w \<Rightarrow> fsm_status" where
  "status_of u = p_state (fst u)"

definition put_status :: "fsm_status \<Rightarrow> process \<times> 'w \<Rightarrow> process \<times> 'w" where
  "put_status s u = ((fst u)\<lparr>p_state := s\<rparr>, snd u)"

definition process_fire :: "u64 \<Rightarrow> 'w os \<Rightarrow> u8 \<Rightarrow> process \<times> 'w \<Rightarrow> (process \<times> 'w) option" where
  "process_fire vhex os e u = map_option snd (fsm_fire_event (process_fsm_transitions vhex os) status_of put_status e u)"

section \<open>Operations\<close>

definition rc_result :: "process \<Rightarrow> 'r \<Rightarrow> 'r ina_res" where
  "rc_result p r = (if INA_FAILED (last_rc p) then Inl (last_rc p) else Inr r)"

fun on_process ::
    "(process \<times> 'w \<Rightarrow> ('r ina_res \<times> process \<times> 'w) option) \<Rightarrow> process option \<Rightarrow> 'w \<Rightarrow> ('r ina_res \<times> process option \<times> 'w) option" where
  "on_process f None w = Some (Inl INA_ERR_INVALID_ARGUMENT, None, w)"
| "on_process f (Some p) w = map_option (\<lambda>(r, p, w). (r, Some p, w)) (f (p, w))"

definition ina_process_start ::
    "u64 \<Rightarrow> 'w os \<Rightarrow> process option \<Rightarrow> 'w \<Rightarrow> (unit ina_res \<times> process option \<times> 'w) option" where
  "ina_process_start vhex os =
     on_process (\<lambda>u. Option.bind (process_fire vhex os INA_PROCESS_START u) (\<lambda>(p, w).
       Option.bind (waits p) (\<lambda>wt.
       let p = (if wt then p\<lparr>p_state := set_fsm_state INA_PROCESS_STOPPED (p_state p)\<rparr> else p)
       in Some (rc_result p (), p, w))))"

definition ina_process_stop ::
    "u64 \<Rightarrow> 'w os \<Rightarrow> process option \<Rightarrow> 'w \<Rightarrow> (unit ina_res \<times> process option \<times> 'w) option" where
  "ina_process_stop vhex os =
     on_process (\<lambda>u. Option.bind (process_fire vhex os INA_PROCESS_STOP u) (\<lambda>(p, w). Some (rc_result p (), p, w)))"

definition ina_process_reset ::
    "u64 \<Rightarrow> 'w os \<Rightarrow> process option \<Rightarrow> 'w \<Rightarrow> (unit ina_res \<times> process option \<times> 'w) option" where
  "ina_process_reset vhex os =
     on_process (\<lambda>u. Option.bind (process_fire vhex os INA_PROCESS_RESET u) (\<lambda>(p, w). Some (rc_result p (), p, w)))"

definition ina_process_query_state :: "process option \<Rightarrow> fsm_state ina_res" where
  "ina_process_query_state p =
     (case p of None \<Rightarrow> Inl INA_ERR_INVALID_ARGUMENT | Some p \<Rightarrow> rc_result p (get_fsm_state (p_state p)))"

definition ina_process_get_exit_code ::
    "u64 \<Rightarrow> 'w os \<Rightarrow> process option \<Rightarrow> 'w \<Rightarrow> (int ina_res \<times> process option \<times> 'w) option" where
  "ina_process_get_exit_code vhex os =
     on_process (\<lambda>u. Option.bind (ina_process_is_running vhex os u) (\<lambda>(running, p, w).
       Some (if running then Inl (INA_ES ''PROCESS'' OR INA_ERR ''RUNNING'') else rc_result p (exit_code p), p, w)))"

definition ina_process_should_be_running :: "unit ina_res \<Rightarrow> unit ina_res \<Rightarrow> process option \<Rightarrow> unit ina_res" where
  "ina_process_should_be_running clock_read clock_convert p =
     (if p = None then Inl INA_ERR_INVALID_ARGUMENT
      else res_bind clock_read (\<lambda>_. res_bind clock_convert (\<lambda>_.
        Inl (INA_ES ''PROCESS'' OR INA_ERR_NOT_of ''ALLOWED''))))"



text \<open>The arguments the child hands to \<open>execv\<close>: the path, the tokens, \<open>NULL\<close>, in an array of 16.\<close>

definition child_args :: "string \<Rightarrow> string list \<Rightarrow> string option list option" where
  "child_args path tokens =
     (if 1 + length tokens + 1 \<le> 16 then Some (Some path # map Some tokens @ [None]) else None)"

section \<open>Descriptors and contexts\<close>

text \<open>The members that \<open>ina_process_descriptor_new\<close> does not assign keep what the heap block held:
  \<open>raw\<close> is the uninitialised descriptor.\<close>

definition ina_process_descriptor_new ::
    "descriptor ina_res \<Rightarrow> string \<Rightarrow> string option \<Rightarrow> string option \<Rightarrow> int \<Rightarrow> u32 \<Rightarrow> descriptor ina_res" where
  "ina_process_descriptor_new raw path wd args ms cf =
     (if path = [] then Inl INA_ERR_INVALID_ARGUMENT
      else res_bind raw (\<lambda>d.
        let d = d\<lparr>full_path := path\<rparr>;
            d = (if wd \<noteq> None then d\<lparr>working_dir := wd\<rparr> else d);
            d = (if args \<noteq> None then d\<lparr>startup_args := args\<rparr> else d)
        in Inr (d\<lparr>stop_wait_time_ms := ms, d_cf := cf, c_ref := 0\<rparr>)))"

definition ina_process_descriptor_free :: "descriptor option \<Rightarrow> descriptor option" where
  "ina_process_descriptor_free d =
     (case d of None \<Rightarrow> None | Some d \<Rightarrow> if 0 < c_ref d then Some d else None)"

text \<open>The processes of a context: the registered addresses in the order of the table's iterator, and
  the records.  Pool memory is zero-filled.\<close>

record process_ctx =
  ctx_order :: "nat list"
  ctx_procs :: "nat \<rightharpoonup> process"

definition zero_process :: process where
  "zero_process = \<lparr>p_init = False, p_descriptor = None, p_state = 0, exit_code = 0, last_rc = 0, pid = 0\<rparr>"

definition recyclable :: "process_ctx \<Rightarrow> nat list" where
  "recyclable ctx = filter (\<lambda>a. case ctx_procs ctx a of None \<Rightarrow> False | Some p \<Rightarrow> p_descriptor p = None) (ctx_order ctx)"

definition wipe :: "nat list \<Rightarrow> (nat \<rightharpoonup> process) \<Rightarrow> nat \<rightharpoonup> process" where
  "wipe as m = fold (\<lambda>a m. m(a \<mapsto> zero_process)) as m"

definition process_init :: "descriptor \<Rightarrow> process \<Rightarrow> process" where
  "process_init d p =
     p\<lparr>p_descriptor := Some (d\<lparr>c_ref := 1\<rparr>), exit_code := -1, p_init := True,
       p_state := set_fsm_state INA_PROCESS_STARTABLE (p_state p)\<rparr>"

definition ina_process_new ::
    "nat ina_res \<Rightarrow> unit ina_res \<Rightarrow> process_ctx \<Rightarrow> descriptor \<Rightarrow> nat ina_res \<times> process_ctx" where
  "ina_process_new palloc dalloc ctx d =
     (if 0 < c_ref d then (Inl (INA_ES ''DESCRIPTOR'' OR INA_ERR ''IN_USE''), ctx)
      else let rs = recyclable ctx; m = wipe rs (ctx_procs ctx)
           in case (if rs \<noteq> [] then Inr (last rs) else palloc) of
                Inl e \<Rightarrow> (Inl e, ctx\<lparr>ctx_procs := m\<rparr>)
              | Inr a \<Rightarrow>
                  let m = (if rs = [] then m(a \<mapsto> zero_process) else m)
                  in case dalloc of
                       Inl e \<Rightarrow> (Inl e, ctx\<lparr>ctx_procs := m\<rparr>)
                     | Inr _ \<Rightarrow>
                         (Inr a, ctx\<lparr>ctx_procs := m(a := map_option (process_init d) (m a)),
                                   ctx_order := (if a \<in> set (ctx_order ctx) then ctx_order ctx else ctx_order ctx @ [a])\<rparr>))"

definition ina_process_free :: "nat option \<Rightarrow> process_ctx \<Rightarrow> nat option \<times> process_ctx" where
  "ina_process_free a ctx =
     (case a of None \<Rightarrow> (None, ctx)
      | Some a \<Rightarrow> (None, ctx\<lparr>ctx_procs := (ctx_procs ctx)(a := map_option (\<lambda>p. p\<lparr>p_init := True, p_descriptor := None\<rparr>)
                                          (ctx_procs ctx a))\<rparr>))"

text \<open>Starting a program in one call, and waiting for its end.\<close>

definition start_at ::
    "u64 \<Rightarrow> 'w os \<Rightarrow> nat \<Rightarrow> process_ctx \<Rightarrow> 'w \<Rightarrow> (unit ina_res \<times> process_ctx \<times> 'w) option" where
  "start_at vhex os a ctx w =
     map_option (\<lambda>(r, p, w). (r, ctx\<lparr>ctx_procs := (ctx_procs ctx)(a := p)\<rparr>, w)) (ina_process_start vhex os (ctx_procs ctx a) w)"

definition ina_process_exec ::
    "u64 \<Rightarrow> 'w os \<Rightarrow> descriptor ina_res \<Rightarrow> nat ina_res \<Rightarrow> unit ina_res \<Rightarrow> process_ctx \<Rightarrow> string \<Rightarrow> string option \<Rightarrow> 'w \<Rightarrow>
       (unit ina_res \<times> nat option \<times> process_ctx \<times> 'w) option" where
  "ina_process_exec vhex os raw palloc dalloc ctx path args w =
     (case ina_process_descriptor_new raw path None args 20 0 of
        Inl e \<Rightarrow> Some (Inl e, None, ctx, w)
      | Inr d \<Rightarrow>
          (case ina_process_new palloc dalloc ctx d of
             (Inl e, ctx) \<Rightarrow> Some (Inl e, None, ctx, w)
           | (Inr a, ctx) \<Rightarrow> map_option (\<lambda>(r, ctx, w). (r, Some a, ctx, w)) (start_at vhex os a ctx w)))"

definition ina_process_exec_and_wait ::
    "u64 \<Rightarrow> 'w os \<Rightarrow> descriptor ina_res \<Rightarrow> nat ina_res \<Rightarrow> unit ina_res \<Rightarrow> process_ctx \<Rightarrow> string \<Rightarrow> string option \<Rightarrow> 'w \<Rightarrow>
       (unit ina_res \<times> nat option \<times> process_ctx \<times> 'w) option" where
  "ina_process_exec_and_wait vhex os raw palloc dalloc ctx path args w =
     (case ina_process_descriptor_new raw path None args 20 INA_PROCESS_CF_WAIT of
        Inl e \<Rightarrow> Some (Inl e, None, ctx, w)
      | Inr d \<Rightarrow>
          (case ina_process_new palloc dalloc ctx d of
             (Inl e, ctx) \<Rightarrow> Some (Inr (), None, ctx, w)
           | (Inr a, ctx) \<Rightarrow>
               Option.bind (start_at vhex os a ctx w) (\<lambda>(r, ctx, w).
               case r of
                 Inl e \<Rightarrow> Some (Inl e, Some a, ctx, w)
               | Inr _ \<Rightarrow>
                   map_option (\<lambda>(r, p, w). (res_bind r (\<lambda>_. Inr ()), Some a, ctx\<lparr>ctx_procs := (ctx_procs ctx)(a := p)\<rparr>, w))
                     (ina_process_get_exit_code vhex os (ctx_procs ctx a) w))))"

section \<open>Statistics\<close>

record process_stat =
  st_binary :: string
  st_available :: bool
  st_cmd :: "string option"
  st_mem :: u64
  st_threads :: int

definition ina_process_stat_new :: "string \<Rightarrow> process_stat ina_res" where
  "ina_process_stat_new binary =
     (if binary = [] then Inl INA_ERR_INVALID_ARGUMENT
      else Inr \<lparr>st_binary = binary, st_available = False, st_cmd = None, st_mem = 0, st_threads = 0\<rparr>)"

text \<open>The query itself runs a script (\<open>lprocqry.lua\<close>); its answer is an argument: an error before the
  out-parameters are set, or a table, or none.\<close>

definition ina_process_stat_query ::
    "(ina_rc_t + (string \<times> u64 \<times> int) option) \<Rightarrow> process_stat \<Rightarrow> unit ina_res \<times> process_stat" where
  "ina_process_stat_query q st =
     (let st = st\<lparr>st_available := False, st_cmd := None, st_mem := 0, st_threads := 0\<rparr>
      in case q of
           Inl e \<Rightarrow> (Inl e, st)
         | Inr None \<Rightarrow> (Inr (), st)
         | Inr (Some (cmd, mem, thr)) \<Rightarrow>
             (Inr (), st\<lparr>st_available := True, st_cmd := Some cmd, st_mem := mem, st_threads := thr\<rparr>))"

definition ina_process_stat_alive :: "process_stat option \<Rightarrow> bool ina_res" where
  "ina_process_stat_alive st = (case st of None \<Rightarrow> Inl INA_ERR_INVALID_ARGUMENT | Some st \<Rightarrow> Inr (st_available st))"

definition ina_process_stat_get_cmd :: "process_stat option \<Rightarrow> string option ina_res" where
  "ina_process_stat_get_cmd st = (case st of None \<Rightarrow> Inl INA_ERR_INVALID_ARGUMENT | Some st \<Rightarrow> Inr (st_cmd st))"

definition ina_process_stat_get_memory :: "process_stat option \<Rightarrow> u64 ina_res" where
  "ina_process_stat_get_memory st = (case st of None \<Rightarrow> Inl INA_ERR_INVALID_ARGUMENT | Some st \<Rightarrow> Inr (st_mem st))"

definition ina_process_stat_get_num_threads :: "process_stat option \<Rightarrow> int ina_res" where
  "ina_process_stat_get_num_threads st = (case st of None \<Rightarrow> Inl INA_ERR_INVALID_ARGUMENT | Some st \<Rightarrow> Inr (st_threads st))"

section \<open>The state machine is safe\<close>

lemma process_table_complete: "table_complete 3 3 (process_fsm_transitions vhex os)"
  by (simp add: table_complete_def process_fsm_transitions_def INA_FSM_TRANSITION_def process_enums)

lemma start_keeps:
  "p_descriptor (fst u) = Some d \<Longrightarrow> \<exists>u'. ina_process_do_start vhex os u = Some u' \<and> p_descriptor (fst u') = Some d"
  by (auto simp: ina_process_do_start_def waits_def Let_def split: prod.splits bool.splits)

lemma stop_keeps: "p_descriptor (fst (ina_process_do_stop vhex os u)) = p_descriptor (fst u)"
  by (auto simp: ina_process_do_stop_def Let_def split: prod.splits)

lemma reset_keeps: "p_descriptor (fst (ina_process_do_reset u)) = p_descriptor (fst u)"
  by (auto simp: ina_process_do_reset_def split: prod.splits)

interpretation proc: fsm_store "process_fsm_transitions vhex os" status_of put_status 3 3 "\<lambda>u. p_descriptor (fst u) = Some d"
  for vhex os d
proof unfold_locales
  fix u :: "process \<times> 'a" and row tr
  assume u: "p_descriptor (fst u) = Some d" and row: "row \<in> set (process_fsm_transitions vhex os)" and tr: "tr \<in> set row"
  have "action tr \<in> Some ` {ina_process_fsm_event_start vhex os, ina_process_fsm_event_stop vhex os,
      ina_process_fsm_event_reset, ina_process_fsm_event_error}"
    using row tr by (auto simp: process_fsm_transitions_def INA_FSM_TRANSITION_def)
  then show "\<exists>u'. run_action tr u = Some u' \<and> p_descriptor (fst u') = Some d"
    using u start_keeps [OF u, of vhex os]
    by (auto simp: run_action_def ina_process_fsm_event_start_def ina_process_fsm_event_stop_def
        ina_process_fsm_event_reset_def ina_process_fsm_event_error_def stop_keeps reset_keeps simp del: split_paired_Ex)
qed (simp_all add: status_of_def put_status_def process_table_complete)

text \<open>Whatever events are fired at a process that has a descriptor, and whatever the operating system
  answers, no transition leaves the table: the run is defined, the state stays one of the three, the last
  event is recorded and the descriptor is kept.\<close>

theorem process_type_safe:
  assumes "p_descriptor p = Some d" "\<forall>e \<in> set es. unat e < 3" "unat (get_fsm_state (p_state p)) < 3"
  shows "\<exists>p' w'. fire_events (process_fsm_transitions vhex os) status_of put_status es (p, w) = Some (p', w') \<and>
    p_descriptor p' = Some d \<and> get_fsm_state (p_state p') \<in> {INA_PROCESS_STARTABLE, INA_PROCESS_RUNNING, INA_PROCESS_STOPPED} \<and>
    (es \<noteq> [] \<longrightarrow> get_fsm_event (p_state p') = last es)"
proof -
  have three: "x \<in> {INA_PROCESS_STARTABLE, INA_PROCESS_RUNNING, INA_PROCESS_STOPPED}" if "unat x < 3" for x :: u8
  proof -
    from that have "unat x = unat (0 :: u8) \<or> unat x = unat (1 :: u8) \<or> unat x = unat (2 :: u8)" by simp linarith
    then show ?thesis unfolding word_unat_eq_iff [symmetric] by (simp add: process_enums)
  qed
  show ?thesis using proc.fire_events_ok [of "(p, w)" d es vhex os] assms three by (auto simp: status_of_def)
qed

text \<open>The operating system of the witnesses: worlds count the calls, \<open>fork\<close> gives 42, \<open>kill\<close> succeeds,
  \<open>waitpid\<close> reports a running process before call number 4 and then the exit code 5.\<close>

definition demo_os :: "nat os" where
  "demo_os = \<lparr>os_fork = (\<lambda>w. (42, Suc w)), os_kill = (\<lambda>_ _ w. (0, Suc w)),
     os_waitpid = (\<lambda>i _ w. (if w < 4 then (0, 0) else (i, 0x500), Suc w)), os_errno = (\<lambda>_. 0)\<rparr>"

definition demo_desc :: descriptor where
  "demo_desc = \<lparr>full_path = ''/bin/ls'', working_dir = None, startup_args = None, stop_wait_time_ms = 30, d_cf = 0, c_ref = 0\<rparr>"

definition demo_process :: process where
  "demo_process = process_init demo_desc zero_process"

theorem process_type_safe_witness:
  "\<exists>p' w'. fire_events (process_fsm_transitions 0 demo_os) status_of put_status [0, 0, 1, 2] (demo_process, 0) = Some (p', w') \<and>
    p_descriptor p' = Some (demo_desc\<lparr>c_ref := 1\<rparr>) \<and>
    get_fsm_state (p_state p') \<in> {INA_PROCESS_STARTABLE, INA_PROCESS_RUNNING, INA_PROCESS_STOPPED} \<and> get_fsm_event (p_state p') = 2"
  using process_type_safe [of demo_process "demo_desc\<lparr>c_ref := 1\<rparr>" "[0, 0, 1, 2]" 0 demo_os 0]
  by (simp add: demo_process_def process_init_def zero_process_def process_enums)

section \<open>Life cycle\<close>

lemma fire_START:
  "get_fsm_state (p_state p) = INA_PROCESS_STARTABLE \<Longrightarrow>
    process_fire vhex os INA_PROCESS_START (p, w) = map_option (\<lambda>u. put_status (set_fsm_state INA_PROCESS_RUNNING
      (set_fsm_event INA_PROCESS_START (status_of u))) u) (ina_process_fsm_event_start vhex os (p, w))"
  by (cases "ina_process_fsm_event_start vhex os (p, w)")
     (simp_all add: process_fire_def fsm_fire_event_def table_at_def process_fsm_transitions_def process_enums
       INA_FSM_TRANSITION_def run_action_def status_of_def put_status_def Let_def)

lemma fire_STOP:
  "get_fsm_state (p_state p) = INA_PROCESS_RUNNING \<Longrightarrow>
    process_fire vhex os INA_PROCESS_STOP (p, w) = map_option (\<lambda>u. put_status (set_fsm_state INA_PROCESS_STOPPED
      (set_fsm_event INA_PROCESS_STOP (status_of u))) u) (ina_process_fsm_event_stop vhex os (p, w))"
  by (cases "ina_process_fsm_event_stop vhex os (p, w)")
     (simp_all add: process_fire_def fsm_fire_event_def table_at_def process_fsm_transitions_def process_enums
       INA_FSM_TRANSITION_def run_action_def status_of_def put_status_def Let_def)

lemma fire_RESET:
  "get_fsm_state (p_state p) = INA_PROCESS_STOPPED \<Longrightarrow>
    process_fire vhex os INA_PROCESS_RESET (p, w) = map_option (\<lambda>u. put_status (set_fsm_state INA_PROCESS_STARTABLE
      (set_fsm_event INA_PROCESS_RESET (status_of u))) u) (ina_process_fsm_event_reset (p, w))"
  by (cases "ina_process_fsm_event_reset (p, w)")
     (simp_all add: process_fire_def fsm_fire_event_def table_at_def process_fsm_transitions_def process_enums
       INA_FSM_TRANSITION_def run_action_def status_of_def put_status_def Let_def)

definition at_state :: "u8 \<Rightarrow> fsm_state \<Rightarrow> process \<Rightarrow> process" where
  "at_state e st p = p\<lparr>p_state := INA_TOWORD e st\<rparr>"

lemma at_state_sel [simp]:
  "get_fsm_state (p_state (at_state e st p)) = st" "waits (at_state e st p) = waits p" "last_rc (at_state e st p) = last_rc p"
  "p_descriptor (at_state e st p) = p_descriptor p" "pid (at_state e st p) = pid p"
  by (simp_all add: at_state_def get_fsm_state_def waits_def)

lemma put_at_state: "put_status (set_fsm_state st (set_fsm_event e s)) (p, w) = (at_state e st p, w)"
  by (simp add: put_status_def at_state_def set_fsm_state_def set_fsm_event_def)

lemma waits_desc:
  assumes "waits p = Some b"
  obtains d where "p_descriptor p = Some d" "(d_cf d AND INA_PROCESS_CF_WAIT \<noteq> 0) = b"
  using assms by (auto simp: waits_def)

lemma toword_state [simp]: "get_fsm_state (INA_TOWORD e st) = st"
  by (simp add: get_fsm_state_def)

lemmas status_defs = put_status_def status_of_def set_fsm_state_def set_fsm_event_def at_state_def rc_result_def waits_def

lemma failed_success [simp]: "\<not> INA_FAILED 0" "\<not> INA_FAILED INA_SUCCESS"
  by (simp_all add: INA_FAILED_def INA_SUCCESS_def)

text \<open>C31. The intended life cycle of a process without the flag to wait and with no return code pending, when \<open>fork\<close> and \<open>kill\<close> succeed: start
  forks once and records the child, stop looks the child up and then sends it \<open>SIGTERM\<close>, with no other call, and reset makes
  the process startable again with no child and no exit code, and calls nothing.\<close>

theorem process_cycle:
  assumes "waits p = Some False" "last_rc p = INA_SUCCESS" "\<forall>w. 0 < fst (os_fork os w)" "\<forall>i s w. fst (os_kill os i s w) = 0"
  shows "\<exists>w1 w2 p1 p2 p3. ina_process_start vhex os (Some (at_state e INA_PROCESS_STARTABLE p)) w = Some (Inr (), Some p1, w1) \<and>
    get_fsm_state (p_state p1) = INA_PROCESS_RUNNING \<and> (pid p1, w1) = os_fork os w \<and>
    ina_process_stop vhex os (Some p1) w1 = Some (Inr (), Some p2, w2) \<and>
    w2 = snd (os_kill os (pid p1) SIGTERM (snd (os_kill os (pid p1) 0 w1))) \<and> get_fsm_state (p_state p2) = INA_PROCESS_STOPPED \<and>
    ina_process_reset vhex os (Some p2) w2 = Some (Inr (), Some p3, w2) \<and>
    p3 = (at_state INA_PROCESS_RESET INA_PROCESS_STARTABLE p)\<lparr>pid := 0, exit_code := -1\<rparr>"
proof -
  obtain r w1 where f: "os_fork os w = (r, w1)" by force
  define w2 where "w2 = snd (os_kill os r SIGTERM (snd (os_kill os r 0 w1)))"
  have r: "0 < r" using assms(3) f by (metis fst_conv)
  let ?p1 = "at_state INA_PROCESS_START INA_PROCESS_RUNNING (p\<lparr>pid := r\<rparr>)"
  let ?p2 = "at_state INA_PROCESS_STOP INA_PROCESS_STOPPED (p\<lparr>pid := r\<rparr>)"
  let ?p3 = "at_state INA_PROCESS_RESET INA_PROCESS_STARTABLE (p\<lparr>pid := 0, exit_code := -1\<rparr>)"
  obtain d where d: "p_descriptor p = Some d" "d_cf d AND INA_PROCESS_CF_WAIT = 0" using waits_desc [OF assms(1)] by auto
  have rc: "p\<lparr>last_rc := INA_SUCCESS\<rparr> = p" using assms(2) by (cases p) simp
  have "ina_process_start vhex os (Some (at_state e INA_PROCESS_STARTABLE p)) w = Some (Inr (), Some ?p1, w1)"
    using assms(2) d f r by (simp add: ina_process_start_def fire_START ina_process_fsm_event_start_def ina_process_do_start_def status_defs Let_def)
  moreover have "ina_process_stop vhex os (Some ?p1) w1 = Some (Inr (), Some ?p2, w2)"
    using assms(2,4) d r rc
    by (simp add: ina_process_stop_def fire_STOP ina_process_fsm_event_stop_def ina_process_do_stop_def
        status_defs ESRCH_def w2_def case_prod_beta)
  moreover have "ina_process_reset vhex os (Some ?p2) w2 = Some (Inr (), Some ?p3, w2)"
    using assms(2) d rc by (simp add: ina_process_reset_def fire_RESET ina_process_fsm_event_reset_def ina_process_do_reset_def
        status_defs ina_err_clear_rc_def INA_SUCCESS_def)
  moreover have "?p3 = (at_state INA_PROCESS_RESET INA_PROCESS_STARTABLE p)\<lparr>pid := 0, exit_code := -1\<rparr>" by (simp add: at_state_def)
  ultimately show ?thesis using f
    by (intro exI [of _ w1] exI [of _ w2] exI [of _ ?p1] exI [of _ ?p2] exI [of _ ?p3]) (simp add: w2_def)
qed

theorem process_cycle_witness:
  "\<exists>p1 p2 p3. ina_process_start 0 demo_os (Some (at_state 0 INA_PROCESS_STARTABLE demo_process)) 0 = Some (Inr (), Some p1, 1) \<and>
    get_fsm_state (p_state p1) = INA_PROCESS_RUNNING \<and> pid p1 = 42 \<and>
    ina_process_stop 0 demo_os (Some p1) 1 = Some (Inr (), Some p2, 3) \<and> get_fsm_state (p_state p2) = INA_PROCESS_STOPPED \<and>
    ina_process_reset 0 demo_os (Some p2) 3 = Some (Inr (), Some p3, 3) \<and>
    p3 = (at_state INA_PROCESS_RESET INA_PROCESS_STARTABLE demo_process)\<lparr>pid := 0, exit_code := -1\<rparr>"
proof -
  have "waits demo_process = Some False" "last_rc demo_process = INA_SUCCESS"
    by (simp_all add: waits_def demo_process_def process_init_def demo_desc_def zero_process_def INA_SUCCESS_def)
  from process_cycle [OF this, of demo_os 0 0 0] show ?thesis by (auto simp: demo_os_def numeral_3_eq_3)
qed

subsection \<open>Starts and stops by the cron library\<close>










text \<open>The transitions meant for wrong events change the state although nothing happens: starting a
  running process makes it startable (the child goes on, and a further start forgets it), stopping a process
  that was never started makes it running, and resetting a running one makes it stopped.  All three report
  success.\<close>

theorem process_wrong_events:
  assumes "waits p = Some False" "last_rc p = INA_SUCCESS"
  shows "ina_process_start vhex os (Some (at_state e INA_PROCESS_RUNNING p)) w =
      Some (Inr (), Some (at_state INA_PROCESS_START INA_PROCESS_STARTABLE p), w) \<and>
    ina_process_stop vhex os (Some (at_state e INA_PROCESS_STARTABLE p)) w =
      Some (Inr (), Some (at_state INA_PROCESS_STOP INA_PROCESS_RUNNING p), w) \<and>
    ina_process_reset vhex os (Some (at_state e INA_PROCESS_RUNNING p)) w =
      Some (Inr (), Some (at_state INA_PROCESS_RESET INA_PROCESS_STOPPED p), w)"
proof -
  obtain d where d: "p_descriptor p = Some d" "d_cf d AND INA_PROCESS_CF_WAIT = 0" using waits_desc [OF assms(1)] by auto
  then show ?thesis using assms(2)
    by (simp add: ina_process_start_def ina_process_stop_def ina_process_reset_def process_fire_def fsm_fire_event_def
        table_at_def process_fsm_transitions_def process_enums INA_FSM_TRANSITION_def run_action_def Let_def
        ina_process_fsm_event_error_def status_defs)
qed

theorem process_wrong_events_witness:
  "ina_process_start 0 demo_os (Some (at_state 0 INA_PROCESS_RUNNING demo_process)) 0 =
      Some (Inr (), Some (at_state INA_PROCESS_START INA_PROCESS_STARTABLE demo_process), 0) \<and>
    ina_process_stop 0 demo_os (Some (at_state 0 INA_PROCESS_STARTABLE demo_process)) 0 =
      Some (Inr (), Some (at_state INA_PROCESS_STOP INA_PROCESS_RUNNING demo_process), 0) \<and>
    ina_process_reset 0 demo_os (Some (at_state 0 INA_PROCESS_RUNNING demo_process)) 0 =
      Some (Inr (), Some (at_state INA_PROCESS_RESET INA_PROCESS_STOPPED demo_process), 0)"
  by (rule process_wrong_events)
     (simp_all add: waits_def demo_process_def process_init_def demo_desc_def zero_process_def INA_SUCCESS_def)

section \<open>Waiting for an exit code\<close>

text \<open>Asking for the exit code until the process is not reported as running, at most \<open>n\<close> times.\<close>

fun poll :: "u64 \<Rightarrow> 'w os \<Rightarrow> nat \<Rightarrow> process \<Rightarrow> 'w \<Rightarrow> (int ina_res \<times> process option \<times> 'w) option" where
  "poll vhex os 0 p w = None"
| "poll vhex os (Suc n) p w =
     (case ina_process_get_exit_code vhex os (Some p) w of
        None \<Rightarrow> None
      | Some (r, None, w) \<Rightarrow> Some (r, None, w)
      | Some (r, Some p, w) \<Rightarrow>
          if r = Inl (INA_ES ''PROCESS'' OR INA_ERR ''RUNNING'') then poll vhex os n p w else Some (r, Some p, w))"

text \<open>What the operating system does with a child that exits: \<open>n\<close> queries find it running, the next one
  reports the status.\<close>

fun exits_after :: "'w os \<Rightarrow> int \<Rightarrow> int \<Rightarrow> nat \<Rightarrow> 'w \<Rightarrow> bool" where
  "exits_after os i status n w =
     (let (k, w1) = os_kill os i 0 w; ((r, st), w2) = os_waitpid os i True w1
      in k = 0 \<and> (case n of 0 \<Rightarrow> r = i \<and> st = status | Suc m \<Rightarrow> r = 0 \<and> exits_after os i status m w2))"

declare exits_after.simps [simp del]

text \<open>C30. A child that exits is eventually reported: when it is found running \<open>n\<close> times before its status
  arrives, the next query returns its exit code, and the code stays with the process.\<close>

theorem exit_is_reported:
  assumes "exits_after os (pid p) status n w" "0 < pid p" "exit_code p < 0" "WIFEXITED status"
  shows "\<exists>p' w'. poll vhex os (Suc n) p w = Some (Inr (WEXITSTATUS status), Some p', w') \<and>
    exit_code p' = WEXITSTATUS status \<and> last_rc p' = INA_SUCCESS"
  using assms
proof (induction n arbitrary: p w)
  case 0
  then obtain w1 w2 where "os_kill os (pid p) 0 w = (0, w1)" "os_waitpid os (pid p) True w1 = ((pid p, status), w2)"
    by (auto simp: exits_after.simps Let_def split: prod.splits)
  then show ?case using 0
    by (simp add: ina_process_get_exit_code_def ina_process_is_running_def Let_def rc_result_def)
next
  case (Suc n)
  then obtain w1 w2 st where w: "os_kill os (pid p) 0 w = (0, w1)" "os_waitpid os (pid p) True w1 = ((0, st), w2)"
    and e: "exits_after os (pid p) status n w2"
    by (auto simp: exits_after.simps [of os "pid p" status "Suc n" w] Let_def split: prod.splits)
  let ?p = "p\<lparr>last_rc := INA_SUCCESS\<rparr>"
  have "poll vhex os (Suc (Suc n)) p w = poll vhex os (Suc n) ?p w2"
    using w by (subst poll.simps) (simp add: ina_process_get_exit_code_def ina_process_is_running_def Let_def del: poll.simps)
  then show ?case using Suc.IH [of ?p w2] e Suc.prems by simp
qed

theorem exit_is_reported_witness:
  "\<exists>p' w'. poll 0 demo_os 3 (demo_process\<lparr>pid := 42\<rparr>) 0 = Some (Inr 5, Some p', w') \<and> exit_code p' = 5 \<and> last_rc p' = INA_SUCCESS"
proof -
  have "exits_after demo_os 42 0x500 2 0" by (simp add: exits_after.simps demo_os_def numeral_eq_Suc)
  moreover have "WIFEXITED 0x500" "WEXITSTATUS 0x500 = 5" by code_simp+
  ultimately show ?thesis using exit_is_reported [of demo_os "demo_process\<lparr>pid := 42\<rparr>" "0x500" 2 0 0]
    by (simp add: demo_process_def process_init_def numeral_3_eq_3)
qed

section \<open>Contexts\<close>

lemma wipe_apply: "wipe as m b = (if b \<in> set as then Some zero_process else m b)"
  by (induction as arbitrary: m) (auto simp: wipe_def)

definition in_use :: "process_ctx \<Rightarrow> nat \<Rightarrow> bool" where
  "in_use ctx a \<longleftrightarrow> (\<exists>p. ctx_procs ctx a = Some p \<and> p_descriptor p \<noteq> None)"

text \<open>A new process never takes the place of one in use: processes with a descriptor are left as they
  are, the address handed out was free, and it now holds a startable process with the given descriptor that
  is registered in the context.\<close>

theorem process_new_fresh:
  assumes "c_ref d = 0" "palloc = Inr f" "\<not> in_use ctx f"
  shows "\<exists>a ctx'. ina_process_new palloc (Inr ()) ctx d = (Inr a, ctx') \<and> \<not> in_use ctx a \<and> a \<in> set (ctx_order ctx') \<and>
    ctx_procs ctx' a = Some (process_init d zero_process) \<and> (in_use ctx b \<longrightarrow> ctx_procs ctx' b = ctx_procs ctx b) \<and>
    (b \<noteq> a \<longrightarrow> in_use ctx' b = in_use ctx b)"
proof -
  let ?rs = "recyclable ctx" and ?a = "if recyclable ctx = [] then f else last (recyclable ctx)"
  have free: "x \<in> set ?rs \<Longrightarrow> \<not> in_use ctx x" for x
    by (auto simp: recyclable_def in_use_def split: option.splits)
  have a: "\<not> in_use ctx ?a" "?rs \<noteq> [] \<Longrightarrow> ?a \<in> set ?rs" using assms(3) free [of "last ?rs"] by auto
  show ?thesis
  proof (cases "?rs = []")
    case True
    then show ?thesis using assms
      by (auto simp: ina_process_new_def Let_def wipe_def in_use_def)
  next
    case False
    then show ?thesis using assms a free [of b] False
      by (auto simp: ina_process_new_def Let_def wipe_apply in_use_def zero_process_def recyclable_def)
  qed
qed

definition demo_ctx :: process_ctx where
  "demo_ctx = \<lparr>ctx_order = [3], ctx_procs = [3 \<mapsto> demo_process]\<rparr>"

theorem process_new_fresh_witness:
  "\<exists>a ctx'. ina_process_new (Inr 7) (Inr ()) demo_ctx demo_desc = (Inr a, ctx') \<and> \<not> in_use demo_ctx a \<and>
    a \<in> set (ctx_order ctx') \<and> ctx_procs ctx' a = Some (process_init demo_desc zero_process) \<and>
    ctx_procs ctx' 3 = Some demo_process"
proof -
  have "c_ref demo_desc = 0" by (simp add: demo_desc_def)
  moreover have "\<not> in_use demo_ctx 7" "in_use demo_ctx 3" "ctx_procs demo_ctx 3 = Some demo_process"
    by (simp_all add: in_use_def demo_ctx_def demo_process_def process_init_def)
  ultimately show ?thesis using process_new_fresh [of demo_desc "Inr 7" 7 demo_ctx 3] by auto
qed

end
