(* ===== verification/Inac_Cron.thy ===== *)
theory Inac_Cron
  imports Inac_Cron_Pattern Inac_Process
begin

text \<open>
  The cron component (\<open>src/cron.c\<close>) on top of the pattern parser and the processes: events, the
  test which jobs are due in a window of time, the processing step with its handling of clock
  jumps, the pull interface and the search for the last execution time.

  Times are seconds as \<open>int\<close>; \<open>localtime\<close>, \<open>time\<close> and the push callbacks are arguments, the
  callbacks as a function \<open>call\<close> that is given the number of the callback, its user data and the
  world.  The events of a context are listed in the order in which the iterator of the hash table
  delivers them.  A counter of type \<open>short\<close> wraps around.
\<close>

section \<open>Events and contexts\<close>

definition INA_CRON_CF_EXEC :: u32 where "INA_CRON_CF_EXEC = 1"
definition INA_CRON_CF_PUSH :: u32 where "INA_CRON_CF_PUSH = 2"
definition INA_CRON_CF_PULL :: u32 where "INA_CRON_CF_PULL = 4"

record cron_event =
  e_ctx :: bool
  e_cf :: u32
  e_key :: u32
  e_id :: string
  e_cmd :: "string option"
  e_working_dir :: "string option"
  e_pattern :: string
  e_process :: "process option"
  e_push_cb :: "nat option"
  e_ready :: bool
  e_destroy :: bool
  e_tt :: timetable
  e_pull_data :: nat
  e_push_data :: nat
  e_can_pull :: bool

record cron_ctx =
  c_events :: "(string \<times> cron_event) list"
  c_t1 :: int
  c_t2 :: int
  c_stime :: int

definition ERR_NOT_RUNNING :: ina_rc_t where "ERR_NOT_RUNNING = INA_ERR_NOT_of ''RUNNING''"
definition ERR_NOT_AVAILABLE :: ina_rc_t where "ERR_NOT_AVAILABLE = INA_ERR_NOT_of ''AVAILABLE''"

definition has_cf :: "cron_event \<Rightarrow> u32 \<Rightarrow> bool" where
  "has_cf e cf \<longleftrightarrow> e_cf e AND cf \<noteq> 0"

definition ina_cron_event_is_running :: "cron_event option \<Rightarrow> unit ina_res" where
  "ina_cron_event_is_running ev =
     (case ev of
        None \<Rightarrow> Inl INA_ERR_INVALID_ARGUMENT
      | Some e \<Rightarrow> if has_cf e INA_CRON_CF_EXEC \<and> ina_process_query_state (e_process e) = Inr INA_PROCESS_RUNNING
                  then Inr () else Inl ERR_NOT_RUNNING)"

definition zero_event :: cron_event where
  "zero_event = \<lparr>e_ctx = False, e_cf = 0, e_key = 0, e_id = [], e_cmd = None, e_working_dir = None, e_pattern = [],
     e_process = None, e_push_cb = None, e_ready = False, e_destroy = False, e_tt = zero_timetable,
     e_pull_data = 0, e_push_data = 0, e_can_pull = False\<rparr>"

definition ina_cron_event_by_id :: "cron_ctx option \<Rightarrow> string option \<Rightarrow> ina_rc_t \<Rightarrow> cron_event ina_res" where
  "ina_cron_event_by_id ctx i nf =
     (case (ctx, i) of
        (Some c, Some i) \<Rightarrow> (case map_of (c_events c) i of Some e \<Rightarrow> Inr e | None \<Rightarrow> Inl nf)
      | _ \<Rightarrow> Inl INA_ERR_INVALID_ARGUMENT)"

text \<open>A new event is filled in but neither put into the table of its context nor given the context.  For an
  identifier that is in the table the code returned is the last one recorded, \<open>current\<close>.\<close>

definition ina_cron_event_new ::
    "unit ina_res \<Rightarrow> cron_ctx option \<Rightarrow> string option \<Rightarrow> string option \<Rightarrow> u32 \<Rightarrow> (cron_event ina_res \<times> cron_ctx option) option" where
  "ina_cron_event_new current ctx i pattern cf =
     (case (ctx, i) of
        (Some c, Some i) \<Rightarrow>
          if i = [] then Some (Inl INA_ERR_INVALID_ARGUMENT, ctx)
          else (case map_of (c_events c) i of
             Some e \<Rightarrow> Some (res_bind current (\<lambda>_. Inr e), ctx)
           | None \<Rightarrow>
               (case ina_cron_parse_pattern pattern (Some (e_tt zero_event)) of
                  None \<Rightarrow> None
                | Some (Inl rc, _) \<Rightarrow> Some (Inl rc, ctx)
                | Some (Inr _, None) \<Rightarrow> None
                | Some (Inr _, Some tt) \<Rightarrow>
                    (case pattern of
                       None \<Rightarrow> None
                     | Some pat \<Rightarrow> Some (Inr (zero_event\<lparr>e_tt := tt, e_id := i, e_pattern := pat, e_cf := cf\<rparr>), ctx))))
      | _ \<Rightarrow> Some (Inl INA_ERR_INVALID_ARGUMENT, ctx))"

text \<open>Freeing an event that has a context and is not marked overwrites the caller's pointer with
  the event and follows it as a pointer to a pointer.\<close>

definition ina_cron_event_free :: "cron_event option \<Rightarrow> unit option" where
  "ina_cron_event_free ev =
     (case ev of None \<Rightarrow> Some () | Some e \<Rightarrow> if e_ctx e \<and> \<not> e_destroy e then None else Some ())"

definition ina_free_event :: "cron_event \<Rightarrow> unit option" where
  "ina_free_event e = ina_cron_event_free (Some (e\<lparr>e_destroy := True\<rparr>))"

definition ina_cron_ctx_new :: "unit ina_res \<Rightarrow> unit ina_res \<Rightarrow> int \<Rightarrow> (cron_ctx \<Rightarrow> cron_ctx) option \<Rightarrow> cron_ctx ina_res" where
  "ina_cron_ctx_new process_ctx table now load_cb =
     res_bind process_ctx (\<lambda>_. res_bind table (\<lambda>_.
       let ctx = \<lparr>c_events = [], c_t1 = now, c_t2 = 0, c_stime = 60\<rparr>
       in Inr (case load_cb of None \<Rightarrow> ctx | Some f \<Rightarrow> f ctx)))"

definition ina_cron_ctx_free :: "cron_ctx option \<Rightarrow> unit option" where
  "ina_cron_ctx_free ctx =
     (case ctx of None \<Rightarrow> Some ()
      | Some c \<Rightarrow> if list_all (\<lambda>(_, e). ina_free_event e \<noteq> None) (c_events c) then Some () else None)"

definition ina_cron_event_id :: "cron_event \<Rightarrow> string" where "ina_cron_event_id e = e_id e"
definition ina_cron_event_pattern :: "cron_event \<Rightarrow> string" where "ina_cron_event_pattern e = e_pattern e"

text \<open>The command is split at blanks by \<open>ina_str_split\<close>, whose tokens are \<open>parts\<close>; the second token is read
  without a test.  The process context is reached through the event's context.\<close>

definition ina_cron_event_set_exec_params ::
    "string list \<Rightarrow> (string \<Rightarrow> string option \<Rightarrow> string \<Rightarrow> process ina_res) \<Rightarrow> cron_event option \<Rightarrow> string option \<Rightarrow> string option \<Rightarrow>
      (unit ina_res \<times> cron_event option) option" where
  "ina_cron_event_set_exec_params parts new_process ev cmd wd =
     (case (ev, cmd) of
        (Some e, Some c) \<Rightarrow>
          (let e = e\<lparr>e_cf := e_cf e OR INA_CRON_CF_EXEC, e_cmd := cmd, e_working_dir := wd\<rparr>
           in if \<not> e_ctx e \<or> length parts < 2 then None
              else (case new_process (parts ! 0) wd (parts ! 1) of
                      Inl rc \<Rightarrow> Some (Inl rc, Some e)
                    | Inr p \<Rightarrow> Some (Inr (), Some (e\<lparr>e_process := Some p\<rparr>))))
      | _ \<Rightarrow> Some (Inl INA_ERR_INVALID_ARGUMENT, ev))"

definition ina_cron_event_get_exec_params :: "cron_event option \<Rightarrow> (string option \<times> string option) ina_res" where
  "ina_cron_event_get_exec_params ev =
     (case ev of None \<Rightarrow> Inl INA_ERR_INVALID_ARGUMENT | Some e \<Rightarrow> Inr (e_cmd e, e_working_dir e))"

definition ina_cron_event_set_push_params :: "cron_event option \<Rightarrow> nat option \<Rightarrow> nat \<Rightarrow> unit ina_res \<times> cron_event option" where
  "ina_cron_event_set_push_params ev cb d =
     (case ev of
        None \<Rightarrow> (Inl INA_ERR_INVALID_ARGUMENT, None)
      | Some e \<Rightarrow>
          let e = e\<lparr>e_push_cb := cb, e_push_data := d\<rparr>
          in (Inr (), Some (if cb \<noteq> None then e\<lparr>e_cf := e_cf e OR INA_CRON_CF_PUSH\<rparr> else e)))"

definition ina_cron_event_get_push_params :: "cron_event option \<Rightarrow> (nat option \<times> nat) ina_res" where
  "ina_cron_event_get_push_params ev =
     (case ev of None \<Rightarrow> Inl INA_ERR_INVALID_ARGUMENT | Some e \<Rightarrow> Inr (e_push_cb e, e_push_data e))"

definition ina_cron_event_get_pull_params :: "cron_event option \<Rightarrow> (u32 \<times> nat) ina_res" where
  "ina_cron_event_get_pull_params ev =
     (case ev of None \<Rightarrow> Inl INA_ERR_INVALID_ARGUMENT | Some e \<Rightarrow> Inr (e_key e, e_pull_data e))"

definition ina_cron_event_set_pull_params :: "cron_event option \<Rightarrow> u32 \<Rightarrow> nat \<Rightarrow> unit ina_res \<times> cron_event option" where
  "ina_cron_event_set_pull_params ev key d =
     (case ev of
        None \<Rightarrow> (Inl INA_ERR_INVALID_ARGUMENT, None)
      | Some e \<Rightarrow>
          let e = e\<lparr>e_key := key, e_pull_data := d\<rparr>
          in (Inr (), Some (if key \<noteq> 0 then e\<lparr>e_cf := e_cf e OR INA_CRON_CF_PULL\<rparr> else e)))"

definition ina_cron_event_check_capability :: "cron_event \<Rightarrow> u32 \<Rightarrow> unit ina_res" where
  "ina_cron_event_check_capability e cf = (if has_cf e cf then Inr () else Inl ERR_NOT_AVAILABLE)"

section \<open>Which jobs are due\<close>

text \<open>One event in one minute: the event afterwards, whether it was counted, and the world.\<close>

definition push_event :: "(nat \<Rightarrow> nat \<Rightarrow> 'w \<Rightarrow> unit ina_res \<times> 'w) \<Rightarrow> cron_event \<Rightarrow> 'w \<Rightarrow> unit ina_res \<times> 'w" where
  "push_event call e w =
     (case e_push_cb e of
        Some f \<Rightarrow> if has_cf e INA_CRON_CF_PUSH then call f (e_push_data e) w else (Inr (), w)
      | None \<Rightarrow> (Inr (), w))"

definition test_event ::
    "(nat \<Rightarrow> nat \<Rightarrow> 'w \<Rightarrow> unit ina_res \<times> 'w) \<Rightarrow> tm \<Rightarrow> cron_event \<Rightarrow> 'w \<Rightarrow> (cron_event \<times> bool) \<times> 'w" where
  "test_event call tp e w =
     (if \<not> tt_match (e_tt e) tp then ((e, False), w)
      else
        let (r, w) = push_event call e w
        in case r of
             Inl _ \<Rightarrow> ((e, False), w)
           | Inr _ \<Rightarrow>
               let hit = (e_cf e OR INA_CRON_CF_EXEC \<noteq> 0 \<and> \<not> is_ok (ina_cron_event_is_running (Some e)));
                   e = (if hit then e\<lparr>e_ready := True\<rparr> else e);
                   e = (if has_cf e INA_CRON_CF_PULL \<and> e_key e \<noteq> 0 then e\<lparr>e_can_pull := True\<rparr> else e)
               in ((e, hit), w))"

fun test_events ::
    "(nat \<Rightarrow> nat \<Rightarrow> 'w \<Rightarrow> unit ina_res \<times> 'w) \<Rightarrow> tm \<Rightarrow> (string \<times> cron_event) list \<Rightarrow> int \<Rightarrow> 'w \<Rightarrow>
      (string \<times> cron_event) list \<times> int \<times> 'w" where
  "test_events call tp [] n w = ([], n, w)"
| "test_events call tp ((i, e) # evs) n w =
     (let ((e, hit), w) = test_event call tp e w;
          n = (if hit then signed_take_bit 15 (n + 1) else n);
          (evs, n, w) = test_events call tp evs n w
      in ((i, e) # evs, n, w))"

function test_loop ::
    "(int \<Rightarrow> tm) \<Rightarrow> (nat \<Rightarrow> nat \<Rightarrow> 'w \<Rightarrow> unit ina_res \<times> 'w) \<Rightarrow> int \<Rightarrow> int \<Rightarrow> int \<Rightarrow> (string \<times> cron_event) list \<Rightarrow> int \<Rightarrow> 'w \<Rightarrow>
      (string \<times> cron_event) list \<times> int \<times> 'w" where
  "test_loop localtime call t1 t2 t evs n w =
     (if t \<le> t2
      then let (evs, n, w) = (if t > t1 then test_events call (localtime t) evs n w else (evs, n, w))
           in test_loop localtime call t1 t2 (t + 60) evs n w
      else (evs, n, w))"
  by pat_completeness auto

termination
  by (relation "measure (\<lambda>(_, _, _, t2, t, _, _, _). nat (t2 + 60 - t))") auto

declare test_loop.simps [simp del]

definition ina_test_jobs ::
    "(int \<Rightarrow> tm) \<Rightarrow> (nat \<Rightarrow> nat \<Rightarrow> 'w \<Rightarrow> unit ina_res \<times> 'w) \<Rightarrow> int \<Rightarrow> int \<Rightarrow> (string \<times> cron_event) list \<Rightarrow> 'w \<Rightarrow>
      (string \<times> cron_event) list \<times> int \<times> 'w" where
  "ina_test_jobs localtime call t1 t2 evs w = test_loop localtime call t1 t2 (t1 - t1 smod 60) evs 0 w"

section \<open>Processing\<close>

definition start_event :: "u64 \<Rightarrow> 'w os \<Rightarrow> cron_event \<Rightarrow> 'w \<Rightarrow> (cron_event \<times> 'w) option" where
  "start_event vhex os e w =
     (case ina_process_query_state (e_process e) of
        Inr st \<Rightarrow>
          if has_cf e INA_CRON_CF_EXEC \<and> e_ready e \<and> st \<noteq> INA_PROCESS_RUNNING
          then map_option (\<lambda>(_, p, w). (e\<lparr>e_process := p, e_ready := True\<rparr>, w)) (ina_process_start vhex os (e_process e) w)
          else Some (e, w)
      | Inl _ \<Rightarrow> Some (e, w))"

fun start_events :: "u64 \<Rightarrow> 'w os \<Rightarrow> (string \<times> cron_event) list \<Rightarrow> 'w \<Rightarrow> ((string \<times> cron_event) list \<times> 'w) option" where
  "start_events vhex os [] w = Some ([], w)"
| "start_events vhex os ((i, e) # evs) w =
     Option.bind (start_event vhex os e w) (\<lambda>(e, w).
     Option.bind (start_events vhex os evs w) (\<lambda>(evs, w). Some ((i, e) # evs, w)))"

definition any_running :: "(string \<times> cron_event) list \<Rightarrow> bool" where
  "any_running evs \<longleftrightarrow>
     list_ex (\<lambda>(_, e). has_cf e INA_CRON_CF_EXEC \<and> ina_process_query_state (e_process e) = Inr INA_PROCESS_RUNNING) evs"

definition suggested_time :: "int \<Rightarrow> int \<Rightarrow> int" where
  "suggested_time stime clock = (stime + 1) - signed_take_bit 15 (clock smod stime)"

definition ina_cron_process ::
    "(int \<Rightarrow> tm) \<Rightarrow> (nat \<Rightarrow> nat \<Rightarrow> 'w \<Rightarrow> unit ina_res \<times> 'w) \<Rightarrow> u64 \<Rightarrow> 'w os \<Rightarrow> int \<Rightarrow> cron_ctx option \<Rightarrow> int \<Rightarrow> 'w \<Rightarrow>
      (int ina_res \<times> cron_ctx option \<times> 'w) option" where
  "ina_cron_process localtime call vhex os clock ctx now w =
     (case ctx of
        None \<Rightarrow> Some (Inl INA_ERR_INVALID_ARGUMENT, None, w)
      | Some c \<Rightarrow>
          let c = c\<lparr>c_t2 := now\<rparr>; dt = c_t2 c - c_t1 c
          in map_option (\<lambda>(c, w). (Inr (suggested_time (c_stime c) clock), Some c, w))
               (if dt < - (60 * 60) \<or> 60 * 60 < dt then Some (c\<lparr>c_t1 := c_t2 c\<rparr>, w)
                else if 0 < dt then
                  (case ina_test_jobs localtime call (c_t1 c) (c_t2 c) (c_events c) w of
                     (evs, n, w) \<Rightarrow>
                       map_option (\<lambda>(c, w). (c\<lparr>c_t1 := c_t2 c\<rparr>, w))
                         (if n \<noteq> 0 then
                            map_option (\<lambda>(evs, w). (c\<lparr>c_events := evs, c_stime := (if any_running evs then 10 else 60)\<rparr>, w))
                              (start_events vhex os evs w)
                          else Some (c\<lparr>c_events := evs\<rparr>, w)))
                else Some (c, w)))"

section \<open>Pulling and looking back\<close>

fun pull_first :: "(string \<times> cron_event) list \<Rightarrow> (u32 \<times> nat option) \<times> (string \<times> cron_event) list" where
  "pull_first [] = ((0, None), [])"
| "pull_first ((i, e) # evs) =
     (if has_cf e INA_CRON_CF_PULL \<and> e_can_pull e
      then ((e_key e, Some (e_pull_data e)), (i, e\<lparr>e_can_pull := False\<rparr>) # evs)
      else let (r, evs) = pull_first evs in (r, (i, e) # evs))"

definition ina_cron_try_pull :: "cron_ctx option \<Rightarrow> (u32 \<times> nat option) ina_res \<times> cron_ctx option" where
  "ina_cron_try_pull ctx =
     (case ctx of
        None \<Rightarrow> (Inl INA_ERR_INVALID_ARGUMENT, None)
      | Some c \<Rightarrow> let (r, evs) = pull_first (c_events c) in (Inr r, Some (c\<lparr>c_events := evs\<rparr>)))"

function back_loop :: "(int \<Rightarrow> tm) \<Rightarrow> timetable \<Rightarrow> int \<Rightarrow> int" where
  "back_loop localtime tt t =
     (if 0 < t then if tt_match tt (localtime t) then t else back_loop localtime tt (t - 60) else t)"
  by pat_completeness auto

termination
  by (relation "measure (\<lambda>(_, _, t). nat t)") auto

declare back_loop.simps [simp del]

definition ina_cron_last_exec_systime :: "(int \<Rightarrow> tm) \<Rightarrow> cron_ctx option \<Rightarrow> timetable option \<Rightarrow> int \<Rightarrow> int ina_res" where
  "ina_cron_last_exec_systime localtime ctx tt now =
     (case (ctx, tt) of
        (Some _, Some tt) \<Rightarrow> Inr (back_loop localtime tt (now - now smod 60))
      | _ \<Rightarrow> Inl INA_ERR_INVALID_ARGUMENT)"

section \<open>The last execution time\<close>

lemma back_loop_latest:
  assumes "60 dvd t" "0 \<le> t"
  shows "60 dvd back_loop lt tt t \<and> 0 \<le> back_loop lt tt t \<and> back_loop lt tt t \<le> t \<and>
    (back_loop lt tt t = 0 \<or> tt_match tt (lt (back_loop lt tt t))) \<and>
    (\<forall>u. back_loop lt tt t < u \<and> u \<le> t \<and> 60 dvd u \<longrightarrow> \<not> tt_match tt (lt u))"
  using assms
proof (induction lt tt t rule: back_loop.induct)
  case (1 lt tt t)
  show ?case
  proof (cases "0 < t \<and> \<not> tt_match tt (lt t)")
    case True
    then have b: "back_loop lt tt t = back_loop lt tt (t - 60)" by (simp add: back_loop.simps [of lt tt t])
    have "60 \<le> t" using True 1 by (auto dest: zdvd_imp_le)
    then have IH: "60 dvd back_loop lt tt (t - 60) \<and> 0 \<le> back_loop lt tt (t - 60) \<and> back_loop lt tt (t - 60) \<le> t - 60 \<and>
        (back_loop lt tt (t - 60) = 0 \<or> tt_match tt (lt (back_loop lt tt (t - 60)))) \<and>
        (\<forall>u. back_loop lt tt (t - 60) < u \<and> u \<le> t - 60 \<and> 60 dvd u \<longrightarrow> \<not> tt_match tt (lt u))"
      using 1 True by (intro 1) auto
    have "u = t \<or> u \<le> t - 60" if "u \<le> t" "60 dvd u" for u using that 1(2) by (auto elim!: dvdE)
    then show ?thesis using b IH True by auto
  next
    case False
    then have "back_loop lt tt t = t" by (auto simp: back_loop.simps [of lt tt t])
    then show ?thesis using False 1(2,3) by auto
  qed
qed

lemma minute_floor: "0 \<le> (t :: int) \<Longrightarrow> t - t smod 60 = t - t mod 60"
  using smod_nat [of "nat t" 60] by (simp add: zmod_int)

text \<open>C29. The last execution time is the latest full minute up to now at which the timetable matches, and
  zero when there is none; the search always ends.\<close>

theorem last_exec_latest:
  assumes "0 \<le> now"
  shows "\<exists>r. ina_cron_last_exec_systime lt (Some c) (Some tt) now = Inr r \<and> 60 dvd r \<and> 0 \<le> r \<and> r \<le> now \<and>
    (r = 0 \<or> tt_match tt (lt r)) \<and> (\<forall>u. r < u \<and> u \<le> now \<and> 60 dvd u \<longrightarrow> \<not> tt_match tt (lt u))"
proof -
  let ?t = "now - now smod 60"
  have t: "?t = now - now mod 60" by (rule minute_floor [OF assms])
  have t0: "60 dvd ?t" "0 \<le> ?t" "?t \<le> now" using assms by (auto simp: t minus_mod_eq_mult_div)
  have below: "u \<le> ?t" if d: "60 dvd u" and l: "u \<le> now" for u
  proof -
    obtain k where "u = 60 * k" using d by blast
    moreover have "now = 60 * (now div 60) + now mod 60" "now mod 60 < 60" by simp_all
    moreover have "k \<le> now div 60 \<or> now div 60 + 1 \<le> k" by linarith
    ultimately show ?thesis using l t by linarith
  qed
  let ?r = "back_loop lt tt ?t"
  note r = back_loop_latest [OF t0(1,2), of lt tt]
  have "ina_cron_last_exec_systime lt (Some c) (Some tt) now = Inr ?r" by (simp add: ina_cron_last_exec_systime_def)
  moreover have "\<forall>u. ?r < u \<and> u \<le> now \<and> 60 dvd u \<longrightarrow> \<not> tt_match tt (lt u)" using r below by blast
  moreover have "?r \<le> now" using r t0(3) by linarith
  ultimately show ?thesis using r by blast
qed

section \<open>Due jobs\<close>

definition idle :: "cron_event \<Rightarrow> bool" where
  "idle e \<longleftrightarrow> \<not> is_ok (ina_cron_event_is_running (Some e))"

definition marked :: "cron_event \<Rightarrow> cron_event" where
  "marked e =
     (let e = (if idle e then e\<lparr>e_ready := True\<rparr> else e)
      in if has_cf e INA_CRON_CF_PULL \<and> e_key e \<noteq> 0 then e\<lparr>e_can_pull := True\<rparr> else e)"

definition due :: "(int \<Rightarrow> tm) \<Rightarrow> int \<Rightarrow> int \<Rightarrow> cron_event \<Rightarrow> bool" where
  "due lt t1 t2 e \<longleftrightarrow> (\<exists>t. t1 < t \<and> t \<le> t2 \<and> 60 dvd t \<and> tt_match (e_tt e) (lt t))"

definition succeeds :: "(nat \<Rightarrow> nat \<Rightarrow> 'w \<Rightarrow> unit ina_res \<times> 'w) \<Rightarrow> bool" where
  "succeeds call \<longleftrightarrow> (\<forall>f d w. is_ok (fst (call f d w)))"

lemma exec_bit: "cf OR INA_CRON_CF_EXEC \<noteq> 0"
  using bit_or_iff [of cf 1 0] by (auto simp: INA_CRON_CF_EXEC_def)

lemma has_cf_upd [simp]: "has_cf (e\<lparr>e_ready := x\<rparr>) cf = has_cf e cf" "has_cf (e\<lparr>e_can_pull := x\<rparr>) cf = has_cf e cf"
  by (simp_all add: has_cf_def)

lemma idle_upd [simp]: "idle (e\<lparr>e_ready := x\<rparr>) = idle e" "idle (e\<lparr>e_can_pull := x\<rparr>) = idle e"
  by (simp_all add: idle_def ina_cron_event_is_running_def)

lemma marked_sel [simp]: "e_tt (marked e) = e_tt e" "e_process (marked e) = e_process e" "e_cf (marked e) = e_cf e"
  "e_key (marked e) = e_key e" "e_ready (marked e) = (e_ready e \<or> idle e)"
  "e_can_pull (marked e) = (e_can_pull e \<or> has_cf e INA_CRON_CF_PULL \<and> e_key e \<noteq> 0)"
  by (auto simp: marked_def Let_def)

lemma idle_marked [simp]: "idle (marked e) = idle e"
  by (simp add: idle_def ina_cron_event_is_running_def has_cf_def)

lemma marked_idem [simp]: "marked (marked e) = marked e"
  by (cases "idle e") (simp_all add: marked_def Let_def)

lemma push_succeeds: "succeeds call \<Longrightarrow> \<exists>w'. push_event call e w = (Inr (), w')"
  by (auto simp: push_event_def succeeds_def is_ok_iff split: option.split) (metis old.unit.exhaust prod.collapse)

lemma test_event_marks:
  assumes "succeeds call"
  shows "\<exists>w'. test_event call tp e w = (if tt_match (e_tt e) tp then ((marked e, idle e), w') else ((e, False), w'))"
proof (cases "tt_match (e_tt e) tp")
  case True
  obtain w' where "push_event call e w = (Inr (), w')" using push_succeeds [OF assms] by blast
  then have "test_event call tp e w = ((marked e, idle e), w')" using True
    by (simp add: test_event_def marked_def exec_bit idle_def Let_def)
  then show ?thesis using True by simp
qed (simp add: test_event_def)

definition on_events :: "(cron_event \<Rightarrow> cron_event) \<Rightarrow> (string \<times> cron_event) list \<Rightarrow> (string \<times> cron_event) list" where
  "on_events f evs = map (\<lambda>(i, e). (i, f e)) evs"

lemma on_events_simps [simp]: "on_events f [] = []" "on_events f ((i, e) # evs) = (i, f e) # on_events f evs"
  by (simp_all add: on_events_def)

lemma on_events_comp: "on_events f (on_events g evs) = on_events (\<lambda>e. f (g e)) evs"
  by (induction evs) auto

lemma length_on_events [simp]: "length (on_events f evs) = length evs"
  by (simp add: on_events_def)

lemma mem_on_events: "(i, e) \<in> set (on_events f evs) \<longleftrightarrow> (\<exists>d. (i, d) \<in> set evs \<and> e = f d)"
  by (auto simp: on_events_def)

lemma bex_on_events:
  "(\<And>e. P (f e) = P e) \<Longrightarrow> (\<exists>(i, e) \<in> set (on_events f evs). P e) \<longleftrightarrow> (\<exists>(i, e) \<in> set evs. P e)"
  by (simp add: on_events_def split_beta)

lemma test_events_marks:
  assumes "succeeds call" "0 \<le> n" "n + int (length evs) < 2 ^ 15"
  shows "\<exists>n' w'. test_events call tp evs n w = (on_events (\<lambda>e. if tt_match (e_tt e) tp then marked e else e) evs, n', w') \<and>
    n \<le> n' \<and> n' \<le> n + int (length evs) \<and> (n' = n \<longleftrightarrow> \<not> (\<exists>(i, e) \<in> set evs. tt_match (e_tt e) tp \<and> idle e))"
  using assms
proof (induction evs arbitrary: n w)
  case Nil then show ?case by simp
next
  case (Cons x evs)
  obtain i e where x: "x = (i, e)" by force
  let ?h = "tt_match (e_tt e) tp \<and> idle e" and ?e = "if tt_match (e_tt e) tp then marked e else e"
  obtain w1 where t: "test_event call tp e w = ((?e, ?h), w1)"
    using test_event_marks [OF Cons.prems(1), of tp e w] by (cases "tt_match (e_tt e) tp") auto
  let ?n = "if ?h then n + 1 else n"
  have n: "(if ?h then signed_take_bit 15 (n + 1) else n) = ?n"
    using Cons.prems by (auto intro!: signed_take_bit_int_eq_self)
  have "0 \<le> ?n" "?n + int (length evs) < 2 ^ 15" using Cons.prems by auto
  from Cons.IH [OF Cons.prems(1) this, of w1] obtain n' w' where "test_events call tp evs ?n w1 =
      (on_events (\<lambda>e. if tt_match (e_tt e) tp then marked e else e) evs, n', w')"
    "?n \<le> n'" "n' \<le> ?n + int (length evs)" "n' = ?n \<longleftrightarrow> \<not> (\<exists>(i, e) \<in> set evs. tt_match (e_tt e) tp \<and> idle e)"
    by blast
  note r = this
  have "test_events call tp (x # evs) n w = ((i, ?e) # on_events (\<lambda>e. if tt_match (e_tt e) tp then marked e else e) evs, n', w')"
    unfolding x test_events.simps t Let_def prod.case n r(1) ..
  moreover have "n' = n \<longleftrightarrow> \<not> ?h \<and> \<not> (\<exists>(i, e) \<in> set evs. tt_match (e_tt e) tp \<and> idle e)"
    using r(2,4) by (cases ?h) auto
  moreover have "n \<le> n'" "n' \<le> n + int (length (x # evs))" using r(2,3) by (auto split: if_splits)
  ultimately show ?case using x by simp
qed

definition due_from :: "(int \<Rightarrow> tm) \<Rightarrow> int \<Rightarrow> int \<Rightarrow> int \<Rightarrow> cron_event \<Rightarrow> bool" where
  "due_from lt t1 t2 t e \<longleftrightarrow> (\<exists>u. t \<le> u \<and> t1 < u \<and> u \<le> t2 \<and> 60 dvd u \<and> tt_match (e_tt e) (lt u))"

lemma due_from_step:
  assumes "60 dvd t" "t \<le> t2"
  shows "due_from lt t1 t2 t e \<longleftrightarrow> t1 < t \<and> tt_match (e_tt e) (lt t) \<or> due_from lt t1 t2 (t + 60) e"
proof -
  have "t \<le> u \<longleftrightarrow> u = t \<or> t + 60 \<le> u" if "60 dvd u" for u using that assms(1) by (auto elim!: dvdE)
  then show ?thesis using assms unfolding due_from_def by blast
qed

lemma due_from_marked [simp]: "due_from lt t1 t2 t (marked e) = due_from lt t1 t2 t e"
  by (simp add: due_from_def)

lemma test_loop_marks:
  assumes "succeeds call" "60 dvd t" "0 \<le> n" "n + int (length evs) * ((t2 - t) div 60 + 1) < 2 ^ 15" "t \<le> t2 + 60"
  shows "\<exists>n' w'. test_loop lt call t1 t2 t evs n w = (on_events (\<lambda>e. if due_from lt t1 t2 t e then marked e else e) evs, n', w') \<and>
    n \<le> n' \<and> (n' = n \<longleftrightarrow> \<not> (\<exists>(i, e) \<in> set evs. due_from lt t1 t2 t e \<and> idle e))"
  using assms
proof (induction lt call t1 t2 t evs n w rule: test_loop.induct)
  case (1 lt call t1 t2 t evs n w)
  let ?F = "\<lambda>e. if due_from lt t1 t2 t e then marked e else e"
  let ?G = "\<lambda>e. if t1 < t \<and> tt_match (e_tt e) (lt t) then marked e else e"
  let ?H = "\<lambda>e. if due_from lt t1 t2 (t + 60) e then marked e else e"
  show ?case
  proof (cases "t \<le> t2")
    case False
    then have "due_from lt t1 t2 t e = False" for e by (auto simp: due_from_def)
    moreover have "on_events (\<lambda>e. e) evs = evs" by (induction evs) auto
    ultimately show ?thesis using False by (simp add: test_loop.simps [of lt call t1 t2 t evs n w])
  next
    case True
    have FG: "?F e = ?H (?G e)" for e using due_from_step [OF 1(3) True, of lt t1 e] by auto
    have q: "(t2 - t) div 60 + 1 = (t2 - (t + 60)) div 60 + 1 + 1" by simp
    have q0: "0 \<le> (t2 - (t + 60)) div 60 + 1" using True by simp
    have len: "n + int (length evs) + int (length evs) * ((t2 - (t + 60)) div 60 + 1) < 2 ^ 15"
      using 1(5) unfolding q by (simp add: algebra_simps)
    have pos: "0 \<le> int (length evs) * ((t2 - (t + 60)) div 60 + 1)" using q0 by simp
    obtain n1 w1 where s: "(if t > t1 then test_events call (lt t) evs n w else (evs, n, w)) = (on_events ?G evs, n1, w1)"
      and n1: "n \<le> n1" "n1 \<le> n + int (length evs)"
        "n1 = n \<longleftrightarrow> \<not> (\<exists>(i, e) \<in> set evs. t1 < t \<and> tt_match (e_tt e) (lt t) \<and> idle e)"
    proof (cases "t1 < t")
      case True
      then show ?thesis using test_events_marks [OF 1(2) 1(4), of evs "lt t" w] len pos that by auto
    next
      case False
      moreover have "on_events (\<lambda>e. e) evs = evs" by (induction evs) auto
      ultimately show ?thesis using that [of n w] by simp
    qed
    have "\<exists>n' w'. test_loop lt call t1 t2 (t + 60) (on_events ?G evs) n1 w1 = (on_events ?H (on_events ?G evs), n', w') \<and>
        n1 \<le> n' \<and> (n' = n1 \<longleftrightarrow> \<not> (\<exists>(i, e) \<in> set (on_events ?G evs). due_from lt t1 t2 (t + 60) e \<and> idle e))"
      using 1(1) [OF True s [symmetric] refl] 1 True n1 len by simp
    then obtain n' w' where r: "test_loop lt call t1 t2 (t + 60) (on_events ?G evs) n1 w1 = (on_events ?H (on_events ?G evs), n', w')"
      "n1 \<le> n'" "n' = n1 \<longleftrightarrow> \<not> (\<exists>(i, e) \<in> set (on_events ?G evs). due_from lt t1 t2 (t + 60) e \<and> idle e)" by blast
    have "test_loop lt call t1 t2 t evs n w = (on_events ?F evs, n', w')"
      using True s r(1) FG by (simp add: test_loop.simps [of lt call t1 t2 t evs n w] on_events_comp)
    moreover have "(\<exists>(i, e) \<in> set (on_events ?G evs). due_from lt t1 t2 (t + 60) e \<and> idle e) \<longleftrightarrow>
        (\<exists>(i, e) \<in> set evs. due_from lt t1 t2 (t + 60) e \<and> idle e)"
      by (rule bex_on_events) simp
    moreover have "(\<exists>(i, e) \<in> set evs. due_from lt t1 t2 t e \<and> idle e) \<longleftrightarrow>
        (\<exists>(i, e) \<in> set evs. t1 < t \<and> tt_match (e_tt e) (lt t) \<and> idle e) \<or> (\<exists>(i, e) \<in> set evs. due_from lt t1 t2 (t + 60) e \<and> idle e)"
      unfolding due_from_step [OF 1(3) True] by blast
    moreover have "n' = n \<longleftrightarrow> n1 = n \<and> n' = n1" "n \<le> n'" using n1(1) r(2) by linarith+
    ultimately show ?thesis using n1(3) r(3) by simp
  qed
qed

lemma first_minute:
  fixes t1 :: int
  shows "60 dvd t1 - t1 smod 60" and "t1 < u \<Longrightarrow> 60 dvd u \<Longrightarrow> t1 - t1 smod 60 \<le> u"
    and "t1 - t1 smod 60 \<le> t1 + 59" and "t1 - 59 \<le> t1 - t1 smod 60"
proof -
  let ?q = "t1 sdiv 60"
  have q: "t1 - t1 smod 60 = 60 * ?q" by (simp add: minus_smod_eq_mult_sdiv)
  have "0 \<le> \<bar>t1\<bar> mod 60 \<and> \<bar>t1\<bar> mod 60 < 60" by simp
  then have s: "t1 smod 60 < 60" "- 60 < t1 smod 60" by (auto simp: signed_modulo_int_def sgn_if)
  show "60 dvd t1 - t1 smod 60" by (simp add: q)
  show "t1 - t1 smod 60 \<le> t1 + 59" "t1 - 59 \<le> t1 - t1 smod 60" using s by simp_all
  assume u: "t1 < u" "60 dvd u"
  then obtain k where "u = 60 * k" by blast
  moreover have "?q \<le> k \<or> k + 1 \<le> ?q" by linarith
  ultimately show "t1 - t1 smod 60 \<le> u" using u(1) s q by linarith
qed

lemma due_from_first: "due_from lt t1 t2 (t1 - t1 smod 60) e = due lt t1 t2 e"
  using first_minute(2) [of t1] by (auto simp: due_from_def due_def)

lemma test_jobs_marks:
  assumes "succeeds call" "t1 \<le> t2" "t2 \<le> t1 + 60 * 60" "length evs \<le> 500"
  shows "\<exists>n w'. ina_test_jobs lt call t1 t2 evs w = (on_events (\<lambda>e. if due lt t1 t2 e then marked e else e) evs, n, w') \<and>
    (n = 0 \<longleftrightarrow> \<not> (\<exists>(i, e) \<in> set evs. due lt t1 t2 e \<and> idle e))"
proof -
  let ?t = "t1 - t1 smod 60"
  have "(t2 - ?t) div 60 + 1 \<le> 61" using assms(3) first_minute(4) [of t1] by linarith
  then have "int (length evs) * ((t2 - ?t) div 60 + 1) \<le> 500 * 61" using assms(2,4) first_minute(3) [of t1]
    by (intro mult_mono) auto
  then have "0 + int (length evs) * ((t2 - ?t) div 60 + 1) < 2 ^ 15" by simp
  note marks = test_loop_marks [OF assms(1) first_minute(1) order_refl this, of lt t1 w, unfolded due_from_first]
  have "?t \<le> t2 + 60" using assms(2) first_minute(3) [of t1] by linarith
  from marks [OF this] show ?thesis unfolding ina_test_jobs_def by blast
qed

section \<open>Processing what is due\<close>

definition startable :: "cron_event \<Rightarrow> bool" where
  "startable e \<longleftrightarrow> has_cf e INA_CRON_CF_EXEC \<and>
     (\<exists>st. ina_process_query_state (e_process e) = Inr st \<and> st \<noteq> INA_PROCESS_RUNNING)"

definition process_sane :: "cron_event \<Rightarrow> bool" where
  "process_sane e \<longleftrightarrow> (\<forall>p. e_process e = Some p \<longrightarrow> p_descriptor p \<noteq> None \<and> unat (get_fsm_state (p_state p)) < 3)"

definition was_started :: "u64 \<Rightarrow> 'w os \<Rightarrow> cron_event \<Rightarrow> cron_event \<Rightarrow> bool" where
  "was_started vhex os e e' \<longleftrightarrow>
     (\<exists>w1 r w2. ina_process_start vhex os (e_process e) w1 = Some (r, e_process e', w2)) \<and> e' = e\<lparr>e_process := e_process e'\<rparr>"

lemma startable_idle: "startable e \<Longrightarrow> idle e"
  by (auto simp: startable_def idle_def ina_cron_event_is_running_def)

lemma process_start_defined:
  assumes "p_descriptor p = Some d" "unat (get_fsm_state (p_state p)) < 3"
  shows "\<exists>r p' w'. ina_process_start vhex os (Some p) w = Some (r, Some p', w')"
proof -
  obtain st u where u: "fsm_fire_event (process_fsm_transitions vhex os) status_of put_status INA_PROCESS_START (p, w) = Some (st, u)"
    "p_descriptor (fst u) = Some d"
    using assms by (auto intro: proc.fire_ok [of "(p, w)" d INA_PROCESS_START vhex os] simp: status_of_def process_enums)
  obtain p1 w1 where "u = (p1, w1)" by force
  then show ?thesis using u by (simp add: ina_process_start_def process_fire_def waits_def Let_def)
qed

lemma start_event_step:
  assumes "process_sane e"
  shows "\<exists>e' w'. start_event vhex os e w = Some (e', w') \<and>
    (if startable e \<and> e_ready e then was_started vhex os e e' else e' = e)"
proof (cases "startable e \<and> e_ready e")
  case True
  then obtain st where st: "ina_process_query_state (e_process e) = Inr st" "st \<noteq> INA_PROCESS_RUNNING" "has_cf e INA_CRON_CF_EXEC"
    by (auto simp: startable_def)
  then obtain p where p: "e_process e = Some p" by (auto simp: ina_process_query_state_def split: option.splits)
  then obtain r p' w' where s: "ina_process_start vhex os (Some p) w = Some (r, Some p', w')"
    using assms process_start_defined [of p _ vhex os w] by (auto simp: process_sane_def)
  have "start_event vhex os e w = Some (e\<lparr>e_process := Some p'\<rparr>, w')" using True st p s by (cases e) (simp add: start_event_def)
  moreover have "was_started vhex os e (e\<lparr>e_process := Some p'\<rparr>)" using p s by (auto simp: was_started_def)
  ultimately show ?thesis using True by auto
next
  case False
  then have "start_event vhex os e w = Some (e, w)" by (auto simp: start_event_def startable_def split: sum.split)
  then show ?thesis using False by auto
qed

definition started_rel :: "u64 \<Rightarrow> 'w os \<Rightarrow> cron_event \<Rightarrow> cron_event \<Rightarrow> bool" where
  "started_rel vhex os e e' \<longleftrightarrow> (if startable e \<and> e_ready e then was_started vhex os e e' else e' = e)"

lemma start_events_rel:
  assumes "\<forall>(i, e) \<in> set evs. process_sane e"
  shows "\<exists>evs' w'. start_events vhex os evs w = Some (evs', w') \<and>
    list_all2 (\<lambda>(i, e) (j, e'). j = i \<and> started_rel vhex os e e') evs evs'"
  using assms
proof (induction evs arbitrary: w)
  case (Cons x evs)
  obtain i e where x: "x = (i, e)" by force
  obtain e' w1 where e: "start_event vhex os e w = Some (e', w1)" "started_rel vhex os e e'"
    using start_event_step [of e vhex os w] Cons.prems x by (auto simp: started_rel_def)
  obtain evs' w' where "start_events vhex os evs w1 = Some (evs', w')"
    "list_all2 (\<lambda>(i, e) (j, e'). j = i \<and> started_rel vhex os e e') evs evs'" using Cons.IH [of w1] Cons.prems by auto
  then show ?case using x e by simp
qed simp

text \<open>What a processing step may do to an event: it becomes ready, and can be pulled, when it is due in the
  window; its process is started when it can be and the event is ready, provided that some idle event of
  the context is due.\<close>

definition some_due :: "(int \<Rightarrow> tm) \<Rightarrow> int \<Rightarrow> int \<Rightarrow> (string \<times> cron_event) list \<Rightarrow> bool" where
  "some_due lt t1 t2 evs \<longleftrightarrow> (\<exists>(i, e) \<in> set evs. due lt t1 t2 e \<and> idle e)"

definition after_run ::
    "(int \<Rightarrow> tm) \<Rightarrow> int \<Rightarrow> int \<Rightarrow> u64 \<Rightarrow> 'w os \<Rightarrow> (string \<times> cron_event) list \<Rightarrow> cron_event \<Rightarrow> cron_event \<Rightarrow> bool" where
  "after_run lt t1 t2 vhex os evs e e' \<longleftrightarrow>
     e_ready e' = (e_ready e \<or> due lt t1 t2 e \<and> idle e) \<and>
     e_can_pull e' = (e_can_pull e \<or> due lt t1 t2 e \<and> has_cf e INA_CRON_CF_PULL \<and> e_key e \<noteq> 0) \<and>
     (if some_due lt t1 t2 evs \<and> startable e \<and> (e_ready e \<or> due lt t1 t2 e)
      then \<exists>w1 r w2. ina_process_start vhex os (e_process e) w1 = Some (r, e_process e', w2)
      else e_process e' = e_process e)"

lemma startable_marked [simp]: "startable (marked e) = startable e"
  by (simp add: startable_def has_cf_def)

lemma sane_marked: "process_sane e \<Longrightarrow> process_sane (marked e)"
  by (simp add: process_sane_def)

lemma started_fields: "started_rel vhex os e e' \<Longrightarrow> e_ready e' = e_ready e \<and> e_can_pull e' = e_can_pull e"
proof -
  assume "started_rel vhex os e e'"
  then have "\<exists>p. e' = e\<lparr>e_process := p\<rparr> \<or> e' = e" unfolding started_rel_def was_started_def by meson
  then show ?thesis by auto
qed

lemma started_after_run:
  assumes "some_due lt t1 t2 evs" "started_rel vhex os (if due lt t1 t2 e then marked e else e) e'"
  shows "after_run lt t1 t2 vhex os evs e e'"
proof -
  let ?m = "if due lt t1 t2 e then marked e else e"
  have m: "e_process ?m = e_process e" "startable ?m = startable e" "e_ready ?m = (e_ready e \<or> due lt t1 t2 e \<and> idle e)"
    "e_can_pull ?m = (e_can_pull e \<or> due lt t1 t2 e \<and> has_cf e INA_CRON_CF_PULL \<and> e_key e \<noteq> 0)" by auto
  have f: "e_ready e' = e_ready ?m" "e_can_pull e' = e_can_pull ?m" using started_fields [OF assms(2)] by blast+
  have "(if startable e \<and> e_ready ?m then was_started vhex os ?m e' else e' = ?m)"
    using assms(2) unfolding started_rel_def m(2) .
  moreover have "startable e \<and> e_ready ?m \<longleftrightarrow> startable e \<and> (e_ready e \<or> due lt t1 t2 e)"
    using startable_idle [of e] m(3) by blast
  ultimately have "if startable e \<and> (e_ready e \<or> due lt t1 t2 e)
      then \<exists>w1 r w2. ina_process_start vhex os (e_process e) w1 = Some (r, e_process e', w2) else e_process e' = e_process e"
    unfolding was_started_def m(1) using m(1) by (metis (full_types))
  then show ?thesis using assms(1) f unfolding after_run_def m by simp
qed

lemma marked_after_run:
  "\<not> some_due lt t1 t2 evs \<Longrightarrow> after_run lt t1 t2 vhex os evs e (if due lt t1 t2 e then marked e else e)"
  by (simp add: after_run_def)

lemma ball_on_events: "(\<forall>(i, e) \<in> set (on_events f evs). P e) \<longleftrightarrow> (\<forall>(i, e) \<in> set evs. P (f e))"
  by (simp add: on_events_def split_beta)

lemma list_all2_on_events:
  "list_all2 (\<lambda>(i, e) (j, e'). j = i \<and> P e e') (on_events f evs) evs' = list_all2 (\<lambda>(i, e) (j, e'). j = i \<and> P (f e) e') evs evs'"
  by (simp add: on_events_def list_all2_map1 case_prod_beta')

lemma list_all2_on_events_self:
  "(\<And>e. P e (f e)) \<Longrightarrow> list_all2 (\<lambda>(i, e) (j, e'). j = i \<and> P e e') evs (on_events f evs)"
  by (induction evs) auto

text \<open>C26. A processing step less than an hour after the previous one always completes, takes the window up to
  now, marks exactly the events due in it, and starts exactly the processes described above.  In particular
  the mark stays set, so an event that was due once is started again whenever any other event is due.\<close>

theorem cron_process_due:
  assumes "succeeds call" "c_t1 c < now" "now \<le> c_t1 c + 60 * 60" "length (c_events c) \<le> 500"
    and "\<forall>(i, e) \<in> set (c_events c). process_sane e"
  shows "\<exists>s c' w'. ina_cron_process lt call vhex os clock (Some c) now w = Some (Inr s, Some c', w') \<and> c_t1 c' = now \<and>
    list_all2 (\<lambda>(i, e) (j, e'). j = i \<and> after_run lt (c_t1 c) now vhex os (c_events c) e e') (c_events c) (c_events c')"
proof -
  let ?M = "\<lambda>e. if due lt (c_t1 c) now e then marked e else e" and ?evs = "c_events c"
  let ?R = "\<lambda>(i, e) (j, e'). j = i \<and> after_run lt (c_t1 c) now vhex os (c_events c) e e'"
  have le: "c_t1 c \<le> now" using assms(2) by simp
  obtain n w1 where t: "ina_test_jobs lt call (c_t1 c) now ?evs w = (on_events ?M ?evs, n, w1)"
    and n: "n = 0 \<longleftrightarrow> \<not> some_due lt (c_t1 c) now ?evs"
    using test_jobs_marks [OF assms(1) le assms(3,4), of lt w] unfolding some_due_def by blast
  have run: "\<not> (now - c_t1 c < - (60 * 60) \<or> 60 * 60 < now - c_t1 c)" "0 < now - c_t1 c" using assms(2,3) by auto
  show ?thesis
  proof (cases "n = 0")
    case True
    then have "list_all2 ?R ?evs (on_events ?M ?evs)" using n by (intro list_all2_on_events_self marked_after_run) simp
    then show ?thesis using t run True by (simp add: ina_cron_process_def Let_def)
  next
    case False
    have "\<forall>(i, e) \<in> set (on_events ?M ?evs). process_sane e"
      unfolding ball_on_events using assms(5) by (auto simp: sane_marked)
    from start_events_rel [OF this, of vhex os w1]
    obtain evs' w' where s: "start_events vhex os (on_events ?M ?evs) w1 = Some (evs', w')"
      "list_all2 (\<lambda>(i, e) (j, e'). j = i \<and> started_rel vhex os e e') (on_events ?M ?evs) evs'"
      by blast
    have "some_due lt (c_t1 c) now ?evs" using n False by blast
    note imp = started_after_run [OF this, of vhex os]
    have "list_all2 ?R ?evs evs'"
    proof (rule list_all2_mono [OF s(2) [unfolded list_all2_on_events]])
      fix x y :: "string \<times> cron_event"
      obtain i e j e' where xy: "x = (i, e)" "y = (j, e')" by force
      assume "(case x of (i, e) \<Rightarrow> \<lambda>(j, e'). j = i \<and> started_rel vhex os (?M e) e') y"
      then have "j = i" "started_rel vhex os (?M e) e'" unfolding xy prod.case by blast+
      then show "?R x y" using imp [of e e'] unfolding xy prod.case by blast
    qed
    then show ?thesis using t run False s(1) by (simp add: ina_cron_process_def Let_def)
  qed
qed

definition demo_event :: cron_event where
  "demo_event = zero_event\<lparr>e_tt := \<lparr>mins = replicate 60 1, hours = replicate 24 1, days = replicate 32 1, mons = replicate 12 1,
     dow = replicate 7 1\<rparr>, e_cf := INA_CRON_CF_EXEC OR INA_CRON_CF_PULL, e_key := 9, e_process := Some demo_process\<rparr>"

definition demo_time :: "int \<Rightarrow> tm" where
  "demo_time t = \<lparr>tm_min = nat (t div 60 mod 60), tm_hour = nat (t div 3600 mod 24), tm_mday = 1, tm_mon = 0, tm_wday = 4\<rparr>"

definition demo_cron :: cron_ctx where
  "demo_cron = \<lparr>c_events = [(''a'', demo_event)], c_t1 = 30, c_t2 = 0, c_stime = 60\<rparr>"

theorem cron_process_due_witness:
  "\<exists>s c' w'. ina_cron_process demo_time (\<lambda>_ _ w. (Inr (), w)) 0 demo_os 90 (Some demo_cron) 90 0 = Some (Inr s, Some c', w') \<and>
    c_t1 c' = 90 \<and>
    list_all2 (\<lambda>(i, e) (j, e'). j = i \<and> after_run demo_time 30 90 0 demo_os [(''a'', demo_event)] e e')
      [(''a'', demo_event)] (c_events c')"
proof -
  have s: "succeeds (\<lambda>_ _ (w :: nat). (Inr (), w))" by (simp add: succeeds_def)
  have d: "\<forall>(i, e) \<in> set (c_events demo_cron). process_sane e"
    by (simp add: demo_cron_def demo_event_def process_sane_def demo_process_def process_init_def INA_PROCESS_STARTABLE_def)
  have "c_t1 demo_cron = 30" "c_events demo_cron = [(''a'', demo_event)]" by (simp_all add: demo_cron_def)
  then show ?thesis using cron_process_due [OF s _ _ _ d, of 90 demo_time 0 demo_os 90 0] by simp
qed

text \<open>Clock jumps: more than an hour in either direction only moves the window and touches no event; up to
  an hour backwards changes neither, so nothing runs until the clock has caught up.\<close>

theorem cron_clock_jump:
  "(now < c_t1 c - 60 * 60 \<or> c_t1 c + 60 * 60 < now \<longrightarrow>
      ina_cron_process lt call vhex os clock (Some c) now w =
        Some (Inr (suggested_time (c_stime c) clock), Some (c\<lparr>c_t1 := now, c_t2 := now\<rparr>), w)) \<and>
    (c_t1 c - 60 * 60 \<le> now \<and> now \<le> c_t1 c \<longrightarrow>
      ina_cron_process lt call vhex os clock (Some c) now w =
        Some (Inr (suggested_time (c_stime c) clock), Some (c\<lparr>c_t2 := now\<rparr>), w))"
  by (auto simp: ina_cron_process_def Let_def)

theorem cron_clock_jump_witness:
  "ina_cron_process demo_time (\<lambda>_ _ w. (Inr (), w)) 0 demo_os 90 (Some demo_cron) 10 0 =
    Some (Inr (suggested_time 60 90), Some (demo_cron\<lparr>c_t2 := 10\<rparr>), 0)"
  using cron_clock_jump [of 10 demo_cron demo_time "\<lambda>_ _ w. (Inr (), w)" 0 demo_os 90 0] by (simp add: demo_cron_def)

theorem last_exec_latest_witness:
  "ina_cron_last_exec_systime demo_time (Some demo_cron) (Some (e_tt demo_event)) 100 = Inr 60"
proof -
  obtain r where r: "ina_cron_last_exec_systime demo_time (Some demo_cron) (Some (e_tt demo_event)) 100 = Inr r" "60 dvd r" "r \<le> 100"
    and l: "r < 60 \<and> 60 \<le> (100 :: int) \<and> 60 dvd (60 :: int) \<longrightarrow> \<not> tt_match (e_tt demo_event) (demo_time 60)"
    using last_exec_latest [of 100 demo_time demo_cron "e_tt demo_event"] by auto
  have "tt_match (e_tt demo_event) (demo_time 60)" by code_simp
  then have "60 \<le> r" using l by simp
  then have "r = 60" using r(2,3) by (auto elim!: dvdE)
  then show ?thesis using r(1) by simp
qed

section \<open>Windows in sequence\<close>

text \<open>The reference: the full minutes after \<open>t1\<close> up to \<open>t2\<close>, in order, each tested once.\<close>

definition minutes :: "int \<Rightarrow> int \<Rightarrow> int list" where
  "minutes t1 t2 = filter (\<lambda>t. 60 dvd t) [t1 + 1..t2]"

definition minute_step ::
    "(int \<Rightarrow> tm) \<Rightarrow> (nat \<Rightarrow> nat \<Rightarrow> 'w \<Rightarrow> unit ina_res \<times> 'w) \<Rightarrow> int \<Rightarrow> (string \<times> cron_event) list \<times> 'w \<Rightarrow> (string \<times> cron_event) list \<times> 'w" where
  "minute_step lt call t s = (case test_events call (lt t) (fst s) 0 (snd s) of (evs, n, w) \<Rightarrow> (evs, w))"

definition no_count :: "'a \<times> int \<times> 'w \<Rightarrow> 'a \<times> 'w" where
  "no_count r = (fst r, snd (snd r))"

lemma test_events_count: "no_count (test_events call tp evs n w) = no_count (test_events call tp evs m w)"
  by (induction evs arbitrary: n m w) (auto simp: no_count_def split_beta Let_def)

lemma sorted_filter_upto: "sorted (filter P [i..j]) \<and> distinct (filter P [i..j])"
  by (simp add: sorted_wrt_filter)

lemma filter_upto_eqI: "(\<And>u. P u \<and> i \<le> u \<and> u \<le> j \<longleftrightarrow> u \<in> set xs) \<Longrightarrow> sorted xs \<Longrightarrow> distinct xs \<Longrightarrow> filter P [i..j] = xs"
  using sorted_filter_upto [of P i j] by (intro sorted_distinct_set_unique) auto

lemma test_loop_minutes:
  assumes "60 dvd t"
  shows "no_count (test_loop lt call t1 t2 t evs n w) =
    fold (minute_step lt call) (filter (\<lambda>u. 60 dvd u \<and> t1 < u) [t..t2]) (evs, w)"
  using assms
proof (induction lt call t1 t2 t evs n w rule: test_loop.induct)
  case (1 lt call t1 t2 t evs n w)
  let ?P = "\<lambda>u. 60 dvd u \<and> t1 < u"
  show ?case
  proof (cases "t \<le> t2")
    case False
    then show ?thesis by (simp add: test_loop.simps [of lt call t1 t2 t evs n w] no_count_def)
  next
    case True
    obtain evs1 n1 w1 where s: "(if t > t1 then test_events call (lt t) evs n w else (evs, n, w)) = (evs1, n1, w1)"
      by (metis prod_cases3)
    have next_m: "t \<le> u \<longleftrightarrow> u = t \<or> t + 60 \<le> u" if d: "60 dvd u" for u using d 1(2) by (auto elim!: dvdE)
    have "filter ?P [t..t2] = (if t1 < t then [t] else []) @ filter ?P [t + 60..t2]"
    proof (rule filter_upto_eqI)
      fix u show "?P u \<and> t \<le> u \<and> u \<le> t2 \<longleftrightarrow> u \<in> set ((if t1 < t then [t] else []) @ filter ?P [t + 60..t2])"
        using next_m [of u] 1(2) True by auto
      show "sorted ((if t1 < t then [t] else []) @ filter ?P [t + 60..t2])"
        "distinct ((if t1 < t then [t] else []) @ filter ?P [t + 60..t2])"
        using sorted_filter_upto [of ?P "t + 60" t2] by (auto simp: sorted_append)
    qed
    moreover have "(if t1 < t then minute_step lt call t (evs, w) else (evs, w)) = (evs1, w1)"
      using s test_events_count [of call "lt t" evs n w 0]
      by (auto simp: minute_step_def no_count_def split_beta split: if_splits)
    moreover have "no_count (test_loop lt call t1 t2 (t + 60) evs1 n1 w1) = fold (minute_step lt call) (filter ?P [t + 60..t2]) (evs1, w1)"
      using 1(1) [OF True s [symmetric] refl] 1(2) by simp
    ultimately show ?thesis using True s by (simp add: test_loop.simps [of lt call t1 t2 t evs n w] split: if_splits)
  qed
qed

lemma test_jobs_minutes: "no_count (ina_test_jobs lt call t1 t2 evs w) = fold (minute_step lt call) (minutes t1 t2) (evs, w)"
proof -
  have "minutes t1 t2 = filter (\<lambda>u. 60 dvd u \<and> t1 < u) [t1 - t1 smod 60..t2]"
    unfolding minutes_def using first_minute(2) [of t1] sorted_filter_upto by (intro filter_upto_eqI) auto
  then show ?thesis unfolding ina_test_jobs_def by (simp add: test_loop_minutes first_minute(1))
qed

text \<open>C27. The test for due jobs looks at the full minutes of its window, from after \<open>t1\<close> up to \<open>t2\<close>, once
  each and in order, whatever the callbacks do; so two adjoining windows have the same effect as one, and no
  minute is lost or repeated between two processing steps.\<close>

theorem cron_minutes:
  "no_count (ina_test_jobs lt call t1 t2 evs w) = fold (minute_step lt call) (minutes t1 t2) (evs, w) \<and>
    (t1 \<le> t2 \<and> t2 \<le> t3 \<longrightarrow> no_count (ina_test_jobs lt call t1 t3 evs w) =
      (let (evs2, _, w2) = ina_test_jobs lt call t1 t2 evs w in no_count (ina_test_jobs lt call t2 t3 evs2 w2)))"
proof -
  have "minutes t1 t3 = minutes t1 t2 @ minutes t2 t3" if "t1 \<le> t2" "t2 \<le> t3"
    using upto_split2 [of "t1 + 1" t2 t3] that by (cases "t1 = t2") (simp_all add: minutes_def)
  moreover obtain evs2 n w2 where j: "ina_test_jobs lt call t1 t2 evs w = (evs2, n, w2)" by (metis prod_cases3)
  then have "fold (minute_step lt call) (minutes t1 t2) (evs, w) = (evs2, w2)"
    using test_jobs_minutes [of lt call t1 t2 evs w] by (simp add: no_count_def)
  ultimately show ?thesis unfolding test_jobs_minutes j Let_def prod.case by (auto simp: no_count_def)
qed

theorem cron_minutes_witness:
  "minutes 30 200 = [60, 120, 180] \<and>
    no_count (ina_test_jobs demo_time (\<lambda>_ _ w. (Inr (), w)) 30 200 [(''a'', demo_event)] (0 :: nat)) =
      (let (evs2, _, w2) = ina_test_jobs demo_time (\<lambda>_ _ w. (Inr (), w)) 30 100 [(''a'', demo_event)] 0
       in no_count (ina_test_jobs demo_time (\<lambda>_ _ w. (Inr (), w)) 100 200 evs2 w2))"
proof -
  have "minutes 30 200 = [60, 120, 180]" by code_simp
  then show ?thesis using cron_minutes [of demo_time "\<lambda>_ _ w. (Inr (), w)" 30 100 "[(''a'', demo_event)]" "0 :: nat" 200] by simp
qed

section \<open>Pulling\<close>

definition flagged :: "(string \<times> cron_event) list \<Rightarrow> cron_event list" where
  "flagged evs = filter (\<lambda>e. has_cf e INA_CRON_CF_PULL \<and> e_can_pull e) (map snd evs)"

lemma pull_first_none: "flagged evs = [] \<Longrightarrow> pull_first evs = ((0, None), evs)"
  by (induction evs rule: pull_first.induct) (auto simp: flagged_def split: if_splits)

lemma pull_first_some:
  "flagged evs = e # es \<Longrightarrow> \<exists>evs'. pull_first evs = ((e_key e, Some (e_pull_data e)), evs') \<and> flagged evs' = es"
proof (induction evs rule: pull_first.induct)
  case 1 then show ?case by (simp add: flagged_def)
next
  case (2 i d evs)
  show ?case
  proof (cases "has_cf d INA_CRON_CF_PULL \<and> e_can_pull d")
    case True then show ?thesis using 2(2) by (auto simp: flagged_def)
  next
    case False
    then have "flagged evs = e # es" using 2(2) by (auto simp: flagged_def)
    then obtain evs' where "pull_first evs = ((e_key e, Some (e_pull_data e)), evs')" "flagged evs' = es" using 2(1) False by blast
    then show ?thesis using False by (auto simp: flagged_def)
  qed
qed

fun pulls :: "nat \<Rightarrow> cron_ctx \<Rightarrow> (u32 \<times> nat option) ina_res list \<times> cron_ctx" where
  "pulls 0 c = ([], c)"
| "pulls (Suc n) c =
     (case ina_cron_try_pull (Some c) of
        (r, None) \<Rightarrow> ([r], c)
      | (r, Some c) \<Rightarrow> let (rs, c) = pulls n c in (r # rs, c))"

text \<open>C34. Pulling delivers every event that waits to be pulled exactly once, in the order of the table, and
  then reports key zero.\<close>

theorem cron_pull_drains:
  "fst (pulls (length (flagged (c_events c)) + m) c) =
    map (\<lambda>e. Inr (e_key e, Some (e_pull_data e))) (flagged (c_events c)) @ replicate m (Inr (0, None))"
proof (induction "flagged (c_events c)" arbitrary: c)
  case Nil
  have "fst (pulls m c) = replicate m (Inr (0, None))"
    using Nil by (induction m) (auto simp: ina_cron_try_pull_def pull_first_none split_beta Let_def)
  then show ?case using Nil by simp
next
  case (Cons e es)
  obtain evs' where p: "pull_first (c_events c) = ((e_key e, Some (e_pull_data e)), evs')" "flagged evs' = es"
    using pull_first_some [OF Cons(2) [symmetric]] by blast
  have "fst (pulls (length es + m) (c\<lparr>c_events := evs'\<rparr>)) = map (\<lambda>e. Inr (e_key e, Some (e_pull_data e))) es @ replicate m (Inr (0, None))"
    using Cons(1) [of "c\<lparr>c_events := evs'\<rparr>"] p(2) by simp
  then show ?case using p(1) by (simp add: Cons(2) [symmetric] ina_cron_try_pull_def split_beta Let_def)
qed

text \<open>Creating an event does not register it: the context is unchanged, the event is not found by its
  identifier, has no context of its own, and setting what it executes reads through a null pointer.  As no
  other operation fills the table of a context, a context never has events to process.\<close>

theorem cron_event_unregistered:
  assumes "map_of (c_events c) i = None" "i \<noteq> []"
    and "ina_cron_event_new cur (Some c) (Some i) pat cf = Some (Inr e, c')"
  shows "c' = Some c \<and> ina_cron_event_by_id c' (Some i) nf = Inl nf \<and> \<not> e_ctx e \<and>
    ina_cron_event_set_exec_params parts np (Some e) (Some cmd) wd = None"
proof -
  have "c' = Some c \<and> \<not> e_ctx e" using assms
    by (auto simp: ina_cron_event_new_def zero_event_def split: option.splits sum.splits)
  then show ?thesis using assms(1)
    by (simp add: ina_cron_event_by_id_def ina_cron_event_set_exec_params_def)
qed

theorem cron_event_unregistered_witness:
  "\<exists>e. ina_cron_event_new (Inr ()) (Some demo_cron) (Some ''t1'') (Some ''0 * * * *'') 0 = Some (Inr e, Some demo_cron) \<and>
    ina_cron_event_by_id (Some demo_cron) (Some ''t1'') 5 = Inl 5 \<and> \<not> e_ctx e \<and>
    ina_cron_event_set_exec_params [''ls'', ''-l''] (\<lambda>_ _ _. Inl 0) (Some e) (Some ''ls -l'') None = None"
proof -
  let ?f = "\<lparr>f_min = [(One (Num 0), None)], f_hour = [(Star, None)], f_day = [(Star, None)], f_mon = [(Star, None)],
    f_dow = [(Star, None)]\<rparr> :: cron_fields"
  have g: "fields_good ?f" "pattern_text ?f = ''0 * * * *''" by code_simp+
  have "tm_ok (demo_time 0)" by code_simp
  then obtain tt where "ina_cron_parse_pattern (Some ''0 * * * *'') (Some zero_timetable) = Some (Inr (), Some tt)"
    using parse_pattern_fields [OF g(1)] unfolding g(2) by (auto simp: ina_cron_parse_pattern_def)
  then obtain e where e: "ina_cron_event_new (Inr ()) (Some demo_cron) (Some ''t1'') (Some ''0 * * * *'') 0 = Some (Inr e, Some demo_cron)"
    by (simp add: ina_cron_event_new_def demo_cron_def zero_event_def)
  show ?thesis using cron_event_unregistered [OF _ _ e, of 5 "[''ls'', ''-l'']"] e by (simp add: demo_cron_def)
qed

end
