(* ===== verification/Inac_Ullc.thy ===== *)
theory Inac_Ullc
  imports Inac_Hash "HOL-Library.Signed_Division"
begin

text \<open>
  The lock-free ring (\<open>src/ullc.c\<close>, \<open>include/libinac/ullc.h\<close>): a ring of slots in shared memory with
  one cursor for the producers and one per consumer.  The shared memory is the record \<open>ring\<close>: the
  header, the slots as a list, and the cursors of consumers and then producers as a list of pairs
  of the alive flag and the position.  64-bit counters are \<open>int\<close>, which is exact below 2^63
  operations.  Mapping the memory and creating the semaphore are arguments.  Opening the semaphore in a
  consumer succeeds whatever the system answers.

  The second half is an interleaving semantics: one producer and any number of consumers run the
  operations as sequences of atomic steps on the shared ring.  A slot is a list of units that the memory
  reads and writes at once; filling a slot and reading it take one step per unit, in any order.  All
  parties see the steps in one order, as volatile accesses on x86-64 do.
\<close>

section \<open>Data\<close>

record 'd ring =
  magic :: char
  version :: int
  num_consumers :: int
  num_producers :: int
  r_size :: int
  slots :: int
  cursor :: int
  next_ptr :: int
  alive_producers :: int
  overrun_enabled :: int
  semkey :: u32
  r_data :: "'d list"
  r_cells :: "(int \<times> int) list"

datatype ctx_type = INA_ULLC_CTX_PRODUCER | INA_ULLC_CTX_CONSUMER

record ullc_ctx =
  x_id :: nat
  x_type :: ctx_type
  x_cell :: nat

definition INA_MAGIC_HDR :: char where "INA_MAGIC_HDR = CHR ''Z''"
definition INT64_MAX :: int where "INT64_MAX = 2 ^ 63 - 1"
definition INA_ULLC_MAX_PRODUCERS :: int where "INA_ULLC_MAX_PRODUCERS = 64"
definition INA_ULLC_MAX_CONSUMERS :: int where "INA_ULLC_MAX_CONSUMERS = INA_ULLC_MAX_PRODUCERS"

definition ERR_ARGUMENT_INVALID :: ina_rc_t where "ERR_ARGUMENT_INVALID = INA_ES ''ARGUMENT'' OR INA_ERR_NOT_of ''VALID''"
definition ERR_MEMORY_NOT_ALIGNED :: ina_rc_t where "ERR_MEMORY_NOT_ALIGNED = INA_ES ''MEMORY'' OR INA_ERR_NOT_of ''ALIGNED''"
definition ERR_VERSION_INVALID :: ina_rc_t where "ERR_VERSION_INVALID = INA_ES ''VERSION'' OR INA_ERR_NOT_of ''VALID''"
definition ERR_LIMIT_EXCEEDED :: ina_rc_t where "ERR_LIMIT_EXCEEDED = INA_ES ''LIMIT'' OR INA_ERR ''EXCEEDED''"
definition ERR_OPERATION_FAILED :: ina_rc_t where "ERR_OPERATION_FAILED = INA_ES ''OPERATION'' OR INA_ERR ''FAILED''"

text \<open>\<open>INA_ATOMIC_SWAP\<close>: compare and swap; the old value is the result.\<close>

definition atomic_swap :: "int \<Rightarrow> int \<Rightarrow> int \<Rightarrow> int \<times> int" where
  "atomic_swap v old new = (v, if v = old then new else v)"

section \<open>Creating and attaching\<close>

definition ring_init :: "int \<Rightarrow> int \<Rightarrow> int \<Rightarrow> int \<Rightarrow> int \<Rightarrow> u32 \<Rightarrow> 'd ring \<Rightarrow> 'd ring" where
  "ring_init ver sz sl np nc key rb =
     rb\<lparr>magic := INA_MAGIC_HDR, slots := sl, num_producers := np, num_consumers := nc, overrun_enabled := -1,
        cursor := -1, next_ptr := 0, alive_producers := 0, version := ver, r_size := sz, semkey := key\<rparr>"

text \<open>\<open>__ina_sem_makekey\<close>: the key of the semaphore is the checksum of the name of the ring.\<close>

definition ina_sem_makekey :: "string \<Rightarrow> u32" where
  "ina_sem_makekey name = ina_hash_crc32 0 (map (\<lambda>c. of_nat (of_char c)) name)"

text \<open>The mapping \<open>mapped\<close> is the shared memory as the parameters of the caller cut it into slots and
  cursors, or the error of \<open>ina_mempool_new\<close>.\<close>

definition ina_ullc_ring_create ::
    "int \<Rightarrow> int \<Rightarrow> int \<Rightarrow> int \<Rightarrow> int \<Rightarrow> u32 \<Rightarrow> bool \<Rightarrow> 'd ring ina_res \<Rightarrow> unit ina_res \<times> 'd ring option" where
  "ina_ullc_ring_create ver sz sl np nc key excl mapped =
     (if sz mod 2 \<noteq> 0 then (Inl ERR_MEMORY_NOT_ALIGNED, None)
      else case mapped of
        Inl e \<Rightarrow> (Inl e, None)
      | Inr rb \<Rightarrow>
          let rb = (if magic rb \<noteq> INA_MAGIC_HDR \<or> excl then ring_init ver sz sl np nc key rb else rb)
          in if version rb \<noteq> ver \<or> r_size rb \<noteq> sz \<or> slots rb \<noteq> sl \<or> num_consumers rb \<noteq> nc \<or> num_producers rb \<noteq> np
             then (Inl ERR_ARGUMENT_INVALID, Some rb)
             else (Inr (), Some rb))"

definition params_ok :: "int \<Rightarrow> int \<Rightarrow> int \<Rightarrow> int \<Rightarrow> int \<Rightarrow> string option \<Rightarrow> bool" where
  "params_ok ver sz sl np nc name \<longleftrightarrow>
     0 < ver \<and> 0 < sz \<and> 0 < sl \<and> 0 < np \<and> np \<le> INA_ULLC_MAX_PRODUCERS \<and> 0 < nc \<and> nc \<le> INA_ULLC_MAX_CONSUMERS \<and>
     name \<noteq> None \<and> name \<noteq> Some []"

text \<open>The search for a free producer: the pointer is advanced by the identifier in every round, so the
  offsets add up.\<close>

function producer_slot :: "(int \<times> int) list \<Rightarrow> nat \<Rightarrow> nat \<Rightarrow> nat \<Rightarrow> ((nat \<times> nat) option \<times> (int \<times> int) list) option" where
  "producer_slot cells np i off =
     (if np \<le> i then Some (None, cells)
      else let off = off + i
           in if length cells \<le> off then None
              else (case atomic_swap (fst (cells ! off)) 0 1 of
                      (old, new) \<Rightarrow>
                        if old = 0 then Some (Some (i, off), cells[off := (new, snd (cells ! off))])
                        else producer_slot cells np (i + 1) off))"
  by pat_completeness auto

termination
  by (relation "measure (\<lambda>(_, np, i, _). np - i)") auto

declare producer_slot.simps [simp del]

text \<open>The result \<open>Inr None\<close> is success with the context already freed, which happens when the semaphore
  cannot be created.\<close>

definition ina_ullc_producer_new ::
    "int \<Rightarrow> int \<Rightarrow> int \<Rightarrow> int \<Rightarrow> int \<Rightarrow> string option \<Rightarrow> 'd ring ina_res \<Rightarrow> 'd ring ina_res \<Rightarrow> bool \<Rightarrow>
      (ullc_ctx option ina_res \<times> 'd ring option) option" where
  "ina_ullc_producer_new ver sz sl np nc name map_excl map_create sem_ok =
     (if \<not> params_ok ver sz sl np nc name then Some (Inl INA_ERR_INVALID_ARGUMENT, None)
      else
        let key = ina_sem_makekey (the name);
            r = (case ina_ullc_ring_create ver sz sl np nc key True map_excl of
                   (Inr _, rb) \<Rightarrow> (Inr (), rb)
                 | (Inl _, _) \<Rightarrow> ina_ullc_ring_create ver sz sl np nc key False map_create)
        in case r of
             (Inl e, rb) \<Rightarrow> Some (Inl e, rb)
           | (Inr _, None) \<Rightarrow> None
           | (Inr _, Some rb) \<Rightarrow>
               if version rb \<noteq> ver then Some (Inl ERR_VERSION_INVALID, Some rb)
               else (case producer_slot (r_cells rb) (nat np) 0 (nat nc) of
                       None \<Rightarrow> None
                     | Some (None, cells) \<Rightarrow> Some (Inl ERR_LIMIT_EXCEEDED, Some (rb\<lparr>r_cells := cells\<rparr>))
                     | Some (Some (i, off), cells) \<Rightarrow>
                         Some (Inr (if sem_ok then Some \<lparr>x_id = i, x_type = INA_ULLC_CTX_PRODUCER, x_cell = off\<rparr> else None),
                               Some (rb\<lparr>r_cells := cells\<rparr>))))"

function consumer_slot :: "(int \<times> int) list \<Rightarrow> nat \<Rightarrow> nat \<Rightarrow> (nat option \<times> (int \<times> int) list) option" where
  "consumer_slot cells nc i =
     (if nc \<le> i then Some (None, cells)
      else if length cells \<le> i then None
      else (case atomic_swap (fst (cells ! i)) 0 1 of
              (old, new) \<Rightarrow>
                if old = 0 then Some (Some i, cells[i := (new, snd (cells ! i))]) else consumer_slot cells nc (i + 1)))"
  by pat_completeness auto

termination
  by (relation "measure (\<lambda>(_, nc, i). nc - i)") auto

declare consumer_slot.simps [simp del]

definition first_position :: "int \<Rightarrow> int \<Rightarrow> int" where
  "first_position pos cur = (let p = snd (atomic_swap pos 0 cur) in if p < 0 then 0 else p)"

definition ina_ullc_consumer_new ::
    "int \<Rightarrow> int \<Rightarrow> int \<Rightarrow> int \<Rightarrow> int \<Rightarrow> string option \<Rightarrow> 'd ring ina_res \<Rightarrow> (ullc_ctx option ina_res \<times> 'd ring option) option" where
  "ina_ullc_consumer_new ver sz sl np nc name mapped =
     (if \<not> params_ok ver sz sl np nc name then Some (Inl INA_ERR_INVALID_ARGUMENT, None)
      else case ina_ullc_ring_create ver sz sl np nc (ina_sem_makekey (the name)) False mapped of
        (Inl e, rb) \<Rightarrow> Some (Inl e, rb)
      | (Inr _, None) \<Rightarrow> None
      | (Inr _, Some rb) \<Rightarrow>
          if version rb \<noteq> ver then Some (Inl ERR_VERSION_INVALID, Some rb)
          else (case consumer_slot (r_cells rb) (nat nc) 0 of
                  None \<Rightarrow> None
                | Some (None, cells) \<Rightarrow> Some (Inl ERR_LIMIT_EXCEEDED, Some (rb\<lparr>r_cells := cells\<rparr>))
                | Some (Some i, cells) \<Rightarrow>
                    Some (Inr (Some \<lparr>x_id = i, x_type = INA_ULLC_CTX_CONSUMER, x_cell = i\<rparr>),
                          Some (rb\<lparr>r_cells := cells[i := (fst (cells ! i), first_position (snd (cells ! i)) (cursor rb))]\<rparr>))))"

definition ina_ullc_producer_free :: "ullc_ctx option \<Rightarrow> 'd ring \<Rightarrow> 'd ring option" where
  "ina_ullc_producer_free ctx rb =
     (case ctx of
        None \<Rightarrow> Some rb
      | Some x \<Rightarrow>
          if length (r_cells rb) \<le> x_cell x then None
          else let (a, p) = r_cells rb ! x_cell x;
                   rb' = rb\<lparr>r_cells := (r_cells rb)[x_cell x := (snd (atomic_swap a 1 0), p)], alive_producers := alive_producers rb - 1\<rparr>
               in Some (if alive_producers rb = 1 then rb'\<lparr>magic := CHR 0x00\<rparr> else rb'))"

definition ina_ullc_consumer_free :: "ullc_ctx option \<Rightarrow> 'd ring \<Rightarrow> 'd ring option" where
  "ina_ullc_consumer_free ctx rb =
     (case ctx of
        None \<Rightarrow> Some rb
      | Some x \<Rightarrow>
          if length (r_cells rb) \<le> x_cell x then None
          else Some (rb\<lparr>r_cells := (r_cells rb)[x_cell x := (snd (atomic_swap (fst (r_cells rb ! x_cell x)) 1 0), 0)]\<rparr>))"

definition ina_ullc_reset_ring :: "string option \<Rightarrow> 'd ring ina_res \<Rightarrow> unit ina_res \<times> 'd ring option" where
  "ina_ullc_reset_ring name mapped =
     (if name = None \<or> name = Some [] then (Inl INA_ERR_INVALID_ARGUMENT, None)
      else case mapped of Inl e \<Rightarrow> (Inl e, None) | Inr rb \<Rightarrow> (Inr (), Some (rb\<lparr>magic := CHR 0x00\<rparr>)))"

record ring_info =
  ring_version :: int
  num_write_op :: int
  last_writer :: int
  num_read_op :: int
  last_reader :: int
  info_producers :: int
  num_producers_alive :: int
  info_consumers :: int
  num_consumers_alive :: int
  slot_size :: int
  num_slots :: int
  current_slot :: int

definition ina_ullc_get_ring_info :: "string option \<Rightarrow> 'd ring ina_res \<Rightarrow> ring_info ina_res" where
  "ina_ullc_get_ring_info name mapped =
     (if name = None \<or> name = Some [] then Inl INA_ERR_INVALID_ARGUMENT
      else res_bind mapped (\<lambda>rb.
        Inr \<lparr>ring_version = version rb, num_write_op = next_ptr rb mod 2 ^ 64, last_writer = 0, num_read_op = cursor rb mod 2 ^ 64,
             last_reader = 0, info_producers = num_producers rb, num_producers_alive = 0, info_consumers = num_consumers rb,
             num_consumers_alive = 0, slot_size = r_size rb,
             num_slots = slots rb, current_slot = cursor rb\<rparr>))"

section \<open>Writing and reading\<close>

definition ina_ullc_overrun_enable :: "ullc_ctx option \<Rightarrow> 'd ring \<Rightarrow> unit ina_res \<times> 'd ring" where
  "ina_ullc_overrun_enable ctx rb =
     (if ctx = None then (Inl INA_ERR_INVALID_ARGUMENT, rb)
      else case atomic_swap (overrun_enabled rb) INT64_MAX (-1) of
        (old, new) \<Rightarrow> (if old = INT64_MAX then Inr () else Inl ERR_OPERATION_FAILED, rb\<lparr>overrun_enabled := new\<rparr>))"

definition ina_ullc_overrun_disable :: "ullc_ctx option \<Rightarrow> 'd ring \<Rightarrow> unit ina_res \<times> 'd ring" where
  "ina_ullc_overrun_disable ctx rb =
     (if ctx = None then (Inl INA_ERR_INVALID_ARGUMENT, rb)
      else case atomic_swap (overrun_enabled rb) (-1) INT64_MAX of
        (old, new) \<Rightarrow> (if old = -1 then Inr () else Inl ERR_OPERATION_FAILED, rb\<lparr>overrun_enabled := new\<rparr>))"

text \<open>The spinning loop of \<open>claim\<close> sees the consumers anew in every round: \<open>snaps\<close> are their cursors as
  seen in successive rounds.  \<open>None\<close> means that the loop is still spinning after these.\<close>

definition slow_scan :: "int \<Rightarrow> (int \<times> int) list \<Rightarrow> int" where
  "slow_scan sl cells = foldl (\<lambda>slow (alive, pos). if alive \<noteq> 0 then max slow (pos smod sl) else slow) (-1) cells"

fun claim_loop :: "int \<Rightarrow> int \<Rightarrow> int \<Rightarrow> (int \<times> int) list list \<Rightarrow> int option" where
  "claim_loop sl like slow [] = (if like < slow then None else Some like)"
| "claim_loop sl like slow (s # snaps) = (if like < slow then claim_loop sl like (slow_scan sl s) snaps else Some like)"

definition ina_ullc_producer_claim :: "'d ring \<Rightarrow> (int \<times> int) list list \<Rightarrow> int option" where
  "ina_ullc_producer_claim rb snaps = claim_loop (slots rb) (next_ptr rb smod slots rb) (overrun_enabled rb) snaps"

definition commit_next :: "'d ring \<Rightarrow> 'd ring" where
  "commit_next rb = rb\<lparr>next_ptr := next_ptr rb + 1\<rparr>"

definition commit_cursor :: "'d ring \<Rightarrow> 'd ring" where
  "commit_cursor rb = rb\<lparr>cursor := cursor rb + 1\<rparr>"

definition ina_ullc_producer_commit :: "ullc_ctx option \<Rightarrow> 'd ring \<Rightarrow> unit ina_res \<times> 'd ring" where
  "ina_ullc_producer_commit ctx rb =
     (case ctx of
        None \<Rightarrow> (Inl INA_ERR_INVALID_ARGUMENT, rb)
      | Some x \<Rightarrow> if x_type x \<noteq> INA_ULLC_CTX_PRODUCER then (Inl INA_ERR_INVALID_ARGUMENT, rb)
                  else (Inr (), commit_cursor (commit_next rb)))"

definition ina_ullc_producer_get_pos :: "ullc_ctx option \<Rightarrow> 'd ring \<Rightarrow> int ina_res" where
  "ina_ullc_producer_get_pos ctx rb =
     (case ctx of
        None \<Rightarrow> Inl INA_ERR_INVALID_ARGUMENT
      | Some x \<Rightarrow> if x_type x \<noteq> INA_ULLC_CTX_PRODUCER then Inl INA_ERR_INVALID_ARGUMENT else Inr (next_ptr rb))"

definition ina_ullc_consumer_get_pos :: "ullc_ctx option \<Rightarrow> 'd ring \<Rightarrow> int ina_res" where
  "ina_ullc_consumer_get_pos ctx rb =
     (case ctx of
        None \<Rightarrow> Inl INA_ERR_INVALID_ARGUMENT
      | Some x \<Rightarrow> if x_type x \<noteq> INA_ULLC_CTX_CONSUMER then Inl INA_ERR_INVALID_ARGUMENT else Inr (snd (r_cells rb ! x_cell x)))"

definition ina_ullc_consumer_set_pos :: "ullc_ctx option \<Rightarrow> int \<Rightarrow> 'd ring \<Rightarrow> unit ina_res \<times> 'd ring" where
  "ina_ullc_consumer_set_pos ctx pos rb =
     (case ctx of
        None \<Rightarrow> (Inl INA_ERR_INVALID_ARGUMENT, rb)
      | Some x \<Rightarrow>
          if x_type x \<noteq> INA_ULLC_CTX_CONSUMER then (Inl INA_ERR_INVALID_ARGUMENT, rb)
          else let (a, cur) = r_cells rb ! x_cell x;
                   pos = (if pos = -1 \<or> next_ptr rb < pos then next_ptr rb else pos);
                   (old, new) = atomic_swap cur cur pos
               in (if old = cur then Inr () else Inl ERR_OPERATION_FAILED, rb\<lparr>r_cells := (r_cells rb)[x_cell x := (a, new)]\<rparr>))"

text \<open>The result of \<open>get\<close> is the index of the slot whose address is returned; \<open>None\<close> inside is \<open>NULL\<close>.\<close>

definition ina_ullc_consumer_get :: "ullc_ctx \<Rightarrow> 'd ring \<Rightarrow> (nat option \<times> 'd ring) option" where
  "ina_ullc_consumer_get x rb =
     (if x_type x \<noteq> INA_ULLC_CTX_CONSUMER then None
      else let (a, wait_for) = r_cells rb ! x_cell x
           in if cursor rb < wait_for then Some (None, rb)
              else let idx = wait_for smod slots rb
                   in if idx < 0 then None
                      else Some (Some (nat idx), rb\<lparr>r_cells := (r_cells rb)[x_cell x := (a, wait_for + 1)]\<rparr>))"

section \<open>Interleaving\<close>

text \<open>One producer between its steps, and a number of consumers.  The producer writes the units of the slot it has
  claimed in any order and any number of times; the item is what the slot holds when it commits.  A consumer
  that has called \<open>get\<close> holds the index of a slot and copies its units later, in any order.  Two parts are only for the
  statements: the items committed so far, and what each consumer has read, with a mark whether at the end of the
  reading fewer than \<open>slots\<close> further items had been claimed.\<close>

datatype producer_pc = Idle | Claimed nat | Written | Half

type_synonym 'u reading = "nat \<times> 'u option list"

record 'u ullc_sys =
  s_ring :: "'u list ring"
  s_pc :: producer_pc
  s_got :: "'u reading option list"
  s_hist :: "'u list list"
  s_log :: "('u list \<times> bool) list list"

definition consumer_ctx :: "nat \<Rightarrow> ullc_ctx" where
  "consumer_ctx k = \<lparr>x_id = k, x_type = INA_ULLC_CTX_CONSUMER, x_cell = k\<rparr>"

definition claims :: "'u ullc_sys \<Rightarrow> nat" where
  "claims s = length (s_hist s) + (case s_pc s of Claimed _ \<Rightarrow> 1 | _ \<Rightarrow> 0)"

definition write_unit :: "nat \<Rightarrow> nat \<Rightarrow> 'u \<Rightarrow> 'u list ring \<Rightarrow> 'u list ring" where
  "write_unit i off u rb = rb\<lparr>r_data := (r_data rb)[i := (r_data rb ! i)[off := u]]\<rparr>"

inductive ullc_step :: "'u ullc_sys \<Rightarrow> 'u ullc_sys \<Rightarrow> bool" where
  claim: "s_pc s = Idle \<Longrightarrow> ina_ullc_producer_claim (s_ring s) snaps = Some i \<Longrightarrow> ullc_step s (s\<lparr>s_pc := Claimed (nat i)\<rparr>)"
| store: "s_pc s = Claimed i \<Longrightarrow> ullc_step s (s\<lparr>s_ring := write_unit i off u (s_ring s)\<rparr>)"
| stored: "s_pc s = Claimed i \<Longrightarrow> ullc_step s (s\<lparr>s_pc := Written, s_hist := s_hist s @ [r_data (s_ring s) ! i]\<rparr>)"
| next_ptr: "s_pc s = Written \<Longrightarrow> ullc_step s (s\<lparr>s_pc := Half, s_ring := commit_next (s_ring s)\<rparr>)"
| publish: "s_pc s = Half \<Longrightarrow> ullc_step s (s\<lparr>s_pc := Idle, s_ring := commit_cursor (s_ring s)\<rparr>)"
| get: "k < length (s_got s) \<Longrightarrow> s_got s ! k = None \<Longrightarrow>
    ina_ullc_consumer_get (consumer_ctx k) (s_ring s) = Some (Some i, rb) \<Longrightarrow>
    ullc_step s (s\<lparr>s_ring := rb, s_got := (s_got s)[k := Some (i, replicate (nat (r_size rb)) None)]\<rparr>)"
| fetch: "k < length (s_got s) \<Longrightarrow> s_got s ! k = Some (i, buf) \<Longrightarrow> off < length buf \<Longrightarrow>
    ullc_step s (s\<lparr>s_got := (s_got s)[k := Some (i, buf[off := Some (r_data (s_ring s) ! i ! off)])]\<rparr>)"
| fetched: "k < length (s_got s) \<Longrightarrow> s_got s ! k = Some (i, buf) \<Longrightarrow> None \<notin> set buf \<Longrightarrow>
    ullc_step s (s\<lparr>s_got := (s_got s)[k := None],
      s_log := (s_log s)[k := s_log s ! k @ [(map the buf, claims s \<le> length (s_log s ! k) + nat (slots (s_ring s)))]]\<rparr>)"

inductive_cases ullc_step_cases: "ullc_step s t"

definition slots_sized :: "'u list ring \<Rightarrow> bool" where
  "slots_sized rb \<longleftrightarrow> list_all (\<lambda>d. int (length d) = r_size rb) (r_data rb)"

definition ullc_start :: "nat \<Rightarrow> nat \<Rightarrow> 'u ullc_sys \<Rightarrow> bool" where
  "ullc_start n m s \<longleftrightarrow>
     0 < n \<and> slots (s_ring s) = int n \<and> length (r_data (s_ring s)) = n \<and> cursor (s_ring s) = -1 \<and> next_ptr (s_ring s) = 0 \<and>
     s_pc s = Idle \<and> s_got s = replicate m None \<and> s_hist s = [] \<and> s_log s = replicate m [] \<and>
     m \<le> length (r_cells (s_ring s)) \<and> (\<forall>k < m. r_cells (s_ring s) ! k = (1, 0))"

text \<open>The invariant.  \<open>cl\<close> counts the claims: an item is untouched in its slot until \<open>n\<close> more are claimed.\<close>

definition newest_kept :: "nat \<Rightarrow> nat \<Rightarrow> 'd list \<Rightarrow> 'd list \<Rightarrow> bool" where
  "newest_kept n cl data hist \<longleftrightarrow> (\<forall>i < length hist. cl \<le> i + n \<longrightarrow> data ! (i mod n) = hist ! i)"

definition log_ok :: "'d list \<Rightarrow> ('d \<times> bool) list \<Rightarrow> bool" where
  "log_ok hist lg \<longleftrightarrow> length lg \<le> length hist \<and> (\<forall>i < length lg. snd (lg ! i) \<longrightarrow> fst (lg ! i) = hist ! i)"

definition reading_ok :: "nat \<Rightarrow> int \<Rightarrow> nat \<Rightarrow> 'u list list \<Rightarrow> nat \<Rightarrow> 'u reading option \<Rightarrow> bool" where
  "reading_ok n sz cl hist l got \<longleftrightarrow>
     (case got of
        None \<Rightarrow> True
      | Some (i, buf) \<Rightarrow> i = l mod n \<and> l < length hist \<and> int (length buf) = sz \<and>
          (cl \<le> l + n \<longrightarrow> (\<forall>off < length buf. \<forall>u. buf ! off = Some u \<longrightarrow> u = hist ! l ! off)))"

definition taken :: "('u list \<times> bool) list \<Rightarrow> 'u reading option \<Rightarrow> nat" where
  "taken lg got = length lg + (if got = None then 0 else 1)"

definition consumer_inv :: "nat \<Rightarrow> int \<Rightarrow> nat \<Rightarrow> 'u list list \<Rightarrow> int \<Rightarrow> int \<times> int \<Rightarrow> ('u list \<times> bool) list \<Rightarrow> 'u reading option \<Rightarrow> bool" where
  "consumer_inv n sz cl hist cur cell lg got \<longleftrightarrow>
     cell = (1, int (taken lg got)) \<and> int (taken lg got) \<le> cur + 1 \<and> log_ok hist lg \<and> reading_ok n sz cl hist (length lg) got"

definition ullc_inv :: "nat \<Rightarrow> nat \<Rightarrow> 'u ullc_sys \<Rightarrow> bool" where
  "ullc_inv n m s \<longleftrightarrow>
     0 < n \<and> slots (s_ring s) = int n \<and> length (r_data (s_ring s)) = n \<and>
     list_all (\<lambda>d. int (length d) = r_size (s_ring s)) (r_data (s_ring s) @ s_hist s) \<and>
     next_ptr (s_ring s) = int (length (s_hist s)) - (if s_pc s = Written then 1 else 0) \<and>
     cursor (s_ring s) = int (length (s_hist s)) - 1 - (if s_pc s = Written \<or> s_pc s = Half then 1 else 0) \<and>
     (\<forall>i. s_pc s = Claimed i \<longrightarrow> i = length (s_hist s) mod n) \<and>
     newest_kept n (claims s) (r_data (s_ring s)) (s_hist s) \<and>
     length (s_got s) = m \<and> length (s_log s) = m \<and> m \<le> length (r_cells (s_ring s)) \<and>
     (\<forall>k < m. consumer_inv n (r_size (s_ring s)) (claims s) (s_hist s) (cursor (s_ring s)) (r_cells (s_ring s) ! k) (s_log s ! k) (s_got s ! k))"

lemma smod_int_nat: "int p smod int m = int (p mod m)"
  by (cases "p = 0") (simp_all add: signed_modulo_int_def zmod_int)

lemma claim_slot: "ina_ullc_producer_claim rb snaps = Some i \<Longrightarrow> i = next_ptr rb smod slots rb"
proof -
  have "claim_loop sl like slow snaps = Some i \<Longrightarrow> i = like" for sl like slow
    by (induction sl like slow snaps rule: claim_loop.induct) (auto split: if_splits)
  then show "ina_ullc_producer_claim rb snaps = Some i \<Longrightarrow> ?thesis" by (simp add: ina_ullc_producer_claim_def)
qed

lemma newest_kept_mono: "newest_kept n cl data hist \<Longrightarrow> cl \<le> cl' \<Longrightarrow> newest_kept n cl' data hist"
  by (auto simp: newest_kept_def)

lemma newest_kept_store:
  assumes "newest_kept n (length hist + 1) data hist"
  shows "newest_kept n (length hist + 1) (data[length hist mod n := d]) hist"
  unfolding newest_kept_def
proof (intro allI impI)
  fix i assume i: "i < length hist" "length hist + 1 \<le> i + n"
  then have "i mod n \<noteq> length hist mod n" using mod_eq_dvd_iff_nat [of i "length hist" n] by (auto dest!: dvd_imp_le)
  then show "data[length hist mod n := d] ! (i mod n) = hist ! i" using assms i by (simp add: newest_kept_def)
qed

lemma newest_kept_stored:
  "newest_kept n (length hist + 1) data hist \<Longrightarrow> newest_kept n (length hist + 1) data (hist @ [data ! (length hist mod n)])"
  by (auto simp: newest_kept_def nth_append less_Suc_eq)

lemma reading_ok_mono: "reading_ok n sz cl hist l got \<Longrightarrow> cl \<le> cl' \<Longrightarrow> reading_ok n sz cl' hist l got"
  by (auto simp: reading_ok_def split: option.splits)

lemma reading_ok_append: "reading_ok n sz cl hist l got \<Longrightarrow> reading_ok n sz cl (hist @ [v]) l got"
  by (auto simp: reading_ok_def nth_append split: option.splits)

lemma reading_ok_fetch:
  assumes "reading_ok n sz cl hist l (Some (i, buf))" "newest_kept n cl data hist" "off < length buf"
  shows "reading_ok n sz cl hist l (Some (i, buf[off := Some (data ! i ! off)]))"
  using assms by (auto simp: reading_ok_def newest_kept_def nth_list_update)

lemma log_ok_append: "log_ok hist lg \<Longrightarrow> log_ok (hist @ [v]) lg"
  by (auto simp: log_ok_def nth_append)

lemma log_ok_fetched:
  assumes "log_ok hist lg" "reading_ok n sz cl hist (length lg) (Some (i, buf))" "None \<notin> set buf" "int (length (hist ! length lg)) = sz"
  shows "log_ok hist (lg @ [(map the buf, cl \<le> length lg + n)])"
proof -
  have "map the buf = hist ! length lg" if "cl \<le> length lg + n"
  proof (rule nth_equalityI)
    show "length (map the buf) = length (hist ! length lg)" using assms(2,4) by (auto simp: reading_ok_def)
    fix off assume off: "off < length (map the buf)"
    then obtain u where "buf ! off = Some u" using assms(3) by (metis length_map not_None_eq nth_mem)
    then show "map the buf ! off = hist ! length lg ! off" using off that assms(2) by (auto simp: reading_ok_def)
  qed
  moreover have "length lg < length hist" using assms(2) by (simp add: reading_ok_def)
  ultimately show ?thesis using assms(1) by (auto simp: log_ok_def nth_append less_Suc_eq)
qed

lemma ullc_inv_start: "ullc_start n m s \<and> slots_sized (s_ring s) \<Longrightarrow> ullc_inv n m s"
  by (auto simp: ullc_start_def slots_sized_def ullc_inv_def newest_kept_def log_ok_def consumer_inv_def taken_def reading_ok_def)

lemma consumer_part: "ullc_inv n m s \<Longrightarrow> k < m \<Longrightarrow>
    consumer_inv n (r_size (s_ring s)) (claims s) (s_hist s) (cursor (s_ring s)) (r_cells (s_ring s) ! k) (s_log s ! k) (s_got s ! k)"
  unfolding ullc_inv_def by blast

lemma consumer_inv_mono:
  "consumer_inv n sz cl hist cur cell lg got \<Longrightarrow> cl \<le> cl' \<Longrightarrow> cur \<le> cur' \<Longrightarrow> consumer_inv n sz cl' hist cur' cell lg got"
  by (auto simp: consumer_inv_def intro: reading_ok_mono)

lemma consumer_inv_published: "consumer_inv n sz cl hist (cur - 2) cell lg got \<Longrightarrow> consumer_inv n sz cl hist (cur - 1) cell lg got"
  by (erule consumer_inv_mono) simp_all

lemma consumer_inv_stored: "consumer_inv n sz cl hist cur cell lg got \<Longrightarrow> consumer_inv n sz cl (hist @ [v]) cur cell lg got"
  by (auto simp: consumer_inv_def log_ok_append reading_ok_append)

lemma inv_claim:
  assumes "ullc_inv n m s" "s_pc s = Idle" "ina_ullc_producer_claim (s_ring s) snaps = Some i"
  shows "ullc_inv n m (s\<lparr>s_pc := Claimed (nat i)\<rparr>)"
proof -
  have "i = int (length (s_hist s)) smod int n" using claim_slot [OF assms(3)] assms(1,2) by (simp add: ullc_inv_def)
  then have i: "nat i = length (s_hist s) mod n" by (simp add: smod_int_nat)
  have c: "claims s = length (s_hist s)" "claims (s\<lparr>s_pc := Claimed (nat i)\<rparr>) = length (s_hist s) + 1" using assms(2) by (simp_all add: claims_def)
  show ?thesis using assms(1,2) i unfolding ullc_inv_def c
    by (auto intro: newest_kept_mono consumer_inv_mono)
qed

lemma inv_store:
  assumes "ullc_inv n m s" "s_pc s = Claimed i"
  shows "ullc_inv n m (s\<lparr>s_ring := write_unit i off u (s_ring s)\<rparr>)"
proof -
  let ?d = "(r_data (s_ring s) ! i)[off := u]"
  have i: "i = length (s_hist s) mod n" "i < length (r_data (s_ring s))" using assms by (auto simp: ullc_inv_def)
  have c: "claims s = length (s_hist s) + 1" "claims (s\<lparr>s_ring := write_unit i off u (s_ring s)\<rparr>) = length (s_hist s) + 1"
    using assms(2) by (simp_all add: claims_def)
  have "list_all (\<lambda>d. int (length d) = r_size (s_ring s)) (r_data (s_ring s))" using assms(1) by (simp add: ullc_inv_def)
  then have "list_all (\<lambda>d. int (length d) = r_size (s_ring s)) ((r_data (s_ring s))[i := ?d])"
    using i(2) by (simp add: list_all_length nth_list_update)
  moreover have "newest_kept n (length (s_hist s) + 1) ((r_data (s_ring s))[i := ?d]) (s_hist s)"
    using assms(1) c(1) unfolding i(1) by (intro newest_kept_store) (simp add: ullc_inv_def)
  ultimately show ?thesis using assms unfolding ullc_inv_def c by (auto simp: write_unit_def)
qed

lemma inv_stored:
  assumes "ullc_inv n m s" "s_pc s = Claimed i"
  shows "ullc_inv n m (s\<lparr>s_pc := Written, s_hist := s_hist s @ [r_data (s_ring s) ! i]\<rparr>)"
proof -
  have i: "i = length (s_hist s) mod n" "i < length (r_data (s_ring s))" using assms by (auto simp: ullc_inv_def)
  have c: "claims s = length (s_hist s) + 1" "claims (s\<lparr>s_pc := Written, s_hist := s_hist s @ [r_data (s_ring s) ! i]\<rparr>) = length (s_hist s) + 1"
    using assms(2) by (simp_all add: claims_def)
  have "newest_kept n (length (s_hist s) + 1) (r_data (s_ring s)) (s_hist s @ [r_data (s_ring s) ! i])"
    using assms(1) c(1) unfolding i(1) by (intro newest_kept_stored) (simp add: ullc_inv_def)
  then show ?thesis using assms i(2) unfolding ullc_inv_def c
    by (auto simp: list_all_iff intro: consumer_inv_stored)
qed

lemma inv_next: "ullc_inv n m s \<Longrightarrow> s_pc s = Written \<Longrightarrow> ullc_inv n m (s\<lparr>s_pc := Half, s_ring := commit_next (s_ring s)\<rparr>)"
  by (auto simp: ullc_inv_def commit_next_def claims_def)

lemma inv_publish: "ullc_inv n m s \<Longrightarrow> s_pc s = Half \<Longrightarrow> ullc_inv n m (s\<lparr>s_pc := Idle, s_ring := commit_cursor (s_ring s)\<rparr>)"
  by (auto simp: ullc_inv_def commit_cursor_def claims_def intro: consumer_inv_published)

lemma consumer_get_result:
  assumes "ullc_inv n m s" "k < m" "s_got s ! k = None"
  shows "ina_ullc_consumer_get (consumer_ctx k) (s_ring s) =
    (if cursor (s_ring s) < int (length (s_log s ! k)) then Some (None, s_ring s)
     else Some (Some (length (s_log s ! k) mod n),
       (s_ring s)\<lparr>r_cells := (r_cells (s_ring s))[k := (1, int (length (s_log s ! k)) + 1)]\<rparr>))"
proof -
  have "r_cells (s_ring s) ! k = (1, int (length (s_log s ! k)))" "slots (s_ring s) = int n"
    using consumer_part [OF assms(1,2)] assms(1,3) by (simp_all add: consumer_inv_def taken_def ullc_inv_def)
  then show ?thesis by (simp add: ina_ullc_consumer_get_def consumer_ctx_def smod_int_nat Let_def)
qed

lemma inv_get:
  assumes "ullc_inv n m s" "k < length (s_got s)" "s_got s ! k = None"
    and "ina_ullc_consumer_get (consumer_ctx k) (s_ring s) = Some (Some i, rb)"
  shows "ullc_inv n m (s\<lparr>s_ring := rb, s_got := (s_got s)[k := Some (i, replicate (nat (r_size rb)) None)]\<rparr>)" (is "ullc_inv n m ?t")
proof -
  have k: "k < m" "k < length (r_cells (s_ring s))" using assms(1,2) by (simp_all add: ullc_inv_def)
  let ?l = "length (s_log s ! k)"
  have r: "\<not> cursor (s_ring s) < int ?l" "i = ?l mod n" "rb = (s_ring s)\<lparr>r_cells := (r_cells (s_ring s))[k := (1, int ?l + 1)]\<rparr>"
    using assms(4) unfolding consumer_get_result [OF assms(1) k(1) assms(3)] by (auto split: if_splits)
  have l: "?l < length (s_hist s)" using r(1) assms(1) by (auto simp: ullc_inv_def split: if_splits)
  have sz: "0 \<le> r_size (s_ring s)" using assms(1) l by (auto simp: ullc_inv_def list_all_length nth_append dest!: spec [of _ 0])
  have c: "claims ?t = claims s" by (simp add: claims_def)
  have "consumer_inv n (r_size (s_ring s)) (claims s) (s_hist s) (cursor (s_ring s)) (1, int ?l + 1) (s_log s ! k) (Some (i, replicate (nat (r_size rb)) None))"
    using consumer_part [OF assms(1) k(1)] r l sz by (simp add: consumer_inv_def taken_def reading_ok_def)
  then show ?thesis using assms(1) k r(3) unfolding ullc_inv_def c by (auto simp: nth_list_update)
qed

lemma inv_fetch:
  assumes "ullc_inv n m s" "k < length (s_got s)" "s_got s ! k = Some (i, buf)" "off < length buf"
  shows "ullc_inv n m (s\<lparr>s_got := (s_got s)[k := Some (i, buf[off := Some (r_data (s_ring s) ! i ! off)])]\<rparr>)" (is "ullc_inv n m ?t")
proof -
  have k: "k < m" using assms(1,2) by (simp add: ullc_inv_def)
  have c: "claims ?t = claims s" by (simp add: claims_def)
  have "newest_kept n (claims s) (r_data (s_ring s)) (s_hist s)" using assms(1) by (simp add: ullc_inv_def)
  then have "consumer_inv n (r_size (s_ring s)) (claims s) (s_hist s) (cursor (s_ring s)) (r_cells (s_ring s) ! k) (s_log s ! k)
      (Some (i, buf[off := Some (r_data (s_ring s) ! i ! off)]))"
    using consumer_part [OF assms(1) k] assms(3,4) reading_ok_fetch [OF _ _ assms(4)] by (auto simp: consumer_inv_def taken_def)
  then show ?thesis using assms(1) k unfolding ullc_inv_def c by (auto simp: nth_list_update)
qed

lemma inv_fetched:
  assumes "ullc_inv n m s" "k < length (s_got s)" "s_got s ! k = Some (i, buf)" "None \<notin> set buf"
  shows "ullc_inv n m (s\<lparr>s_got := (s_got s)[k := None],
      s_log := (s_log s)[k := s_log s ! k @ [(map the buf, claims s \<le> length (s_log s ! k) + nat (slots (s_ring s)))]]\<rparr>)" (is "ullc_inv n m ?t")
proof -
  have k: "k < m" and n: "nat (slots (s_ring s)) = n" using assms(1,2) by (simp_all add: ullc_inv_def)
  let ?l = "length (s_log s ! k)"
  note c = consumer_part [OF assms(1) k, unfolded consumer_inv_def assms(3)]
  have "?l < length (s_hist s)" using c by (simp add: reading_ok_def)
  then have "int (length (s_hist s ! ?l)) = r_size (s_ring s)" using assms(1) by (auto simp: ullc_inv_def list_all_iff)
  then have "log_ok (s_hist s) (s_log s ! k @ [(map the buf, claims s \<le> ?l + n)])"
    using c assms(4) by (intro log_ok_fetched) auto
  then have "consumer_inv n (r_size (s_ring s)) (claims s) (s_hist s) (cursor (s_ring s)) (r_cells (s_ring s) ! k)
      (s_log s ! k @ [(map the buf, claims s \<le> ?l + n)]) None"
    using c by (simp add: consumer_inv_def taken_def reading_ok_def)
  moreover have "claims ?t = claims s" by (simp add: claims_def)
  ultimately show ?thesis using assms(1) k unfolding ullc_inv_def n by (auto simp: nth_list_update)
qed

lemma ullc_step_inv: "ullc_step s t \<Longrightarrow> ullc_inv n m s \<Longrightarrow> ullc_inv n m t"
  by (induction rule: ullc_step.induct)
     (blast intro: inv_claim inv_store inv_stored inv_next inv_publish inv_get inv_fetch inv_fetched)+

interpretation ullc: step_invariant "\<lambda>s. ullc_start n m s \<and> slots_sized (s_ring s)" ullc_step "ullc_inv n m" for n m
  by unfold_locales (blast intro: ullc_inv_start ullc_step_inv)+

text \<open>C18. One producer and any number of consumers, in every interleaving of their accesses from an empty ring
  whose slots have the size it was created with, where filling a slot and reading it are not atomic: every item that a consumer has finished reading before \<open>slots\<close> further items were claimed
  is, whole, the item of that place in the order of the commits; so a consumer that is never lapped reads the
  items in order, without gaps or repetitions.  Of a read that was lapped nothing is said: it may be torn.  A
  consumer is told that there is nothing to read exactly when it has taken every published item.\<close>

theorem ullc_fifo:
  assumes "ullc_start n m s" "slots_sized (s_ring s)" "ullc_step\<^sup>*\<^sup>* s t" "k < m"
  shows "(list_all snd (s_log t ! k) \<longrightarrow> map fst (s_log t ! k) = take (length (s_log t ! k)) (s_hist t)) \<and>
    length (s_log t ! k) \<le> length (s_hist t) \<and>
    (\<forall>i < length (s_log t ! k). snd (s_log t ! k ! i) \<longrightarrow> fst (s_log t ! k ! i) = s_hist t ! i) \<and>
    (s_got t ! k = None \<longrightarrow>
      (ina_ullc_consumer_get (consumer_ctx k) (s_ring t) = Some (None, s_ring t)) = (int (length (s_log t ! k)) = cursor (s_ring t) + 1))"
proof -
  have inv: "ullc_inv n m t" using assms(1-3) by (blast intro: ullc.reachable)
  let ?lg = "s_log t ! k"
  have c: "log_ok (s_hist t) ?lg" "int (taken ?lg (s_got t ! k)) \<le> cursor (s_ring t) + 1"
    using consumer_part [OF inv assms(4)] by (simp_all add: consumer_inv_def)
  have "map fst ?lg = take (length ?lg) (s_hist t)" if "list_all snd ?lg"
    using that c(1) by (intro nth_equalityI) (auto simp: log_ok_def list_all_length)
  moreover have "int (length ?lg) \<le> cursor (s_ring t) + 1" if "s_got t ! k = None"
    using c(2) that by (simp add: taken_def)
  ultimately show ?thesis using c(1) consumer_get_result [OF inv assms(4)] by (auto simp: log_ok_def)
qed

definition demo_ring :: "nat list ring" where
  "demo_ring = \<lparr>magic = INA_MAGIC_HDR, version = 1, num_consumers = 1, num_producers = 1, r_size = 2, slots = 2, cursor = -1,
     next_ptr = 0, alive_producers = 0, overrun_enabled = -1, semkey = 0, r_data = [[0, 0], [0, 0]], r_cells = [(1, 0), (1, 0)]\<rparr>"

definition demo_sys :: "nat ullc_sys" where
  "demo_sys = \<lparr>s_ring = demo_ring, s_pc = Idle, s_got = [None], s_hist = [], s_log = [[]]\<rparr>"

definition demo_end :: "nat ullc_sys" where
  "demo_end = \<lparr>s_ring = demo_ring\<lparr>cursor := 0, next_ptr := 1, r_data := [[7, 8], [0, 0]], r_cells := [(1, 1), (1, 0)]\<rparr>, s_pc = Idle,
     s_got = [None], s_hist = [[7, 8]], s_log = [[([7, 8], True)]]\<rparr>"

lemma demo_written: "ullc_step\<^sup>*\<^sup>* demo_sys (demo_sys\<lparr>s_ring := demo_ring\<lparr>cursor := 0, next_ptr := 1, r_data := [[7, 8], [0, 0]]\<rparr>, s_hist := [[7, 8]]\<rparr>)"
proof -
  define s1 where "s1 = demo_sys\<lparr>s_pc := Claimed 0\<rparr>"
  define s2 where "s2 = s1\<lparr>s_ring := write_unit 0 1 8 demo_ring\<rparr>"
  define s3 where "s3 = s2\<lparr>s_ring := write_unit 0 0 7 (s_ring s2)\<rparr>"
  define s4 where "s4 = s3\<lparr>s_pc := Written, s_hist := [[7, 8]]\<rparr>"
  define s5 where "s5 = s4\<lparr>s_pc := Half, s_ring := commit_next (s_ring s4)\<rparr>"
  define s6 where "s6 = s5\<lparr>s_pc := Idle, s_ring := commit_cursor (s_ring s5)\<rparr>"
  note d = s1_def s2_def s3_def s4_def s5_def s6_def demo_sys_def demo_ring_def write_unit_def commit_next_def commit_cursor_def
  have "ullc_step demo_sys s1"
    using ullc_step.claim [of demo_sys "[]" 0] by (simp add: d ina_ullc_producer_claim_def signed_modulo_int_def)
  moreover have "ullc_step s1 s2" using ullc_step.store [of s1 0 1 8] by (simp add: d)
  moreover have "ullc_step s2 s3" using ullc_step.store [of s2 0 0 7] by (simp add: d)
  moreover have "ullc_step s3 s4" using ullc_step.stored [of s3 0] by (simp add: d)
  moreover have "ullc_step s4 s5" using ullc_step.next_ptr [of s4] by (simp add: d)
  moreover have "ullc_step s5 s6" using ullc_step.publish [of s5] by (simp add: d)
  ultimately have "ullc_step\<^sup>*\<^sup>* demo_sys s6" by (meson converse_rtranclp_into_rtranclp rtranclp.rtrancl_refl)
  then show ?thesis by (simp add: d)
qed

lemma demo_run: "ullc_step\<^sup>*\<^sup>* demo_sys demo_end"
proof -
  define s6 where "s6 = demo_sys\<lparr>s_ring := demo_ring\<lparr>cursor := 0, next_ptr := 1, r_data := [[7, 8], [0, 0]]\<rparr>, s_hist := [[7, 8]]\<rparr>"
  define s7 where "s7 = s6\<lparr>s_ring := (s_ring s6)\<lparr>r_cells := [(1, 1), (1, 0)]\<rparr>, s_got := [Some (0, [None, None])]\<rparr>"
  define s8 where "s8 = s7\<lparr>s_got := [Some (0, [Some 7, None])]\<rparr>"
  define s9 where "s9 = s8\<lparr>s_got := [Some (0, [Some 7, Some 8])]\<rparr>"
  note d = s6_def s7_def s8_def s9_def demo_sys_def demo_ring_def demo_end_def
  have "ullc_step s6 s7"
    using ullc_step.get [of 0 s6 0 "s_ring s7"] by (simp add: d ina_ullc_consumer_get_def consumer_ctx_def signed_modulo_int_def numeral_2_eq_2)
  moreover have "ullc_step s7 s8" using ullc_step.fetch [of 0 s7 0 "[None, None]" 0] by (simp add: d)
  moreover have "ullc_step s8 s9" using ullc_step.fetch [of 0 s8 0 "[Some 7, None]" 1] by (simp add: d)
  moreover have "ullc_step s9 demo_end" using ullc_step.fetched [of 0 s9 0 "[Some 7, Some 8]"] by (simp add: d claims_def)
  ultimately have "ullc_step\<^sup>*\<^sup>* s6 demo_end" by (meson converse_rtranclp_into_rtranclp rtranclp.rtrancl_refl)
  then show ?thesis using demo_written unfolding s6_def by (rule rtranclp_trans [rotated])
qed

theorem ullc_fifo_witness: "map fst (s_log demo_end ! 0) = take 1 (s_hist demo_end) \<and> s_hist demo_end = [[7, 8]]"
proof -
  have "ullc_start 2 1 demo_sys" "slots_sized (s_ring demo_sys)"
    by (simp_all add: ullc_start_def slots_sized_def demo_sys_def demo_ring_def)
  from ullc_fifo [OF this demo_run, of 0] show ?thesis by (simp add: demo_end_def)
qed

section \<open>Limits\<close>

text \<open>With one consumer, disabling overruns does not protect its next item: when the ring is full for
  the consumer at position \<open>p\<close>, so that all of its \<open>slots\<close> items are unread, the next claim returns
  immediately, with the slot that this consumer is about to read.\<close>

theorem ullc_overrun_unprotected:
  assumes "slots rb = int n" "0 < n" "int n \<le> INT64_MAX" "overrun_enabled rb = INT64_MAX"
    and "next_ptr rb = int p + int n" "cursor rb = int p + int n - 1" "r_cells rb ! 0 = (1, int p)"
  shows "\<exists>rb'. ina_ullc_producer_claim rb [[r_cells rb ! 0]] = Some (int (p mod n)) \<and>
    ina_ullc_consumer_get (consumer_ctx 0) rb = Some (Some (p mod n), rb')"
proof -
  have l: "next_ptr rb smod slots rb = int (p mod n)" using assms(1,5) smod_int_nat [of "p + n" n] by simp
  have "int (p mod n) < INT64_MAX" using assms(2,3) mod_less_divisor [of n p] by linarith
  moreover have "slow_scan (int n) [(1, int p)] = int (p mod n)" by (simp add: slow_scan_def smod_int_nat)
  ultimately show ?thesis using assms l
    by (simp add: ina_ullc_producer_claim_def ina_ullc_consumer_get_def consumer_ctx_def smod_int_nat)
qed

theorem ullc_overrun_unprotected_witness:
  "\<exists>rb'. ina_ullc_producer_claim (demo_ring\<lparr>overrun_enabled := INT64_MAX, next_ptr := 2, cursor := 1\<rparr>) [[(1, 0)]] = Some 0 \<and>
    ina_ullc_consumer_get (consumer_ctx 0) (demo_ring\<lparr>overrun_enabled := INT64_MAX, next_ptr := 2, cursor := 1\<rparr>) = Some (Some 0, rb')"
  using ullc_overrun_unprotected [of "demo_ring\<lparr>overrun_enabled := INT64_MAX, next_ptr := 2, cursor := 1\<rparr>" 2 0]
  by (simp add: demo_ring_def INT64_MAX_def)

text \<open>The offsets in the search for a free producer add up, so the third of three producers is looked
  for behind the shared memory, although its cell is free.\<close>

theorem ullc_third_producer:
  assumes "length cells = nc + 3" "fst (cells ! nc) \<noteq> 0" "fst (cells ! (nc + 1)) \<noteq> 0"
  shows "producer_slot cells 3 0 nc = None"
  using assms by (simp add: producer_slot.simps [of cells 3] atomic_swap_def)

theorem ullc_third_producer_witness: "producer_slot [(1, 0), (1, 0), (1, 0), (0, 0)] 3 0 1 = None"
  using ullc_third_producer [of "[(1, 0), (1, 0), (1, 0), (0, 0)]" 1] by simp

text \<open>Two producers exclude each other nowhere: when both claim before either commits they get the same
  slot, the second item overwrites the first, and two items are announced of which the second was never
  written.\<close>

theorem ullc_two_producers:
  assumes "slots rb = int n" "1 < n" "length (r_data rb) = n" "next_ptr rb = int q" "overrun_enabled rb = -1"
    and "x_type x = INA_ULLC_CTX_PRODUCER" "x_type y = INA_ULLC_CTX_PRODUCER"
  shows "\<exists>i. ina_ullc_producer_claim rb [] = Some (int i) \<and>
    (let rb1 = rb\<lparr>r_data := (r_data rb)[i := a]\<rparr>
     in ina_ullc_producer_claim rb1 [] = Some (int i) \<and>
        (let rb2 = rb1\<lparr>r_data := (r_data rb1)[i := b]\<rparr>;
             rb3 = snd (ina_ullc_producer_commit (Some y) (snd (ina_ullc_producer_commit (Some x) rb2)))
         in cursor rb3 = cursor rb + 2 \<and> next_ptr rb3 = next_ptr rb + 2 \<and> r_data rb3 ! (q mod n) = b \<and>
            r_data rb3 ! ((q + 1) mod n) = r_data rb ! ((q + 1) mod n)))"
proof -
  have "(q + 1) mod n \<noteq> q mod n" using assms(2) mod_eq_dvd_iff_nat [of q "q + 1" n] by auto
  then show ?thesis using assms
    by (intro exI [of _ "q mod n"])
       (simp add: ina_ullc_producer_claim_def smod_int_nat ina_ullc_producer_commit_def commit_next_def commit_cursor_def Let_def)
qed

theorem ullc_two_producers_witness:
  "\<exists>i. ina_ullc_producer_claim demo_ring [] = Some (int i) \<and>
    (let rb1 = demo_ring\<lparr>r_data := [[0, 0], [0, 0]][i := [5, 5]]\<rparr>
     in ina_ullc_producer_claim rb1 [] = Some (int i) \<and>
        (let rb2 = rb1\<lparr>r_data := (r_data rb1)[i := [6, 6]]\<rparr>;
             rb3 = snd (ina_ullc_producer_commit (Some \<lparr>x_id = 1, x_type = INA_ULLC_CTX_PRODUCER, x_cell = 2\<rparr>)
               (snd (ina_ullc_producer_commit (Some \<lparr>x_id = 0, x_type = INA_ULLC_CTX_PRODUCER, x_cell = 1\<rparr>) rb2)))
         in cursor rb3 = 1 \<and> next_ptr rb3 = 2 \<and> r_data rb3 ! 0 = [6, 6] \<and> r_data rb3 ! 1 = [0, 0]))"
  using ullc_two_producers [of demo_ring 2 0 "\<lparr>x_id = 0, x_type = INA_ULLC_CTX_PRODUCER, x_cell = 1\<rparr>"
      "\<lparr>x_id = 1, x_type = INA_ULLC_CTX_PRODUCER, x_cell = 2\<rparr>" "[5, 5]" "[6, 6]"]
  by (simp add: demo_ring_def)

text \<open>Creating a ring and attaching to it: creation succeeds for slots of even size, and a second party is
  let in exactly when it names the same version, sizes and numbers of parties; it then sees the ring
  as it is.\<close>

theorem ullc_attach:
  assumes "ina_ullc_ring_create ver sz sl np nc key True (Inr raw) = (Inr (), Some rb)"
  shows "sz mod 2 = 0 \<and> cursor rb = -1 \<and> next_ptr rb = 0 \<and> overrun_enabled rb = -1 \<and>
    ina_ullc_ring_create ver' sz' sl' np' nc' key' False (Inr (rb\<lparr>cursor := c, next_ptr := p, r_data := ds, r_cells := cs\<rparr>)) =
      (if sz' mod 2 \<noteq> 0 then (Inl ERR_MEMORY_NOT_ALIGNED, None)
       else (if ver' = ver \<and> sz' = sz \<and> sl' = sl \<and> np' = np \<and> nc' = nc then Inr () else Inl ERR_ARGUMENT_INVALID,
             Some (rb\<lparr>cursor := c, next_ptr := p, r_data := ds, r_cells := cs\<rparr>)))"
proof -
  have e: "sz mod 2 = 0" using assms by (simp add: ina_ullc_ring_create_def split: if_splits)
  then have rb: "rb = ring_init ver sz sl np nc key raw"
    using assms by (simp add: ina_ullc_ring_create_def Let_def split: if_splits)
  have "\<not> (magic rb \<noteq> INA_MAGIC_HDR \<or> False)" "version rb = ver" "r_size rb = sz" "slots rb = sl" "num_consumers rb = nc"
    "num_producers rb = np" "cursor rb = -1" "next_ptr rb = 0" "overrun_enabled rb = -1"
    by (simp_all add: rb ring_init_def)
  note f = this
  have "(ver \<noteq> ver' \<or> sz \<noteq> sz' \<or> sl \<noteq> sl' \<or> nc \<noteq> nc' \<or> np \<noteq> np') = (\<not> (ver' = ver \<and> sz' = sz \<and> sl' = sl \<and> np' = np \<and> nc' = nc))"
    by blast
  with f e show ?thesis by (cases "ver' = ver \<and> sz' = sz \<and> sl' = sl \<and> np' = np \<and> nc' = nc") (simp_all add: ina_ullc_ring_create_def)
qed

theorem ullc_attach_witness:
  "\<exists>rb. ina_ullc_ring_create 1 8 2 1 1 0 True (Inr demo_ring) = (Inr (), Some rb) \<and>
    ina_ullc_ring_create 2 8 2 1 1 0 False (Inr rb) = (Inl ERR_ARGUMENT_INVALID, Some rb)"
proof -
  obtain rb where rb: "ina_ullc_ring_create 1 8 2 1 1 0 True (Inr demo_ring) = (Inr (), Some rb)"
    by (simp add: ina_ullc_ring_create_def ring_init_def Let_def)
  have "rb\<lparr>cursor := cursor rb, next_ptr := next_ptr rb, r_data := r_data rb, r_cells := r_cells rb\<rparr> = rb" by (cases rb) simp
  then show ?thesis
    using rb ullc_attach [OF rb, where ver' = 2 and sz' = 8 and sl' = 2 and np' = 1 and nc' = 1 and key' = 0 and
        c = "cursor rb" and p = "next_ptr rb" and ds = "r_data rb" and cs = "r_cells rb"] by simp
qed

section \<open>Setting up\<close>

text \<open>Cells of the consumers with the first \<open>k\<close> of them taken.\<close>

definition consumer_cells :: "nat \<Rightarrow> nat \<Rightarrow> (int \<times> int) list" where
  "consumer_cells nc k = replicate k (1, 0) @ replicate (nc - k) (0, 0)"

fun attach_consumers :: "(nat \<Rightarrow> 'd ring \<Rightarrow> (ullc_ctx option ina_res \<times> 'd ring option) option) \<Rightarrow> nat \<Rightarrow> 'd ring \<Rightarrow> 'd ring option" where
  "attach_consumers new 0 rb = Some rb"
| "attach_consumers new (Suc k) rb =
     (case attach_consumers new k rb of
        None \<Rightarrow> None
      | Some rb \<Rightarrow> (case new k rb of Some (Inr (Some _), Some rb) \<Rightarrow> Some rb | _ \<Rightarrow> None))"

lemma consumer_slot_first:
  assumes "i \<le> k" "k \<le> nc"
  shows "consumer_slot (consumer_cells nc k @ rest) nc i =
    (if k < nc then Some (Some k, (consumer_cells nc k @ rest)[k := (1, 0)]) else Some (None, consumer_cells nc k @ rest))"
  using assms
proof (induction "k - i" arbitrary: i)
  case 0
  then show ?case by (subst consumer_slot.simps) (auto simp: consumer_cells_def nth_append atomic_swap_def)
next
  case (Suc x)
  then have "i < k" "i < nc" by auto
  then have "(consumer_cells nc k @ rest) ! i = (1, 0)" by (simp add: consumer_cells_def nth_append)
  then have "consumer_slot (consumer_cells nc k @ rest) nc i = consumer_slot (consumer_cells nc k @ rest) nc (i + 1)"
    using \<open>i < k\<close> \<open>i < nc\<close> by (subst consumer_slot.simps) (simp add: atomic_swap_def consumer_cells_def)
  then show ?case using Suc.hyps Suc.prems by simp
qed

lemma consumer_cells_Suc: "k < nc \<Longrightarrow> (consumer_cells nc k @ rest)[k := (1, 0)] = consumer_cells nc (Suc k) @ rest"
  by (intro nth_equalityI) (auto simp: consumer_cells_def nth_append nth_list_update)

definition same_ring :: "int \<Rightarrow> int \<Rightarrow> int \<Rightarrow> int \<Rightarrow> int \<Rightarrow> 'd ring \<Rightarrow> bool" where
  "same_ring ver sz sl np nc rb \<longleftrightarrow>
     sz mod 2 = 0 \<and> magic rb = INA_MAGIC_HDR \<and> version rb = ver \<and> r_size rb = sz \<and> slots rb = sl \<and> num_consumers rb = nc \<and> num_producers rb = np"

lemma consumer_new_next:
  assumes "params_ok ver sz sl np (int nc) name" "same_ring ver sz sl np (int nc) rb" "cursor rb = -1"
    and "r_cells rb = consumer_cells nc k @ rest" "k \<le> nc"
  shows "ina_ullc_consumer_new ver sz sl np (int nc) name (Inr rb) =
    (if k < nc then Some (Inr (Some (consumer_ctx k)), Some (rb\<lparr>r_cells := consumer_cells nc (Suc k) @ rest\<rparr>))
     else Some (Inl ERR_LIMIT_EXCEEDED, Some rb))"
proof -
  have cr: "ina_ullc_ring_create ver sz sl np (int nc) key False (Inr rb) = (Inr (), Some rb)" for key
    using assms(2) by (simp add: ina_ullc_ring_create_def same_ring_def)
  have "first_position 0 (-1) = 0" by (simp add: first_position_def atomic_swap_def)
  moreover have "(consumer_cells nc (Suc k) @ rest) ! k = (1, 0)"
    by (simp add: consumer_cells_def nth_append del: replicate_Suc)
  moreover have "(consumer_cells nc (Suc k) @ rest)[k := (1, 0)] = consumer_cells nc (Suc k) @ rest"
    using calculation(2) by (metis list_update_id)
  ultimately show ?thesis
    using assms cr consumer_slot_first [of 0 k nc rest]
    by (simp add: ina_ullc_consumer_new_def consumer_cells_Suc consumer_ctx_def same_ring_def)
qed

lemma attach_all:
  assumes "params_ok ver sz sl np (int nc) name" "same_ring ver sz sl np (int nc) rb" "cursor rb = -1"
    and "r_cells rb = consumer_cells nc 0 @ rest" "k \<le> nc"
  shows "attach_consumers (\<lambda>_ rb. ina_ullc_consumer_new ver sz sl np (int nc) name (Inr rb)) k rb =
    Some (rb\<lparr>r_cells := consumer_cells nc k @ rest\<rparr>)"
  using assms(5)
proof (induction k)
  case 0 then show ?case using assms(4) by simp
next
  case (Suc k)
  have "same_ring ver sz sl np (int nc) (rb\<lparr>r_cells := consumer_cells nc k @ rest\<rparr>)" using assms(2) by (simp add: same_ring_def)
  with Suc show ?case using consumer_new_next [OF assms(1), of "rb\<lparr>r_cells := consumer_cells nc k @ rest\<rparr>" k rest] assms(3) by simp
qed

text \<open>C33. Setting up a ring in fresh memory, with slots of even size: the producer gets identifier 0, then the
  consumers get the identifiers 0, 1, \<dots> in the order in which they attach, and the ring with \<open>k\<close>
  consumers is an empty ring from which the items are delivered in order; one consumer too many is refused.\<close>

theorem ullc_setup:
  assumes "params_ok ver sz (int n) (int np) (int nc) name" "sz mod 2 = 0"
    and "length (r_data raw) = n" "r_cells raw = replicate (nc + np) (0, 0)"
    and "k \<le> nc"
  shows "\<exists>rb rb'. ina_ullc_producer_new ver sz (int n) (int np) (int nc) name (Inr raw) other True =
      Some (Inr (Some \<lparr>x_id = 0, x_type = INA_ULLC_CTX_PRODUCER, x_cell = nc\<rparr>), Some rb) \<and>
    attach_consumers (\<lambda>_ rb. ina_ullc_consumer_new ver sz (int n) (int np) (int nc) name (Inr rb)) k rb = Some rb' \<and>
    ullc_start n k \<lparr>s_ring = rb', s_pc = Idle, s_got = replicate k None, s_hist = [], s_log = replicate k []\<rparr> \<and>
    ina_ullc_consumer_new ver sz (int n) (int np) (int nc) name (Inr rb') =
      (if k < nc then Some (Inr (Some (consumer_ctx k)), Some (rb'\<lparr>r_cells := (r_cells rb')[k := (1, 0)]\<rparr>))
       else Some (Inl ERR_LIMIT_EXCEEDED, Some rb'))"
proof -
  define ini where "ini = ring_init ver sz (int n) (int np) (int nc) (ina_sem_makekey (the name)) raw"
  define rest where "rest = ((1, 0) :: int \<times> int) # replicate (np - 1) (0, 0)"
  define rb where "rb = ini\<lparr>r_cells := consumer_cells nc 0 @ rest\<rparr>"
  have np: "0 < np" "0 < n" using assms(1) by (simp_all add: params_ok_def)
  have cr: "ina_ullc_ring_create ver sz (int n) (int np) (int nc) (ina_sem_makekey (the name)) True (Inr raw) = (Inr (), Some ini)"
    using assms(2) by (simp add: ina_ullc_ring_create_def ini_def ring_init_def)
  have c: "r_cells ini = consumer_cells nc 0 @ replicate np (0, 0)" "version ini = ver" "cursor ini = -1" "length (r_data ini) = n"
    using assms(3,4) by (simp_all add: ini_def ring_init_def consumer_cells_def replicate_add)
  have "(r_cells ini)[nc := (1, 0)] = consumer_cells nc 0 @ rest"
    using np by (cases np) (simp_all add: c consumer_cells_def rest_def list_update_append)
  then have "producer_slot (r_cells ini) np 0 nc = Some (Some (0, nc), consumer_cells nc 0 @ rest)"
    using np by (subst producer_slot.simps) (simp add: c consumer_cells_def nth_append atomic_swap_def)
  then have p: "ina_ullc_producer_new ver sz (int n) (int np) (int nc) name (Inr raw) other True =
      Some (Inr (Some \<lparr>x_id = 0, x_type = INA_ULLC_CTX_PRODUCER, x_cell = nc\<rparr>), Some rb)"
    using assms(1) by (simp add: ina_ullc_producer_new_def cr c rb_def Let_def)
  have sm: "same_ring ver sz (int n) (int np) (int nc) (rb\<lparr>r_cells := cs\<rparr>)" for cs
    using assms(2) by (simp add: same_ring_def rb_def ini_def ring_init_def)
  have rb: "same_ring ver sz (int n) (int np) (int nc) rb" "cursor rb = -1" "r_cells rb = consumer_cells nc 0 @ rest"
    using sm [of "r_cells rb"] c by (simp_all add: rb_def)
  let ?r = "rb\<lparr>r_cells := consumer_cells nc k @ rest\<rparr>"
  have "ullc_start n k \<lparr>s_ring = ?r, s_pc = Idle, s_got = replicate k None, s_hist = [], s_log = replicate k []\<rparr>"
    using np c by (simp add: ullc_start_def rb_def ini_def ring_init_def consumer_cells_def nth_append)
  moreover note attach_all [OF assms(1) rb assms(5)] consumer_new_next [OF assms(1) sm _ _ assms(5), of "consumer_cells nc k @ rest" rest]
  ultimately show ?thesis using p rb(2) by (intro exI [of _ rb] exI [of _ ?r]) (simp add: consumer_cells_Suc)
qed

theorem ullc_setup_witness:
  "\<exists>rb rb'. ina_ullc_producer_new 1 8 2 1 1 (Some ''r'') (Inr (demo_ring\<lparr>r_cells := [(0, 0), (0, 0)]\<rparr>)) (Inl 1) True =
      Some (Inr (Some \<lparr>x_id = 0, x_type = INA_ULLC_CTX_PRODUCER, x_cell = 1\<rparr>), Some rb) \<and>
    attach_consumers (\<lambda>_ rb. ina_ullc_consumer_new 1 8 2 1 1 (Some ''r'') (Inr rb)) 1 rb = Some rb' \<and>
    ina_ullc_consumer_new 1 8 2 1 1 (Some ''r'') (Inr rb') = Some (Inl ERR_LIMIT_EXCEEDED, Some rb')"
  using ullc_setup [of 1 8 2 1 1 "Some ''r''" "demo_ring\<lparr>r_cells := [(0, 0), (0, 0)]\<rparr>" 1 "Inl 1"]
  by (auto simp: params_ok_def INA_ULLC_MAX_PRODUCERS_def INA_ULLC_MAX_CONSUMERS_def demo_ring_def numeral_2_eq_2)

end
