(* ===== verification/Inac_Opt.thy ===== *)
theory Inac_Opt
  imports Inac_Cron_Pattern
begin

text \<open>
  Start-up of an application, its command-line options and its signals (\<open>src/lib.c\<close>,
  \<open>include/libinac/lib.h\<close>).  Strings are their texts and the two registries of options are the sequences
  of their entries, which is what the strings and lists of the library provide; an entry for a short
  name and the entry for its long name share one option, so both refer to it by its place in \<open>r_opts\<close>.
  Memory is sufficient.  The environment, \<open>readlink\<close>, \<open>atof\<close> and the initialisation of the other parts
  are arguments.  \<open>None\<close> is a crash, as everywhere.
\<close>

section \<open>Data\<close>

datatype opt_type = INA_OPT_TYPE_STRING | INA_OPT_TYPE_INT | INA_OPT_TYPE_FLAG | INA_OPT_TYPE_FLOAT

record ina_opt =
  short_opt :: "string option"
  long_opt :: "string option"
  o_type :: opt_type
  dft :: "string option"
  o_desc :: "string option"

definition opt_end :: ina_opt where
  "opt_end = \<lparr>short_opt = None, long_opt = None, o_type = INA_OPT_TYPE_INT, dft = None, o_desc = None\<rparr>"

definition INA_OPT_FLAG :: "string option \<Rightarrow> string \<Rightarrow> string \<Rightarrow> ina_opt" where
  "INA_OPT_FLAG s l d = \<lparr>short_opt = s, long_opt = Some l, o_type = INA_OPT_TYPE_FLAG, dft = None, o_desc = Some d\<rparr>"

definition INA_OPT_STRING :: "string option \<Rightarrow> string \<Rightarrow> string option \<Rightarrow> string \<Rightarrow> ina_opt" where
  "INA_OPT_STRING s l v d = \<lparr>short_opt = s, long_opt = Some l, o_type = INA_OPT_TYPE_STRING, dft = v, o_desc = Some d\<rparr>"

record sopt =
  so_opt :: string
  so_value :: "string option"
  so_desc :: string
  so_type :: opt_type

record opt_reg =
  r_opts :: "sopt list"
  r_sopt :: "nat list"
  r_lopt :: "(string \<times> nat) list"

definition ERR_OPTION_INVALID :: ina_rc_t where "ERR_OPTION_INVALID = INA_ES ''OPTION'' OR INA_ERR_NOT_of ''VALID''"
definition ERR_OPTION_NOT_EXISTS :: ina_rc_t where "ERR_OPTION_NOT_EXISTS = INA_ES ''OPTION'' OR INA_ERR_NOT_of ''EXISTS''"
definition ERR_BUFFER_TOO_SMALL :: ina_rc_t where "ERR_BUFFER_TOO_SMALL = INA_ES ''BUFFER'' OR INA_ERR ''TOO_SMALL''"
definition ERR_OPERATION :: ina_rc_t where "ERR_OPERATION = INA_ES ''OPERATION'' OR INA_ERR ''FAILED''"

definition c_str :: "string option \<Rightarrow> string" where
  "c_str s = (case s of None \<Rightarrow> [] | Some t \<Rightarrow> t)"

section \<open>Registering options\<close>

text \<open>The value an option starts with.  Numeric defaults are turned into text by the preprocessor, so a
  reference to the environment among them has its quotation marks.\<close>

definition default_value :: "(string \<Rightarrow> string option) \<Rightarrow> ina_opt \<Rightarrow> string option option" where
  "default_value getenv opt =
     (case dft opt of
        None \<Rightarrow> Some None
      | Some d \<Rightarrow>
          if o_type opt = INA_OPT_TYPE_STRING \<and> take 5 d = ''$ENV:'' then Some (getenv (drop 5 d))
          else if o_type opt \<noteq> INA_OPT_TYPE_STRING \<and> take 6 d = CHR 0x22 # ''$ENV:''
          then (if length d < 7 then None else Some (getenv (take (length d - 7) (drop 6 d))))
          else Some (Some d))"

definition add_opt :: "ina_opt \<Rightarrow> string \<Rightarrow> string option \<Rightarrow> opt_reg \<Rightarrow> opt_reg" where
  "add_opt opt l v reg =
     (let i = length (r_opts reg);
          so = \<lparr>so_opt = c_str (short_opt opt), so_value = v, so_desc = c_str (o_desc opt), so_type = o_type opt\<rparr>
      in reg\<lparr>r_opts := r_opts reg @ [so],
             r_sopt := (if so_opt so \<noteq> [] then r_sopt reg @ [i] else r_sopt reg),
             r_lopt := r_lopt reg @ [(l, i)]\<rparr>)"

fun register_opts :: "(string \<Rightarrow> string option) \<Rightarrow> ina_opt list \<Rightarrow> opt_reg \<Rightarrow> opt_reg option" where
  "register_opts getenv [] reg = None"
| "register_opts getenv (opt # opts) reg =
     (case long_opt opt of
        None \<Rightarrow> Some reg
      | Some l \<Rightarrow> (case default_value getenv opt of None \<Rightarrow> None | Some v \<Rightarrow> register_opts getenv opts (add_opt opt l v reg)))"

section \<open>Looking up\<close>

definition ina_find_sopt :: "opt_reg \<Rightarrow> nat \<Rightarrow> string \<Rightarrow> bool" where
  "ina_find_sopt reg i name \<longleftrightarrow> so_opt (r_opts reg ! i) = name"

definition ina_find_lopt :: "string \<times> nat \<Rightarrow> string \<Rightarrow> bool" where
  "ina_find_lopt lo name \<longleftrightarrow> fst lo = name"

definition ina_opt_get :: "opt_reg \<Rightarrow> string \<Rightarrow> nat option" where
  "ina_opt_get reg opt =
     (case find (\<lambda>i. ina_find_sopt reg i opt) (r_sopt reg) of
        Some i \<Rightarrow> Some i
      | None \<Rightarrow> map_option snd (find (\<lambda>lo. ina_find_lopt lo opt) (r_lopt reg)))"

text \<open>The accessors; the registry is missing until options were registered.\<close>

definition ina_opt_isset :: "opt_reg option \<Rightarrow> string option \<Rightarrow> unit ina_res option" where
  "ina_opt_isset reg opt =
     (case opt of
        None \<Rightarrow> Some (Inl INA_ERR_INVALID_ARGUMENT)
      | Some name \<Rightarrow> (case reg of None \<Rightarrow> None | Some reg \<Rightarrow> (case ina_opt_get reg name of
          None \<Rightarrow> Some (Inl ERR_OPTION_NOT_EXISTS)
        | Some i \<Rightarrow>
            if so_type (r_opts reg ! i) = INA_OPT_TYPE_FLAG \<and> so_value (r_opts reg ! i) = None
            then Some (Inl ERR_OPTION_NOT_EXISTS) else Some (Inr ()))))"

fun nth_opt :: "(string \<times> nat) list \<Rightarrow> nat \<Rightarrow> (string \<times> nat) option" where
  "nth_opt [] index = None"
| "nth_opt (lo # los) index = (if index = 0 then Some lo else nth_opt los (index - 1))"

definition ina_opt_get_key_value :: "opt_reg option \<Rightarrow> int \<Rightarrow> (string \<times> string option) ina_res option" where
  "ina_opt_get_key_value reg index =
     (if index < 0 then Some (Inl INA_ERR_INVALID_ARGUMENT)
      else case reg of None \<Rightarrow> None | Some reg \<Rightarrow> (case nth_opt (r_lopt reg) (nat index) of
        None \<Rightarrow> Some (Inl ERR_OPTION_NOT_EXISTS)
      | Some (l, i) \<Rightarrow> Some (Inr (l, so_value (r_opts reg ! i)))))"

definition ina_opt_get_string :: "opt_reg option \<Rightarrow> string option \<Rightarrow> string option ina_res option" where
  "ina_opt_get_string reg opt =
     (case opt of
        None \<Rightarrow> Some (Inl INA_ERR_INVALID_ARGUMENT)
      | Some name \<Rightarrow> (case reg of None \<Rightarrow> None | Some reg \<Rightarrow> (case ina_opt_get reg name of
          None \<Rightarrow> Some (Inl ERR_OPTION_NOT_EXISTS)
        | Some i \<Rightarrow> Some (Inr (so_value (r_opts reg ! i))))))"

definition opt_number :: "(string \<Rightarrow> 'n) \<Rightarrow> opt_reg option \<Rightarrow> string option \<Rightarrow> 'n ina_res option" where
  "opt_number convert reg opt =
     (case opt of
        None \<Rightarrow> Some (Inl INA_ERR_INVALID_ARGUMENT)
      | Some name \<Rightarrow> (case reg of None \<Rightarrow> None | Some reg \<Rightarrow> (case ina_opt_get reg name of
          None \<Rightarrow> Some (Inl ERR_OPTION_NOT_EXISTS)
        | Some i \<Rightarrow> (case so_value (r_opts reg ! i) of
            None \<Rightarrow> Some (Inl ERR_OPTION_NOT_EXISTS)
          | Some v \<Rightarrow> Some (Inr (convert v))))))"

definition c_atoi :: "string \<Rightarrow> int" where
  "c_atoi v = to_int (fst (c_strtol v))"

definition ina_opt_get_int :: "opt_reg option \<Rightarrow> string option \<Rightarrow> int ina_res option" where
  "ina_opt_get_int = opt_number c_atoi"

definition ina_opt_get_float :: "(string \<Rightarrow> 'f) \<Rightarrow> opt_reg option \<Rightarrow> string option \<Rightarrow> 'f ina_res option" where
  "ina_opt_get_float atof = opt_number atof"

section \<open>Parsing arguments\<close>

text \<open>The scan of one argument: \<open>c\<close> is the place where it stops, \<open>s\<close> the begin of the name behind the
  first dashes (0 for none) and \<open>vs\<close> the begin of the value behind an equals sign (0 for none).\<close>

function scan_arg :: "string \<Rightarrow> nat \<Rightarrow> nat \<Rightarrow> nat \<times> nat \<times> nat" where
  "scan_arg a c s =
     (if length a \<le> c then (c, s, 0)
      else if a ! c = CHR ''-''
      then (if s = 0
            then (let c = (if c + 1 < length a \<and> a ! (c + 1) = CHR ''-'' then c + 1 else c) in scan_arg a (c + 1) (c + 1))
            else scan_arg a (c + 1) s)
      else if a ! c = CHR ''='' then (c, s, c + 1)
      else scan_arg a (c + 1) s)"
  by pat_completeness auto

termination
  by (relation "measure (\<lambda>(a, c, _). length a - c)") (auto split: if_splits)

declare scan_arg.simps [simp del]

definition BUF_SIZE :: nat where "BUF_SIZE = 1024"

definition set_value :: "nat \<Rightarrow> string \<Rightarrow> opt_reg \<Rightarrow> opt_reg" where
  "set_value i v reg = reg\<lparr>r_opts := (r_opts reg)[i := (r_opts reg ! i)\<lparr>so_value := Some v\<rparr>]\<rparr>"

text \<open>One argument; the flag in the result tells that the next argument was used up as its value.\<close>

definition parse_arg :: "opt_reg \<Rightarrow> string list \<Rightarrow> nat \<Rightarrow> (bool ina_res \<times> opt_reg) option" where
  "parse_arg reg argv n =
     (let a = argv ! n;
          (c, s, vs) = scan_arg a 0 0;
          e = (if vs \<noteq> 0 then c else 0);
          e = (if e = 0 then c else e)
      in if 0 < s \<and> s \<le> e \<and> e - s < BUF_SIZE
         then let buf = take (c - s) (take (e - s) (drop s a))
              in case ina_opt_get reg buf of
                   None \<Rightarrow> Some (Inl ERR_OPTION_INVALID, reg)
                 | Some i \<Rightarrow>
                     if so_type (r_opts reg ! i) \<noteq> INA_OPT_TYPE_FLAG
                     then if vs = 0
                          then if n + 1 < length argv then Some (Inr True, set_value i (argv ! (n + 1)) reg)
                               else Some (Inr False, reg)
                          else if BUF_SIZE \<le> length (drop vs a) then None
                          else Some (Inr False, set_value i (drop vs a) reg)
                     else Some (Inr False, set_value i ''on'' reg)
         else Some (Inr False, reg))"

function parse_args :: "opt_reg \<Rightarrow> string list \<Rightarrow> nat \<Rightarrow> (unit ina_res \<times> opt_reg) option" where
  "parse_args reg argv n =
     (if n < length argv
      then case parse_arg reg argv n of
             None \<Rightarrow> None
           | Some (Inl e, reg) \<Rightarrow> Some (Inl e, reg)
           | Some (Inr used, reg) \<Rightarrow> parse_args reg argv (if used then n + 2 else n + 1)
      else Some (Inr (), reg))"
  by pat_completeness auto

termination
  by (relation "measure (\<lambda>(_, argv, n). length argv - n)") auto

declare parse_args.simps [simp del]

text \<open>The final check: the callback raises an error (the first component) but returns success, and the
  loop over a list drops the results of its callback.\<close>

definition ina_check_options :: "sopt \<Rightarrow> ina_rc_t option \<times> unit ina_res" where
  "ina_check_options so =
     (if so_type so \<noteq> INA_OPT_TYPE_FLAG \<and> so_value so = None then (Some ERR_OPTION_INVALID, Inr ()) else (None, Inr ()))"

fun foreach_sopt :: "opt_reg \<Rightarrow> nat list \<Rightarrow> unit ina_res" where
  "foreach_sopt reg [] = Inr ()"
| "foreach_sopt reg (i # is) = (if is_ok (snd (ina_check_options (r_opts reg ! i))) then foreach_sopt reg is else Inr ())"

section \<open>Start-up\<close>

record app =
  a_initialized :: bool
  a_name :: "string option"
  a_path :: "string option"
  a_reg :: "opt_reg option"

definition path_size :: nat where "path_size = 257"

definition ina_get_binpath :: "(nat \<Rightarrow> string option) \<Rightarrow> string ina_res" where
  "ina_get_binpath readlink =
     (case readlink path_size of
        None \<Rightarrow> Inl ERR_OPERATION
      | Some t \<Rightarrow> if path_size \<le> length t then Inl ERR_BUFFER_TOO_SMALL else Inr t)"

definition base_name :: "string \<Rightarrow> string option" where
  "base_name p =
     (if CHR ''/'' \<in> set p then Some (rev (takeWhile (\<lambda>c. c \<noteq> CHR ''/'') (rev p)))
      else if p \<noteq> [] then Some p else None)"

definition set_names :: "(nat \<Rightarrow> string option) \<Rightarrow> string \<Rightarrow> app \<Rightarrow> app" where
  "set_names readlink arg0 app =
     app\<lparr>a_name := (case base_name arg0 of None \<Rightarrow> a_name app | Some b \<Rightarrow> Some b),
         a_path := Some (case ina_get_binpath readlink of Inl _ \<Rightarrow> arg0 | Inr p \<Rightarrow> p)\<rparr>"

definition empty_reg :: opt_reg where
  "empty_reg = \<lparr>r_opts = [], r_sopt = [], r_lopt = []\<rparr>"

definition ina_app_init ::
    "unit ina_res \<Rightarrow> (nat \<Rightarrow> string option) \<Rightarrow> (string \<Rightarrow> string option) \<Rightarrow> string list option \<Rightarrow> ina_opt list option \<Rightarrow> app \<Rightarrow>
      (unit ina_res \<times> app) option" where
  "ina_app_init init_rc readlink getenv argv opt app =
     (case init_rc of
        Inl e \<Rightarrow> Some (Inl e, app)
      | Inr _ \<Rightarrow>
          if a_initialized app then Some (Inr (), app)
          else if argv = Some [] then None
          else let app = app\<lparr>a_initialized := True\<rparr>;
                   app = (case argv of None \<Rightarrow> app | Some args \<Rightarrow> set_names readlink (hd args) app)
               in case opt of
                    None \<Rightarrow> Some (Inr (), app)
                  | Some opts \<Rightarrow>
                      (case register_opts getenv opts empty_reg of
                         None \<Rightarrow> None
                       | Some reg \<Rightarrow>
                           (case argv of
                              None \<Rightarrow> Some (Inr (), app\<lparr>a_reg := Some reg\<rparr>)
                            | Some args \<Rightarrow>
                                (case parse_args reg args 1 of
                                   None \<Rightarrow> None
                                 | Some (Inl e, reg) \<Rightarrow> Some (Inl e, app\<lparr>a_reg := Some reg\<rparr>)
                                 | Some (Inr _, reg) \<Rightarrow> Some (foreach_sopt reg (r_sopt reg), app\<lparr>a_reg := Some reg\<rparr>)))))"

section \<open>Signals\<close>

datatype os_signal = SIGABRT | SIGFPE | SIGILL | SIGSEGV | SIG_TERM | SIGINT | SIGHUP | SIGQUIT | SIGSTOP | SIGKILL | SIGTTOU | SIGTTIN | SIG_other

datatype ina_signal = INA_SIGNAL_FPE | INA_SIGNAL_ABRT | INA_SIGNAL_ILL | INA_SIGNAL_INT | INA_SIGNAL_SEGV | INA_SIGNAL_TERM |
  INA_SIGNAL_HUP | INA_SIGNAL_QUIT | INA_SIGNAL_KILL | INA_SIGNAL_STOP | INA_SIGNAL_TTOU | INA_SIGNAL_TTIN

datatype signal_behavior = INA_SIGNAL_BEHAVIOR_DFT | INA_SIGNAL_BEHAVIOR_IGNORE

text \<open>A handler changes the behaviour, the exit code and the state of the application.  The state of the
  library is the map of handlers and the two static variables of its own handler.\<close>

type_synonym 'w sig_handler = "ina_signal \<Rightarrow> signal_behavior \<Rightarrow> int \<Rightarrow> 'w \<Rightarrow> signal_behavior \<times> int \<times> 'w"

record 'w sig_state =
  handler_map :: "ina_signal \<Rightarrow> 'w sig_handler option"
  exitcode :: int
  signaled :: "os_signal option"

datatype sig_outcome = Returns | Exits int | Aborts

definition EXIT_FAILURE :: int where "EXIT_FAILURE = 1"

definition ina_register_signal_handler :: "ina_signal \<Rightarrow> 'w sig_handler option \<Rightarrow> 'w sig_state \<Rightarrow> 'w sig_handler option \<times> 'w sig_state" where
  "ina_register_signal_handler sig h st = (handler_map st sig, st\<lparr>handler_map := (handler_map st)(sig := h)\<rparr>)"

fun signal_of :: "os_signal \<Rightarrow> ina_signal option" where
  "signal_of SIGABRT = Some INA_SIGNAL_ABRT"
| "signal_of SIGFPE = Some INA_SIGNAL_FPE"
| "signal_of SIGILL = Some INA_SIGNAL_ILL"
| "signal_of SIGSEGV = Some INA_SIGNAL_SEGV"
| "signal_of SIG_TERM = Some INA_SIGNAL_TERM"
| "signal_of SIGINT = Some INA_SIGNAL_INT"
| "signal_of SIGHUP = Some INA_SIGNAL_HUP"
| "signal_of SIGQUIT = Some INA_SIGNAL_QUIT"
| "signal_of SIGSTOP = Some INA_SIGNAL_STOP"
| "signal_of SIGKILL = Some INA_SIGNAL_KILL"
| "signal_of SIGTTOU = Some INA_SIGNAL_TTOU"
| "signal_of SIGTTIN = Some INA_SIGNAL_TTIN"
| "signal_of SIG_other = None"

fun signal_end :: "os_signal \<Rightarrow> signal_behavior \<Rightarrow> int \<Rightarrow> sig_outcome" where
  "signal_end sig INA_SIGNAL_BEHAVIOR_IGNORE code = Returns"
| "signal_end sig INA_SIGNAL_BEHAVIOR_DFT code =
     (if sig \<in> {SIGABRT, SIGFPE, SIGILL, SIGSEGV} then Exits EXIT_FAILURE
      else if sig \<in> {SIG_TERM, SIGINT, SIGTTOU, SIGTTIN, SIGHUP, SIGQUIT} then Exits code
      else Returns)"

definition ina_signal_handler :: "os_signal \<Rightarrow> 'w sig_state \<Rightarrow> 'w \<Rightarrow> sig_outcome \<times> 'w sig_state \<times> 'w" where
  "ina_signal_handler sig st w =
     (if signaled st \<noteq> None then (Returns, st, w)
      else let st = st\<lparr>signaled := Some sig\<rparr>
           in case signal_of sig of
                None \<Rightarrow> (Aborts, st, w)
              | Some isig \<Rightarrow>
                  (case handler_map st isig of
                     None \<Rightarrow> (signal_end sig INA_SIGNAL_BEHAVIOR_DFT (exitcode st), st, w)
                   | Some sh \<Rightarrow>
                       (case sh isig INA_SIGNAL_BEHAVIOR_DFT (exitcode st) w of
                          (sb, code, w) \<Rightarrow> (signal_end sig sb code, st\<lparr>exitcode := code\<rparr>, w))))"

text \<open>A sequence of signals, up to the one that ends the process.\<close>

fun run_signals :: "os_signal list \<Rightarrow> 'w sig_state \<Rightarrow> 'w \<Rightarrow> sig_outcome \<times> 'w sig_state \<times> 'w" where
  "run_signals [] st w = (Returns, st, w)"
| "run_signals (sig # sigs) st w =
     (case ina_signal_handler sig st w of
        (Returns, st, w) \<Rightarrow> run_signals sigs st w
      | r \<Rightarrow> r)"

section \<open>Command lines\<close>

text \<open>A command line as its meaning: settings and flags by the short or the long name, settings with an
  equals sign or with the value as the next argument, and other arguments.\<close>

datatype cli_item = Value bool bool nat string | Flag bool nat | Plain string

definition opt_name :: "bool \<Rightarrow> ina_opt \<Rightarrow> string" where
  "opt_name long opt = (if long then the (long_opt opt) else c_str (short_opt opt))"

definition dashes :: "bool \<Rightarrow> string" where
  "dashes long = (if long then ''--'' else ''-'')"

fun cli_text :: "ina_opt list \<Rightarrow> cli_item \<Rightarrow> string list" where
  "cli_text opts (Value long eq i v) =
     (if eq then [dashes long @ opt_name long (opts ! i) @ ''='' @ v] else [dashes long @ opt_name long (opts ! i), v])"
| "cli_text opts (Flag long i) = [dashes long @ opt_name long (opts ! i)]"
| "cli_text opts (Plain a) = [a]"

fun apply_item :: "string option list \<Rightarrow> cli_item \<Rightarrow> string option list" where
  "apply_item vals (Value long eq i v) = vals[i := Some v]"
| "apply_item vals (Flag long i) = vals[i := Some ''on'']"
| "apply_item vals (Plain a) = vals"

definition named :: "ina_opt list \<Rightarrow> bool \<Rightarrow> nat \<Rightarrow> bool" where
  "named opts long i \<longleftrightarrow> i < length opts \<and> (long \<or> opt_name False (opts ! i) \<noteq> [])"

fun item_ok :: "ina_opt list \<Rightarrow> cli_item \<Rightarrow> bool" where
  "item_ok opts (Value long eq i v) \<longleftrightarrow>
     named opts long i \<and> o_type (opts ! i) \<noteq> INA_OPT_TYPE_FLAG \<and> (eq \<longrightarrow> length v < BUF_SIZE)"
| "item_ok opts (Flag long i) \<longleftrightarrow> named opts long i \<and> o_type (opts ! i) = INA_OPT_TYPE_FLAG"
| "item_ok opts (Plain a) \<longleftrightarrow> CHR ''-'' \<notin> set (takeWhile (\<lambda>c. c \<noteq> CHR ''='') a)"

definition name_ok :: "string \<Rightarrow> bool" where
  "name_ok s \<longleftrightarrow> CHR ''='' \<notin> set s \<and> length s < BUF_SIZE"

definition opts_ok :: "(string \<Rightarrow> string option) \<Rightarrow> ina_opt list \<Rightarrow> bool" where
  "opts_ok getenv opts \<longleftrightarrow>
     list_all (\<lambda>opt. long_opt opt \<noteq> None \<and> default_value getenv opt \<noteq> None \<and> name_ok (opt_name True opt) \<and>
       name_ok (opt_name False opt) \<and> take 1 (opt_name False opt) \<noteq> ''-'') opts \<and>
     distinct (filter (\<lambda>s. s \<noteq> []) (map (opt_name False) opts) @ map (opt_name True) opts)"

subsection \<open>Scanning\<close>

lemma scan_skip:
  assumes "drop c a = nm @ t" "\<forall>x\<in>set nm. x \<noteq> CHR ''='' \<and> (s = 0 \<longrightarrow> x \<noteq> CHR ''-'')"
  shows "scan_arg a c s = scan_arg a (c + length nm) s"
  using assms
proof (induction nm arbitrary: c)
  case (Cons x nm)
  have c: "c < length a" using Cons.prems(1) by (cases "c < length a") auto
  then have "a ! c = x" "drop (Suc c) a = nm @ t" using Cons.prems(1) by (simp_all add: Cons_nth_drop_Suc [symmetric])
  then show ?case using Cons.IH [of "Suc c"] Cons.prems(2) c by (subst scan_arg.simps) simp
qed simp

lemma scan_end: "scan_arg a (length a) s = (length a, s, 0)"
  by (subst scan_arg.simps) simp

lemma scan_equals: "drop c a = CHR ''='' # v \<Longrightarrow> scan_arg a c s = (c, s, c + 1)"
  by (subst scan_arg.simps) (auto simp: drop_eq_Nil2 dest: arg_cong [where f = length] simp flip: hd_drop_conv_nth)

lemma scan_opt:
  assumes "CHR ''='' \<notin> set nm" "long \<or> take 1 nm \<noteq> ''-''"
  shows "scan_arg (dashes long @ nm) 0 0 = (length (dashes long @ nm), length (dashes long), 0)"
    and "scan_arg (dashes long @ nm @ CHR ''='' # v) 0 0 =
      (length (dashes long @ nm), length (dashes long), length (dashes long @ nm) + 1)"
proof -
  have first: "scan_arg (dashes long @ nm @ t) 0 0 = scan_arg (dashes long @ nm @ t) (length (dashes long)) (length (dashes long))"
    if "t = [] \<or> hd t = CHR ''=''" for t
    using assms(2) that by (subst scan_arg.simps) (cases nm; cases t; auto simp: dashes_def)
  have eq: "\<forall>x\<in>set nm. x \<noteq> CHR ''=''" using assms(1) by auto
  have skip: "scan_arg (dashes long @ nm @ t) (length (dashes long)) (length (dashes long)) =
      scan_arg (dashes long @ nm @ t) (length (dashes long @ nm)) (length (dashes long))" for t
    using scan_skip [of "length (dashes long)" "dashes long @ nm @ t" nm t "length (dashes long)"] eq by (simp add: dashes_def)
  show "scan_arg (dashes long @ nm) 0 0 = (length (dashes long @ nm), length (dashes long), 0)"
    using first [of "[]"] skip [of "[]"] scan_end [of "dashes long @ nm" "length (dashes long)"] by simp
  show "scan_arg (dashes long @ nm @ CHR ''='' # v) 0 0 =
      (length (dashes long @ nm), length (dashes long), length (dashes long @ nm) + 1)"
    using first [of "CHR ''='' # v"] skip [of "CHR ''='' # v"]
      scan_equals [of "length (dashes long @ nm)" "dashes long @ nm @ CHR ''='' # v" v] by simp
qed

lemma scan_plain:
  assumes "CHR ''-'' \<notin> set (takeWhile (\<lambda>c. c \<noteq> CHR ''='') a)"
  shows "fst (snd (scan_arg a 0 0)) = 0"
proof -
  let ?nm = "takeWhile (\<lambda>c. c \<noteq> CHR ''='') a" and ?t = "dropWhile (\<lambda>c. c \<noteq> CHR ''='') a"
  have "\<forall>x\<in>set ?nm. x \<noteq> CHR ''='' \<and> (0 = 0 \<longrightarrow> x \<noteq> CHR ''-'')" using assms by (auto dest: set_takeWhileD)
  then have s: "scan_arg a 0 0 = scan_arg a (length ?nm) 0" using scan_skip [of 0 a ?nm ?t 0] by simp
  have d: "drop (length ?nm) a = ?t" by (metis append_eq_conv_conj takeWhile_dropWhile_id)
  show ?thesis
  proof (cases ?t)
    case Nil
    then have "length ?nm = length a" using d by (metis drop_eq_Nil2 le_antisym length_takeWhile_le)
    then show ?thesis using s scan_end [of a 0] by simp
  next
    case (Cons x v)
    then have "x = CHR ''=''" using hd_dropWhile [of "\<lambda>c. c \<noteq> CHR ''=''" a] by simp
    then show ?thesis using s scan_equals [of "length ?nm" a v 0] d Cons by simp
  qed
qed

subsection \<open>The registry of a table of options\<close>

definition mk_sopt :: "ina_opt \<Rightarrow> string option \<Rightarrow> sopt" where
  "mk_sopt opt v = \<lparr>so_opt = opt_name False opt, so_value = v, so_desc = c_str (o_desc opt), so_type = o_type opt\<rparr>"

definition mk_reg :: "ina_opt list \<Rightarrow> string option list \<Rightarrow> opt_reg" where
  "mk_reg opts vals =
     \<lparr>r_opts = map2 mk_sopt opts vals,
      r_sopt = filter (\<lambda>i. opt_name False (opts ! i) \<noteq> []) [0..<length opts],
      r_lopt = map (\<lambda>i. (opt_name True (opts ! i), i)) [0..<length opts]\<rparr>"

lemma add_opt_mk:
  assumes "length vals = length opts" "long_opt opt = Some l"
  shows "add_opt opt l v (mk_reg opts vals) = mk_reg (opts @ [opt]) (vals @ [v])"
proof -
  have "filter (\<lambda>i. opt_name False ((opts @ [opt]) ! i) \<noteq> []) [0..<length opts] =
      filter (\<lambda>i. opt_name False (opts ! i) \<noteq> []) [0..<length opts]" by (rule filter_cong) (auto simp: nth_append)
  moreover have "map (\<lambda>i. (opt_name True ((opts @ [opt]) ! i), i)) [0..<length opts] =
      map (\<lambda>i. (opt_name True (opts ! i), i)) [0..<length opts]" by (rule map_cong) (auto simp: nth_append)
  ultimately show ?thesis using assms by (simp add: add_opt_def mk_reg_def mk_sopt_def opt_name_def Let_def)
qed

lemma register_mk:
  assumes "list_all (\<lambda>opt. long_opt opt \<noteq> None \<and> default_value getenv opt \<noteq> None) opts" "length vals = length pre"
  shows "register_opts getenv (opts @ [opt_end]) (mk_reg pre vals) =
    Some (mk_reg (pre @ opts) (vals @ map (\<lambda>opt. the (default_value getenv opt)) opts))"
  using assms
proof (induction opts arbitrary: pre vals)
  case Nil then show ?case by (simp add: opt_end_def)
next
  case (Cons opt opts)
  then obtain l v where "long_opt opt = Some l" "default_value getenv opt = Some v" by auto
  then show ?case using Cons add_opt_mk [of vals pre opt l v] by simp
qed

lemma register_all:
  assumes "opts_ok getenv opts"
  shows "register_opts getenv (opts @ [opt_end]) empty_reg = Some (mk_reg opts (map (\<lambda>opt. the (default_value getenv opt)) opts))"
proof -
  have "list_all (\<lambda>opt. long_opt opt \<noteq> None \<and> default_value getenv opt \<noteq> None) opts"
    using assms by (auto simp: opts_ok_def list_all_iff)
  then show ?thesis using register_mk [of getenv opts "[]" "[]"] by (simp add: mk_reg_def empty_reg_def)
qed

lemma set_value_mk:
  "i < length opts \<Longrightarrow> length vals = length opts \<Longrightarrow> set_value i v (mk_reg opts vals) = mk_reg opts (vals[i := Some v])"
  by (auto simp: set_value_def mk_reg_def mk_sopt_def nth_list_update intro!: nth_equalityI)

lemma find_unique:
  assumes "i \<in> set xs" "P i" "\<And>j. j \<in> set xs \<Longrightarrow> P j \<Longrightarrow> j = i"
  shows "find P xs = Some i"
proof (cases "find P xs")
  case None then show ?thesis using assms(1,2) by (auto simp: find_None_iff)
next
  case (Some j)
  then have "j \<in> set xs" "P j" by (auto simp: find_Some_iff)
  then show ?thesis using assms(3) Some by blast
qed

lemma distinct_filter_nth:
  "distinct (filter P xs) \<Longrightarrow> i < length xs \<Longrightarrow> j < length xs \<Longrightarrow> xs ! i = xs ! j \<Longrightarrow> P (xs ! i) \<Longrightarrow> i = j"
proof (induction xs arbitrary: i j)
  case (Cons x xs)
  have x: "x \<noteq> xs ! k" if "P x" "k < length xs" for k
    using Cons.prems(1) that nth_mem [of k xs] by auto
  have d: "distinct (filter P xs)" using Cons.prems(1) by (simp split: if_splits)
  show ?case
  proof (cases i)
    case 0
    then show ?thesis using Cons.prems x by (cases j) auto
  next
    case (Suc i')
    show ?thesis
    proof (cases j)
      case 0 then show ?thesis using Cons.prems(2,4,5) Suc x [of i'] by auto
    next
      case (Suc j')
      then show ?thesis using Cons.prems(2-5) \<open>i = Suc i'\<close> Cons.IH [OF d, of i' j'] by simp
    qed
  qed
qed simp

lemma opt_get_mk:
  assumes "opts_ok getenv opts" "named opts long i" "length vals = length opts"
  shows "ina_opt_get (mk_reg opts vals) (opt_name long (opts ! i)) = Some i"
proof -
  have i: "i < length opts" and ne: "long \<or> opt_name False (opts ! i) \<noteq> []" using assms(2) by (auto simp: named_def)
  let ?s = "\<lambda>j. opt_name False (opts ! j)" and ?l = "\<lambda>j. opt_name True (opts ! j)"
  have d: "distinct (filter (\<lambda>s. s \<noteq> []) (map (opt_name False) opts))" "distinct (map (opt_name True) opts)"
    "set (filter (\<lambda>s. s \<noteq> []) (map (opt_name False) opts)) \<inter> set (map (opt_name True) opts) = {}"
    using assms(1) unfolding opts_ok_def distinct_append by blast+
  have sl: "?s j \<noteq> ?l k" if "?s j \<noteq> []" "j < length opts" "k < length opts" for j k
    using d(3) that by (fastforce simp: in_set_conv_nth)
  have ss: "j = k" if "?s j = ?s k" "?s j \<noteq> []" "j < length opts" "k < length opts" for j k
    using distinct_filter_nth [OF d(1), of j k] that by simp
  have ll: "j = k" if "?l j = ?l k" "j < length opts" "k < length opts" for j k
    using d(2) that nth_eq_iff_index_eq [of "map (opt_name True) opts" j k] by simp
  have so: "ina_find_sopt (mk_reg opts vals) j name \<longleftrightarrow> ?s j = name" if "j < length opts" for j name
    using that assms(3) by (simp add: ina_find_sopt_def mk_reg_def mk_sopt_def)
  have rs: "j \<in> set (r_sopt (mk_reg opts vals)) \<longleftrightarrow> j < length opts \<and> ?s j \<noteq> []" for j by (auto simp: mk_reg_def)
  have rl: "lo \<in> set (r_lopt (mk_reg opts vals)) \<longleftrightarrow> (\<exists>j < length opts. lo = (?l j, j))" for lo by (auto simp: mk_reg_def)
  show ?thesis
  proof (cases long)
    case True
    have "find (\<lambda>j. ina_find_sopt (mk_reg opts vals) j (?l i)) (r_sopt (mk_reg opts vals)) = None"
      unfolding find_None_iff using rs so sl i by blast
    moreover have "find (\<lambda>lo. ina_find_lopt lo (?l i)) (r_lopt (mk_reg opts vals)) = Some (?l i, i)"
      by (rule find_unique) (use rl ll i in \<open>auto simp: ina_find_lopt_def\<close>)
    ultimately show ?thesis using True by (simp add: ina_opt_get_def)
  next
    case False
    have "find (\<lambda>j. ina_find_sopt (mk_reg opts vals) j (?s i)) (r_sopt (mk_reg opts vals)) = Some i"
      by (rule find_unique) (use rs so ss i ne False in auto)
    then show ?thesis using False by (simp add: ina_opt_get_def)
  qed
qed

subsection \<open>Parsing what was printed\<close>

lemma name_facts:
  assumes "opts_ok getenv opts" "named opts long i"
  shows "CHR ''='' \<notin> set (opt_name long (opts ! i))" "length (opt_name long (opts ! i)) < BUF_SIZE"
    "long \<or> take 1 (opt_name long (opts ! i)) \<noteq> ''-''"
proof -
  have "name_ok (opt_name True (opts ! i))" "name_ok (opt_name False (opts ! i))" "take 1 (opt_name False (opts ! i)) \<noteq> ''-''"
    using assms by (simp_all add: opts_ok_def named_def list_all_length)
  then show "CHR ''='' \<notin> set (opt_name long (opts ! i))" "length (opt_name long (opts ! i)) < BUF_SIZE"
    "long \<or> take 1 (opt_name long (opts ! i)) \<noteq> ''-''" by (cases long; simp add: name_ok_def)+
qed

lemma mk_type: "i < length opts \<Longrightarrow> length vals = length opts \<Longrightarrow> so_type (r_opts (mk_reg opts vals) ! i) = o_type (opts ! i)"
  by (simp add: mk_reg_def mk_sopt_def)

lemma dashes_pos: "0 < length (dashes long)"
  by (simp add: dashes_def)

lemma parse_printed:
  assumes "opts_ok getenv opts" "named opts long i" "length vals = length opts"
  shows "argv ! n = dashes long @ opt_name long (opts ! i) \<Longrightarrow>
      parse_arg (mk_reg opts vals) argv n =
        (if o_type (opts ! i) = INA_OPT_TYPE_FLAG then Some (Inr False, mk_reg opts (vals[i := Some ''on'']))
         else if n + 1 < length argv then Some (Inr True, mk_reg opts (vals[i := Some (argv ! (n + 1))]))
         else Some (Inr False, mk_reg opts vals))"
    and "argv ! n = dashes long @ opt_name long (opts ! i) @ CHR ''='' # v \<Longrightarrow>
      o_type (opts ! i) \<noteq> INA_OPT_TYPE_FLAG \<Longrightarrow>
      parse_arg (mk_reg opts vals) argv n =
        (if length v < BUF_SIZE then Some (Inr False, mk_reg opts (vals[i := Some v])) else None)"
proof -
  have i: "i < length opts" using assms(2) by (simp add: named_def)
  note f = name_facts [OF assms(1,2)] and g = opt_get_mk [OF assms] and u = set_value_mk [OF i assms(3)] and ty = mk_type [OF i assms(3)]
  show "parse_arg (mk_reg opts vals) argv n =
        (if o_type (opts ! i) = INA_OPT_TYPE_FLAG then Some (Inr False, mk_reg opts (vals[i := Some ''on'']))
         else if n + 1 < length argv then Some (Inr True, mk_reg opts (vals[i := Some (argv ! (n + 1))]))
         else Some (Inr False, mk_reg opts vals))"
    if "argv ! n = dashes long @ opt_name long (opts ! i)"
    using that f(2) g u ty dashes_pos [of long] scan_opt(1) [OF f(1,3)] by (simp add: parse_arg_def)
  show "parse_arg (mk_reg opts vals) argv n =
        (if length v < BUF_SIZE then Some (Inr False, mk_reg opts (vals[i := Some v])) else None)"
    if "argv ! n = dashes long @ opt_name long (opts ! i) @ CHR ''='' # v" "o_type (opts ! i) \<noteq> INA_OPT_TYPE_FLAG"
    using that f(2) g u ty dashes_pos [of long] scan_opt(2) [OF f(1,3), of v] by (simp add: parse_arg_def)
qed

lemma parse_plain: "CHR ''-'' \<notin> set (takeWhile (\<lambda>c. c \<noteq> CHR ''='') (argv ! n)) \<Longrightarrow> parse_arg reg argv n = Some (Inr False, reg)"
  using scan_plain [of "argv ! n"] by (cases "scan_arg (argv ! n) 0 0") (simp add: parse_arg_def)

lemma parse_cli:
  assumes "opts_ok getenv opts" "list_all (item_ok opts) items" "length vals = length opts"
  shows "parse_args (mk_reg opts vals) (pre @ concat (map (cli_text opts) items)) (length pre) =
    Some (Inr (), mk_reg opts (foldl apply_item vals items))"
  using assms(2,3)
proof (induction items arbitrary: pre vals)
  case Nil then show ?case by (subst parse_args.simps) simp
next
  case (Cons it items)
  let ?rest = "concat (map (cli_text opts) items)" and ?argv = "pre @ concat (map (cli_text opts) (it # items))"
  have l: "length (apply_item vals it) = length opts" using Cons.prems(2) by (cases it) auto
  have ih: "parse_args (mk_reg opts (apply_item vals it)) ?argv (length (pre @ cli_text opts it)) =
      Some (Inr (), mk_reg opts (foldl apply_item vals (it # items)))"
    using Cons.IH [of "apply_item vals it" "pre @ cli_text opts it"] Cons.prems(1) l by simp
  have "parse_arg (mk_reg opts vals) ?argv (length pre) =
      Some (Inr (length (cli_text opts it) = 2), mk_reg opts (apply_item vals it))"
    using Cons.prems parse_printed [OF assms(1) _ Cons.prems(2), where argv = ?argv and n = "length pre"]
      parse_plain [of ?argv "length pre"]
    by (cases it) (auto simp: nth_append)
  moreover have "length (cli_text opts it) = 2 \<or> length (cli_text opts it) = 1" by (cases it) auto
  ultimately show ?case using ih by (subst parse_args.simps) auto
qed

lemma check_passes: "foreach_sopt reg is = Inr ()"
  by (induction "is") auto

lemma nth_opt_nth: "nth_opt xs k = (if k < length xs then Some (xs ! k) else None)"
  by (induction xs k rule: nth_opt.induct) (auto simp: nth_Cons')

text \<open>The last value of each option, and that every option but the flags has one, from its default or from the command line.\<close>

definition final_values :: "(string \<Rightarrow> string option) \<Rightarrow> ina_opt list \<Rightarrow> cli_item list \<Rightarrow> string option list" where
  "final_values getenv opts items = foldl apply_item (map (\<lambda>opt. the (default_value getenv opt)) opts) items"

definition all_valued :: "(string \<Rightarrow> string option) \<Rightarrow> ina_opt list \<Rightarrow> cli_item list \<Rightarrow> bool" where
  "all_valued getenv opts items \<longleftrightarrow>
     (\<forall>i < length opts. o_type (opts ! i) \<noteq> INA_OPT_TYPE_FLAG \<longrightarrow> final_values getenv opts items ! i \<noteq> None)"

text \<open>C20. Parsing a printed command line at the first start: for a table of options with distinct names shorter
  than the buffer and without \<open>=\<close>, any sequence of settings and flags in any of the accepted forms, mixed with other arguments without a dash in
  front of their first \<open>=\<close>, in which no value behind \<open>=\<close> is longer than the buffer and every option that is not a flag has a default or is set,
  is accepted, and each option then has the value of its last setting, \<open>on\<close> for a flag that was given,
  or else its default, by its long name, its short name and its place in the table.\<close>

theorem options_roundtrip:
  assumes "opts_ok getenv opts" "list_all (item_ok opts) items" "all_valued getenv opts items" "\<not> a_initialized app"
  shows "\<exists>app'. ina_app_init (Inr ()) readlink getenv (Some (arg0 # concat (map (cli_text opts) items))) (Some (opts @ [opt_end])) app =
      Some (Inr (), app') \<and>
    (\<forall>i < length opts. let v = final_values getenv opts items ! i in
      (o_type (opts ! i) \<noteq> INA_OPT_TYPE_FLAG \<longrightarrow> v \<noteq> None) \<and>
      ina_opt_get_string (a_reg app') (Some (opt_name True (opts ! i))) = Some (Inr v) \<and>
      (opt_name False (opts ! i) \<noteq> [] \<longrightarrow> ina_opt_get_string (a_reg app') (Some (opt_name False (opts ! i))) = Some (Inr v)) \<and>
      ina_opt_get_key_value (a_reg app') (int i) = Some (Inr (opt_name True (opts ! i), v)))"
proof -
  let ?d = "map (\<lambda>opt. the (default_value getenv opt)) opts"
  let ?reg = "mk_reg opts (foldl apply_item ?d items)"
  have len: "length (foldl apply_item vs items) = length vs" for vs
  proof (induction items arbitrary: vs)
    case (Cons it items) then show ?case by (cases it) auto
  qed simp
  have "register_opts getenv (opts @ [opt_end]) empty_reg = Some (mk_reg opts ?d)" using register_all [OF assms(1)] .
  moreover have "parse_args (mk_reg opts ?d) (arg0 # concat (map (cli_text opts) items)) 1 = Some (Inr (), ?reg)"
    using parse_cli [OF assms(1,2), of ?d "[arg0]"] by simp
  ultimately have i: "\<exists>app'. ina_app_init (Inr ()) readlink getenv (Some (arg0 # concat (map (cli_text opts) items))) (Some (opts @ [opt_end])) app =
      Some (Inr (), app') \<and> a_reg app' = Some ?reg"
    using assms(4) by (simp add: ina_app_init_def check_passes Let_def)
  have g: "ina_opt_get ?reg (opt_name long (opts ! k)) = Some k" if "k < length opts" "long \<or> opt_name False (opts ! k) \<noteq> []" for k long
    using that by (intro opt_get_mk [OF assms(1)]) (auto simp: named_def len)
  have v: "so_value (r_opts ?reg ! k) = final_values getenv opts items ! k" if "k < length opts" for k
    using that len [of ?d] by (simp add: mk_reg_def mk_sopt_def final_values_def)
  have "nth_opt (r_lopt ?reg) k = Some (opt_name True (opts ! k), k)" if "k < length opts" for k
    using that by (simp add: nth_opt_nth mk_reg_def)
  with i g v assms(3) show ?thesis unfolding all_valued_def
    by (auto simp: ina_opt_get_string_def ina_opt_get_key_value_def Let_def)
qed

definition demo_opts :: "ina_opt list" where
  "demo_opts = [INA_OPT_FLAG (Some ''v'') ''verbose'' ''talk'', INA_OPT_STRING (Some ''r'') ''run'' (Some ''all'') ''which'',
     INA_OPT_STRING None ''home'' (Some ''$ENV:HOME'') ''where'']"

definition demo_items :: "cli_item list" where
  "demo_items = [Value False False 1 ''a'', Plain ''x=-1'', Flag True 0, Value True True 1 ''b-c'']"

definition demo_app :: app where
  "demo_app = \<lparr>a_initialized = False, a_name = None, a_path = None, a_reg = None\<rparr>"

theorem options_roundtrip_witness:
  "concat (map (cli_text demo_opts) demo_items) = [''-r'', ''a'', ''x=-1'', ''--verbose'', ''--run=b-c''] \<and>
   (\<exists>app'. ina_app_init (Inr ()) (\<lambda>_. None) (\<lambda>_. Some ''/root'')
      (Some [''prog'', ''-r'', ''a'', ''x=-1'', ''--verbose'', ''--run=b-c'']) (Some (demo_opts @ [opt_end])) demo_app = Some (Inr (), app') \<and>
    ina_opt_get_string (a_reg app') (Some ''r'') = Some (Inr (Some ''b-c'')) \<and>
    ina_opt_get_string (a_reg app') (Some ''home'') = Some (Inr (Some ''/root'')) \<and>
    ina_opt_get_key_value (a_reg app') 0 = Some (Inr (''verbose'', Some ''on'')))"
proof -
  note d = demo_opts_def demo_items_def INA_OPT_FLAG_def INA_OPT_STRING_def
  have n: "opt_name True (demo_opts ! 0) = ''verbose''" "opt_name False (demo_opts ! 1) = ''r''"
    "opt_name True (demo_opts ! 2) = ''home''" "length demo_opts = 3" by (simp_all add: d opt_name_def c_str_def)
  have t: "concat (map (cli_text demo_opts) demo_items) = [''-r'', ''a'', ''x=-1'', ''--verbose'', ''--run=b-c'']"
    by (simp add: d opt_name_def c_str_def dashes_def)
  have v: "final_values (\<lambda>_. Some ''/root'') demo_opts demo_items =
      [Some ''on'', Some ''b-c'', Some ''/root'']" by (simp add: d default_value_def final_values_def)
  have "opts_ok (\<lambda>_. Some ''/root'') demo_opts"
    by (simp add: opts_ok_def d name_ok_def opt_name_def c_str_def default_value_def BUF_SIZE_def)
  moreover have "list_all (item_ok demo_opts) demo_items"
    by (simp add: d named_def opt_name_def c_str_def BUF_SIZE_def)
  moreover have "all_valued (\<lambda>_. Some ''/root'') demo_opts demo_items"
    unfolding all_valued_def v by (simp add: demo_opts_def less_Suc_eq numeral_2_eq_2)
  ultimately obtain app' where "ina_app_init (Inr ()) (\<lambda>_. None) (\<lambda>_. Some ''/root'')
      (Some (''prog'' # concat (map (cli_text demo_opts) demo_items))) (Some (demo_opts @ [opt_end])) demo_app = Some (Inr (), app')"
    and "\<forall>i < length demo_opts. let v = final_values (\<lambda>_. Some ''/root'') demo_opts demo_items ! i in
      (o_type (demo_opts ! i) \<noteq> INA_OPT_TYPE_FLAG \<longrightarrow> v \<noteq> None) \<and>
      ina_opt_get_string (a_reg app') (Some (opt_name True (demo_opts ! i))) = Some (Inr v) \<and>
      (opt_name False (demo_opts ! i) \<noteq> [] \<longrightarrow> ina_opt_get_string (a_reg app') (Some (opt_name False (demo_opts ! i))) = Some (Inr v)) \<and>
      ina_opt_get_key_value (a_reg app') (int i) = Some (Inr (opt_name True (demo_opts ! i), v))"
    using options_roundtrip [of "\<lambda>_. Some ''/root''" demo_opts demo_items demo_app "\<lambda>_. None" "''prog''"]
    by (auto simp: demo_app_def)
  note app = this(1) and all = this(2)
  show ?thesis using app t all [rule_format, of 0] all [rule_format, of 1] all [rule_format, of 2] n v
    by (auto simp: Let_def intro!: exI [of _ app'])
qed

section \<open>Limits\<close>

text \<open>A value behind an equals sign is copied into a buffer of 1024 bytes without a test of its length:
  a longer value overruns it.\<close>

theorem option_value_overruns:
  assumes "opts_ok getenv opts" "named opts long i" "o_type (opts ! i) \<noteq> INA_OPT_TYPE_FLAG" "BUF_SIZE \<le> length v" "\<not> a_initialized app"
  shows "ina_app_init (Inr ()) readlink getenv (Some [arg0, dashes long @ opt_name long (opts ! i) @ ''='' @ v]) (Some (opts @ [opt_end])) app = None"
proof -
  let ?argv = "[arg0, dashes long @ opt_name long (opts ! i) @ CHR ''='' # v]" and ?d = "map (\<lambda>opt. the (default_value getenv opt)) opts"
  have "register_opts getenv (opts @ [opt_end]) empty_reg = Some (mk_reg opts ?d)" using register_all [OF assms(1)] .
  moreover have "parse_arg (mk_reg opts ?d) ?argv 1 = None"
    using parse_printed(2) [OF assms(1,2), of ?d ?argv 1 v] assms(3,4) by simp
  then have "parse_args (mk_reg opts ?d) ?argv 1 = None" by (subst parse_args.simps) simp
  ultimately show ?thesis using assms(5) by (simp add: ina_app_init_def Let_def)
qed

theorem option_value_overruns_witness:
  "ina_app_init (Inr ()) (\<lambda>_. None) (\<lambda>_. None) (Some [''prog'', ''-r='' @ replicate 1024 CHR ''x'']) (Some (demo_opts @ [opt_end])) demo_app = None"
proof -
  note d = demo_opts_def INA_OPT_FLAG_def INA_OPT_STRING_def
  have "opts_ok (\<lambda>_. None) demo_opts" "named demo_opts False 1" "o_type (demo_opts ! 1) \<noteq> INA_OPT_TYPE_FLAG"
    and n: "dashes False = ''-''" "opt_name False (demo_opts ! 1) = ''r''"
    by (simp_all add: opts_ok_def d name_ok_def opt_name_def c_str_def default_value_def BUF_SIZE_def named_def dashes_def)
  then show ?thesis
    using option_value_overruns [of "\<lambda>_. None" demo_opts False 1 "replicate 1024 CHR ''x''" demo_app "\<lambda>_. None" "''prog''"]
    unfolding n by (simp add: demo_app_def BUF_SIZE_def)
qed

text \<open>C40. A dash inside an argument starts an option.  An argument without \<open>=\<close> whose first dash is not followed by another,
  and in which the text behind that dash is shorter than the buffer and names no known option, is refused, and the
  arguments behind it are not looked at: so is a file name like \<open>my-file\<close> when there is no option \<open>file\<close>.\<close>

theorem inner_dash_refused:
  assumes "n < length argv" "argv ! n = p @ ''-'' @ nm"
    and "CHR ''-'' \<notin> set p" "CHR ''='' \<notin> set p" "CHR ''='' \<notin> set nm" "take 1 nm \<noteq> ''-''" "length nm < BUF_SIZE" "ina_opt_get reg nm = None"
  shows "parse_args reg argv n = Some (Inl ERR_OPTION_INVALID, reg)"
proof -
  let ?a = "p @ ''-'' @ nm"
  have p: "\<forall>x\<in>set p. x \<noteq> CHR ''='' \<and> (0 = 0 \<longrightarrow> x \<noteq> CHR ''-'')" and q: "\<forall>x\<in>set nm. x \<noteq> CHR ''=''"
    using assms(3-5) by auto
  have "scan_arg ?a 0 0 = scan_arg ?a (length p) 0" using scan_skip [of 0 ?a p "''-'' @ nm" 0] p by simp
  also have "\<dots> = scan_arg ?a (length p + 1) (length p + 1)"
    using assms(6) by (subst scan_arg.simps) (cases nm; simp add: nth_append Let_def)
  also have "\<dots> = scan_arg ?a (length ?a) (length p + 1)"
    using scan_skip [of "length p + 1" ?a nm "[]" "length p + 1"] q by simp
  finally have "scan_arg ?a 0 0 = (length ?a, length p + 1, 0)" using scan_end [of ?a "length p + 1"] by simp
  then have "parse_arg reg argv n = Some (Inl ERR_OPTION_INVALID, reg)"
    using assms(2,7,8) by (simp add: parse_arg_def)
  then show ?thesis using assms(1) by (subst parse_args.simps) simp
qed

theorem inner_dash_refused_witness: "parse_args empty_reg [''prog'', ''my-file''] 1 = Some (Inl ERR_OPTION_INVALID, empty_reg)"
  using inner_dash_refused [of 1 "[''prog'', ''my-file'']" "''my''" "''file''" empty_reg]
  by (simp add: BUF_SIZE_def ina_opt_get_def empty_reg_def)

text \<open>Only the first signal of a process is ever handled: after it, whether its handler asked to go on or
  not, no handler runs and no signal ends the process.\<close>

theorem signals_handled_once:
  assumes "ina_signal_handler sig st w = (Returns, st', w')"
  shows "run_signals sigs st' w' = (Returns, st', w') \<and> run_signals (sig # sigs) st w = (Returns, st', w')"
proof -
  have s: "signaled st' \<noteq> None"
    using assms by (auto simp: ina_signal_handler_def Let_def split: if_splits option.splits prod.splits)
  then have "run_signals sigs st' w' = (Returns, st', w')" by (induction sigs) (auto simp: ina_signal_handler_def)
  then show ?thesis using assms by simp
qed

definition reload :: "nat sig_handler" where
  "reload sig sb code w = (INA_SIGNAL_BEHAVIOR_IGNORE, code, w + 1)"

theorem signals_handled_once_witness:
  "\<exists>st'. run_signals [SIGHUP, SIGHUP, SIG_TERM] \<lparr>handler_map = (\<lambda>_. Some reload), exitcode = 0, signaled = None\<rparr> 0 = (Returns, st', 1)"
proof -
  have h: "ina_signal_handler SIGHUP \<lparr>handler_map = (\<lambda>_. Some reload), exitcode = 0, signaled = None\<rparr> 0 =
      (Returns, \<lparr>handler_map = (\<lambda>_. Some reload), exitcode = 0, signaled = Some SIGHUP\<rparr>, 1)"
    by (simp add: ina_signal_handler_def reload_def)
  show ?thesis using signals_handled_once [OF h, of "[SIGHUP, SIG_TERM]"] by blast
qed

end
