(* ===== verification/Inac_Timeout.thy ===== *)
theory Inac_Timeout
  imports Inac_Prelude
begin

text \<open>
  The hierarchical timing wheel under the timers (\<open>contribs/timerwheel/timeout.c\<close>, \<open>timeout.h\<close>,
  adapted in this repository to take its allocator as an argument), for wheels of 64 slots.  A timeout
  is an object with an address; the queues hold addresses, and a queue is named by its place: the
  expired queue or a slot of a wheel.  Times are 64-bit words.

  This theory holds the operations and the arithmetic of slots: a slot number is the digit of a time in
  base 64, and the set of slots that an update looks at covers every digit between the old and the new time.
\<close>

section \<open>Bit routines\<close>

definition WHEEL_BIT :: nat where "WHEEL_BIT = 6"
definition WHEEL_NUM :: nat where "WHEEL_NUM = 4"
definition WHEEL_LEN :: u64 where "WHEEL_LEN = push_bit WHEEL_BIT 1"
definition WHEEL_MAX :: u64 where "WHEEL_MAX = WHEEL_LEN - 1"
definition WHEEL_MASK :: u64 where "WHEEL_MASK = WHEEL_LEN - 1"
definition TIMEOUT_MAX :: u64 where "TIMEOUT_MAX = push_bit (WHEEL_BIT * WHEEL_NUM) 1 - 1"

definition ctz :: "u64 \<Rightarrow> nat" where
  "ctz v = length (takeWhile (\<lambda>i. \<not> bit v i) [0..<64])"

definition clz :: "u64 \<Rightarrow> nat" where
  "clz v = length (takeWhile (\<lambda>i. \<not> bit v (63 - i)) [0..<64])"

definition fls :: "u64 \<Rightarrow> nat" where
  "fls v = 64 - clz v"

definition rotl :: "u64 \<Rightarrow> nat \<Rightarrow> u64" where
  "rotl v c = (let c = c mod 64 in if c = 0 then v else push_bit c v OR drop_bit (64 - c) v)"

definition rotr :: "u64 \<Rightarrow> nat \<Rightarrow> u64" where
  "rotr v c = (let c = c mod 64 in if c = 0 then v else drop_bit c v OR push_bit (64 - c) v)"

section \<open>Data\<close>

datatype place = Expired | Wheel nat nat

definition TIMEOUT_INT :: u32 where "TIMEOUT_INT = 1"
definition TIMEOUT_ABS :: u32 where "TIMEOUT_ABS = 2"
definition TIMEOUT_mHZ :: u64 where "TIMEOUT_mHZ = 1000"

record timeout =
  flags :: u32
  interval :: u64
  expires :: u64
  owned :: bool
  pending_on :: "place option"
  data :: nat

record timeouts =
  queues :: "place \<Rightarrow> nat list"
  pending :: "nat \<Rightarrow> u64"
  curtime :: u64
  hertz :: u64
  objs :: "nat \<Rightarrow> timeout"

definition timeouts_init :: "u64 \<Rightarrow> (nat \<Rightarrow> timeout) \<Rightarrow> timeouts" where
  "timeouts_init hz os =
     \<lparr>queues = (\<lambda>_. []), pending = (\<lambda>_. 0), curtime = 0, hertz = (if hz \<noteq> 0 then hz else TIMEOUT_mHZ), objs = os\<rparr>"

definition set_obj :: "nat \<Rightarrow> (timeout \<Rightarrow> timeout) \<Rightarrow> timeouts \<Rightarrow> timeouts" where
  "set_obj a f T = T\<lparr>objs := (objs T)(a := f (objs T a))\<rparr>"

definition set_queue :: "place \<Rightarrow> nat list \<Rightarrow> timeouts \<Rightarrow> timeouts" where
  "set_queue p q T = T\<lparr>queues := (queues T)(p := q)\<rparr>"

definition set_pending :: "nat \<Rightarrow> u64 \<Rightarrow> timeouts \<Rightarrow> timeouts" where
  "set_pending w v T = T\<lparr>pending := (pending T)(w := v)\<rparr>"

definition timeout_init :: "nat \<Rightarrow> u32 \<Rightarrow> timeouts \<Rightarrow> timeouts" where
  "timeout_init a fl T = set_obj a (\<lambda>_. \<lparr>flags = fl, interval = 0, expires = 0, owned = False, pending_on = None, data = 0\<rparr>) T"

section \<open>Operations\<close>

definition timeouts_reset :: "timeouts \<Rightarrow> timeouts" where
  "timeouts_reset T =
     (let reset = concat (map (\<lambda>i. concat (map (\<lambda>j. queues T (Wheel i j)) [0..<64])) [0..<WHEEL_NUM]) @ queues T Expired
      in foldl (\<lambda>T a. set_obj a (\<lambda>x. x\<lparr>owned := False, pending_on := None\<rparr>) T) (T\<lparr>queues := (\<lambda>_. [])\<rparr>) reset)"

definition timeouts_open :: "bool \<Rightarrow> u64 \<Rightarrow> (nat \<Rightarrow> timeout) \<Rightarrow> timeouts option" where
  "timeouts_open alloc_ok hz os = (if alloc_ok then Some (timeouts_init hz os) else None)"

definition timeouts_close :: "timeouts \<Rightarrow> timeouts" where
  "timeouts_close T = timeouts_reset T"

definition timeouts_hz :: "timeouts \<Rightarrow> u64" where
  "timeouts_hz T = hertz T"

definition timeouts_del :: "nat \<Rightarrow> timeouts \<Rightarrow> timeouts" where
  "timeouts_del a T =
     (case pending_on (objs T a) of
        None \<Rightarrow> T
      | Some p \<Rightarrow>
          let q = remove1 a (queues T p);
              T = set_queue p q T;
              T = (case p of
                     Expired \<Rightarrow> T
                   | Wheel w s \<Rightarrow> if q = [] then set_pending w (pending T w AND NOT (push_bit s 1)) T else T)
          in set_obj a (\<lambda>x. x\<lparr>owned := False, pending_on := None\<rparr>) T)"

definition timeout_del :: "nat \<Rightarrow> timeouts \<Rightarrow> timeouts" where
  "timeout_del a T = timeouts_del a T"

definition timeout_rem :: "timeouts \<Rightarrow> nat \<Rightarrow> u64" where
  "timeout_rem T a = expires (objs T a) - curtime T"

definition timeout_wheel :: "u64 \<Rightarrow> nat" where
  "timeout_wheel timeout = (fls (min timeout TIMEOUT_MAX) - 1) div WHEEL_BIT"

definition timeout_slot :: "nat \<Rightarrow> u64 \<Rightarrow> nat" where
  "timeout_slot wheel e = unat (WHEEL_MASK AND (drop_bit (wheel * WHEEL_BIT) e - (if wheel = 0 then 0 else 1)))"

definition insert_tail :: "place \<Rightarrow> nat \<Rightarrow> timeouts \<Rightarrow> timeouts" where
  "insert_tail p a T = set_queue p (queues T p @ [a]) (set_obj a (\<lambda>x. x\<lparr>pending_on := Some p\<rparr>) T)"

definition timeouts_sched :: "nat \<Rightarrow> u64 \<Rightarrow> timeouts \<Rightarrow> timeouts" where
  "timeouts_sched a e T =
     (let T = timeouts_del a T;
          T = set_obj a (\<lambda>x. x\<lparr>expires := e, owned := True\<rparr>) T
      in if e > curtime T
         then let wheel = timeout_wheel (timeout_rem T a);
                  slot = timeout_slot wheel e;
                  T = insert_tail (Wheel wheel slot) a T
              in set_pending wheel (pending T wheel OR push_bit slot 1) T
         else insert_tail Expired a T)"

definition timeouts_readd :: "nat \<Rightarrow> timeouts \<Rightarrow> timeouts" where
  "timeouts_readd a T =
     (let i = interval (objs T a);
          e = expires (objs T a) + i;
          e = (if e \<le> curtime T then curtime T + (i - (curtime T - e) mod i) else e)
      in timeouts_sched a e T)"

definition timeouts_add :: "nat \<Rightarrow> u64 \<Rightarrow> timeouts \<Rightarrow> timeouts" where
  "timeouts_add a timeout T =
     (let T = (if flags (objs T a) AND TIMEOUT_INT \<noteq> 0 then set_obj a (\<lambda>x. x\<lparr>interval := max 1 timeout\<rparr>) T else T)
      in if flags (objs T a) AND TIMEOUT_ABS \<noteq> 0 then timeouts_sched a timeout T else timeouts_sched a (curtime T + timeout) T)"

text \<open>The slots of a wheel that an update has to look at.\<close>

definition slot_at :: "nat \<Rightarrow> u64 \<Rightarrow> nat" where
  "slot_at wheel t = unat (WHEEL_MASK AND drop_bit (wheel * WHEEL_BIT) t)"

definition expiring :: "nat \<Rightarrow> u64 \<Rightarrow> u64 \<Rightarrow> u64 \<Rightarrow> u64" where
  "expiring wheel elapsed old new =
     (if drop_bit (wheel * WHEEL_BIT) elapsed > WHEEL_MAX then NOT 0
      else let el = slot_at wheel elapsed;
               oslot = slot_at wheel old;
               nslot = slot_at wheel new;
               pending = rotl (push_bit el 1 - 1) oslot;
               pending = pending OR rotr (rotl (push_bit el 1 - 1) nslot) el
           in pending OR push_bit nslot 1)"

lemma ctz_bit: "v \<noteq> 0 \<Longrightarrow> ctz v < 64 \<and> bit v (ctz v) \<and> (\<forall>j < ctz v. \<not> bit v j)"
proof -
  assume "v \<noteq> 0"
  then obtain i where i: "bit v i" by (metis bit_eq_iff bit_0_eq bot_apply bot_bool_def)
  then have "i < 64" using bit_imp_le_length [of v i] by simp
  have "takeWhile (\<lambda>i. \<not> bit v i) [0..<64] \<noteq> [0..<64]" using i \<open>i < 64\<close> by (auto simp: takeWhile_eq_all_conv)
  then have "length (takeWhile (\<lambda>i. \<not> bit v i) [0..<64]) \<noteq> length [0..<64]"
    by (metis append_eq_append_conv append_Nil2 takeWhile_dropWhile_id)
  then have n: "ctz v < length [0..<64]" unfolding ctz_def
    using length_takeWhile_le [of "\<lambda>i. \<not> bit v i" "[0..<64]"] by linarith
  have "bit v ([0..<64] ! ctz v)" using nth_length_takeWhile [of "\<lambda>i. \<not> bit v i" "[0..<64]"] n unfolding ctz_def by blast
  moreover have "\<not> bit v j" if "j < ctz v" for j
    using that n nth_mem [of j "takeWhile (\<lambda>i. \<not> bit v i) [0..<64]"] takeWhile_nth [of j "\<lambda>i. \<not> bit v i" "[0..<64]"]
    unfolding ctz_def by (auto dest: set_takeWhileD)
  ultimately show ?thesis using n by simp
qed

lemma clear_bit_less: "bit (v :: u64) s \<Longrightarrow> unat (v AND NOT (2 ^ s)) < unat v"
proof -
  assume b: "bit v s"
  have "\<not> bit (v AND NOT (2 ^ s)) s" using bit_imp_le_length [OF b] by (simp add: bit_simps)
  then have "v AND NOT (2 ^ s) \<noteq> v" using b by auto
  moreover have "v AND NOT (2 ^ s) \<le> v" by (rule word_and_le2)
  ultimately show ?thesis by (simp flip: word_less_nat_alt)
qed

function take_slots :: "u64 \<Rightarrow> nat \<Rightarrow> timeouts \<Rightarrow> nat list \<Rightarrow> timeouts \<times> nat list" where
  "take_slots pend wheel T todo =
     (if pend AND pending T wheel = 0 then (T, todo)
      else let slot = ctz (pend AND pending T wheel)
           in take_slots pend wheel
                (set_pending wheel (pending T wheel AND NOT (push_bit slot 1)) (set_queue (Wheel wheel slot) [] T))
                (todo @ queues T (Wheel wheel slot)))"
  by pat_completeness auto

termination
  by (relation "measure (\<lambda>(pend, wheel, T, todo). unat (pending T wheel))")
     (auto simp: set_pending_def set_queue_def bit_simps dest!: ctz_bit intro!: clear_bit_less)

declare take_slots.simps [simp del]

function wheel_loop :: "u64 \<Rightarrow> u64 \<Rightarrow> nat \<Rightarrow> timeouts \<Rightarrow> nat list \<Rightarrow> timeouts \<times> nat list" where
  "wheel_loop now elapsed wheel T todo =
     (if wheel < WHEEL_NUM
      then let pend = expiring wheel elapsed (curtime T) now;
               (T, todo) = take_slots pend wheel T todo
           in if \<not> bit pend 0 then (T, todo)
              else wheel_loop now (max elapsed (push_bit (wheel * WHEEL_BIT) WHEEL_LEN)) (wheel + 1) T todo
      else (T, todo))"
  by pat_completeness auto

termination
  by (relation "measure (\<lambda>(now, elapsed, wheel, T, todo). WHEEL_NUM - wheel)") auto

declare wheel_loop.simps [simp del]

fun reschedule :: "nat list \<Rightarrow> timeouts \<Rightarrow> timeouts" where
  "reschedule [] T = T"
| "reschedule (a # todo) T =
     reschedule todo (timeouts_sched a (expires (objs T a)) (set_obj a (\<lambda>x. x\<lparr>pending_on := None\<rparr>) T))"

definition timeouts_update :: "u64 \<Rightarrow> timeouts \<Rightarrow> timeouts" where
  "timeouts_update now T =
     (let (T, todo) = wheel_loop now (now - curtime T) 0 T []
      in reschedule todo (T\<lparr>curtime := now\<rparr>))"

definition timeouts_step :: "u64 \<Rightarrow> timeouts \<Rightarrow> timeouts" where
  "timeouts_step elapsed T = timeouts_update (curtime T + elapsed) T"

definition timeouts_pending :: "timeouts \<Rightarrow> bool" where
  "timeouts_pending T \<longleftrightarrow> foldl (OR) 0 (map (pending T) [0..<WHEEL_NUM]) \<noteq> 0"

definition timeouts_expired :: "timeouts \<Rightarrow> bool" where
  "timeouts_expired T \<longleftrightarrow> queues T Expired \<noteq> []"

function int_loop :: "timeouts \<Rightarrow> nat \<Rightarrow> u64 \<Rightarrow> u64 \<Rightarrow> u64" where
  "int_loop T wheel timeout relmask =
     (if wheel < WHEEL_NUM
      then let timeout =
                 (if pending T wheel \<noteq> 0
                  then let slot = slot_at wheel (curtime T);
                           t = push_bit (wheel * WHEEL_BIT)
                                 (of_nat (ctz (rotr (pending T wheel) slot) + (if wheel = 0 then 0 else 1)));
                           t = t - (relmask AND curtime T)
                       in min t timeout
                  else timeout)
           in int_loop T (wheel + 1) timeout (push_bit WHEEL_BIT relmask OR WHEEL_MASK)
      else timeout)"
  by pat_completeness auto

termination
  by (relation "measure (\<lambda>(T, wheel, timeout, relmask). WHEEL_NUM - wheel)") auto

declare int_loop.simps [simp del]

definition timeouts_int :: "timeouts \<Rightarrow> u64" where
  "timeouts_int T = int_loop T 0 (NOT 0) 0"

definition timeouts_timeout :: "timeouts \<Rightarrow> u64" where
  "timeouts_timeout T = (if queues T Expired \<noteq> [] then 0 else timeouts_int T)"

definition timeouts_get :: "timeouts \<Rightarrow> nat option \<times> timeouts" where
  "timeouts_get T =
     (case queues T Expired of
        [] \<Rightarrow> (None, T)
      | a # q \<Rightarrow>
          let T = set_obj a (\<lambda>x. x\<lparr>pending_on := None\<rparr>) (set_queue Expired q T)
          in (Some a,
              if flags (objs T a) AND TIMEOUT_INT \<noteq> 0 \<and> interval (objs T a) > 0 then timeouts_readd a T
              else set_obj a (\<lambda>x. x\<lparr>owned := False\<rparr>) T))"

definition all_pending :: "timeouts \<Rightarrow> nat list" where
  "all_pending T = concat (map (\<lambda>i. concat (map (\<lambda>j. queues T (Wheel i j)) [0..<64])) [0..<WHEEL_NUM])"

definition timeouts_min :: "timeouts \<Rightarrow> nat option" where
  "timeouts_min T =
     foldl (\<lambda>m a. case m of None \<Rightarrow> Some a | Some b \<Rightarrow> if expires (objs T a) < expires (objs T b) then Some a else m) None (all_pending T)"

definition timeouts_check :: "timeouts \<Rightarrow> bool" where
  "timeouts_check T =
     (case timeouts_min T of
        Some a \<Rightarrow> expires (objs T a) > curtime T \<and> timeouts_int T \<le> expires (objs T a) - curtime T \<and>
                  timeouts_timeout T \<le> expires (objs T a) - curtime T
      | None \<Rightarrow> if queues T Expired \<noteq> [] then timeouts_timeout T = 0 else timeouts_timeout T = NOT 0)"

definition timeout_pending :: "timeouts \<Rightarrow> nat \<Rightarrow> bool" where
  "timeout_pending T a \<longleftrightarrow> pending_on (objs T a) \<noteq> None \<and> pending_on (objs T a) \<noteq> Some Expired"

definition timeout_expired :: "timeouts \<Rightarrow> nat \<Rightarrow> bool" where
  "timeout_expired T a \<longleftrightarrow> pending_on (objs T a) = Some Expired"

section \<open>Arithmetic of slots\<close>

lemma bit_rotl: "i < 64 \<Longrightarrow> bit (rotl v c) i = bit v ((i + 64 - c mod 64) mod 64)"
proof -
  assume i: "i < 64"
  define d where "d = c mod 64"
  have d: "d < 64" by (simp add: d_def)
  have "bit (rotl v c) i = (if d = 0 then bit v i else (d \<le> i \<and> bit v (i - d)) \<or> bit v (64 - d + i))"
    using i d by (simp add: rotl_def flip: d_def) (auto simp: bit_simps)
  also have "\<dots> = bit v ((i + 64 - d) mod 64)"
  proof (cases "d \<le> i")
    case True
    then have "(i + 64 - d) mod 64 = i - d" using i by (simp add: mod_if)
    moreover have "\<not> bit v (64 - d + i)" using True d bit_imp_le_length [of v "64 - d + i"] by auto
    ultimately show ?thesis using True by auto
  next
    case False
    then have "(i + 64 - d) mod 64 = 64 - d + i" using d by simp
    then show ?thesis using False by auto
  qed
  finally show ?thesis by (simp add: d_def)
qed

lemma bit_rotr: "i < 64 \<Longrightarrow> bit (rotr v c) i = bit v ((i + c mod 64) mod 64)"
proof -
  assume i: "i < 64"
  define d where "d = c mod 64"
  have d: "d < 64" by (simp add: d_def)
  have "bit (rotr v c) i = (if d = 0 then bit v i else bit v (d + i) \<or> (64 - d \<le> i \<and> bit v (i - (64 - d))))"
    using i d by (simp add: rotr_def flip: d_def) (auto simp: bit_simps)
  also have "\<dots> = bit v ((i + d) mod 64)"
  proof (cases "i + d < 64")
    case True then show ?thesis by (auto simp: add.commute)
  next
    case False
    then have "(i + d) mod 64 = i - (64 - d)" using i d by (simp add: mod_if)
    moreover have "\<not> bit v (d + i)" using False bit_imp_le_length [of v "d + i"] by auto
    ultimately show ?thesis using False d i by auto
  qed
  finally show ?thesis by (simp add: d_def)
qed

lemma bit_low_ones: "k < 64 \<Longrightarrow> bit (2 ^ k - 1 :: u64) i = (i < k)"
proof -
  assume "k < 64"
  have "2 ^ k - 1 = (mask k :: u64)" by (simp add: mask_eq_exp_minus_1)
  then show ?thesis using \<open>k < 64\<close> by (auto simp: bit_simps)
qed

lemma mod_sub: "c \<le> x \<Longrightarrow> (x mod 64 + 64 - c mod 64) mod 64 = (x - c) mod (64 :: nat)"
proof -
  assume "c \<le> x"
  then obtain k where x: "x = c + k" by (auto simp: le_iff_add)
  define r where "r = c mod 64"
  have r: "r < 64" and x': "x mod 64 = (r + k mod 64) mod 64" by (simp_all add: r_def x mod_simps)
  have "(x mod 64 + 64 - r) mod 64 = k mod 64"
  proof (cases "r + k mod 64 < 64")
    case True then show ?thesis using x' by simp
  next
    case False
    define q where "q = k mod 64"
    have q: "q < 64" by (simp add: q_def)
    have "x mod 64 = r + q - 64" using False r q x' unfolding q_def [symmetric] by (simp add: le_mod_geq)
    then show ?thesis using False r q unfolding q_def [symmetric] by simp
  qed
  then show ?thesis by (simp add: x r_def)
qed

definition digit :: "nat \<Rightarrow> u64 \<Rightarrow> nat" where
  "digit w t = unat t div 64 ^ w"

lemma unat_drop: "unat (drop_bit (w * WHEEL_BIT) t) = digit w t"
proof -
  have "(2 :: nat) ^ (w * 6) = 64 ^ w" by (subst mult.commute) (simp add: power_mult)
  then show ?thesis by (simp only: digit_def WHEEL_BIT_def unat_drop_bit_eq) (simp only: drop_bit_eq_div)
qed

lemma wheel_consts: "WHEEL_LEN = 64" "WHEEL_MASK = 63" "WHEEL_MAX = 63" "TIMEOUT_MAX = 2 ^ 24 - 1"
  by (simp_all add: WHEEL_LEN_def WHEEL_MASK_def WHEEL_MAX_def TIMEOUT_MAX_def WHEEL_BIT_def WHEEL_NUM_def)

lemma unat_and_mask: "unat (WHEEL_MASK AND v) = unat v mod 64"
proof -
  have "WHEEL_MASK = mask 6" by (simp add: wheel_consts mask_eq_exp_minus_1)
  then have "WHEEL_MASK AND v = take_bit 6 v" by (simp add: take_bit_eq_mask and.commute)
  then have "unat (WHEEL_MASK AND v) = take_bit 6 (unat v)" by (simp only: unsigned_take_bit_eq)
  then have "unat (WHEEL_MASK AND v) = unat v mod 2 ^ 6" by (simp only: take_bit_eq_mod)
  then show ?thesis by simp
qed

lemma slot_at_digit: "slot_at w t = digit w t mod 64"
  by (simp add: slot_at_def unat_and_mask unat_drop)

lemma timeout_slot_digit:
  "0 < w \<Longrightarrow> 0 < digit w e \<Longrightarrow> timeout_slot w e = (digit w e - 1) mod 64" "timeout_slot 0 e = unat e mod 64"
proof -
  assume w: "0 < w" "0 < digit w e"
  have "drop_bit (w * WHEEL_BIT) e \<noteq> 0" using w(2) unat_drop [of w e] by auto
  then have "unat (drop_bit (w * WHEEL_BIT) e - 1) = digit w e - 1" by (simp add: unat_minus_one unat_drop)
  then show "timeout_slot w e = (digit w e - 1) mod 64" using w(1) by (simp add: timeout_slot_def unat_and_mask)
next
  show "timeout_slot 0 e = unat e mod 64" by (simp add: timeout_slot_def unat_and_mask)
qed

lemma timeout_slot_less: "timeout_slot w e < 64"
  by (simp add: timeout_slot_def unat_and_mask)

lemma digit_Suc: "digit (Suc w) t = digit w t div 64"
  by (simp add: digit_def power_Suc2 div_mult2_eq del: power_Suc)

lemma digit_mono: "a \<le> b \<Longrightarrow> digit w a \<le> digit w b"
  by (simp add: digit_def div_le_mono word_le_nat_alt)

lemma expiring_covers:
  assumes "old \<le> new" "new - old \<le> elapsed" "if w = 0 then elapsed = new - old else 64 ^ w \<le> unat elapsed"
    and "digit w old \<le> x" "x \<le> digit w new"
  shows "bit (expiring w elapsed old new) (x mod 64)"
proof (cases "drop_bit (w * WHEEL_BIT) elapsed > WHEEL_MAX")
  case True then show ?thesis by (simp add: expiring_def bit_simps)
next
  case False
  let ?C = "digit w old" and ?N = "digit w new" and ?el = "digit w elapsed"
  have d: "?el < 64" using False unat_drop [of w elapsed] by (simp add: wheel_consts word_less_nat_alt)
  have diff: "unat (new - old) = unat new - unat old" using assms(1) by (simp add: unat_sub word_le_nat_alt)
  have ge: "?N \<le> ?C + ?el + 1"
  proof -
    have "unat new \<le> unat old + unat elapsed" using assms(2) diff by (simp add: word_le_nat_alt)
    then have "?N \<le> (unat old + unat elapsed) div 64 ^ w" unfolding digit_def by (rule div_le_mono)
    also have "\<dots> \<le> ?C + ?el + 1"
    proof -
      have "unat old mod 64 ^ w + unat elapsed mod 64 ^ w < 2 * 64 ^ w"
        using add_strict_mono [OF mod_less_divisor [of "64 ^ w" "unat old"] mod_less_divisor [of "64 ^ w" "unat elapsed"]]
        by (simp add: mult_2)
      then have "(unat old mod 64 ^ w + unat elapsed mod 64 ^ w) div 64 ^ w < 2" by (rule less_mult_imp_div_less)
      then show ?thesis unfolding digit_def by (simp add: div_add1_eq [of "unat old"])
    qed
    finally show ?thesis .
  qed
  have c: "?N = ?C + ?el \<or> 1 \<le> ?el"
  proof (cases "w = 0")
    case True then show ?thesis using assms(1,3) diff by (simp add: digit_def word_le_nat_alt)
  next
    case False then show ?thesis using assms(3) by (simp add: digit_def div_greater_zero_iff Suc_le_eq)
  qed
  have e: "slot_at w elapsed = ?el" using d by (simp add: slot_at_digit)
  let ?m = "2 ^ ?el - 1 :: u64"
  have b: "bit (expiring w elapsed old new) i = (bit (rotl ?m (?C mod 64)) i \<or> bit (rotr (rotl ?m (?N mod 64)) ?el) i \<or> i = ?N mod 64)"
    if "i < 64" for i
    using False that d by (auto simp: expiring_def slot_at_digit Let_def bit_simps)
  have x: "x mod 64 < 64" by simp
  consider "x - ?C < ?el" | "x < ?N" "?N \<le> x + ?el" "?el \<noteq> 0" | "x = ?N" using assms(4,5) ge c by linarith
  then show ?thesis
  proof cases
    case 1
    have "bit (rotl ?m (?C mod 64)) (x mod 64)"
      using 1 d assms(4) mod_sub [OF assms(4)] by (simp add: bit_rotl bit_low_ones)
    then show ?thesis using b [OF x] by blast
  next
    case 2
    have "(x + ?el - ?N) mod 64 < ?el" using 2 d by (auto intro: le_less_trans [OF mod_less_eq_dividend])
    moreover have "((x mod 64 + ?el mod 64) mod 64 + 64 - ?N mod 64) mod 64 = (x + ?el - ?N) mod 64"
      using mod_sub [OF 2(2)] by (simp add: mod_simps)
    ultimately have "bit (rotr (rotl ?m (?N mod 64)) ?el) (x mod 64)"
      using d by (simp add: bit_rotr bit_rotl bit_low_ones)
    then show ?thesis using b [OF x] by blast
  next
    case 3 then show ?thesis using b [OF x] by simp
  qed
qed

end
