(* ===== verification/Inac_Wheel.thy ===== *)
theory Inac_Wheel
  imports Inac_Timeout
begin

text \<open>
  Correctness of the timing wheel.  The invariant \<open>winv\<close> says that queues and objects agree, that the bit
  sets tell which slots are in use, and that every timeout is placed so that a later update cannot miss
  it.  Every operation keeps it; from it follow that an update moves exactly the due timeouts to the
  expired queue, the next time of a repeating timeout, and that the wheel's own check never fails.
\<close>

section \<open>Placement\<close>

definition placed :: "u64 \<Rightarrow> u64 \<Rightarrow> place \<Rightarrow> bool" where
  "placed now e p =
     (case p of
        Expired \<Rightarrow> e \<le> now
      | Wheel w s \<Rightarrow> w < WHEEL_NUM \<and> s = timeout_slot w e \<and> (if w = 0 then now < e else digit w now < digit w e))"

lemma placed_pending: "placed now e (Wheel w s) \<Longrightarrow> now < e"
proof (rule ccontr)
  assume "placed now e (Wheel w s)" "\<not> now < e"
  moreover from this have "digit w e \<le> digit w now" by (intro digit_mono) (rule leI)
  ultimately show False by (simp add: placed_def split: if_splits)
qed

lemma bit_unat_ge: "bit (v :: u64) k \<Longrightarrow> 2 ^ k \<le> unat v"
proof -
  assume "bit v k"
  then have "bit (unat v) k" by (simp add: bit_unsigned_iff)
  then have "odd (unat v div 2 ^ k)" by (simp add: bit_iff_odd)
  then have "unat v div 2 ^ k \<noteq> 0" by (metis dvd_0_right)
  then show ?thesis by (simp add: div_eq_0_iff not_less)
qed

lemma fls_bit: "v \<noteq> 0 \<Longrightarrow> bit v (fls v - 1)"
proof -
  assume "v \<noteq> 0"
  then obtain i where i: "bit v i" by (metis bit_eq_iff bit_0_eq bot_apply bot_bool_def)
  then have i64: "i < 64" using bit_imp_le_length [of v i] by simp
  let ?P = "\<lambda>i. \<not> bit v (63 - i)"
  have "63 - i \<in> set [0..<64]" "\<not> ?P (63 - i)" using i i64 by simp_all
  then have "takeWhile ?P [0..<64] \<noteq> [0..<64]" by (auto simp only: takeWhile_eq_all_conv)
  then have "length (takeWhile ?P [0..<64]) \<noteq> length [0..<64]"
    by (metis append_eq_append_conv append_Nil2 takeWhile_dropWhile_id)
  then have n: "clz v < length [0..<64]" unfolding clz_def
    using length_takeWhile_le [of ?P "[0..<64]"] by linarith
  have "\<not> ?P ([0..<64] ! clz v)" using nth_length_takeWhile [of ?P "[0..<64]"] n unfolding clz_def by blast
  then show ?thesis using n by (simp add: fls_def)
qed

lemma timeout_wheel_bounds:
  assumes "rem \<noteq> 0"
  shows "timeout_wheel rem < WHEEL_NUM" "64 ^ timeout_wheel rem \<le> unat rem"
proof -
  let ?m = "min rem TIMEOUT_MAX" and ?k = "fls (min rem TIMEOUT_MAX) - 1"
  have nz: "?m \<noteq> 0" using assms by (simp add: min_def wheel_consts)
  have k: "2 ^ ?k \<le> unat ?m" using bit_unat_ge [OF fls_bit [OF nz]] .
  have le: "unat ?m \<le> unat rem" "unat ?m \<le> 2 ^ 24 - 1"
    by (simp_all add: min_def wheel_consts word_le_nat_alt)
  then have "2 ^ ?k < (2 :: nat) ^ 24" using k by simp
  then have "?k < 24" by (simp only: power_strict_increasing_iff)
  then have "?k div 6 < 4" by simp
  then show "timeout_wheel rem < WHEEL_NUM" by (simp add: timeout_wheel_def WHEEL_BIT_def WHEEL_NUM_def)
  have "(64 :: nat) ^ timeout_wheel rem = 2 ^ (6 * (?k div 6))" by (simp add: timeout_wheel_def WHEEL_BIT_def power_mult)
  also have "\<dots> \<le> 2 ^ ?k" by (intro power_increasing) simp_all
  finally show "64 ^ timeout_wheel rem \<le> unat rem" using k le(1) by simp
qed

lemma placed_new: "now < e \<Longrightarrow> placed now e (Wheel (timeout_wheel (e - now)) (timeout_slot (timeout_wheel (e - now)) e))"
proof -
  assume ne: "now < e"
  let ?w = "timeout_wheel (e - now)"
  have "e - now \<noteq> 0" using ne by auto
  note w = timeout_wheel_bounds [OF this]
  have "unat (e - now) = unat e - unat now" using ne by (simp add: unat_sub less_imp_le)
  then have "unat now + 64 ^ ?w \<le> unat e" using w(2) ne by (simp add: word_less_nat_alt)
  then have "(unat now + 64 ^ ?w) div 64 ^ ?w \<le> digit ?w e" unfolding digit_def by (rule div_le_mono)
  then have "digit ?w now < digit ?w e" by (simp add: digit_def div_add_self2)
  then show ?thesis using w(1) ne by (simp add: placed_def)
qed

section \<open>The invariant\<close>

text \<open>\<open>D\<close> are timeouts that an update has taken out of the wheels and not yet put back.\<close>

definition winv :: "nat set \<Rightarrow> timeouts \<Rightarrow> bool" where
  "winv D T \<longleftrightarrow>
     (\<forall>p. distinct (queues T p)) \<and>
     (\<forall>p a. a \<in> set (queues T p) \<longleftrightarrow> a \<notin> D \<and> pending_on (objs T a) = Some p) \<and>
     (\<forall>a\<in>D. pending_on (objs T a) \<noteq> None) \<and>
     (\<forall>w s. w < WHEEL_NUM \<longrightarrow> s < 64 \<longrightarrow> bit (pending T w) s = (queues T (Wheel w s) \<noteq> [])) \<and>
     (\<forall>p a. a \<in> set (queues T p) \<longrightarrow> placed (curtime T) (expires (objs T a)) p)"

named_theorems wheel_upd \<open>updates of the wheel\<close>
declare set_obj_def [wheel_upd] set_queue_def [wheel_upd] set_pending_def [wheel_upd] insert_tail_def [wheel_upd]

lemma winv_distinct: "winv D T \<Longrightarrow> distinct (queues T p)"
  and winv_member: "winv D T \<Longrightarrow> a \<in> set (queues T p) \<longleftrightarrow> a \<notin> D \<and> pending_on (objs T a) = Some p"
  and winv_bit: "winv D T \<Longrightarrow> w < WHEEL_NUM \<Longrightarrow> s < 64 \<Longrightarrow> bit (pending T w) s = (queues T (Wheel w s) \<noteq> [])"
  and winv_placed: "winv D T \<Longrightarrow> a \<in> set (queues T p) \<Longrightarrow> placed (curtime T) (expires (objs T a)) p"
  and winv_taken: "winv D T \<Longrightarrow> a \<in> D \<Longrightarrow> pending_on (objs T a) \<noteq> None"
  unfolding winv_def by blast+

text \<open>A timeout that is on no queue can be changed at will.\<close>

lemma winv_set_obj:
  assumes "winv D T" "a \<notin> D" "pending_on (objs T a) = None" "\<And>x. pending_on (f x) = pending_on x"
  shows "winv D (set_obj a f T)"
proof -
  have "a \<notin> set (queues T p)" for p using winv_member [OF assms(1)] assms(3) by simp
  then show ?thesis using assms unfolding winv_def by (auto simp: wheel_upd)
qed

lemma winv_insert:
  assumes "winv D T" "a \<notin> D" "pending_on (objs T a) = None" "placed (curtime T) (expires (objs T a)) p"
    and "\<And>w s. p = Wheel w s \<Longrightarrow> T' = set_pending w (pending T w OR push_bit s 1) (insert_tail p a T)"
    and "p = Expired \<Longrightarrow> T' = insert_tail p a T"
  shows "winv D T'"
proof -
  have n: "a \<notin> set (queues T q)" for q using winv_member [OF assms(1)] assms(3) by simp
  have f: "queues T' = (queues T)(p := queues T p @ [a])" "objs T' = (objs T)(a := (objs T a)\<lparr>pending_on := Some p\<rparr>)" "curtime T' = curtime T"
    using assms(5,6) by (cases p; simp add: wheel_upd)+
  have "bit (pending T' w) s = (queues T' (Wheel w s) \<noteq> [])" if "w < WHEEL_NUM" "s < 64" for w s
  proof (cases p)
    case Expired then show ?thesis using assms(6) winv_bit [OF assms(1) that] by (simp add: wheel_upd)
  next
    case (Wheel v r)
    have "r < 64" using assms(4) timeout_slot_less [of v] by (simp add: placed_def Wheel)
    then show ?thesis using assms(5) [OF Wheel] winv_bit [OF assms(1) that] that(2) by (auto simp: wheel_upd Wheel bit_simps)
  qed
  then show ?thesis using assms(1-4) n unfolding winv_def f by auto
qed

lemma winv_del:
  assumes "winv D T" "a \<notin> D"
  shows "winv D (timeouts_del a T)" "pending_on (objs (timeouts_del a T) a) = None" "curtime (timeouts_del a T) = curtime T"
    "objs (timeouts_del a T) = (objs T)(a := objs (timeouts_del a T) a)"
    "expires (objs (timeouts_del a T) a) = expires (objs T a)" "interval (objs (timeouts_del a T) a) = interval (objs T a)"
    "flags (objs (timeouts_del a T) a) = flags (objs T a)" "data (objs (timeouts_del a T) a) = data (objs T a)"
proof -
  have "winv D (timeouts_del a T) \<and> pending_on (objs (timeouts_del a T) a) = None \<and> curtime (timeouts_del a T) = curtime T \<and>
    objs (timeouts_del a T) = (objs T)(a := objs (timeouts_del a T) a) \<and>
    expires (objs (timeouts_del a T) a) = expires (objs T a) \<and> interval (objs (timeouts_del a T) a) = interval (objs T a) \<and>
    flags (objs (timeouts_del a T) a) = flags (objs T a) \<and> data (objs (timeouts_del a T) a) = data (objs T a)"
  proof (cases "pending_on (objs T a)")
    case None then show ?thesis using assms by (simp add: timeouts_del_def)
  next
    case (Some p)
    define T' where "T' = timeouts_del a T"
    have f: "queues T' = (queues T)(p := remove1 a (queues T p))" "curtime T' = curtime T"
      "objs T' = (objs T)(a := (objs T a)\<lparr>owned := False, pending_on := None\<rparr>)"
      "pending T' = (case p of Expired \<Rightarrow> pending T | Wheel w s \<Rightarrow>
         if remove1 a (queues T p) = [] then (pending T)(w := pending T w AND NOT (push_bit s 1)) else pending T)"
      unfolding T'_def timeouts_del_def Some by (simp_all add: wheel_upd Let_def split: place.split)
    have m: "x \<in> set (queues T' q) \<longleftrightarrow> x \<noteq> a \<and> x \<in> set (queues T q)" for x q
      using winv_member [OF assms(1), of a q] winv_distinct [OF assms(1), of p] Some by (auto simp: f)
    have "bit (pending T' w) s = (queues T' (Wheel w s) \<noteq> [])" if "w < WHEEL_NUM" "s < 64" for w s
    proof (cases "p = Wheel w s")
      case True
      then have "a \<in> set (queues T (Wheel w s))" using winv_member [OF assms(1), of a p] assms(2) Some by simp
      then show ?thesis using True winv_bit [OF assms(1) that] that(2) by (auto simp: f bit_simps)
    next
      case False
      then show ?thesis using winv_bit [OF assms(1) that] that(2) by (auto simp: f bit_simps split: place.split)
    qed
    moreover have "distinct (queues T' q)" for q using winv_distinct [OF assms(1)] by (simp add: f)
    ultimately have "winv D T'" unfolding winv_def
      using m winv_member [OF assms(1)] winv_placed [OF assms(1)] winv_taken [OF assms(1)] assms(2) by (auto simp: f(2,3))
    then show ?thesis unfolding T'_def [symmetric] by (simp add: f(2,3))
  qed
  then show "winv D (timeouts_del a T)" "pending_on (objs (timeouts_del a T) a) = None" "curtime (timeouts_del a T) = curtime T"
    "objs (timeouts_del a T) = (objs T)(a := objs (timeouts_del a T) a)"
    "expires (objs (timeouts_del a T) a) = expires (objs T a)" "interval (objs (timeouts_del a T) a) = interval (objs T a)"
    "flags (objs (timeouts_del a T) a) = flags (objs T a)" "data (objs (timeouts_del a T) a) = data (objs T a)" by blast+
qed

section \<open>Scheduling\<close>

text \<open>What scheduling leaves alone, and the new state of the timeout itself.\<close>

lemma sched_correct:
  assumes "winv D T" "a \<notin> D"
  shows "winv D (timeouts_sched a e T)" "curtime (timeouts_sched a e T) = curtime T"
    "b \<noteq> a \<Longrightarrow> objs (timeouts_sched a e T) b = objs T b"
    "expires (objs (timeouts_sched a e T) a) = e" "interval (objs (timeouts_sched a e T) a) = interval (objs T a)"
    "flags (objs (timeouts_sched a e T) a) = flags (objs T a)" "pending_on (objs (timeouts_sched a e T) a) \<noteq> None"
    "data (objs (timeouts_sched a e T) a) = data (objs T a)"
proof -
  note d = winv_del [OF assms]
  define T1 where "T1 = set_obj a (\<lambda>x. x\<lparr>expires := e, owned := True\<rparr>) (timeouts_del a T)"
  have T1: "winv D T1" "curtime T1 = curtime T" "pending_on (objs T1 a) = None" "expires (objs T1 a) = e"
    unfolding T1_def using winv_set_obj [OF d(1) assms(2) d(2), of "\<lambda>x. x\<lparr>expires := e, owned := True\<rparr>"] d(2,3)
    by (simp_all add: wheel_upd)
  let ?w = "timeout_wheel (timeout_rem T1 a)"
  let ?p = "if e > curtime T1 then Wheel ?w (timeout_slot ?w e) else Expired"
  have p: "placed (curtime T1) (expires (objs T1 a)) ?p"
    using placed_new [of "curtime T1" e] T1(4) by (auto simp: timeout_rem_def placed_def)
  have s: "timeouts_sched a e T =
    (if e > curtime T1 then set_pending ?w (pending T1 ?w OR push_bit (timeout_slot ?w e) 1) (insert_tail ?p a T1)
     else insert_tail ?p a T1)"
    by (simp add: timeouts_sched_def T1_def [symmetric] Let_def) (simp add: wheel_upd)
  show "winv D (timeouts_sched a e T)"
    by (rule winv_insert [OF T1(1) assms(2) T1(3) p]) (simp_all add: s split: if_splits)
  show "curtime (timeouts_sched a e T) = curtime T" using T1(2) by (simp add: s wheel_upd)
  have o: "objs (timeouts_sched a e T) = (objs T1)(a := (objs T1 a)\<lparr>pending_on := Some ?p\<rparr>)" by (simp add: s wheel_upd)
  have x: "objs T1 = (objs T)(a := objs T1 a)"
    unfolding T1_def by (simp add: wheel_upd) (metis d(4) fun_upd_upd)
  have y: "interval (objs T1 a) = interval (objs T a)" "flags (objs T1 a) = flags (objs T a)" "data (objs T1 a) = data (objs T a)"
    unfolding T1_def using d(6-8) by (simp_all add: wheel_upd)
  show "b \<noteq> a \<Longrightarrow> objs (timeouts_sched a e T) b = objs T b" unfolding o by (metis x fun_upd_other)
  show "expires (objs (timeouts_sched a e T) a) = e" "interval (objs (timeouts_sched a e T) a) = interval (objs T a)"
    "flags (objs (timeouts_sched a e T) a) = flags (objs T a)" "pending_on (objs (timeouts_sched a e T) a) \<noteq> None"
    "data (objs (timeouts_sched a e T) a) = data (objs T a)"
    unfolding o using T1(4) y by simp_all
qed

section \<open>Updating\<close>

lemma take_one:
  assumes "winv (set todo) T" "distinct todo" "bit (pending T w) s" "s < 64"
  shows "winv (set (todo @ queues T (Wheel w s)))
      (set_pending w (pending T w AND NOT (push_bit s 1)) (set_queue (Wheel w s) [] T))"
    and "distinct (todo @ queues T (Wheel w s))"
proof -
  let ?T = "set_pending w (pending T w AND NOT (push_bit s 1)) (set_queue (Wheel w s) [] T)"
  have f: "queues ?T = (queues T)(Wheel w s := [])" "objs ?T = objs T" "curtime ?T = curtime T"
    "pending ?T = (pending T)(w := pending T w AND NOT (push_bit s 1))" by (simp_all add: wheel_upd)
  show "distinct (todo @ queues T (Wheel w s))" using assms(2) winv_distinct [OF assms(1)] winv_member [OF assms(1)] by auto
  show "winv (set (todo @ queues T (Wheel w s))) ?T"
    unfolding winv_def f
  proof (intro conjI allI ballI impI)
    fix v r :: nat assume "v < WHEEL_NUM" "r < 64"
    then show "bit (((pending T)(w := pending T w AND NOT (push_bit s 1))) v) r = (((queues T)(Wheel w s := [])) (Wheel v r) \<noteq> [])"
      using winv_bit [OF assms(1), of v r] by (auto simp: bit_simps)
  qed (use winv_member [OF assms(1)] winv_distinct [OF assms(1)] winv_placed [OF assms(1)] winv_taken [OF assms(1)] in \<open>auto split: if_splits\<close>)
qed

lemma take_slots_correct:
  assumes "winv (set todo) T" "distinct todo" "w < WHEEL_NUM" "take_slots pend w T todo = (T', todo')"
  shows "winv (set todo') T' \<and> distinct todo' \<and> curtime T' = curtime T \<and> objs T' = objs T \<and>
    (\<forall>p. queues T' p = queues T p \<or> queues T' p = []) \<and> (\<forall>s < 64. bit pend s \<longrightarrow> queues T' (Wheel w s) = [])"
  using assms
proof (induction pend w T todo rule: take_slots.induct)
  case (1 pend w T todo)
  show ?case
  proof (cases "pend AND pending T w = 0")
    case True
    then have "T' = T" "todo' = todo" using "1.prems"(4) by (simp_all add: take_slots.simps)
    moreover have "queues T (Wheel w s) = []" if "s < 64" "bit pend s" for s
      using True winv_bit [OF "1.prems"(1,3) that(1)] that(2) by (metis bit_0_eq bit_and_iff bot_apply bot_bool_def)
    ultimately show ?thesis using "1.prems" by simp
  next
    case False
    let ?s = "ctz (pend AND pending T w)"
    have s: "?s < 64" "bit (pending T w) ?s" using ctz_bit [OF False] by (simp_all add: bit_simps)
    note t = take_one [OF "1.prems"(1,2) s(2,1)]
    have r: "take_slots pend w (set_pending w (pending T w AND NOT (push_bit ?s 1)) (set_queue (Wheel w ?s) [] T))
        (todo @ queues T (Wheel w ?s)) = (T', todo')"
      using "1.prems"(4) False by (subst (asm) take_slots.simps) (simp add: Let_def)
    have q: "queues (set_pending w v (set_queue p [] T)) p' = (if p' = p then [] else queues T p')" "curtime (set_pending w v (set_queue p [] T)) = curtime T"
      "objs (set_pending w v (set_queue p [] T)) = objs T" for p p' v by (simp_all add: wheel_upd)
    show ?thesis using "1.IH" [OF False refl t "1.prems"(3) r] unfolding q by metis
  qed
qed

lemma no_wrap:
  assumes "old \<le> new" "\<And>x. digit w old \<le> x \<Longrightarrow> x \<le> digit w new \<Longrightarrow> x mod 64 \<noteq> 0" "w < v"
  shows "digit v old = digit v new"
proof -
  have "digit (Suc w) old = digit (Suc w) new"
  proof (rule ccontr)
    assume "digit (Suc w) old \<noteq> digit (Suc w) new"
    then have lt: "digit w old div 64 < digit w new div 64" using digit_mono [OF assms(1), of "Suc w"] by (simp add: digit_Suc)
    let ?x = "64 * (digit w new div 64)"
    have "?x \<le> digit w new" by simp
    moreover have "digit w old \<le> ?x" using lt by (metis add.commute div_less_iff_less_mult less_or_eq_imp_le mult.commute zero_less_numeral)
    ultimately show False using assms(2) [of ?x] by simp
  qed
  moreover have "digit (Suc w + k) t = digit (Suc w) t div 64 ^ k" for k t
    by (simp only: digit_def power_add div_mult2_eq)
  moreover obtain k where "v = Suc w + k" using assms(3) less_iff_Suc_add by auto
  ultimately show ?thesis by simp
qed

definition missed :: "u64 \<Rightarrow> u64 \<Rightarrow> nat \<Rightarrow> bool" where
  "missed now e w \<longleftrightarrow> (if w = 0 then e \<le> now else digit w e \<le> digit w now)"

text \<open>A timeout that the update must look at lies on a slot that it looks at.\<close>

lemma missed_slot:
  assumes "placed old e (Wheel w s)" "missed new e w"
  shows "\<exists>x. digit w old \<le> x \<and> x \<le> digit w new \<and> s = x mod 64"
proof (cases "w = 0")
  case True
  then have "s = unat e mod 64" "unat old < unat e" "unat e \<le> unat new"
    using assms timeout_slot_digit(2) [of e] by (simp_all add: placed_def missed_def word_less_nat_alt word_le_nat_alt)
  then show ?thesis using True by (intro exI [of _ "unat e"]) (simp add: digit_def)
next
  case False
  then have d: "digit w old < digit w e" "digit w e \<le> digit w new" "s = timeout_slot w e" using assms by (simp_all add: placed_def missed_def)
  then have "s = (digit w e - 1) mod 64" using timeout_slot_digit(1) [of w e] False by simp
  moreover have "digit w old \<le> digit w e - 1" "digit w e - 1 \<le> digit w new" using d by linarith+
  ultimately show ?thesis by blast
qed

lemma none_missed_here:
  assumes "winv D T" "a \<in> set (queues T (Wheel w s))" "\<forall>s < 64. bit pend s \<longrightarrow> queues T (Wheel w s) = []"
    and "\<And>x. digit w (curtime T) \<le> x \<Longrightarrow> x \<le> digit w now \<Longrightarrow> bit pend (x mod 64)"
  shows "\<not> missed now (expires (objs T a)) w"
proof
  assume "missed now (expires (objs T a)) w"
  then obtain x where "digit w (curtime T) \<le> x" "x \<le> digit w now" "s = x mod 64"
    using missed_slot [OF winv_placed [OF assms(1,2)]] by blast
  then have "bit pend s" "s < 64" using assms(4) by auto
  then show False using assms(2,3) by auto
qed

lemma none_missed_above:
  assumes "winv D T" "a \<in> set (queues T (Wheel v s))" "w < v" "curtime T \<le> now" "\<not> bit pend 0"
    and "\<And>x. digit w (curtime T) \<le> x \<Longrightarrow> x \<le> digit w now \<Longrightarrow> bit pend (x mod 64)"
  shows "\<not> missed now (expires (objs T a)) v"
proof -
  have "digit v (curtime T) = digit v now"
    by (rule no_wrap [OF assms(4) _ assms(3)]) (use assms(5,6) in \<open>metis\<close>)
  then show ?thesis using winv_placed [OF assms(1,2)] assms(3) by (simp add: placed_def missed_def split: if_splits)
qed

lemma unat_next_tick: "w < WHEEL_NUM \<Longrightarrow> unat (push_bit (w * WHEEL_BIT) WHEEL_LEN) = 64 ^ (w + 1)"
proof -
  assume "w < WHEEL_NUM"
  then have "w = 0 \<or> w = 1 \<or> w = 2 \<or> w = 3" unfolding WHEEL_NUM_def by linarith
  then show ?thesis by (auto simp: WHEEL_BIT_def wheel_consts push_bit_eq_mult)
qed

lemma wheel_loop_correct:
  assumes "winv (set todo) T" "distinct todo" "curtime T \<le> now" "now - curtime T \<le> elapsed"
    "if w = 0 then elapsed = now - curtime T else 64 ^ w \<le> unat elapsed"
    "wheel_loop now elapsed w T todo = (T', todo')"
  shows "winv (set todo') T' \<and> distinct todo' \<and> curtime T' = curtime T \<and> objs T' = objs T \<and>
    (\<forall>p. queues T' p = queues T p \<or> queues T' p = []) \<and>
    (\<forall>v s a. w \<le> v \<longrightarrow> a \<in> set (queues T' (Wheel v s)) \<longrightarrow> \<not> missed now (expires (objs T a)) v)"
  using assms
proof (induction now elapsed w T todo rule: wheel_loop.induct)
  case (1 now elapsed w T todo)
  show ?case
  proof (cases "w < WHEEL_NUM")
    case False
    then have "T' = T" "todo' = todo" using "1.prems"(6) by (simp_all add: wheel_loop.simps)
    moreover have "queues T (Wheel v s) = []" if "w \<le> v" for v s
      using winv_placed [OF "1.prems"(1), of _ "Wheel v s"] False that by (cases "queues T (Wheel v s)") (auto simp: placed_def)
    ultimately show ?thesis using "1.prems" by simp
  next
    case True
    define pend where "pend = expiring w elapsed (curtime T) now"
    obtain T1 todo1 where t: "take_slots pend w T todo = (T1, todo1)" by fastforce
    note c = take_slots_correct [OF "1.prems"(1,2) True t]
    have cov: "bit pend (x mod 64)" if "digit w (curtime T) \<le> x" "x \<le> digit w now" for x
      unfolding pend_def using "1.prems"(3-5) that by (intro expiring_covers)
    have here: "\<not> missed now (expires (objs T a)) w" if "a \<in> set (queues T1 (Wheel w s))" for a s
      using none_missed_here [of "set todo1" T1 a w s pend now] that c cov by simp
    show ?thesis
    proof (cases "bit pend 0")
      case False
      then have r: "T' = T1" "todo' = todo1"
        using "1.prems"(6) True t unfolding pend_def by (simp_all add: wheel_loop.simps [of now elapsed w])
      have "\<not> missed now (expires (objs T a)) v" if "w < v" "a \<in> set (queues T1 (Wheel v s))" for v s a
        using none_missed_above [of "set todo1" T1 a v s w now pend] that c cov False "1.prems"(3) by simp
      then show ?thesis using c here r by (metis le_neq_implies_less)
    next
      case True2: True
      let ?e = "max elapsed (push_bit (w * WHEEL_BIT) WHEEL_LEN)"
      have r: "wheel_loop now ?e (w + 1) T1 todo1 = (T', todo')"
        using "1.prems"(6) True True2 t unfolding pend_def by (simp add: wheel_loop.simps [of now elapsed w])
      have e: "now - curtime T1 \<le> ?e" "if w + 1 = 0 then ?e = now - curtime T1 else 64 ^ (w + 1) \<le> unat ?e" "curtime T1 \<le> now"
        using "1.prems"(3,4) c unat_next_tick [OF True] by (auto simp: le_max_iff_disj max_def word_le_nat_alt)
      have ih: "winv (set todo') T' \<and> distinct todo' \<and> curtime T' = curtime T1 \<and> objs T' = objs T1 \<and>
        (\<forall>p. queues T' p = queues T1 p \<or> queues T' p = []) \<and>
        (\<forall>v s a. w + 1 \<le> v \<longrightarrow> a \<in> set (queues T' (Wheel v s)) \<longrightarrow> \<not> missed now (expires (objs T1 a)) v)"
        using "1.IH" [OF True refl, of "(T1, todo1)" T1 todo1] t True2 c e r unfolding pend_def [symmetric] by simp
      have "\<not> missed now (expires (objs T a)) v" if "w \<le> v" "a \<in> set (queues T' (Wheel v s))" for v s a
      proof (cases "v = w")
        case True
        then have "a \<in> set (queues T1 (Wheel w s))" using ih that(2) by (metis list.distinct(1) list.set_cases)
        then show ?thesis using here True by blast
      next
        case False then show ?thesis using ih that c by auto
      qed
      then show ?thesis using ih c by metis
    qed
  qed
qed

definition same_timer :: "timeout \<Rightarrow> timeout \<Rightarrow> bool" where
  "same_timer x y \<longleftrightarrow> expires x = expires y \<and> interval x = interval y \<and> flags x = flags y \<and> data x = data y \<and> (pending_on x = None) = (pending_on y = None)"

lemma winv_pop:
  assumes "winv (insert a D) T" "a \<notin> D"
  shows "winv D (set_obj a (\<lambda>x. x\<lparr>pending_on := None\<rparr>) T)"
proof -
  have "a \<notin> set (queues T p)" for p using winv_member [OF assms(1)] by simp
  then show ?thesis using assms unfolding winv_def by (auto simp: wheel_upd)
qed

lemma reschedule_correct:
  assumes "winv (set todo) T" "distinct todo"
  shows "winv {} (reschedule todo T) \<and> curtime (reschedule todo T) = curtime T \<and> (\<forall>b. same_timer (objs (reschedule todo T) b) (objs T b))"
  using assms
proof (induction todo T rule: reschedule.induct)
  case (1 T) then show ?case by (simp add: same_timer_def)
next
  case (2 a todo T)
  let ?T0 = "set_obj a (\<lambda>x. x\<lparr>pending_on := None\<rparr>) T"
  let ?T1 = "timeouts_sched a (expires (objs T a)) ?T0"
  have a: "a \<notin> set todo" "pending_on (objs T a) \<noteq> None" using "2.prems" winv_taken [OF "2.prems"(1)] by auto
  have "winv (set todo) ?T0" using winv_pop [of a "set todo" T] "2.prems"(1) a(1) by simp
  note s = sched_correct [OF this a(1), where e = "expires (objs T a)"]
  have "same_timer (objs ?T1 b) (objs T b)" for b
    using s(3) [of b] s(4-8) a(2) by (cases "b = a") (auto simp: same_timer_def wheel_upd)
  moreover have "curtime ?T1 = curtime T" using s(2) by (simp add: wheel_upd)
  ultimately show ?case using "2.IH" s(1) "2.prems"(2) by (simp add: same_timer_def)
qed

lemma winv_curtime:
  assumes "winv D T" "\<And>p a. a \<in> set (queues T p) \<Longrightarrow> placed now (expires (objs T a)) p"
  shows "winv D (T\<lparr>curtime := now\<rparr>)"
proof -
  have "\<forall>p a. a \<in> set (queues T p) \<longrightarrow> placed now (expires (objs T a)) p" using assms(2) by blast
  then show ?thesis using assms(1) unfolding winv_def by simp
qed

lemma update_correct:
  assumes "winv {} T" "curtime T \<le> now"
  shows "winv {} (timeouts_update now T)" "curtime (timeouts_update now T) = now" "same_timer (objs (timeouts_update now T) a) (objs T a)"
proof -
  obtain T1 todo where l: "wheel_loop now (now - curtime T) 0 T [] = (T1, todo)" by fastforce
  note c = wheel_loop_correct [OF _ _ assms(2) order_refl _ l, simplified, OF assms(1)]
  let ?T2 = "T1\<lparr>curtime := now\<rparr>"
  have "placed now (expires (objs T1 x)) p" if "x \<in> set (queues T1 p)" for x p
  proof -
    have old: "placed (curtime T) (expires (objs T1 x)) p" using c winv_placed [of "set todo" T1 x p] that by simp
    show ?thesis
    proof (cases p)
      case Expired then show ?thesis using old assms(2) by (auto simp: placed_def)
    next
      case (Wheel w s)
      then have "\<not> missed now (expires (objs T1 x)) w" using c that by simp
      then show ?thesis using old Wheel by (simp add: placed_def missed_def not_le split: if_splits)
    qed
  qed
  then have "winv (set todo) ?T2" using c by (intro winv_curtime) simp_all
  note r = reschedule_correct [OF this]
  have u: "timeouts_update now T = reschedule todo ?T2" by (simp add: timeouts_update_def l)
  show "winv {} (timeouts_update now T)" "curtime (timeouts_update now T) = now" "same_timer (objs (timeouts_update now T) a) (objs T a)"
    unfolding u using r c by simp_all
qed

lemma on_queue: "winv {} T \<Longrightarrow> pending_on (objs T a) \<noteq> None \<Longrightarrow> (pending_on (objs T a) = Some Expired) = (expires (objs T a) \<le> curtime T)"
proof -
  assume w: "winv {} T" and a: "pending_on (objs T a) \<noteq> None"
  then obtain p where p: "pending_on (objs T a) = Some p" by blast
  then have "placed (curtime T) (expires (objs T a)) p" using winv_member [OF w] winv_placed [OF w] by blast
  then show ?thesis using p placed_pending [of "curtime T" "expires (objs T a)"]
    by (cases p) (simp_all add: placed_def [of _ _ Expired] not_le)
qed

section \<open>Taking an expired timeout\<close>

definition next_due :: "nat \<Rightarrow> nat \<Rightarrow> nat \<Rightarrow> nat" where
  "next_due e i now = (if i = 0 then e else e + ((now - e) div i + 1) * i)"

lemma next_due_later: "0 < i \<Longrightarrow> now < next_due e i now"
proof -
  assume i: "0 < i"
  have "now - e < ((now - e) div i + 1) * i" using i by (simp add: dividend_less_div_times)
  then show ?thesis using i by (simp add: next_due_def)
qed

lemma readd_time:
  fixes e i now :: u64
  assumes "e \<le> now" "0 < i" "unat now + unat i < 2 ^ 64"
  shows "unat (let e = e + i in if e \<le> now then now + (i - (now - e) mod i) else e) = next_due (unat e) (unat i) (unat now)"
proof -
  let ?e = "unat e" and ?i = "unat i" and ?n = "unat now"
  have le: "?e \<le> ?n" "0 < ?i" using assms(1,2) by (simp_all add: word_le_nat_alt word_less_nat_alt)
  have s: "unat (e + i) = ?e + ?i" using le assms(3) by (subst unat_plus_simple [THEN iffD1]) (auto simp: word_le_nat_alt unat_plus_if' )
  show ?thesis
  proof (cases "e + i \<le> now")
    case False
    then have "?n < ?e + ?i" using s by (simp add: word_le_nat_alt)
    then have "(?n - ?e) div ?i = 0" using le by (simp add: div_eq_0_iff)
    then show ?thesis using False s le by (simp add: Let_def next_due_def)
  next
    case True
    then have t: "?e + ?i \<le> ?n" using s by (simp add: word_le_nat_alt)
    define k where "k = ?n - (?e + ?i)"
    have r: "unat ((now - (e + i)) mod i) = k mod ?i" using True s by (simp add: unat_mod unat_sub k_def)
    have "k mod ?i < ?i" using le(2) by simp
    then have "unat (i - (now - (e + i)) mod i) = ?i - k mod ?i" using r by (simp add: unat_sub word_le_nat_alt)
    moreover have "?n + (?i - k mod ?i) < 2 ^ 64" using assms(3) by linarith
    ultimately have v: "unat (now + (i - (now - (e + i)) mod i)) = ?n + (?i - k mod ?i)"
      by (simp add: unat_plus_if')
    have "?n - ?e = k + ?i" using t by (simp add: k_def)
    then have "next_due ?e ?i ?n = ?e + (k div ?i + 2) * ?i" using le(2) by (simp add: next_due_def div_add_self2)
    moreover have "?n = ?e + ?i + (k div ?i * ?i + k mod ?i)" using t by (simp add: k_def)
    then have "?n + (?i - k mod ?i) = ?e + (k div ?i * ?i + 2 * ?i)" using \<open>k mod ?i < ?i\<close> by linarith
    ultimately have "next_due ?e ?i ?n = ?n + (?i - k mod ?i)" by (simp add: distrib_right)
    then show ?thesis using True v by (simp add: Let_def)
  qed
qed

text \<open>A timeout was taken from the expired queue; a repeating one is scheduled for its next time after now.\<close>

definition got :: "timeouts \<Rightarrow> nat \<Rightarrow> timeouts \<Rightarrow> bool" where
  "got T a T' \<longleftrightarrow>
     pending_on (objs T a) = Some Expired \<and> (\<forall>b. b \<noteq> a \<longrightarrow> objs T' b = objs T b) \<and> data (objs T' a) = data (objs T a) \<and>
     (flags (objs T a) AND TIMEOUT_INT \<noteq> 0 \<longrightarrow> 0 < interval (objs T a) \<longrightarrow>
        unat (curtime T) + unat (interval (objs T a)) < 2 ^ 64 \<longrightarrow>
        pending_on (objs T' a) \<noteq> None \<and> flags (objs T' a) = flags (objs T a) \<and> interval (objs T' a) = interval (objs T a) \<and>
        unat (expires (objs T' a)) = next_due (unat (expires (objs T a))) (unat (interval (objs T a))) (unat (curtime T)))"

lemma get_some:
  assumes "winv {} T" "queues T Expired = x # q"
  shows "\<exists>T'. timeouts_get T = (Some x, T') \<and> winv {} T' \<and> curtime T' = curtime T \<and> got T x T'"
proof -
  let ?T0 = "set_obj x (\<lambda>y. y\<lparr>pending_on := None\<rparr>) (set_queue Expired q T)"
  have x: "pending_on (objs T x) = Some Expired" "x \<notin> set q" "distinct q"
    using winv_member [OF assms(1), of x Expired] winv_distinct [OF assms(1), of Expired] assms(2) by simp_all
  have ex: "expires (objs T x) \<le> curtime T" using winv_placed [OF assms(1), of x Expired] assms(2) by (simp add: placed_def)
  have mem: "y \<in> set (queues T p) \<longleftrightarrow> pending_on (objs T y) = Some p" for y p using winv_member [OF assms(1)] by simp
  have o: "objs ?T0 = (objs T)(x := (objs T x)\<lparr>pending_on := None\<rparr>)" "queues ?T0 = (queues T)(Expired := q)"
    "pending ?T0 = pending T" "curtime ?T0 = curtime T" by (simp_all add: wheel_upd)
  have "y \<in> set q \<longleftrightarrow> y \<noteq> x \<and> pending_on (objs T y) = Some Expired" for y using mem [of y Expired] assms(2) x(2) by auto
  then have w0: "winv {} ?T0" unfolding winv_def o
    using mem x winv_distinct [OF assms(1)] winv_bit [OF assms(1)] winv_placed [OF assms(1)] by auto
  show ?thesis
  proof (cases "flags (objs T x) AND TIMEOUT_INT \<noteq> 0 \<and> interval (objs T x) > 0")
    case False
    then have g: "timeouts_get T = (Some x, set_obj x (\<lambda>y. y\<lparr>owned := False\<rparr>) ?T0)"
      by (auto simp: timeouts_get_def assms(2) wheel_upd Let_def)
    have "winv {} (set_obj x (\<lambda>y. y\<lparr>owned := False\<rparr>) ?T0)" by (rule winv_set_obj [OF w0]) (simp_all add: o)
    then show ?thesis using g x(1) False by (auto simp: wheel_upd got_def)
  next
    case True
    let ?e = "let e = expires (objs T x) + interval (objs T x) in
      if e \<le> curtime T then curtime T + (interval (objs T x) - (curtime T - e) mod interval (objs T x)) else e"
    have g: "timeouts_get T = (Some x, timeouts_sched x ?e ?T0)"
      using True by (simp add: timeouts_get_def assms(2) timeouts_readd_def o Let_def)
    have nx: "x \<notin> {}" by simp
    note s = sched_correct [OF w0 nx, where e = ?e]
    have "got T x (timeouts_sched x ?e ?T0)"
      unfolding got_def using s(3) s(4-8) x(1) readd_time [OF ex, of "interval (objs T x)"] by (simp add: o)
    then show ?thesis using g s(1,2) o(4) by auto
  qed
qed

lemma get_none: "queues T Expired = [] \<Longrightarrow> timeouts_get T = (None, T)"
  by (simp add: timeouts_get_def)

section \<open>Runs\<close>

inductive wheel_step :: "timeouts \<Rightarrow> timeouts \<Rightarrow> bool" where
  init: "pending_on (objs T a) = None \<Longrightarrow> wheel_step T (timeout_init a fl T)"
| add: "wheel_step T (timeouts_add a t T)"
| del: "wheel_step T (timeouts_del a T)"
| update: "curtime T \<le> now \<Longrightarrow> wheel_step T (timeouts_update now T)"
| get: "timeouts_get T = (r, T') \<Longrightarrow> wheel_step T T'"

definition wheel_start :: "timeouts \<Rightarrow> bool" where
  "wheel_start T \<longleftrightarrow> queues T = (\<lambda>_. []) \<and> pending T = (\<lambda>_. 0) \<and> curtime T = 0 \<and> (\<forall>a. pending_on (objs T a) = None)"

lemma start_init: "\<forall>a. pending_on (os a) = None \<Longrightarrow> wheel_start (timeouts_init hz os)"
  by (simp add: wheel_start_def timeouts_init_def)

lemma add_correct:
  assumes "winv {} T"
  shows "winv {} (timeouts_add a t T)"
proof -
  have i: "winv {} (set_obj a (\<lambda>x. x\<lparr>interval := v\<rparr>) T)" for v
    using assms unfolding winv_def by (auto simp: wheel_upd split: if_splits)
  have n: "a \<notin> {}" by simp
  show ?thesis using sched_correct(1) [OF i n] sched_correct(1) [OF assms n] by (simp add: timeouts_add_def Let_def)
qed

lemma add_curtime: "winv {} T \<Longrightarrow> curtime (timeouts_add a t T) = curtime T"
proof -
  assume w: "winv {} T"
  have i: "winv {} (set_obj a (\<lambda>x. x\<lparr>interval := v\<rparr>) T)" for v
    using w unfolding winv_def by (auto simp: wheel_upd split: if_splits)
  show ?thesis using sched_correct(2) [OF i, of a] sched_correct(2) [OF w, of a] by (simp add: timeouts_add_def Let_def) (simp add: wheel_upd)
qed

lemma wheel_step_inv: "wheel_step T T' \<Longrightarrow> winv {} T \<Longrightarrow> winv {} T'"
proof (induction rule: wheel_step.induct)
  case (init T a fl)
  have "a \<notin> set (queues T p)" for p using winv_member [OF init(2)] init(1) by simp
  then show ?case using init unfolding winv_def by (auto simp: timeout_init_def wheel_upd)
next
  case (get T r T')
  then show ?case using get_some [OF get(2)] get_none [of T] by (cases "queues T Expired") force+
next
  case (del T a) then show ?case using winv_del(1) [of "{}" T a] by simp
qed (simp_all add: add_correct update_correct)

lemma winv_start: "wheel_start T \<Longrightarrow> winv {} T"
  by (simp add: wheel_start_def winv_def)

interpretation wheel: step_invariant wheel_start wheel_step "winv {}"
  by unfold_locales (blast intro: winv_start wheel_step_inv)+

section \<open>The time to the next update\<close>

lemma ctz_least: "bit v j \<Longrightarrow> ctz v \<le> j"
proof -
  assume b: "bit v j"
  then have "v \<noteq> 0" by auto
  then show ?thesis using ctz_bit [of v] b by (meson not_le)
qed

lemma ctz_rotr:
  assumes "bit (pending T w) (x mod 64)" "c \<le> x"
  shows "ctz (rotr (pending T w) (c mod 64)) \<le> (x - c) mod 64"
proof (rule ctz_least)
  have "((x - c) mod 64 + c mod 64) mod 64 = x mod 64" using assms(2) by (metis le_add_diff_inverse2 mod_add_eq)
  then show "bit (rotr (pending T w) (c mod 64)) ((x - c) mod 64)" using assms(1) by (simp add: bit_rotr)
qed

lemma pow64: "w < 4 \<Longrightarrow> (64 :: nat) ^ w \<le> 262144"
  using power_increasing [of w 3 "64 :: nat"] by simp

definition wheel_time :: "timeouts \<Rightarrow> nat \<Rightarrow> u64 \<Rightarrow> u64" where
  "wheel_time T w relmask =
     push_bit (w * WHEEL_BIT) (of_nat (ctz (rotr (pending T w) (slot_at w (curtime T))) + (if w = 0 then 0 else 1))) - (relmask AND curtime T)"

lemma unat_wheel_time:
  assumes "w < WHEEL_NUM" "relmask = 2 ^ (w * 6) - 1" "k \<le> 63"
    and "ctz (rotr (pending T w) (slot_at w (curtime T))) = k"
  shows "unat (wheel_time T w relmask) = (k + (if w = 0 then 0 else 1)) * 64 ^ w - unat (curtime T) mod 64 ^ w"
proof -
  let ?k = "k + (if w = 0 then 0 else 1)"
  have "?k * 64 ^ w \<le> 64 * 262144" by (intro mult_mono) (use assms(3) pow64 [of w] assms(1) in \<open>auto simp: WHEEL_NUM_def\<close>)
  then have "?k * 64 ^ w < 2 ^ LENGTH(64)" by simp
  then have "unat (of_nat (?k * 64 ^ w) :: u64) = ?k * 64 ^ w" by (rule unat_of_nat_small)
  moreover have "push_bit (w * WHEEL_BIT) (of_nat ?k :: u64) = of_nat (?k * 64 ^ w)"
    by (simp only: push_bit_eq_mult WHEEL_BIT_def mult.commute [of w] power_mult of_nat_mult of_nat_power) simp
  ultimately have p: "unat (push_bit (w * WHEEL_BIT) (of_nat ?k :: u64)) = ?k * 64 ^ w" by simp
  have "relmask = mask (w * 6)" using assms(2) by (simp add: mask_eq_exp_minus_1)
  then have "relmask AND curtime T = take_bit (w * 6) (curtime T)" by (simp add: take_bit_eq_mask and.commute)
  then have "unat (relmask AND curtime T) = take_bit (w * 6) (unat (curtime T))" by (simp only: unsigned_take_bit_eq)
  then have m: "unat (relmask AND curtime T) = unat (curtime T) mod 64 ^ w"
    by (simp add: take_bit_eq_mod power_mult mult.commute [of w])
  have "unat (curtime T) mod 64 ^ w \<le> ?k * 64 ^ w"
  proof (cases "w = 0")
    case False
    have "unat (curtime T) mod 64 ^ w \<le> 64 ^ w" by (simp add: less_imp_le)
    also have "\<dots> \<le> ?k * 64 ^ w" using False by simp
    finally show ?thesis .
  qed simp
  then show ?thesis unfolding wheel_time_def assms(4) using p m by (simp add: unat_sub word_le_nat_alt)
qed

lemma wheel_time_bound:
  assumes "winv {} T" "w < WHEEL_NUM" "a \<in> set (queues T (Wheel w s))" "relmask = 2 ^ (w * 6) - 1"
  shows "wheel_time T w relmask \<le> expires (objs T a) - curtime T"
proof -
  let ?e = "expires (objs T a)" and ?c = "curtime T" and ?k = "ctz (rotr (pending T w) (slot_at w (curtime T)))"
  have pl: "placed ?c ?e (Wheel w s)" using winv_placed [OF assms(1,3)] .
  then have ce: "?c < ?e" by (rule placed_pending)
  have "s < 64" using pl timeout_slot_less by (simp add: placed_def)
  then have b: "bit (pending T w) s" using winv_bit [OF assms(1,2)] assms(3) by auto
  have d: "unat (?e - ?c) = unat ?e - unat ?c" "unat ?c < unat ?e" using ce by (simp_all add: unat_sub less_imp_le word_less_nat_alt)
  have "?k \<le> 63 \<and> (?k + (if w = 0 then 0 else 1)) * 64 ^ w - unat ?c mod 64 ^ w \<le> unat ?e - unat ?c"
  proof (cases "w = 0")
    case True
    have "s = unat ?e mod 64" using pl True timeout_slot_digit(2) by (simp add: placed_def)
    then have "?k \<le> (unat ?e - unat ?c) mod 64"
      using ctz_rotr [of T 0 "unat ?e" "unat ?c"] b d(2) True by (simp add: slot_at_digit digit_def)
    moreover have "(unat ?e - unat ?c) mod 64 \<le> unat ?e - unat ?c" "(unat ?e - unat ?c) mod 64 < 64" by simp_all
    ultimately have "?k \<le> 63" "?k \<le> unat ?e - unat ?c" by linarith+
    then show ?thesis using True by simp
  next
    case False
    have lt: "digit w ?c < digit w ?e" "s = timeout_slot w ?e" using pl False by (simp_all add: placed_def)
    then have "s = (digit w ?e - 1) mod 64" using timeout_slot_digit(1) [of w ?e] False by simp
    then have k: "?k \<le> (digit w ?e - 1 - digit w ?c) mod 64"
      using ctz_rotr [of T w "digit w ?e - 1" "digit w ?c"] b lt(1) by (simp add: slot_at_digit)
    have m: "(digit w ?e - 1 - digit w ?c) mod 64 \<le> digit w ?e - 1 - digit w ?c" "(digit w ?e - 1 - digit w ?c) mod 64 < 64" by simp_all
    have "?k + 1 \<le> digit w ?e - digit w ?c" using k m(1) lt(1) by linarith
    then have "(?k + 1) * 64 ^ w \<le> (digit w ?e - digit w ?c) * 64 ^ w" by (rule mult_le_mono1)
    also have "\<dots> = digit w ?e * 64 ^ w - digit w ?c * 64 ^ w" by (rule diff_mult_distrib)
    finally have "(?k + 1) * 64 ^ w \<le> digit w ?e * 64 ^ w - digit w ?c * 64 ^ w" .
    moreover have "digit w ?e * 64 ^ w \<le> unat ?e" "digit w ?c * 64 ^ w + unat ?c mod 64 ^ w = unat ?c"
      by (simp_all only: digit_def div_times_less_eq_dividend div_mult_mod_eq)
    ultimately have "(?k + 1) * 64 ^ w - unat ?c mod 64 ^ w \<le> unat ?e - unat ?c" by linarith
    then show ?thesis using False k m(2) by simp
  qed
  then show ?thesis using unat_wheel_time [OF assms(2,4), of ?k T] d(1) by (simp add: word_le_nat_alt)
qed

lemma relmask_step: "w < 4 \<Longrightarrow> push_bit WHEEL_BIT (2 ^ (w * 6) - 1) OR WHEEL_MASK = (2 ^ (Suc w * 6) - 1 :: u64)"
proof -
  assume w: "w < 4"
  have "push_bit WHEEL_BIT (mask (w * 6)) OR mask 6 = (mask (Suc w * 6) :: u64)"
    using w by (intro bit_word_eqI) (auto simp: WHEEL_BIT_def bit_simps)
  moreover have "WHEEL_MASK = mask 6" by (simp add: wheel_consts mask_eq_exp_minus_1)
  ultimately show ?thesis by (simp only: mask_eq_exp_minus_1)
qed

definition shorten :: "timeouts \<Rightarrow> nat \<Rightarrow> u64 \<Rightarrow> u64 \<Rightarrow> u64" where
  "shorten T w t relmask = (if pending T w \<noteq> 0 then min (wheel_time T w relmask) t else t)"

lemma int_loop_step:
  "w < WHEEL_NUM \<Longrightarrow> int_loop T w t relmask = int_loop T (w + 1) (shorten T w t relmask) (push_bit WHEEL_BIT relmask OR WHEEL_MASK)"
  by (subst int_loop.simps) (simp only: shorten_def wheel_time_def Let_def if_True)

lemma int_loop_stop: "\<not> w < WHEEL_NUM \<Longrightarrow> int_loop T w t relmask = t"
  by (subst int_loop.simps) simp

lemma shorten_bound:
  assumes "winv {} T" "w < WHEEL_NUM" "relmask = 2 ^ (w * 6) - 1" "a \<in> set (queues T (Wheel w s))"
  shows "shorten T w t relmask \<le> expires (objs T a) - curtime T"
proof -
  have "s < 64" using winv_placed [OF assms(1,4)] timeout_slot_less by (simp add: placed_def)
  then have "bit (pending T w) s" using winv_bit [OF assms(1,2)] assms(4) by auto
  then have "pending T w \<noteq> 0" by auto
  then have "shorten T w t relmask \<le> wheel_time T w relmask" by (simp add: shorten_def)
  then show ?thesis using wheel_time_bound [OF assms(1,2,4,3)] by (rule order_trans)
qed

lemma int_loop_bound:
  assumes "winv {} T" "relmask = 2 ^ (w * 6) - 1" "n = WHEEL_NUM - w"
  shows "int_loop T w t relmask \<le> t \<and>
    (\<forall>v s a. w \<le> v \<longrightarrow> a \<in> set (queues T (Wheel v s)) \<longrightarrow> int_loop T w t relmask \<le> expires (objs T a) - curtime T)"
  using assms
proof (induction n arbitrary: w t relmask)
  case 0
  then have w: "\<not> w < WHEEL_NUM" by simp
  have "queues T (Wheel v s) = []" if "w \<le> v" for v s
    using winv_placed [OF assms(1), of _ "Wheel v s"] w that by (cases "queues T (Wheel v s)") (auto simp: placed_def)
  then show ?case using int_loop_stop [OF w] by simp
next
  case (Suc n)
  let ?t = "shorten T w t relmask" and ?r = "push_bit WHEEL_BIT relmask OR WHEEL_MASK"
  have w: "w < WHEEL_NUM" "n = WHEEL_NUM - (w + 1)" using Suc.prems(3) by simp_all
  have r: "?r = 2 ^ ((w + 1) * 6) - 1" using relmask_step [of w] w Suc.prems(2) by (simp add: WHEEL_NUM_def)
  note ih = Suc.IH [OF assms(1) r w(2), of ?t]
  have t: "?t \<le> t" by (simp add: shorten_def)
  have "int_loop T (w + 1) ?t ?r \<le> expires (objs T a) - curtime T" if "w \<le> v" "a \<in> set (queues T (Wheel v s))" for v s a
  proof (cases "v = w")
    case True
    then show ?thesis using ih shorten_bound [OF assms(1) w(1) Suc.prems(2), of a s t] that(2) by (meson order_trans)
  next
    case False
    then have "w + 1 \<le> v" using that(1) by simp
    then show ?thesis using ih that(2) by blast
  qed
  then show ?case using ih t unfolding int_loop_step [OF w(1)] by (meson order_trans)
qed

lemma timeouts_int_bound:
  "winv {} T \<Longrightarrow> a \<in> set (queues T (Wheel w s)) \<Longrightarrow> timeouts_int T \<le> expires (objs T a) - curtime T"
  using int_loop_bound [of T 0 0 WHEEL_NUM "NOT 0"] by (simp add: timeouts_int_def)

lemma int_loop_idle:
  assumes "\<forall>v < WHEEL_NUM. pending T v = 0" "n = WHEEL_NUM - w"
  shows "int_loop T w t relmask = t"
  using assms(2)
proof (induction n arbitrary: w relmask)
  case 0 then show ?case by (simp add: int_loop_stop)
next
  case (Suc n)
  then have "w < WHEEL_NUM" by simp
  then show ?case using Suc assms(1) by (simp add: int_loop_step shorten_def)
qed

lemma all_pending_mem:
  assumes "winv {} T"
  shows "a \<in> set (all_pending T) \<longleftrightarrow> (\<exists>w s. a \<in> set (queues T (Wheel w s)))"
proof -
  have "w < WHEEL_NUM \<and> s < 64" if "a \<in> set (queues T (Wheel w s))" for w s
    using winv_placed [OF assms that] timeout_slot_less by (simp add: placed_def)
  then show ?thesis unfolding all_pending_def by fastforce
qed

lemma no_pending_words:
  assumes "winv {} T" "all_pending T = []" "v < WHEEL_NUM"
  shows "pending T v = 0"
proof (rule bit_word_eqI)
  fix n :: nat assume "n < LENGTH(64)"
  then have "n < 64" by simp
  moreover have "set (queues T (Wheel v n)) = {}"
    using all_pending_mem [OF assms(1)] unfolding assms(2) by (metis empty_iff list.set(1) subset_empty subset_iff)
  ultimately show "bit (pending T v) n = bit 0 n" using winv_bit [OF assms(1,3)] by simp
qed

lemma timeouts_min_mem: "timeouts_min T = Some a \<Longrightarrow> a \<in> set (all_pending T)"
proof -
  have "foldl (\<lambda>m a. case m of None \<Rightarrow> Some a | Some b \<Rightarrow> if expires (objs T a) < expires (objs T b) then Some a else m) m l = Some a
    \<Longrightarrow> m = Some a \<or> a \<in> set l" for l m
    by (induction l arbitrary: m) (auto split: option.splits if_splits)
  then show "timeouts_min T = Some a \<Longrightarrow> a \<in> set (all_pending T)" unfolding timeouts_min_def by blast
qed

lemma timeouts_min_None: "timeouts_min T = None \<Longrightarrow> all_pending T = []"
proof -
  have "foldl (\<lambda>m a. case m of None \<Rightarrow> Some a | Some b \<Rightarrow> if expires (objs T a) < expires (objs T b) then Some a else m) (Some b) l \<noteq> None" for l b
    by (induction l arbitrary: b) auto
  then show "timeouts_min T = None \<Longrightarrow> all_pending T = []" unfolding timeouts_min_def by (cases "all_pending T") auto
qed

lemma check_holds:
  assumes "winv {} T"
  shows "timeouts_check T"
proof (cases "timeouts_min T")
  case None
  then have "timeouts_int T = NOT 0"
    unfolding timeouts_int_def by (intro int_loop_idle) (auto simp: no_pending_words [OF assms timeouts_min_None])
  then show ?thesis using None by (simp add: timeouts_check_def timeouts_timeout_def)
next
  case (Some a)
  then obtain w s where a: "a \<in> set (queues T (Wheel w s))" using timeouts_min_mem all_pending_mem [OF assms] by blast
  then have "curtime T < expires (objs T a)" using placed_pending winv_placed [OF assms a] by blast
  then show ?thesis using Some timeouts_int_bound [OF assms a] by (simp add: timeouts_check_def timeouts_timeout_def)
qed

lemma timeout_bound:
  assumes "winv {} T" "pending_on (objs T a) \<noteq> None"
  shows "unat (timeouts_timeout T) \<le> unat (expires (objs T a)) - unat (curtime T)"
proof -
  obtain p where "pending_on (objs T a) = Some p" using assms(2) by blast
  then have a: "a \<in> set (queues T p)" using winv_member [OF assms(1)] by simp
  show ?thesis
  proof (cases p)
    case Expired then show ?thesis using a by (auto simp: timeouts_timeout_def)
  next
    case (Wheel w s)
    then have "timeouts_timeout T \<le> expires (objs T a) - curtime T"
      using timeouts_int_bound [OF assms(1)] a by (simp add: timeouts_timeout_def)
    moreover have "curtime T < expires (objs T a)" using placed_pending winv_placed [OF assms(1) a] Wheel by simp
    then have "unat (expires (objs T a) - curtime T) = unat (expires (objs T a)) - unat (curtime T)" by (intro unat_sub less_imp_le)
    ultimately show ?thesis by (simp add: word_le_nat_alt)
  qed
qed

section \<open>Closing the wheel\<close>

lemma reset_objs:
  "objs (foldl (\<lambda>T a. set_obj a f T) T l) b = objs T b \<or> (\<exists>x. objs (foldl (\<lambda>T a. set_obj a f T) T l) b = f x)"
  "b \<in> set l \<Longrightarrow> \<exists>x. objs (foldl (\<lambda>T a. set_obj a f T) T l) b = f x"
  "queues (foldl (\<lambda>T a. set_obj a f T) T l) = queues T"
proof (induction l arbitrary: T)
  case (Cons a l)
  { case 1 show ?case using Cons(1) [of "set_obj a f T"] by (cases "b = a") (auto simp: wheel_upd) }
  { case 2 then show ?case using Cons(1,2) [of "set_obj a f T"] by (cases "b \<in> set l") (auto simp: wheel_upd) }
  { case 3 show ?case using Cons(3) by (simp add: wheel_upd) }
qed simp_all

text \<open>After closing, no timeout is on a queue, so that \<open>timeout_pending\<close> and \<open>timeout_expired\<close> tell no.\<close>

lemma close_idle:
  assumes "winv {} T"
  shows "pending_on (objs (timeouts_close T) a) = None" "queues (timeouts_close T) = (\<lambda>_. [])"
proof -
  let ?f = "\<lambda>x. x\<lparr>owned := False, pending_on := None\<rparr>" and ?T = "T\<lparr>queues := (\<lambda>_. [])\<rparr>"
  let ?l = "all_pending T @ queues T Expired"
  have c: "timeouts_close T = foldl (\<lambda>T a. set_obj a ?f T) ?T ?l"
    by (simp add: timeouts_close_def timeouts_reset_def all_pending_def Let_def)
  show "queues (timeouts_close T) = (\<lambda>_. [])" unfolding c reset_objs(3) by simp
  show "pending_on (objs (timeouts_close T) a) = None"
  proof (cases "pending_on (objs T a)")
    case None then show ?thesis unfolding c using reset_objs(1) [where f = ?f and T = ?T and l = ?l and b = a] by auto
  next
    case (Some p)
    then have "a \<in> set (queues T p)" using winv_member [OF assms] by simp
    then have "a \<in> set ?l" using all_pending_mem [OF assms] by (cases p) auto
    then show ?thesis unfolding c using reset_objs(2) [where f = ?f and T = ?T and l = ?l and b = a] by auto
  qed
qed

section \<open>Properties\<close>

text \<open>C11. The self-check of the wheel, \<open>timeouts_check\<close>, holds after any run of operations from an empty wheel
  in which the time does not go back: no pending timeout was missed, and the time to the next update,
  computed from the bit sets, is not longer than that of the earliest timeout found by searching all slots.\<close>

theorem wheel_check_holds:
  assumes "wheel_start T0" "wheel_step\<^sup>*\<^sup>* T0 T"
  shows "timeouts_check T"
  using check_holds wheel.reachable [OF assms] by blast

definition sample_wheel :: timeouts where
  "sample_wheel = timeouts_init 0 (\<lambda>_. \<lparr>flags = 0, interval = 0, expires = 0, owned = False, pending_on = None, data = 0\<rparr>)"

lemma sample_wheel_start: "wheel_start sample_wheel"
  unfolding sample_wheel_def by (rule start_init) simp

theorem wheel_check_holds_witness: "timeouts_check (timeouts_update 5000 (timeouts_add 1 4500 (timeouts_add 0 100 sample_wheel)))"
proof (rule wheel_check_holds [OF sample_wheel_start])
  have u: "curtime (timeouts_add 1 4500 (timeouts_add 0 100 sample_wheel)) \<le> 5000"
    by (simp add: add_curtime winv_start [OF sample_wheel_start] add_correct) (simp add: sample_wheel_def timeouts_init_def)
  show "wheel_step\<^sup>*\<^sup>* sample_wheel (timeouts_update 5000 (timeouts_add 1 4500 (timeouts_add 0 100 sample_wheel)))"
    by (meson rtranclp.rtrancl_into_rtrancl rtranclp.rtrancl_refl wheel_step.add wheel_step.update u)
qed

text \<open>C5. An update expires exactly the due timeouts.  After any run from an empty wheel, moving the time
  forward to \<open>now\<close> leaves every timeout's expiry time, interval, flags and data alone and loses none: a
  timeout is on the expired queue, and there once, if and only if it was active and its expiry time is
  not after \<open>now\<close>; the other active ones stay pending.\<close>

theorem wheel_update_exact:
  assumes "wheel_start T0" "wheel_step\<^sup>*\<^sup>* T0 T" "curtime T \<le> now"
  shows "let T' = timeouts_update now T in
    curtime T' = now \<and> distinct (queues T' Expired) \<and>
    expires (objs T' a) = expires (objs T a) \<and> interval (objs T' a) = interval (objs T a) \<and> flags (objs T' a) = flags (objs T a) \<and>
    data (objs T' a) = data (objs T a) \<and>
    (a \<in> set (queues T' Expired) \<longleftrightarrow> (timeout_pending T a \<or> timeout_expired T a) \<and> expires (objs T a) \<le> now) \<and>
    (timeout_pending T' a \<longleftrightarrow> (timeout_pending T a \<or> timeout_expired T a) \<and> now < expires (objs T a))"
proof -
  define T' where "T' = timeouts_update now T"
  note u = update_correct [OF wheel.reachable [OF assms(1,2)] assms(3), folded T'_def]
  have d: "curtime T' = now" "distinct (queues T' Expired)" using u winv_distinct by blast+
  have e: "expires (objs T' a) = expires (objs T a) \<and> interval (objs T' a) = interval (objs T a) \<and> flags (objs T' a) = flags (objs T a) \<and>
      data (objs T' a) = data (objs T a)" using u(3) [of a] by (simp add: same_timer_def)
  have p: "pending_on (objs T' a) \<noteq> None \<longleftrightarrow> timeout_pending T a \<or> timeout_expired T a"
    using u(3) [of a] by (auto simp: same_timer_def timeout_pending_def timeout_expired_def)
  have q: "a \<in> set (queues T' Expired) \<longleftrightarrow> (timeout_pending T a \<or> timeout_expired T a) \<and> expires (objs T a) \<le> now"
    using winv_member [OF u(1)] on_queue [OF u(1), of a] p e u(2) by auto
  have "timeout_pending T' a \<longleftrightarrow> (timeout_pending T a \<or> timeout_expired T a) \<and> now < expires (objs T a)"
    using on_queue [OF u(1), of a] p e u(2) by (auto simp: timeout_pending_def)
  then show ?thesis using d e q by (simp add: T'_def [symmetric])
qed

theorem wheel_update_exact_witness:
  "7 \<in> set (queues (timeouts_update 5000 (timeouts_add 7 4500 sample_wheel)) Expired)"
proof -
  have s: "wheel_step sample_wheel (timeouts_add 7 4500 sample_wheel)" by (rule wheel_step.add)
  have n: "timeouts_add 7 4500 sample_wheel = timeouts_sched 7 4500 sample_wheel"
    by (simp add: timeouts_add_def sample_wheel_def timeouts_init_def)
  note c = sched_correct [OF winv_start [OF sample_wheel_start], of 7 4500, simplified]
  have "curtime sample_wheel = 0" by (simp add: sample_wheel_def timeouts_init_def)
  then have "curtime (timeouts_add 7 4500 sample_wheel) \<le> 5000" using add_curtime [OF winv_start [OF sample_wheel_start]] by simp
  then show ?thesis
    using wheel_update_exact [OF sample_wheel_start r_into_rtranclp [of wheel_step, OF s], of 5000 7] c(4,7)
    by (auto simp: n timeout_pending_def timeout_expired_def Let_def)
qed

end
