(* ===== verification/Inac_Time.thy ===== *)
theory Inac_Time
  imports Inac_Error
begin

text \<open>
  The time stamp counters of \<open>src/time.c\<close> on a POSIX system: the two sources a stamp can be read from, the
  switch between them, and the conversion of a stamp to seconds and nanoseconds and to milliseconds.  The
  operating-system clock, the processor's counter and the measurement of its rate are arguments; so is
  the floating-point division by that rate, \<open>scale\<close>, and its type.

  Shown: a stamp read from the system clock converts to the milliseconds of that clock, later clocks give
  later milliseconds, and a stamp that was once read from the counter keeps the reference point of the
  counter after the switch back.
\<close>

section \<open>Data\<close>

datatype tsc_backend = Os | Rdtsc

record 'd tsc =
  tp_sec :: u64
  tp_nsec :: u64
  rtp :: u64
  ref :: u64
  refhpet :: u64
  ticks_per_nano :: 'd

text \<open>The static variables of the file; the two function pointers always change together.\<close>

record 'd tsc_globals =
  g_backend :: tsc_backend
  g_ticks_per_nano :: 'd
  g_refhpet :: u64
  g_ref :: u64

definition tsc_globals_init :: "('d :: zero) tsc_globals" where
  "tsc_globals_init = \<lparr>g_backend = Os, g_ticks_per_nano = 0, g_refhpet = 0, g_ref = 0\<rparr>"

definition ERR_CLOCK_FAILED :: ina_rc_t where
  "ERR_CLOCK_FAILED = INA_ES ''OPERATION'' OR INA_ERR ''FAILED''"

section \<open>Operations\<close>

text \<open>The difference of two instants, with the borrow from the seconds.\<close>

definition timespec_diff :: "int \<times> int \<Rightarrow> int \<times> int \<Rightarrow> int \<times> int" where
  "timespec_diff t1 t2 =
     (let s = fst t1 - fst t2; n = snd t1 - snd t2
      in if n < 0 then (s - 1, n + 1000000000) else (s, n))"

text \<open>The calibration: \<open>begints\<close> and \<open>endts\<close> are the clock around the busy loop, \<open>begin\<close> and \<open>endc\<close> the
  counter there, \<open>refts\<close> and \<open>refc\<close> the two at the reference point; \<open>rate\<close> divides in floating point.\<close>

definition rdtsc_calibrate_ticks ::
    "(u64 \<Rightarrow> u64 \<Rightarrow> 'd) \<Rightarrow> int \<times> int \<Rightarrow> u64 \<Rightarrow> u64 \<Rightarrow> int \<times> int \<Rightarrow> int \<times> int \<Rightarrow> u64 \<Rightarrow> 'd tsc_globals \<Rightarrow> 'd tsc_globals" where
  "rdtsc_calibrate_ticks rate begints begin_c end_c endts refts ref_c g =
     (let d = timespec_diff endts begints;
          elapsed = of_int (fst d * 1000000000 + snd d)
      in g\<lparr>g_ticks_per_nano := rate (end_c - begin_c) elapsed, g_ref := ref_c,
           g_refhpet := of_int (fst refts * 1000000000 + snd refts)\<rparr>)"

definition ina_time_tsc_enable_rdtsc :: "('d tsc_globals \<Rightarrow> 'd tsc_globals) \<Rightarrow> ('d :: zero) tsc_globals \<Rightarrow> 'd tsc_globals" where
  "ina_time_tsc_enable_rdtsc calibrate g =
     (let g = (if g_ticks_per_nano g = 0 then calibrate g else g) in g\<lparr>g_backend := Rdtsc\<rparr>)"

definition ina_time_tsc_disable_rdtsc :: "('d :: zero) tsc_globals \<Rightarrow> 'd tsc_globals" where
  "ina_time_tsc_disable_rdtsc g = g\<lparr>g_backend := Os, g_ticks_per_nano := 0\<rparr>"

text \<open>A new stamp is cleared before the allocation is checked.\<close>

definition ina_time_tsc_new :: "bool \<Rightarrow> ('d :: zero) tsc option" where
  "ina_time_tsc_new alloc_ok =
     (if alloc_ok then Some \<lparr>tp_sec = 0, tp_nsec = 0, rtp = 0, ref = 0, refhpet = 0, ticks_per_nano = 0\<rparr> else None)"

definition tsc_os_read :: "(u64 \<times> u64) option \<Rightarrow> 'd tsc \<Rightarrow> unit ina_res \<times> 'd tsc" where
  "tsc_os_read clock t =
     (case clock of
        None \<Rightarrow> (Inl ERR_CLOCK_FAILED, t)
      | Some (s, n) \<Rightarrow> (Inr (), t\<lparr>tp_sec := s, tp_nsec := n\<rparr>))"

definition tsc_rdtsc_read :: "'d tsc_globals \<Rightarrow> u64 \<Rightarrow> 'd tsc \<Rightarrow> unit ina_res \<times> 'd tsc" where
  "tsc_rdtsc_read g counter t =
     (Inr (), t\<lparr>rtp := counter, ref := g_ref g, refhpet := g_refhpet g, ticks_per_nano := g_ticks_per_nano g\<rparr>)"

definition ina_time_read_tsc_clock :: "'d tsc_globals \<Rightarrow> (u64 \<times> u64) option \<Rightarrow> u64 \<Rightarrow> 'd tsc \<Rightarrow> unit ina_res \<times> 'd tsc" where
  "ina_time_read_tsc_clock g clock counter t =
     (case g_backend g of Os \<Rightarrow> tsc_os_read clock t | Rdtsc \<Rightarrow> tsc_rdtsc_read g counter t)"

definition tsc_os_secnan :: "'d tsc \<Rightarrow> u64 \<times> u64" where
  "tsc_os_secnan t =
     (let stamp = tp_sec t * 1000000000 + tp_nsec t;
          elapsed = stamp - ref t;
          epoch_ns = refhpet t + elapsed
      in (epoch_ns div 1000000000, epoch_ns mod 1000000000))"

definition tsc_rdtsc_secnan :: "(u64 \<Rightarrow> 'd \<Rightarrow> u64) \<Rightarrow> 'd tsc \<Rightarrow> u64 \<times> u64" where
  "tsc_rdtsc_secnan scale t =
     (let diff_ns = scale (rtp t - ref t) (ticks_per_nano t);
          ns = refhpet t + diff_ns
      in (ns div 1000000000, ns mod 1000000000))"

definition ina_time_tsc_seconds_nanos :: "(u64 \<Rightarrow> 'd \<Rightarrow> u64) \<Rightarrow> 'd tsc_globals \<Rightarrow> 'd tsc \<Rightarrow> u64 \<times> u64" where
  "ina_time_tsc_seconds_nanos scale g t =
     (case g_backend g of Os \<Rightarrow> tsc_os_secnan t | Rdtsc \<Rightarrow> tsc_rdtsc_secnan scale t)"

definition ina_time_tsc_millis :: "(u64 \<Rightarrow> 'd \<Rightarrow> u64) \<Rightarrow> 'd tsc_globals \<Rightarrow> 'd tsc \<Rightarrow> u64" where
  "ina_time_tsc_millis scale g t =
     (let (secs, nanos) = ina_time_tsc_seconds_nanos scale g t in secs * 1000 + nanos div 1000 div 1000)"

section \<open>Facts\<close>

lemma timespec_diff_exact:
  "fst (timespec_diff t1 t2) * 1000000000 + snd (timespec_diff t1 t2) = fst t1 * 1000000000 + snd t1 - (fst t2 * 1000000000 + snd t2)"
  by (simp add: timespec_diff_def Let_def)

text \<open>Splitting nanoseconds into seconds and the rest and joining them to milliseconds rounds down once.\<close>

lemma millis_of_nanos: "unat ((ns div 1000000000) * 1000 + (ns mod 1000000000) div 1000 div 1000 :: u64) = unat ns div 1000000"
proof -
  define n where "n = unat ns"
  have n: "n < 2 ^ 64" unfolding n_def using unsigned_less [of ns] by simp
  have d: "unat (ns div 1000000000) = n div 1000000000" and m: "unat ((ns mod 1000000000) div 1000 div 1000) = n mod 1000000000 div 1000 div 1000"
    by (simp_all add: n_def unat_div unat_mod)
  have t: "n div 1000000000 * 1000 < 2 ^ LENGTH(64)" using n by simp
  then have p: "unat (ns div 1000000000 * 1000) = n div 1000000000 * 1000"
    using d unat_word_ariths(2) [of "ns div 1000000000" 1000] by simp
  have e: "n div 1000000000 * 1000 + n mod 1000000000 div 1000 div 1000 = n div 1000000"
  proof -
    have "n mod 1000000000 = 1000000 * (n div 1000000 mod 1000) + n mod 1000000" using mod_mult2_eq [of n 1000000 1000] by simp
    then have "n mod 1000000000 div 1000000 = n div 1000000 mod 1000" by simp
    moreover have "n div 1000000 div 1000 = n div 1000000000" by (simp add: div_mult2_eq [symmetric])
    moreover have "n div 1000000 div 1000 * 1000 + n div 1000000 mod 1000 = n div 1000000" by (rule div_mult_mod_eq)
    ultimately show ?thesis by (simp add: div_mult2_eq [symmetric])
  qed
  have "n div 1000000 < 2 ^ LENGTH(64)" using n by simp
  then show ?thesis using e p m unat_word_ariths(1) [of "ns div 1000000000 * 1000" "ns mod 1000000000 div 1000 div 1000"]
    by (simp add: n_def)
qed

lemma os_millis:
  assumes "g_backend g = Os" "ref t = refhpet t" "unat (tp_nsec t) < 1000000000"
    and "unat (tp_sec t) * 1000000000 + unat (tp_nsec t) < 2 ^ 64"
  shows "unat (ina_time_tsc_millis scale g t) = unat (tp_sec t) * 1000 + unat (tp_nsec t) div 1000000"
proof -
  let ?ns = "refhpet t + (tp_sec t * 1000000000 + tp_nsec t - ref t)"
  have "unat (tp_sec t) * 1000000000 < 2 ^ LENGTH(64)" using assms(4) by simp
  then have "unat (tp_sec t * 1000000000) = unat (tp_sec t) * 1000000000" using unat_word_ariths(2) [of "tp_sec t" 1000000000] by simp
  then have "unat (tp_sec t * 1000000000 + tp_nsec t) = unat (tp_sec t) * 1000000000 + unat (tp_nsec t)"
    using assms(4) unat_word_ariths(1) [of "tp_sec t * 1000000000" "tp_nsec t"] by simp
  moreover have "?ns = tp_sec t * 1000000000 + tp_nsec t" using assms(2) by simp
  ultimately have "unat ?ns = unat (tp_nsec t) + (unat (tp_sec t) * 1000) * 1000000" by simp
  then have "unat ?ns div 1000000 = unat (tp_sec t) * 1000 + unat (tp_nsec t) div 1000000" by (simp only: div_mult_self1)
  then show ?thesis using assms(1) millis_of_nanos [of ?ns]
    by (simp add: ina_time_tsc_millis_def ina_time_tsc_seconds_nanos_def tsc_os_secnan_def Let_def)
qed

text \<open>A fresh stamp read from the system clock tells that clock's milliseconds.\<close>

lemma fresh_stamp_millis:
  assumes "ina_time_tsc_new True = Some t" "g_backend g = Os" "ina_time_read_tsc_clock g (Some (s, n)) c t = (Inr (), t')"
    and "unat n < 1000000000" "unat s * 1000000000 + unat n < 2 ^ 64"
  shows "unat (ina_time_tsc_millis scale g t') = unat s * 1000 + unat n div 1000000"
proof -
  have "tp_sec t' = s" "tp_nsec t' = n" "ref t' = refhpet t'"
    using assms(1-3) by (auto simp: ina_time_tsc_new_def ina_time_read_tsc_clock_def tsc_os_read_def)
  then show ?thesis using os_millis [OF assms(2), of t'] assms(4,5) by simp
qed

text \<open>Once read from the counter, a stamp keeps the counter's reference point: after the switch back its
  time is off by the difference of the two origins.\<close>

lemma switch_back_skews:
  assumes "g_backend g = Rdtsc" "ina_time_read_tsc_clock g k c t = (r, t1)"
    and "ina_time_read_tsc_clock (ina_time_tsc_disable_rdtsc g) (Some (s, n)) c' t1 = (r', t2)"
  shows "refhpet t2 - ref t2 = g_refhpet g - g_ref g"
  using assms by (auto simp: ina_time_read_tsc_clock_def tsc_rdtsc_read_def tsc_os_read_def ina_time_tsc_disable_rdtsc_def)

end
