(* ===== verification/Inac_Timer.thy ===== *)
theory Inac_Timer
  imports Inac_Wheel Inac_Time
begin

text \<open>
  The repeating timers of \<open>src/timer.c\<close> on top of the timing wheel.  An event is an object with an address
  of its own that points to its timeout; the timeout points back with its \<open>data\<close>.  The outcomes of the
  allocations are arguments, as is the clock.

  The locale \<open>agenda\<close> says what a source of repeating events promises of one call, and what follows for a
  caller that asks until nothing is left: it gets every due event once.  The interpretation discharges
  the promise for the model.
\<close>

section \<open>Data\<close>

record ina_timer_event =
  ev_id :: u32
  ev_t :: nat

record 'd ina_timer =
  stamp :: "'d tsc"
  t_timeouts :: timeouts
  next_event_id :: u32
  events :: "nat \<rightharpoonup> ina_timer_event"

definition ERR_TRY_AGAIN :: ina_rc_t where
  "ERR_TRY_AGAIN = INA_ERR ''TRY_AGAIN''"

section \<open>Operations\<close>

text \<open>The allocation of the timer and of its wheel are assumed to succeed; \<open>os\<close> are the objects that the
  addresses hold before, \<open>stamp_ok\<close> tells whether the stamp could be allocated.\<close>

definition ina_timer_new :: "(nat \<Rightarrow> timeout) \<Rightarrow> bool \<Rightarrow> ('d :: zero) ina_timer option" where
  "ina_timer_new os stamp_ok =
     (let T = timeouts_init 0 os
      in case ina_time_tsc_new stamp_ok of
           None \<Rightarrow> None
         | Some st \<Rightarrow> Some \<lparr>stamp = st, t_timeouts = T, next_event_id = 0, events = Map.empty\<rparr>)"

text \<open>Freeing the timer resets the timeouts that are still on its wheel.\<close>

definition ina_timer_free :: "'d ina_timer \<Rightarrow> timeouts" where
  "ina_timer_free tm = timeouts_close (t_timeouts tm)"

definition set_data :: "nat \<Rightarrow> nat \<Rightarrow> timeouts \<Rightarrow> timeouts" where
  "set_data a d T = set_obj a (\<lambda>x. x\<lparr>data := d\<rparr>) T"

text \<open>\<open>ae\<close> and \<open>at\<close> are the results of the two allocations, \<open>None\<close> for \<open>NULL\<close>.\<close>

definition ina_timer_event_new_with_time ::
    "nat option \<Rightarrow> nat option \<Rightarrow> u64 \<Rightarrow> u64 \<Rightarrow> 'd ina_timer \<Rightarrow> nat ina_res \<times> 'd ina_timer" where
  "ina_timer_event_new_with_time ae at n_msec e_msec tm =
     (if \<not> 0 < sint n_msec then (Inl INA_ERR_INVALID_ARGUMENT, tm)
      else if \<not> 0 < sint e_msec then (Inl INA_ERR_INVALID_ARGUMENT, tm)
      else case ae of
        None \<Rightarrow> (Inl INA_ERR_OUT_OF_MEMORY, tm)
      | Some e \<Rightarrow>
          (case at of
             None \<Rightarrow> (Inl INA_ERR_OUT_OF_MEMORY, tm)
           | Some a \<Rightarrow>
               let i = next_event_id tm + 1;
                   T = timeouts_update n_msec (t_timeouts tm);
                   T = timeout_init a TIMEOUT_INT T;
                   T = set_data a e T;
                   T = timeouts_add a e_msec T
               in (Inr e, tm\<lparr>t_timeouts := T, next_event_id := i, events := (events tm)(e \<mapsto> \<lparr>ev_id = i, ev_t = a\<rparr>)\<rparr>)))"

definition tsc_to_msec :: "(u64 \<Rightarrow> 'd \<Rightarrow> u64) \<Rightarrow> 'd tsc_globals \<Rightarrow> 'd tsc \<Rightarrow> u64" where
  "tsc_to_msec scale g t = ina_time_tsc_millis scale g t"

definition read_now ::
    "(u64 \<Rightarrow> 'd \<Rightarrow> u64) \<Rightarrow> 'd tsc_globals \<Rightarrow> (u64 \<times> u64) option \<Rightarrow> u64 \<Rightarrow> 'd ina_timer \<Rightarrow> u64 \<times> 'd ina_timer" where
  "read_now scale g clock counter tm =
     (let st = snd (ina_time_read_tsc_clock g clock counter (stamp tm)) in (tsc_to_msec scale g st, tm\<lparr>stamp := st\<rparr>))"

definition ina_timer_event_new ::
    "(u64 \<Rightarrow> 'd \<Rightarrow> u64) \<Rightarrow> 'd tsc_globals \<Rightarrow> (u64 \<times> u64) option \<Rightarrow> u64 \<Rightarrow> nat option \<Rightarrow> nat option \<Rightarrow> u64 \<Rightarrow>
      'd ina_timer \<Rightarrow> nat ina_res \<times> 'd ina_timer" where
  "ina_timer_event_new scale g clock counter ae at msec tm =
     (let (now, tm) = read_now scale g clock counter tm in ina_timer_event_new_with_time ae at now msec tm)"

text \<open>Freeing: nothing for a null pointer, a crash for a pointer to no event.\<close>

definition ina_timer_event_free :: "nat option \<Rightarrow> 'd ina_timer \<Rightarrow> 'd ina_timer option" where
  "ina_timer_event_free ep tm =
     (case ep of
        None \<Rightarrow> Some tm
      | Some e \<Rightarrow>
          (case events tm e of
             None \<Rightarrow> None
           | Some ev \<Rightarrow> Some (tm\<lparr>t_timeouts := timeouts_del (ev_t ev) (t_timeouts tm), events := (events tm)(e := None)\<rparr>)))"

definition ina_timer_event_get_id :: "nat option \<Rightarrow> 'd ina_timer \<Rightarrow> u32 ina_res option" where
  "ina_timer_event_get_id ep tm =
     (case ep of
        None \<Rightarrow> Some (Inl INA_ERR_INVALID_ARGUMENT)
      | Some e \<Rightarrow> map_option (\<lambda>ev. Inr (ev_id ev)) (events tm e))"

definition ina_timer_next_event_with_time :: "u64 \<Rightarrow> 'd ina_timer \<Rightarrow> nat ina_res \<times> 'd ina_timer" where
  "ina_timer_next_event_with_time now tm =
     (let (ne, T) = timeouts_get (timeouts_update now (t_timeouts tm));
          tm = tm\<lparr>t_timeouts := T\<rparr>
      in case ne of
           Some a \<Rightarrow> (Inr (data (objs T a)), tm)
         | None \<Rightarrow> (Inl ERR_TRY_AGAIN, tm))"

definition ina_timer_next_event ::
    "(u64 \<Rightarrow> 'd \<Rightarrow> u64) \<Rightarrow> 'd tsc_globals \<Rightarrow> (u64 \<times> u64) option \<Rightarrow> u64 \<Rightarrow> 'd ina_timer \<Rightarrow> nat ina_res \<times> 'd ina_timer" where
  "ina_timer_next_event scale g clock counter tm =
     (let (now, tm) = read_now scale g clock counter tm in ina_timer_next_event_with_time now tm)"

definition ina_timer_time_to_next_event :: "'d ina_timer \<Rightarrow> u64" where
  "ina_timer_time_to_next_event tm = timeouts_timeout (t_timeouts tm)"

section \<open>Asking until nothing is left\<close>

text \<open>The loop of a caller: events until the first error, with a bound on the number of calls.\<close>

fun drain :: "('s \<Rightarrow> 'e ina_res \<times> 's) \<Rightarrow> nat \<Rightarrow> 's \<Rightarrow> ('e list \<times> 's) option" where
  "drain next 0 s = None"
| "drain next (Suc n) s =
     (case next s of
        (Inl _, t) \<Rightarrow> Some ([], t)
      | (Inr e, t) \<Rightarrow> map_option (\<lambda>(es, u). (e # es, u)) (drain next n t))"

text \<open>The contract.  \<open>agenda_of s\<close> gives for every event its next time and its interval.\<close>

definition due_at :: "('e \<rightharpoonup> nat \<times> nat) \<Rightarrow> nat \<Rightarrow> 'e set" where
  "due_at d now = {e. \<exists>x i. d e = Some (x, i) \<and> x \<le> now}"

definition rearm :: "nat \<Rightarrow> nat \<times> nat \<Rightarrow> nat \<times> nat" where
  "rearm now xi = (if fst xi \<le> now then (next_due (fst xi) (snd xi) now, snd xi) else xi)"

locale agenda =
  fixes inv :: "'s \<Rightarrow> bool" and clock :: "'s \<Rightarrow> nat" and agenda_of :: "'s \<Rightarrow> 'e \<rightharpoonup> nat \<times> nat"
    and next_at :: "'t \<Rightarrow> 's \<Rightarrow> 'e ina_res \<times> 's" and instant :: "'t \<Rightarrow> nat" and limit :: nat
  assumes finite_due: "inv s \<Longrightarrow> finite (dom (agenda_of s))"
    and positive: "inv s \<Longrightarrow> agenda_of s e = Some (x, i) \<Longrightarrow> 0 < i"
    and idle: "inv s \<Longrightarrow> clock s \<le> instant t \<Longrightarrow> instant t < limit \<Longrightarrow> next_at t s = (Inl r, s') \<Longrightarrow>
      inv s' \<and> clock s' = instant t \<and> agenda_of s' = agenda_of s \<and> due_at (agenda_of s) (instant t) = {}"
    and event: "inv s \<Longrightarrow> clock s \<le> instant t \<Longrightarrow> instant t < limit \<Longrightarrow> next_at t s = (Inr e, s') \<Longrightarrow>
      inv s' \<and> clock s' = instant t \<and> e \<in> due_at (agenda_of s) (instant t) \<and>
      agenda_of s' = (agenda_of s)(e := map_option (rearm (instant t)) (agenda_of s e))"
begin

lemma rearm_not_due:
  assumes "inv s"
  shows "due_at ((agenda_of s)(e := map_option (rearm now) (agenda_of s e))) now = due_at (agenda_of s) now - {e}"
proof -
  have "\<not> fst (rearm now (x, i)) \<le> now" if "agenda_of s e = Some (x, i)" for x i
    using next_due_later [OF positive [OF assms that], of now x] by (simp add: rearm_def)
  then show ?thesis by (auto simp: due_at_def)
qed

lemma drain_exact:
  assumes "inv s" "clock s \<le> instant t" "instant t < limit" "card (due_at (agenda_of s) (instant t)) < n"
  shows "\<exists>es s'. drain (next_at t) n s = Some (es, s') \<and> inv s' \<and> clock s' = instant t \<and> distinct es \<and>
    set es = due_at (agenda_of s) (instant t) \<and> agenda_of s' = (\<lambda>e. map_option (rearm (instant t)) (agenda_of s e))"
  using assms
proof (induction n arbitrary: s)
  case 0 then show ?case by simp
next
  case (Suc n)
  obtain r u where r: "next_at t s = (r, u)" by fastforce
  show ?case
  proof (cases r)
    case (Inl x)
    have "next_at t s = (Inl x, u)" using r Inl by simp
    then have c: "inv u" "clock u = instant t" "agenda_of u = agenda_of s" "due_at (agenda_of s) (instant t) = {}"
      using idle [OF Suc.prems(1-3)] by blast+
    have "map_option (rearm (instant t)) (agenda_of s e) = agenda_of s e" for e
    proof (cases "agenda_of s e")
      case (Some xi)
      have "e \<notin> due_at (agenda_of s) (instant t)" using c(4) by blast
      then show ?thesis using Some by (cases xi) (auto simp: due_at_def rearm_def)
    qed simp
    then show ?thesis using c r Inl by auto
  next
    case (Inr e)
    have "next_at t s = (Inr e, u)" using r Inr by simp
    then have c: "inv u" "clock u = instant t" "e \<in> due_at (agenda_of s) (instant t)"
      "agenda_of u = (agenda_of s)(e := map_option (rearm (instant t)) (agenda_of s e))"
      using event [OF Suc.prems(1-3)] by blast+
    have du: "due_at (agenda_of u) (instant t) = due_at (agenda_of s) (instant t) - {e}" using c r Inr rearm_not_due [OF Suc.prems(1)] by simp
    have fin: "finite (due_at (agenda_of s) (instant t))"
      by (rule finite_subset [OF _ finite_due [OF Suc.prems(1)]]) (auto simp: due_at_def)
    have "card (due_at (agenda_of u) (instant t)) < n" using c r Inr du fin Suc.prems(4) card_Suc_Diff1 by fastforce
    then obtain es s' where ih: "drain (next_at t) n u = Some (es, s')" "inv s'" "clock s' = instant t" "distinct es"
      "set es = due_at (agenda_of u) (instant t)" "agenda_of s' = (\<lambda>e. map_option (rearm (instant t)) (agenda_of u e))"
      using Suc.IH [OF c(1) eq_refl [OF c(2)] Suc.prems(3)] by blast
    have idem: "rearm (instant t) (rearm (instant t) (x, i)) = rearm (instant t) (x, i)" if "agenda_of s e = Some (x, i)" for x i
      using next_due_later [OF positive [OF Suc.prems(1) that], of "instant t" x] by (simp add: rearm_def)
    have "agenda_of s' = (\<lambda>e. map_option (rearm (instant t)) (agenda_of s e))"
      using ih(6) c r Inr idem by (auto simp: fun_eq_iff option.map_comp comp_def split: option.splits) (cases "agenda_of s e"; auto)
    then show ?thesis using ih du c r Inr by auto
  qed
qed

end

section \<open>The invariant of a timer\<close>

definition tinv :: "'d ina_timer \<Rightarrow> bool" where
  "tinv tm \<longleftrightarrow>
     (let T = t_timeouts tm in
      winv {} T \<and> unat (curtime T) < 2 ^ 63 \<and> finite (dom (events tm)) \<and>
      (\<forall>a. pending_on (objs T a) \<noteq> None \<longleftrightarrow> (\<exists>e ev. events tm e = Some ev \<and> ev_t ev = a)) \<and>
      (\<forall>e ev. events tm e = Some ev \<longrightarrow> data (objs T (ev_t ev)) = e \<and> flags (objs T (ev_t ev)) = TIMEOUT_INT \<and>
         0 < interval (objs T (ev_t ev)) \<and> unat (interval (objs T (ev_t ev))) < 2 ^ 63))"

definition agenda_of :: "'d ina_timer \<Rightarrow> nat \<rightharpoonup> nat \<times> nat" where
  "agenda_of tm e =
     map_option (\<lambda>ev. (unat (expires (objs (t_timeouts tm) (ev_t ev))), unat (interval (objs (t_timeouts tm) (ev_t ev))))) (events tm e)"

lemma tinv_wheel: "tinv tm \<Longrightarrow> winv {} (t_timeouts tm)"
  and tinv_clock: "tinv tm \<Longrightarrow> unat (curtime (t_timeouts tm)) < 2 ^ 63"
  and tinv_finite: "tinv tm \<Longrightarrow> finite (dom (events tm))"
  and tinv_active: "tinv tm \<Longrightarrow> pending_on (objs (t_timeouts tm) a) \<noteq> None \<longleftrightarrow> (\<exists>e ev. events tm e = Some ev \<and> ev_t ev = a)"
  and tinv_event: "tinv tm \<Longrightarrow> events tm e = Some ev \<Longrightarrow>
    data (objs (t_timeouts tm) (ev_t ev)) = e \<and> flags (objs (t_timeouts tm) (ev_t ev)) = TIMEOUT_INT \<and>
    0 < interval (objs (t_timeouts tm) (ev_t ev)) \<and> unat (interval (objs (t_timeouts tm) (ev_t ev))) < 2 ^ 63"
  unfolding tinv_def Let_def by blast+

text \<open>Two events never share a timeout.\<close>

lemma tinv_inj: "tinv tm \<Longrightarrow> events tm e = Some ev \<Longrightarrow> events tm e' = Some ev' \<Longrightarrow> ev_t ev = ev_t ev' \<Longrightarrow> e = e'"
  using tinv_event by metis

lemma due_cong:
  "events tm' e = events tm e \<Longrightarrow> (\<And>ev. events tm e = Some ev \<Longrightarrow> objs (t_timeouts tm') (ev_t ev) = objs (t_timeouts tm) (ev_t ev)) \<Longrightarrow>
   agenda_of tm' e = agenda_of tm e"
  by (cases "events tm e") (simp_all add: agenda_of_def)

lemma tinv_update:
  assumes "tinv tm" "curtime (t_timeouts tm) \<le> now" "unat now < 2 ^ 63"
  shows "tinv (tm\<lparr>t_timeouts := timeouts_update now (t_timeouts tm)\<rparr>)" "agenda_of (tm\<lparr>t_timeouts := timeouts_update now (t_timeouts tm)\<rparr>) = agenda_of tm"
proof -
  let ?T = "timeouts_update now (t_timeouts tm)"
  note u = update_correct [OF tinv_wheel [OF assms(1)] assms(2)]
  have s: "expires (objs ?T a) = expires (objs (t_timeouts tm) a)" "interval (objs ?T a) = interval (objs (t_timeouts tm) a)"
    "flags (objs ?T a) = flags (objs (t_timeouts tm) a)" "data (objs ?T a) = data (objs (t_timeouts tm) a)"
    "(pending_on (objs ?T a) \<noteq> None) = (pending_on (objs (t_timeouts tm) a) \<noteq> None)" for a
    using u(3) [of a] by (simp_all add: same_timer_def)
  show "agenda_of (tm\<lparr>t_timeouts := ?T\<rparr>) = agenda_of tm" by (simp add: agenda_of_def fun_eq_iff s)
  show "tinv (tm\<lparr>t_timeouts := ?T\<rparr>)" using assms(1,3) u(1,2) unfolding tinv_def Let_def by (simp add: s del: not_None_eq)
qed

lemma tinv_got:
  assumes "tinv tm" "got (t_timeouts tm) a T" "winv {} T" "curtime T = curtime (t_timeouts tm)"
  shows "tinv (tm\<lparr>t_timeouts := T\<rparr>)"
    and "data (objs T a) \<in> due_at (agenda_of tm) (unat (curtime T))"
    and "agenda_of (tm\<lparr>t_timeouts := T\<rparr>) = (agenda_of tm)(data (objs T a) := map_option (rearm (unat (curtime T))) (agenda_of tm (data (objs T a))))"
proof -
  let ?U = "t_timeouts tm" and ?e = "data (objs T a)"
  have g: "pending_on (objs ?U a) = Some Expired" "\<And>b. b \<noteq> a \<Longrightarrow> objs T b = objs ?U b" "?e = data (objs ?U a)"
    using assms(2) unfolding got_def by blast+
  then obtain ev where ev: "events tm ?e = Some ev" "ev_t ev = a"
    using tinv_active [OF assms(1), of a] tinv_event [OF assms(1)] by auto
  note e = tinv_event [OF assms(1) ev(1), unfolded ev(2)]
  have "TIMEOUT_INT AND TIMEOUT_INT \<noteq> 0" by (simp add: TIMEOUT_INT_def)
  then have n: "pending_on (objs T a) \<noteq> None" "flags (objs T a) = TIMEOUT_INT" "interval (objs T a) = interval (objs ?U a)"
    "unat (expires (objs T a)) = next_due (unat (expires (objs ?U a))) (unat (interval (objs ?U a))) (unat (curtime ?U))"
    using assms(2) e tinv_clock [OF assms(1)] unfolding got_def by auto
  have x: "unat (expires (objs ?U a)) \<le> unat (curtime ?U)"
    using on_queue [OF tinv_wheel [OF assms(1)], of a] g(1) by (simp add: word_le_nat_alt)
  have other: "objs T (ev_t ev') = objs ?U (ev_t ev')" if "events tm e' = Some ev'" "e' \<noteq> ?e" for e' ev'
    using g(2) tinv_inj [OF assms(1) that(1) ev(1)] that(2) ev(2) by metis
  show "?e \<in> due_at (agenda_of tm) (unat (curtime T))" using ev x assms(4) by (simp add: due_at_def agenda_of_def)
  show "agenda_of (tm\<lparr>t_timeouts := T\<rparr>) = (agenda_of tm)(?e := map_option (rearm (unat (curtime T))) (agenda_of tm ?e))"
  proof
    fix e'
    show "agenda_of (tm\<lparr>t_timeouts := T\<rparr>) e' = ((agenda_of tm)(?e := map_option (rearm (unat (curtime T))) (agenda_of tm ?e))) e'"
      using ev n x assms(4) other by (cases "e' = ?e"; cases "events tm e'") (auto simp: agenda_of_def rearm_def)
  qed
  have "(pending_on (objs T b) \<noteq> None) = (pending_on (objs ?U b) \<noteq> None)" for b using g n(1) by (cases "b = a") auto
  moreover have "data (objs T (ev_t ev')) = e' \<and> flags (objs T (ev_t ev')) = TIMEOUT_INT \<and>
      0 < interval (objs T (ev_t ev')) \<and> unat (interval (objs T (ev_t ev'))) < 2 ^ 63" if "events tm e' = Some ev'" for e' ev'
  proof (cases "e' = ?e")
    case True then show ?thesis using that ev e n by auto
  next
    case False then show ?thesis using tinv_event [OF assms(1) that] other [OF that] by simp
  qed
  ultimately show "tinv (tm\<lparr>t_timeouts := T\<rparr>)" using assms(1,3,4) unfolding tinv_def Let_def by simp
qed

lemma next_event_correct:
  assumes "tinv tm" "curtime (t_timeouts tm) \<le> now" "unat now < 2 ^ 63" "ina_timer_next_event_with_time now tm = (r, tm')"
  shows "tinv tm' \<and> curtime (t_timeouts tm') = now \<and>
    (case r of
       Inl x \<Rightarrow> x = ERR_TRY_AGAIN \<and> agenda_of tm' = agenda_of tm \<and> due_at (agenda_of tm) (unat now) = {}
     | Inr e \<Rightarrow> e \<in> due_at (agenda_of tm) (unat now) \<and> agenda_of tm' = (agenda_of tm)(e := map_option (rearm (unat now)) (agenda_of tm e)))"
proof -
  let ?U = "timeouts_update now (t_timeouts tm)"
  note u = tinv_update [OF assms(1-3)] update_correct(2) [OF tinv_wheel [OF assms(1)] assms(2)]
  have w: "winv {} ?U" using tinv_wheel [OF u(1)] by simp
  show ?thesis
  proof (cases "queues ?U Expired")
    case Nil
    have "e \<notin> due_at (agenda_of tm) (unat now)" for e
    proof
      assume "e \<in> due_at (agenda_of tm) (unat now)"
      then obtain ev where ev: "events tm e = Some ev" "expires (objs ?U (ev_t ev)) \<le> now"
        unfolding u(2) [symmetric] by (auto simp: due_at_def agenda_of_def word_le_nat_alt)
      then have p: "pending_on (objs ?U (ev_t ev)) \<noteq> None" using tinv_active [OF u(1), of "ev_t ev"] by auto
      then have "ev_t ev \<in> set (queues ?U Expired)" using on_queue [OF w p] ev(2) u(3) winv_member [OF w] by simp
      then show False using Nil by simp
    qed
    then show ?thesis using assms(4) u Nil get_none [OF Nil] by (auto simp: ina_timer_next_event_with_time_def)
  next
    case (Cons a q)
    obtain T where T: "timeouts_get ?U = (Some a, T)" "winv {} T" "curtime T = curtime ?U" "got ?U a T" using get_some [OF w Cons] by blast
    have "r = Inr (data (objs T a))" "tm' = tm\<lparr>t_timeouts := ?U, t_timeouts := T\<rparr>"
      using assms(4) T(1) by (simp_all add: ina_timer_next_event_with_time_def)
    then show ?thesis using tinv_got [OF u(1), of a T] T(2-4) u(2,3) by simp
  qed
qed

interpretation timer: agenda tinv "\<lambda>tm. unat (curtime (t_timeouts tm))" agenda_of ina_timer_next_event_with_time unat "2 ^ 63"
proof unfold_locales
  fix tm :: "'a ina_timer" assume "tinv tm"
  then show "finite (dom (agenda_of tm))" using tinv_finite [of tm] by (simp add: agenda_of_def dom_def)
next
  fix tm :: "'a ina_timer" and e x i assume "tinv tm" "agenda_of tm e = Some (x, i)"
  then show "0 < i" using tinv_event [of tm e] by (auto simp: agenda_of_def word_less_nat_alt)
next
  fix tm tm' :: "'a ina_timer" and t r
  assume "tinv tm" "unat (curtime (t_timeouts tm)) \<le> unat t" "unat t < 2 ^ 63" "ina_timer_next_event_with_time t tm = (Inl r, tm')"
  then show "tinv tm' \<and> unat (curtime (t_timeouts tm')) = unat t \<and> agenda_of tm' = agenda_of tm \<and> due_at (agenda_of tm) (unat t) = {}"
    using next_event_correct [of tm t "Inl r" tm'] by (simp add: word_le_nat_alt)
next
  fix tm tm' :: "'a ina_timer" and t e
  assume "tinv tm" "unat (curtime (t_timeouts tm)) \<le> unat t" "unat t < 2 ^ 63" "ina_timer_next_event_with_time t tm = (Inr e, tm')"
  then show "tinv tm' \<and> unat (curtime (t_timeouts tm')) = unat t \<and> e \<in> due_at (agenda_of tm) (unat t) \<and>
      agenda_of tm' = (agenda_of tm)(e := map_option (rearm (unat t)) (agenda_of tm e))"
    using next_event_correct [of tm t "Inr e" tm'] by (simp add: word_le_nat_alt)
qed

section \<open>Runs of a timer\<close>

lemma positive_time: "0 < sint (t :: u64) \<Longrightarrow> unat t < 2 ^ 63 \<and> 0 < t"
proof -
  assume t: "0 < sint t"
  have "uint t = take_bit 64 (sint t)" by (simp only: uint_sint) simp
  moreover have "sint t < 2 ^ 63" using sint_lt [of t] by simp
  ultimately have u: "uint t = sint t" using t by (simp add: take_bit_int_eq_self)
  then have "nat (uint t) < nat (2 ^ 63)" using \<open>sint t < 2 ^ 63\<close> t by (simp only: nat_less_eq_zless)
  then have "unat t < 2 ^ 63" unfolding unat_eq_nat_uint by (simp only: nat_power_eq nat_numeral)
  then show ?thesis using t u by (simp add: word_less_def)
qed

lemma ex_map_upd: "m e = None \<Longrightarrow> (\<exists>e' v'. (m(e \<mapsto> v)) e' = Some v' \<and> P v') \<longleftrightarrow> P v \<or> (\<exists>e' v'. m e' = Some v' \<and> P v')"
  by (metis fun_upd_apply option.distinct(1) option.inject)

lemma ex_map_del: "m e = Some v \<Longrightarrow> \<not> P v \<Longrightarrow> (\<exists>e' v'. (m(e := None)) e' = Some v' \<and> P v') \<longleftrightarrow> (\<exists>e' v'. m e' = Some v' \<and> P v')"
  by (metis fun_upd_apply option.distinct(1) option.inject)

lemma add_repeating:
  assumes "winv {} T" "flags (objs T a) = TIMEOUT_INT" "0 < t"
  shows "winv {} (timeouts_add a t T)" "curtime (timeouts_add a t T) = curtime T"
    "b \<noteq> a \<Longrightarrow> objs (timeouts_add a t T) b = objs T b"
    "expires (objs (timeouts_add a t T) a) = curtime T + t" "interval (objs (timeouts_add a t T) a) = t"
    "flags (objs (timeouts_add a t T) a) = TIMEOUT_INT" "data (objs (timeouts_add a t T) a) = data (objs T a)"
    "pending_on (objs (timeouts_add a t T) a) \<noteq> None"
proof -
  let ?T = "set_obj a (\<lambda>x. x\<lparr>interval := t\<rparr>) T"
  have "max 1 t = t" using assms(3) by (simp add: max_def word_le_nat_alt word_less_nat_alt)
  then have add: "timeouts_add a t T = timeouts_sched a (curtime T + t) ?T"
    using assms(2) by (simp add: timeouts_add_def Let_def wheel_upd TIMEOUT_INT_def TIMEOUT_ABS_def)
  have "winv {} ?T" using assms(1) unfolding winv_def by (auto simp: wheel_upd split: if_splits)
  note s = sched_correct [OF this, of a, simplified, where e = "curtime T + t"]
  show "winv {} (timeouts_add a t T)" "curtime (timeouts_add a t T) = curtime T"
    "b \<noteq> a \<Longrightarrow> objs (timeouts_add a t T) b = objs T b"
    "expires (objs (timeouts_add a t T) a) = curtime T + t" "interval (objs (timeouts_add a t T) a) = t"
    "flags (objs (timeouts_add a t T) a) = TIMEOUT_INT" "data (objs (timeouts_add a t T) a) = data (objs T a)"
    "pending_on (objs (timeouts_add a t T) a) \<noteq> None"
    unfolding add using s(1-2) s(3) [of b] s(4-8) assms(2) by (simp_all add: wheel_upd)
qed

text \<open>What \<open>malloc\<close> promises: the two new objects are not among the live ones.\<close>

definition fresh :: "'d ina_timer \<Rightarrow> nat \<Rightarrow> nat \<Rightarrow> bool" where
  "fresh tm e a \<longleftrightarrow> e \<notin> dom (events tm) \<and> (\<forall>ev\<in>ran (events tm). ev_t ev \<noteq> a)"

lemma event_new_correct:
  assumes "tinv tm" "curtime (t_timeouts tm) \<le> n" "0 < sint n" "0 < sint t" "fresh tm e a"
    and "ina_timer_event_new_with_time (Some e) (Some a) n t tm = (r, tm')"
  shows "tinv tm' \<and> curtime (t_timeouts tm') = n \<and> r = Inr e \<and> agenda_of tm' = (agenda_of tm)(e \<mapsto> (unat n + unat t, unat t)) \<and>
    events tm' = (events tm)(e \<mapsto> \<lparr>ev_id = next_event_id tm + 1, ev_t = a\<rparr>) \<and> next_event_id tm' = next_event_id tm + 1"
proof -
  note n = positive_time [OF assms(3)] and t = positive_time [OF assms(4)]
  define tm1 where "tm1 = tm\<lparr>t_timeouts := timeouts_update n (t_timeouts tm)\<rparr>"
  have u: "tinv tm1" "agenda_of tm1 = agenda_of tm" "curtime (t_timeouts tm1) = n" "events tm1 = events tm"
    unfolding tm1_def using tinv_update [OF assms(1,2)] n update_correct(2) [OF tinv_wheel [OF assms(1)] assms(2)] by simp_all
  define T0 where "T0 = set_data a e (timeout_init a TIMEOUT_INT (t_timeouts tm1))"
  have na: "ev_t ev \<noteq> a" if "events tm e' = Some ev" for e' ev using assms(5) that unfolding fresh_def ran_def by blast
  then have p: "pending_on (objs (t_timeouts tm1) a) = None" using tinv_active [OF u(1), of a] u(4) by auto
  have "winv {} (timeout_init a TIMEOUT_INT (t_timeouts tm1))" using wheel_step_inv [OF wheel_step.init [where fl = TIMEOUT_INT, OF p]] tinv_wheel [OF u(1)] by simp
  then have w0: "winv {} T0" unfolding T0_def set_data_def by (rule winv_set_obj) (simp_all add: timeout_init_def wheel_upd)
  have o: "curtime T0 = n" "flags (objs T0 a) = TIMEOUT_INT" "data (objs T0 a) = e" "\<And>b. b \<noteq> a \<Longrightarrow> objs T0 b = objs (t_timeouts tm1) b"
    using u(3) by (simp_all add: T0_def set_data_def timeout_init_def wheel_upd)
  define T2 where "T2 = timeouts_add a t T0"
  note ad = add_repeating [OF w0 o(2), of t, folded T2_def]
  have r: "r = Inr e" "tm' = tm1\<lparr>t_timeouts := T2, next_event_id := next_event_id tm + 1, events := (events tm)(e \<mapsto> \<lparr>ev_id = next_event_id tm + 1, ev_t = a\<rparr>)\<rparr>"
    using assms(3,4,6) by (simp_all add: ina_timer_event_new_with_time_def Let_def T2_def T0_def tm1_def)
  have old: "objs T2 (ev_t ev) = objs (t_timeouts tm1) (ev_t ev)" if "events tm e' = Some ev" for e' ev using na [OF that] ad(3) o(4) t by simp
  have "e \<notin> dom (events tm)" using assms(5) by (simp add: fresh_def)
  have x: "unat (n + t) = unat n + unat t" using n t by (simp add: unat_plus_if')
  have d: "agenda_of tm' = (agenda_of tm)(e \<mapsto> (unat n + unat t, unat t))"
  proof
    fix e'
    show "agenda_of tm' e' = ((agenda_of tm)(e \<mapsto> (unat n + unat t, unat t))) e'"
    proof (cases "e' = e")
      case True then show ?thesis using ad(4,5) o(1) t x by (simp add: agenda_of_def r(2))
    next
      case False then show ?thesis unfolding u(2) [symmetric] using due_cong [of tm' e' tm1] old u(4) by (simp add: r(2))
    qed
  qed
  have "pending_on (objs T2 b) \<noteq> None \<longleftrightarrow> b = a \<or> pending_on (objs (t_timeouts tm1) b) \<noteq> None" for b
    using ad(3) [of b] ad(8) o(4) t by (cases "b = a") auto
  then have "pending_on (objs T2 b) \<noteq> None \<longleftrightarrow> (\<exists>e' ev. events tm' e' = Some ev \<and> ev_t ev = b)" for b
    using tinv_active [OF u(1), of b] u(4) \<open>e \<notin> dom (events tm)\<close> ex_map_upd [of "events tm" e _ "\<lambda>ev. ev_t ev = b"]
    by (auto simp: r(2) domIff simp del: fun_upd_apply)
  moreover have "data (objs T2 (ev_t ev)) = e' \<and> flags (objs T2 (ev_t ev)) = TIMEOUT_INT \<and> 0 < interval (objs T2 (ev_t ev)) \<and>
      unat (interval (objs T2 (ev_t ev))) < 2 ^ 63" if "events tm' e' = Some ev" for e' ev
    using that ad(5-7) o(3) t tinv_event [OF u(1), of e' ev] u(4) old by (auto simp: r(2) split: if_splits)
  moreover have "finite (dom (events tm'))" using tinv_finite [OF u(1)] u(4) by (simp add: r(2))
  ultimately have "tinv tm'" unfolding tinv_def Let_def using ad(1,2) o(1) n t by (simp add: r(2))
  then show ?thesis using d r ad(2) o(1) t by simp
qed

lemma event_free_correct:
  assumes "tinv tm" "ina_timer_event_free (Some e) tm = Some tm'"
  shows "tinv tm' \<and> curtime (t_timeouts tm') = curtime (t_timeouts tm) \<and> agenda_of tm' = (agenda_of tm)(e := None) \<and> events tm' = (events tm)(e := None)"
proof -
  obtain ev where ev: "events tm e = Some ev" using assms(2) by (auto simp: ina_timer_event_free_def split: option.splits)
  let ?T = "timeouts_del (ev_t ev) (t_timeouts tm)"
  have tm': "tm' = tm\<lparr>t_timeouts := ?T, events := (events tm)(e := None)\<rparr>" using assms(2) ev by (simp add: ina_timer_event_free_def)
  note d = winv_del [OF tinv_wheel [OF assms(1)], of "ev_t ev", simplified]
  have ob: "objs ?T b = objs (t_timeouts tm) b" if "b \<noteq> ev_t ev" for b using that d(4) by (metis fun_upd_other)
  have other: "objs ?T (ev_t ev') = objs (t_timeouts tm) (ev_t ev')" if "events tm e' = Some ev'" "e' \<noteq> e" for e' ev'
    using ob tinv_inj [OF assms(1) that(1) ev] that(2) by blast
  have "agenda_of tm' = (agenda_of tm)(e := None)" 
  proof
    fix e'
    show "agenda_of tm' e' = ((agenda_of tm)(e := None)) e'"
      using due_cong [of tm' e' tm] other by (cases "e' = e") (simp_all add: tm' agenda_of_def)
  qed
  moreover have "pending_on (objs ?T b) \<noteq> None \<longleftrightarrow> (\<exists>e' ev'. events tm' e' = Some ev' \<and> ev_t ev' = b)" for b
  proof (cases "b = ev_t ev")
    case True then show ?thesis using d(2) tinv_inj [OF assms(1) _ ev] by (auto simp: tm')
  next
    case False
    then show ?thesis using ob [OF False] tinv_active [OF assms(1), of b] ex_map_del [of "events tm" e ev "\<lambda>ev. ev_t ev = b"] ev
      by (simp add: tm' del: fun_upd_apply not_None_eq)
  qed
  moreover have "data (objs ?T (ev_t ev')) = e' \<and> flags (objs ?T (ev_t ev')) = TIMEOUT_INT \<and> 0 < interval (objs ?T (ev_t ev')) \<and>
      unat (interval (objs ?T (ev_t ev'))) < 2 ^ 63" if "events tm' e' = Some ev'" for e' ev'
    using that other tinv_event [OF assms(1), of e' ev'] by (auto simp: tm' split: if_splits)
  ultimately show ?thesis
    using d(1,3) tinv_clock [OF assms(1)] tinv_finite [OF assms(1)] unfolding tinv_def Let_def by (simp add: tm')
qed

inductive timer_step :: "'d ina_timer \<Rightarrow> 'd ina_timer \<Rightarrow> bool" where
  new: "curtime (t_timeouts tm) \<le> n \<Longrightarrow> fresh tm e a \<Longrightarrow>
    ina_timer_event_new_with_time (Some e) (Some a) n t tm = (r, tm') \<Longrightarrow> timer_step tm tm'"
| free: "ina_timer_event_free (Some e) tm = Some tm' \<Longrightarrow> timer_step tm tm'"
| ask: "curtime (t_timeouts tm) \<le> n \<Longrightarrow> unat n < 2 ^ 63 \<Longrightarrow> ina_timer_next_event_with_time n tm = (r, tm') \<Longrightarrow> timer_step tm tm'"

definition timer_start :: "('d :: zero) ina_timer \<Rightarrow> bool" where
  "timer_start tm \<longleftrightarrow> (\<exists>os. (\<forall>a. pending_on (os a) = None) \<and> ina_timer_new os True = Some tm)"

lemma timer_start_inv: "timer_start tm \<Longrightarrow> tinv tm"
proof -
  assume "timer_start tm"
  then obtain os where os: "\<forall>a. pending_on (os a) = None" "ina_timer_new os True = Some tm" by (auto simp: timer_start_def)
  then have "t_timeouts tm = timeouts_init 0 os" "events tm = Map.empty" by (auto simp: ina_timer_new_def ina_time_tsc_new_def)
  moreover have "winv {} (timeouts_init 0 os)" by (rule winv_start [OF start_init [OF os(1)]])
  ultimately show ?thesis using os(1) by (simp add: tinv_def) (simp add: timeouts_init_def)
qed

lemma timer_step_inv: "timer_step tm tm' \<Longrightarrow> tinv tm \<Longrightarrow> tinv tm'"
proof (induction rule: timer_step.induct)
  case (new tm n e a t r tm')
  show ?case
  proof (cases "0 < sint n \<and> 0 < sint t")
    case True then show ?thesis using event_new_correct [OF new(4,1) _ _ new(2,3)] by simp
  next
    case False then show ?thesis using new(3,4) by (auto simp: ina_timer_event_new_with_time_def split: if_splits)
  qed
qed (use event_free_correct next_event_correct in blast)+

interpretation timer_runs: step_invariant timer_start timer_step tinv
  by unfold_locales (blast intro: timer_start_inv timer_step_inv)+

text \<open>Freeing the timer takes every event off the wheel; the events themselves stay allocated.\<close>

lemma timer_free_idle:
  "timer_start tm0 \<Longrightarrow> timer_step\<^sup>*\<^sup>* tm0 tm \<Longrightarrow> \<not> timeout_pending (ina_timer_free tm) a \<and> \<not> timeout_expired (ina_timer_free tm) a"
  using close_idle(1) [OF tinv_wheel [OF timer_runs.reachable, of tm0 tm], of a]
  by (simp add: ina_timer_free_def timeout_pending_def timeout_expired_def)

section \<open>Properties\<close>

text \<open>C4. Every due event fires, once.  After any run of creating, freeing and asking with times that
  never go back, a caller that asks at one time until it gets \<open>INA_ERR_TRY_AGAIN\<close> needs at most one call more
  than there are due events; it gets each event whose time has come exactly once and no other, and
  afterwards each of them is armed for its first multiple of the interval after now.\<close>

theorem timer_fires_exactly:
  assumes "timer_start tm0" "timer_step\<^sup>*\<^sup>* tm0 tm" "curtime (t_timeouts tm) \<le> now" "unat now < 2 ^ 63"
    and "card (due_at (agenda_of tm) (unat now)) < n"
  shows "\<exists>es tm'. drain (ina_timer_next_event_with_time now) n tm = Some (es, tm') \<and> distinct es \<and>
    set es = due_at (agenda_of tm) (unat now) \<and> agenda_of tm' = (\<lambda>e. map_option (rearm (unat now)) (agenda_of tm e))"
  using timer.drain_exact [of tm now n] timer_runs.reachable [OF assms(1,2)] assms(3-5) by (auto simp: word_le_nat_alt)

definition sample_timer :: "nat ina_timer" where
  "sample_timer = the (ina_timer_new (\<lambda>_. \<lparr>flags = 0, interval = 0, expires = 0, owned = False, pending_on = None, data = 0\<rparr>) True)"

definition sample_event :: "nat ina_timer" where
  "sample_event = snd (ina_timer_event_new_with_time (Some 1) (Some 2) 1000 10 sample_timer)"

lemma sample_start: "timer_start sample_timer" "curtime (t_timeouts sample_timer) = 0" "fresh sample_timer e a" "agenda_of sample_timer = Map.empty"
  "events sample_timer = Map.empty" "next_event_id sample_timer = 0"
  by (auto simp: timer_start_def sample_timer_def ina_timer_new_def ina_time_tsc_new_def timeouts_init_def fresh_def agenda_of_def)

lemma sample_new:
  "timer_step sample_timer sample_event" "curtime (t_timeouts sample_event) = 1000" "agenda_of sample_event = [1 \<mapsto> (1010, 10)]"
  "events sample_event = [1 \<mapsto> \<lparr>ev_id = 1, ev_t = 2\<rparr>]" "next_event_id sample_event = 1"
proof -
  obtain r where r: "ina_timer_event_new_with_time (Some 1) (Some 2) 1000 10 sample_timer = (r, sample_event)"
    unfolding sample_event_def by (metis prod.collapse)
  show "timer_step sample_timer sample_event" using timer_step.new [OF _ sample_start(3) r] sample_start(2) by simp
  show "curtime (t_timeouts sample_event) = 1000" "agenda_of sample_event = [1 \<mapsto> (1010, 10)]"
    "events sample_event = [1 \<mapsto> \<lparr>ev_id = 1, ev_t = 2\<rparr>]" "next_event_id sample_event = 1"
    using event_new_correct [OF timer_start_inv [OF sample_start(1)] _ _ _ sample_start(3) r] sample_start(2,4-6) by simp_all
qed

theorem timer_fires_exactly_witness:
  "\<exists>es tm'. drain (ina_timer_next_event_with_time 1035) 2 sample_event = Some (es, tm') \<and> distinct es \<and> set es = {1} \<and> agenda_of tm' 1 = Some (1040, 10)"
proof -
  have d: "due_at (agenda_of sample_event) (unat (1035 :: u64)) = {1}" by (auto simp: sample_new due_at_def)
  show ?thesis
    using timer_fires_exactly [OF sample_start(1) r_into_rtranclp [of timer_step, OF sample_new(1)], of 1035 2] d sample_new(2,3)
    by (auto simp: rearm_def next_due_def)
qed

text \<open>C12. The timer is an agenda.  In any state that a run can reach, creating an event adds it with the time
  now plus its interval and leaves the other events alone, freeing an event removes it and nothing else,
  and a call with a time or an interval that is not positive is refused and changes nothing.\<close>

theorem timer_is_agenda:
  assumes "timer_start tm0" "timer_step\<^sup>*\<^sup>* tm0 tm" "curtime (t_timeouts tm) \<le> n" "fresh tm e a" "e' \<in> dom (events tm)"
  shows "(if 0 < sint n \<and> 0 < sint t
      then \<exists>tm'. ina_timer_event_new_with_time (Some e) (Some a) n t tm = (Inr e, tm') \<and>
        agenda_of tm' = (agenda_of tm)(e \<mapsto> (unat n + unat t, unat t)) \<and> ina_timer_event_get_id (Some e) tm' = Some (Inr (next_event_id tm + 1))
      else ina_timer_event_new_with_time (Some e) (Some a) n t tm = (Inl INA_ERR_INVALID_ARGUMENT, tm)) \<and>
    (\<exists>tm'. ina_timer_event_free (Some e') tm = Some tm' \<and> agenda_of tm' = (agenda_of tm)(e' := None) \<and> ina_timer_event_get_id (Some e') tm' = None)"
proof
  have tm: "tinv tm" by (rule timer_runs.reachable [OF assms(1,2)])
  show "if 0 < sint n \<and> 0 < sint t
      then \<exists>tm'. ina_timer_event_new_with_time (Some e) (Some a) n t tm = (Inr e, tm') \<and>
        agenda_of tm' = (agenda_of tm)(e \<mapsto> (unat n + unat t, unat t)) \<and> ina_timer_event_get_id (Some e) tm' = Some (Inr (next_event_id tm + 1))
      else ina_timer_event_new_with_time (Some e) (Some a) n t tm = (Inl INA_ERR_INVALID_ARGUMENT, tm)"
  proof (cases "0 < sint n \<and> 0 < sint t")
    case True
    obtain r tm' where r: "ina_timer_event_new_with_time (Some e) (Some a) n t tm = (r, tm')" by fastforce
    show ?thesis using True event_new_correct [OF tm assms(3) _ _ assms(4) r] r by (simp add: ina_timer_event_get_id_def)
  qed (auto simp: ina_timer_event_new_with_time_def)
  obtain tm' where f: "ina_timer_event_free (Some e') tm = Some tm'" using assms(5) by (auto simp: ina_timer_event_free_def)
  show "\<exists>tm'. ina_timer_event_free (Some e') tm = Some tm' \<and> agenda_of tm' = (agenda_of tm)(e' := None) \<and> ina_timer_event_get_id (Some e') tm' = None"
    using event_free_correct [OF tm f] f by (simp add: ina_timer_event_get_id_def)
qed

theorem timer_is_agenda_witness:
  "\<exists>tm'. ina_timer_event_new_with_time (Some 3) (Some 4) 2000 7 sample_event = (Inr 3, tm') \<and>
     agenda_of tm' = [1 \<mapsto> (1010, 10), 3 \<mapsto> (2007, 7)] \<and> ina_timer_event_get_id (Some 3) tm' = Some (Inr 2)"
proof -
  have e: "events sample_event = [1 \<mapsto> \<lparr>ev_id = 1, ev_t = 2\<rparr>]" "next_event_id sample_event = 1" using sample_new(4,5) .
  then have "fresh sample_event 3 4" "1 \<in> dom (events sample_event)" by (simp_all add: fresh_def)
  then show ?thesis
    using timer_is_agenda [OF sample_start(1) r_into_rtranclp [of timer_step, OF sample_new(1)], of 2000 3 4 1 7] sample_new(2,3) e(2) by simp
qed

text \<open>C32. Waiting is safe.  In any state that a run can reach, the time to the next event is never longer
  than the time that is left for any event.\<close>

theorem timer_wait_safe:
  assumes "timer_start tm0" "timer_step\<^sup>*\<^sup>* tm0 tm" "agenda_of tm e = Some (x, i)"
  shows "unat (ina_timer_time_to_next_event tm) \<le> x - unat (curtime (t_timeouts tm))"
proof -
  have tm: "tinv tm" by (rule timer_runs.reachable [OF assms(1,2)])
  obtain ev where ev: "events tm e = Some ev" "x = unat (expires (objs (t_timeouts tm) (ev_t ev)))" using assms(3) by (auto simp: agenda_of_def)
  then have "pending_on (objs (t_timeouts tm) (ev_t ev)) \<noteq> None" using tinv_active [OF tm] by blast
  then show ?thesis using timeout_bound [OF tinv_wheel [OF tm]] by (simp add: ev(2) ina_timer_time_to_next_event_def)
qed

theorem timer_wait_safe_witness: "unat (ina_timer_time_to_next_event sample_event) \<le> 10"
  using timer_wait_safe [OF sample_start(1) r_into_rtranclp [of timer_step, OF sample_new(1)], of 1] sample_new(2,3) by simp

end
