(* ===== verification/Inac_Cursor.thy ===== *)
theory Inac_Cursor
  imports Inac_Error
begin

text \<open>
  File cursors (\<open>src/file_cursor.c\<close>) with the parts of \<open>src/file.c\<close> and \<open>src/mmap.c\<close> that they call, on a POSIX
  system.  The operating system is an argument: a file has a size, a \<open>read\<close> at an offset and a \<open>mmap\<close>, which
  gives the memory that is seen from the returned address, \<open>None\<close> where touching it faults.  \<open>plain_file\<close>
  states the documented behaviour of these calls for a regular file.

  Pointers into a mapping carry the number of the mapping, so that a pointer into one that was replaced
  is told apart.  Shown: reading a mapped file line by line, what happens at its end, and reading in
  chunks through a buffer.
\<close>

section \<open>Files and mappings\<close>

record os_file =
  f_size :: u64
  f_read :: "nat \<Rightarrow> nat \<Rightarrow> byte_seq option"
  f_map :: "nat \<Rightarrow> nat \<Rightarrow> (nat \<Rightarrow> u8 option) option"

definition ERR_POSITION_OUT_OF_RANGE :: ina_rc_t where
  "ERR_POSITION_OUT_OF_RANGE = INA_ES ''POSITION'' OR INA_ERR ''OUT_OF_RANGE''"

definition ERR_OS_FAILED :: ina_rc_t where
  "ERR_OS_FAILED = INA_ES ''OPERATION'' OR INA_ERR ''FAILED''"

definition ERR_READ_FAILED :: ina_rc_t where
  "ERR_READ_FAILED = INA_ES ''READ'' OR INA_ERR ''FAILED''"

definition ERR_FUNCTION_ILLEGAL :: ina_rc_t where
  "ERR_FUNCTION_ILLEGAL = INA_ES ''FUNCTION'' OR INA_ERR ''ILLEGAL''"

record mmap_mapping =
  mp_mem :: "nat \<Rightarrow> u8 option"
  mp_offset :: u64
  mp_length :: u64

definition ina_mmap_new :: "os_file \<Rightarrow> u64 \<Rightarrow> u64 \<Rightarrow> mmap_mapping ina_res" where
  "ina_mmap_new f offset len =
     (if offset > f_size f then Inl ERR_POSITION_OUT_OF_RANGE
      else case f_map f (unat offset) (unat len) of
        None \<Rightarrow> Inl ERR_OS_FAILED
      | Some m \<Rightarrow> Inr \<lparr>mp_mem = m, mp_offset = offset, mp_length = len\<rparr>)"

definition ina_mmap_memory_head :: "mmap_mapping option \<Rightarrow> nat ina_res" where
  "ina_mmap_memory_head fm = (case fm of None \<Rightarrow> Inl INA_ERR_INVALID_ARGUMENT | Some _ \<Rightarrow> Inr 0)"

definition ina_mmap_memory_tail :: "mmap_mapping option \<Rightarrow> nat ina_res" where
  "ina_mmap_memory_tail fm = (case fm of None \<Rightarrow> Inl INA_ERR_INVALID_ARGUMENT | Some mp \<Rightarrow> Inr (unat (mp_length mp)))"

text \<open>The result of an allocation or mapping whose error is dropped: the pointer stays \<open>NULL\<close>.\<close>

definition res_option :: "'a ina_res \<Rightarrow> 'a option" where
  "res_option r = (case r of Inl _ \<Rightarrow> None | Inr x \<Rightarrow> Some x)"

section \<open>Mapped cursors\<close>

record mcursor =
  m_file :: os_file
  m_position :: u64
  m_mem_pos :: nat
  m_fm :: "mmap_mapping option"
  m_gen :: nat
  m_eof :: bool
  m_len :: u64
  m_carry :: u64
  m_buffer_size :: u64
  m_buffer_idx :: nat

text \<open>Opening: the whole file when it fits the buffer, else its first buffer.  When the mapping fails the
  pointer to the memory is never set.\<close>

definition mmap_cursor_init :: "os_file \<Rightarrow> u64 \<Rightarrow> mcursor option" where
  "mmap_cursor_init f buffer_size =
     (let flen = f_size f;
          map_len = (if flen \<le> buffer_size then flen else buffer_size);
          fm = res_option (ina_mmap_new f 0 map_len)
      in case ina_mmap_memory_head fm of
           Inl _ \<Rightarrow> None
         | Inr head \<Rightarrow> Some \<lparr>m_file = f, m_position = 0, m_mem_pos = head, m_fm = fm, m_gen = 0, m_eof = False, m_len = flen,
                            m_carry = 0, m_buffer_size = buffer_size, m_buffer_idx = 0\<rparr>)"

definition mmap_get_buffer_size :: "mcursor \<Rightarrow> u64" where "mmap_get_buffer_size c = m_buffer_size c"

definition mmap_get_pos :: "mcursor \<Rightarrow> u64" where "mmap_get_pos c = m_position c"

text \<open>Moving.  The number of the buffer is an \<open>int\<close>; larger numbers are undefined, as is a position relative
  to a mapping that could not be made.\<close>

definition mmap_set_pos :: "u64 \<Rightarrow> mcursor \<Rightarrow> (unit ina_res \<times> mcursor) option" where
  "mmap_set_pos position c =
     (if m_buffer_size c = 0 \<or> unat (position div m_buffer_size c) \<ge> 2 ^ 31 then None
      else let buffer_idx = unat (position div m_buffer_size c);
               tmp = of_nat buffer_idx * m_buffer_size c;
               offset = tmp - m_carry c
           in if position > m_len c then Some (Inl ERR_POSITION_OUT_OF_RANGE, c)
              else
                let (c, offset) =
                  (if m_buffer_idx c \<noteq> buffer_idx
                   then let len = min (m_buffer_size c) (m_len c);
                            tmp2 = of_nat (m_buffer_idx c) * m_buffer_size c;
                            carry = tmp2 + len - m_position c;
                            offset = tmp - carry;
                            len = (if offset + len > m_len c then m_len c - offset else len)
                        in (c\<lparr>m_carry := carry, m_fm := res_option (ina_mmap_new (m_file c) offset len), m_gen := m_gen c + 1,
                             m_buffer_idx := buffer_idx\<rparr>, offset)
                   else (c, offset))
                in case ina_mmap_memory_head (m_fm c) of
                     Inl _ \<Rightarrow> None
                   | Inr head \<Rightarrow> Some (Inr (), c\<lparr>m_position := position, m_mem_pos := head + unat (position - offset)\<rparr>))"

definition mmap_set_eof :: "mcursor \<Rightarrow> (unit ina_res \<times> mcursor) option" where
  "mmap_set_eof c = mmap_set_pos (m_len c) c"

definition mmap_set_bof :: "mcursor \<Rightarrow> (unit ina_res \<times> mcursor) option" where
  "mmap_set_bof c = mmap_set_pos 0 c"

text \<open>The scan for the end of a line.  \<open>Found d l\<close>: the newline is at \<open>d\<close>, behind \<open>l\<close> bytes; \<open>Stopped l\<close>: the end
  of the mapping or a zero byte after \<open>l\<close> bytes.\<close>

datatype scan_result = Found nat nat | Stopped nat

function scan_line :: "(nat \<Rightarrow> u8 option) \<Rightarrow> nat \<Rightarrow> nat \<Rightarrow> nat \<Rightarrow> scan_result option" where
  "scan_line mem end_p d l =
     (case mem d of
        None \<Rightarrow> None
      | Some b \<Rightarrow>
          if b = 10 then Some (Found d l)
          else if d + 1 \<ge> end_p then Some (Stopped (l + 1))
          else (case mem (d + 1) of
                  None \<Rightarrow> None
                | Some b' \<Rightarrow> if b' = 0 then Some (Stopped (l + 1)) else scan_line mem end_p (d + 1) (l + 1)))"
  by pat_completeness auto

termination
  by (relation "measure (\<lambda>(mem, end_p, d, l). end_p - d)") auto

declare scan_line.simps [simp del]

text \<open>Reading a line: the pointer to its begin (with the number of its mapping), its length, the new cursor.\<close>

definition mmap_text_read_line :: "mcursor \<Rightarrow> ((nat \<times> nat) \<times> nat \<times> mcursor) option" where
  "mmap_text_read_line c =
     (case m_fm c of
        None \<Rightarrow> None
      | Some mp \<Rightarrow>
          let d = m_mem_pos c; begin_line = (m_gen c, d)
          in (case scan_line (mp_mem mp) (unat (mp_length mp)) d 0 of
               None \<Rightarrow> None
             | Some (Found d l) \<Rightarrow> Some (begin_line, l + 1, c\<lparr>m_position := m_position c + of_nat (l + 1), m_mem_pos := d + 1\<rparr>)
             | Some (Stopped l) \<Rightarrow>
                 if m_position c + of_nat l \<ge> m_len c then Some (begin_line, 0, c\<lparr>m_eof := True\<rparr>)
                 else map_option (\<lambda>(_, c). (begin_line, l, c)) (mmap_set_pos (m_position c + of_nat l) c)))"

definition mmap_binary_read_chunk :: "nat \<Rightarrow> mcursor \<Rightarrow> (nat \<times> (nat \<times> int) option \<times> mcursor) option" where
  "mmap_binary_read_chunk requested c =
     (case mmap_set_pos (m_position c + of_nat requested) c of
        None \<Rightarrow> None
      | Some (Inr _, c) \<Rightarrow> Some (requested, Some (m_gen c, int (m_mem_pos c) - int requested), c)
      | Some (Inl _, c) \<Rightarrow> Some (0, None, c))"

definition mmap_text_read_chunk :: "nat \<Rightarrow> mcursor \<Rightarrow> (nat \<times> (nat \<times> int) option \<times> mcursor) option" where
  "mmap_text_read_chunk requested c = mmap_binary_read_chunk requested c"

definition mmap_binary_readwrite_chunk :: "nat \<Rightarrow> mcursor \<Rightarrow> unit ina_res" where
  "mmap_binary_readwrite_chunk requested c = Inl ERR_FUNCTION_ILLEGAL"

section \<open>Buffered cursors\<close>

record fcursor =
  b_file :: os_file
  b_offset :: nat
  b_eof :: bool
  b_len :: u64
  b_buffer_size :: u64
  b_position :: u64
  b_buffer :: byte_seq

definition fileio_cursor_init :: "os_file \<Rightarrow> nat \<Rightarrow> u64 \<Rightarrow> byte_seq \<Rightarrow> fcursor" where
  "fileio_cursor_init f offset buffer_size buf =
     \<lparr>b_file = f, b_offset = offset, b_eof = False, b_len = f_size f, b_buffer_size = buffer_size, b_position = 0, b_buffer = buf\<rparr>"

definition fileio_get_buffer_size :: "fcursor \<Rightarrow> u64" where "fileio_get_buffer_size c = b_buffer_size c"

definition fileio_get_pos :: "fcursor \<Rightarrow> u64" where "fileio_get_pos c = b_position c"

text \<open>The offset of the open file is kept with the cursor; \<open>lseek\<close> on a regular file refuses negative offsets only.\<close>

definition fileio_set_pos :: "u64 \<Rightarrow> fcursor \<Rightarrow> unit ina_res \<times> fcursor" where
  "fileio_set_pos position c =
     (if sint position < 0 then (Inl ERR_OS_FAILED, c)
      else (Inr (), c\<lparr>b_offset := unat position, b_position := position\<rparr>))"

definition fileio_set_eof :: "fcursor \<Rightarrow> fcursor" where
  "fileio_set_eof c = c\<lparr>b_offset := unat (f_size (b_file c))\<rparr>"

definition fileio_set_bof :: "fcursor \<Rightarrow> fcursor" where
  "fileio_set_bof c = c\<lparr>b_offset := 0\<rparr>"

text \<open>\<open>ina_file_read\<close> into a block: \<open>None\<close> when the bytes do not fit it.\<close>

definition ina_file_read :: "os_file \<Rightarrow> nat \<Rightarrow> byte_seq \<Rightarrow> nat \<Rightarrow> (nat \<times> byte_seq) ina_res option" where
  "ina_file_read f offset buf len =
     (if \<not> 0 < len then Some (Inl INA_ERR_INVALID_ARGUMENT)
      else case f_read f offset len of
        None \<Rightarrow> Some (Inl ERR_READ_FAILED)
      | Some bs \<Rightarrow> if length buf < length bs then None else Some (Inr (length bs, bs @ drop (length bs) buf)))"

definition fileio_binary_read_chunk :: "nat \<Rightarrow> fcursor \<Rightarrow> (nat ina_res \<times> fcursor) option" where
  "fileio_binary_read_chunk requested c =
     (case ina_file_read (b_file c) (b_offset c) (b_buffer c) requested of
        None \<Rightarrow> None
      | Some (Inl e) \<Rightarrow> Some (Inl e, c)
      | Some (Inr (n, buf)) \<Rightarrow>
          Some (Inr n, c\<lparr>b_offset := b_offset c + n, b_buffer := buf, b_position := b_position c + of_nat n, b_eof := (n = 0 \<or> b_eof c)\<rparr>))"

definition fileio_text_read_chunk :: "nat \<Rightarrow> fcursor \<Rightarrow> (nat ina_res \<times> fcursor) option" where
  "fileio_text_read_chunk requested c = fileio_binary_read_chunk requested c"

definition fileio_binary_readwrite_chunk :: "nat \<Rightarrow> fcursor \<Rightarrow> unit ina_res" where
  "fileio_binary_readwrite_chunk requested c = Inl ERR_FUNCTION_ILLEGAL"

section \<open>Cursors of either kind\<close>

datatype cursor_type = TYPE_MMAP | TYPE_FILEIO

datatype cursor_mode = READ_BINARY | READWRITE_BINARY | READ_TEXT_LINE | READWRITE_TEXT_LINE | READ_TEXT_CHUNK
  | READWRITE_TEXT_CHUNK | WRITE_BINARY | WRITE_TEXT_LINE | WRITE_TEXT_CHUNK

datatype cursor_ext = M mcursor | F fcursor

record ina_file_cursor =
  c_mode :: cursor_mode
  c_ext :: cursor_ext

text \<open>The function pointers of a cursor are those of its kind.\<close>

definition cursor_init_internal :: "os_file \<Rightarrow> cursor_type \<Rightarrow> cursor_mode \<Rightarrow> u64 \<Rightarrow> nat \<Rightarrow> byte_seq \<Rightarrow> ina_file_cursor option" where
  "cursor_init_internal f ty mode buffer_size offset buf =
     (case ty of
        TYPE_MMAP \<Rightarrow> map_option (\<lambda>m. \<lparr>c_mode = mode, c_ext = M m\<rparr>) (mmap_cursor_init f buffer_size)
      | TYPE_FILEIO \<Rightarrow> Some \<lparr>c_mode = mode, c_ext = F (fileio_cursor_init f offset buffer_size buf)\<rparr>)"

definition ina_file_cursor_new :: "os_file \<Rightarrow> cursor_type \<Rightarrow> cursor_mode \<Rightarrow> u64 \<Rightarrow> nat \<Rightarrow> byte_seq \<Rightarrow> ina_file_cursor option" where
  "ina_file_cursor_new f ty mode buffer_size offset buf = cursor_init_internal f ty mode buffer_size offset buf"

definition ina_file_cursor_get_file :: "ina_file_cursor \<Rightarrow> os_file" where
  "ina_file_cursor_get_file c = (case c_ext c of M m \<Rightarrow> m_file m | F f \<Rightarrow> b_file f)"

definition ina_file_cursor_get_buffer_size :: "ina_file_cursor \<Rightarrow> u64" where
  "ina_file_cursor_get_buffer_size c = (case c_ext c of M m \<Rightarrow> mmap_get_buffer_size m | F f \<Rightarrow> fileio_get_buffer_size f)"

definition ina_file_cursor_get_mode :: "ina_file_cursor \<Rightarrow> cursor_mode" where
  "ina_file_cursor_get_mode c = c_mode c"

definition ina_file_cursor_get_type :: "ina_file_cursor \<Rightarrow> cursor_type" where
  "ina_file_cursor_get_type c = (case c_ext c of M _ \<Rightarrow> TYPE_MMAP | F _ \<Rightarrow> TYPE_FILEIO)"

definition ina_file_cursor_get_pos :: "ina_file_cursor \<Rightarrow> u64" where
  "ina_file_cursor_get_pos c = (case c_ext c of M m \<Rightarrow> mmap_get_pos m | F f \<Rightarrow> fileio_get_pos f)"

definition ina_file_cursor_set_pos :: "u64 \<Rightarrow> ina_file_cursor \<Rightarrow> (unit ina_res \<times> ina_file_cursor) option" where
  "ina_file_cursor_set_pos position c =
     (case c_ext c of
        M m \<Rightarrow> map_option (\<lambda>(r, m). (r, c\<lparr>c_ext := M m\<rparr>)) (mmap_set_pos position m)
      | F f \<Rightarrow> (let (r, f) = fileio_set_pos position f in Some (r, c\<lparr>c_ext := F f\<rparr>)))"

definition ina_file_cursor_set_bof :: "ina_file_cursor \<Rightarrow> (unit ina_res \<times> ina_file_cursor) option" where
  "ina_file_cursor_set_bof c =
     (case c_ext c of
        M m \<Rightarrow> map_option (\<lambda>(r, m). (r, c\<lparr>c_ext := M m\<rparr>)) (mmap_set_bof m)
      | F f \<Rightarrow> Some (Inr (), c\<lparr>c_ext := F (fileio_set_bof f)\<rparr>))"

definition ina_file_cursor_set_eof :: "ina_file_cursor \<Rightarrow> (unit ina_res \<times> ina_file_cursor) option" where
  "ina_file_cursor_set_eof c =
     (case c_ext c of
        M m \<Rightarrow> map_option (\<lambda>(r, m). (r, c\<lparr>c_ext := M m\<rparr>)) (mmap_set_eof m)
      | F f \<Rightarrow> Some (Inr (), c\<lparr>c_ext := F (fileio_set_eof f)\<rparr>))"

section \<open>The operating system\<close>

definition pages :: "nat \<Rightarrow> nat \<Rightarrow> nat" where
  "pages page n = page * ((n + page - 1) div page)"

text \<open>A regular file on a system with pages of \<open>page\<close> bytes: \<open>read\<close> gives what is left up to the count, \<open>mmap\<close>
  wants an offset on a page and a length; behind the end of the file the last page reads as zero.\<close>

definition plain_file :: "nat \<Rightarrow> byte_seq \<Rightarrow> os_file" where
  "plain_file page content =
     \<lparr>f_size = of_nat (length content),
      f_read = (\<lambda>off n. Some (take n (drop off content))),
      f_map = (\<lambda>off n.
        if n = 0 \<or> off mod page \<noteq> 0 then None
        else Some (\<lambda>i. if pages page n \<le> i then None
                       else if off + i < length content then Some (content ! (off + i))
                       else if off + i < pages page (length content) then Some 0
                       else None))\<rparr>"

lemma pages_ge: "0 < page \<Longrightarrow> n \<le> pages page n"
proof -
  assume p: "0 < page"
  have "n + page - 1 = page * ((n + page - 1) div page) + (n + page - 1) mod page" by simp
  moreover have "(n + page - 1) mod page < page" using p by simp
  ultimately show ?thesis unfolding pages_def by linarith
qed

lemma pages_exact: "0 < page \<Longrightarrow> pages page n = n \<longleftrightarrow> n mod page = 0"
proof
  assume p: "0 < page"
  show "n mod page = 0" if "pages page n = n" using that by (metis mod_mult_self1_is_0 pages_def)
  assume "n mod page = 0"
  then obtain k where k: "n = page * k" by auto
  have "page * k + page - 1 = page * k + (page - 1)" using p by simp
  then have "(page * k + page - 1) div page = k" using p by (simp only: div_mult_self4) simp
  then show "pages page n = n" by (simp add: pages_def k)
qed

section \<open>Lines\<close>

text \<open>The complete lines of a text, each with its newline.\<close>

function lines_of :: "byte_seq \<Rightarrow> byte_seq list" where
  "lines_of xs =
     (case dropWhile (\<lambda>b. b \<noteq> 10) xs of
        [] \<Rightarrow> []
      | _ # ys \<Rightarrow> (takeWhile (\<lambda>b. b \<noteq> 10) xs @ [10]) # lines_of ys)"
  by pat_completeness auto

termination
proof (relation "measure length")
  fix xs y ys assume "dropWhile (\<lambda>b :: u8. b \<noteq> 10) xs = y # ys"
  then show "(ys, xs) \<in> measure length" using length_dropWhile_le [of "\<lambda>b. b \<noteq> 10" xs] by simp
qed simp

declare lines_of.simps [simp del]

text \<open>The cursor stands at \<open>p\<close> in a mapping of the whole text.\<close>

definition at_pos :: "nat \<Rightarrow> byte_seq \<Rightarrow> nat \<Rightarrow> mcursor \<Rightarrow> bool" where
  "at_pos page content p c \<longleftrightarrow>
     (\<exists>mp. m_fm c = Some mp \<and> unat (mp_length mp) = length content \<and>
       mp_mem mp = (\<lambda>i. if i < length content then Some (content ! i) else if i < pages page (length content) then Some 0 else None)) \<and>
     m_mem_pos c = p \<and> m_position c = of_nat p \<and> p \<le> length content \<and> m_len c = of_nat (length content) \<and> length content < 2 ^ 63"

lemma scan_found:
  assumes "\<forall>i < length content. mem i = Some (content ! i)" "0 \<notin> set content" "p + k < length content"
    "\<forall>i < k. content ! (p + i) \<noteq> 10" "content ! (p + k) = 10"
  shows "scan_line mem (length content) p l = Some (Found (p + k) (l + k))"
  using assms(3-5)
proof (induction k arbitrary: p l)
  case 0 then show ?case using assms(1) by (subst scan_line.simps) simp
next
  case (Suc k)
  have b: "mem p = Some (content ! p)" "content ! p \<noteq> 10" "mem (p + 1) = Some (content ! (p + 1))"
    using assms(1) Suc.prems(1) spec [OF Suc.prems(2), of 0] by auto
  have "content ! (p + 1) \<noteq> 0" using assms(2) Suc.prems(1) by (metis Suc_eq_plus1 add_Suc_right add_lessD1 nth_mem Suc_lessD add_Suc_shift)
  moreover have "scan_line mem (length content) (p + 1) (l + 1) = Some (Found (p + 1 + k) (l + 1 + k))"
  proof (rule Suc.IH)
    show "\<forall>i < k. content ! (p + 1 + i) \<noteq> 10" using Suc.prems(2) by (metis add.assoc add.commute add_less_cancel_left plus_1_eq_Suc)
  qed (use Suc.prems(1,3) in simp_all)
  ultimately show ?case using b Suc.prems(1) by (subst scan_line.simps) simp
qed

lemma scan_stopped:
  assumes "\<forall>i < length content. mem i = Some (content ! i)" "0 \<notin> set content" "\<forall>i. p \<le> i \<longrightarrow> i < length content \<longrightarrow> content ! i \<noteq> 10"
    "p < length content"
  shows "scan_line mem (length content) p l = Some (Stopped (l + (length content - p)))"
  using assms(3,4)
proof (induction "length content - p" arbitrary: p l)
  case 0 then show ?case by simp
next
  case (Suc k)
  have b: "mem p = Some (content ! p)" "content ! p \<noteq> 10" using assms(1) Suc.prems by auto
  show ?case
  proof (cases "p + 1 = length content")
    case True then show ?thesis using b by (subst scan_line.simps) simp
  next
    case False
    then have q: "p + 1 < length content" using Suc.prems(2) by simp
    then have "content ! (p + 1) \<noteq> 0" "mem (p + 1) = Some (content ! (p + 1))" using assms(1,2) nth_mem by metis+
    moreover have "scan_line mem (length content) (p + 1) (l + 1) = Some (Stopped (l + 1 + (length content - (p + 1))))"
      using Suc.prems Suc.hyps(2) q by (intro Suc.hyps(1)) auto
    ultimately show ?thesis using b q by (subst scan_line.simps) simp
  qed
qed

lemma unat_len: "length content < 2 ^ 63 \<Longrightarrow> p \<le> length content \<Longrightarrow> unat (of_nat p :: u64) = p"
  by (rule unat_of_nat_small) simp

lemma read_line_at:
  assumes "at_pos page content p c" "0 \<notin> set content" "0 < page" "drop p content = ys @ 10 # zs" "10 \<notin> set ys"
  shows "\<exists>c'. mmap_text_read_line c = Some ((m_gen c, p), length ys + 1, c') \<and> at_pos page content (p + length ys + 1) c' \<and>
    m_gen c' = m_gen c \<and> m_fm c' = m_fm c"
proof -
  obtain mp where mp: "m_fm c = Some mp" "unat (mp_length mp) = length content" "\<forall>i < length content. mp_mem mp i = Some (content ! i)"
    using assms(1) by (auto simp: at_pos_def)
  have l: "length content - p = length ys + 1 + length zs" using arg_cong [OF assms(4), of length] by simp
  then have k: "p + length ys < length content" by linarith
  have nth: "content ! (p + i) = (ys @ 10 # zs) ! i" if "i < length content - p" for i
    using that nth_drop [of p content i] assms(1,4) by (simp add: at_pos_def)
  have "scan_line (mp_mem mp) (length content) p 0 = Some (Found (p + length ys) (0 + length ys))"
  proof (rule scan_found [OF mp(3) assms(2) k])
    show "\<forall>i < length ys. content ! (p + i) \<noteq> 10" using nth l assms(5) by (auto simp: nth_append dest: nth_mem)
    show "content ! (p + length ys) = 10" using nth [of "length ys"] l by simp
  qed
  then show ?thesis using mp(1,2) assms(1) k by (auto simp: mmap_text_read_line_def at_pos_def add.assoc)
qed

lemma read_line_end:
  assumes "at_pos page content p c" "0 \<notin> set content" "0 < page" "10 \<notin> set (drop p content)"
  shows "mmap_text_read_line c =
    (if p = length content \<and> length content mod page = 0 then None else Some ((m_gen c, p), 0, c\<lparr>m_eof := True\<rparr>))"
proof -
  obtain mp where mp: "m_fm c = Some mp" "unat (mp_length mp) = length content"
    "mp_mem mp = (\<lambda>i. if i < length content then Some (content ! i) else if i < pages page (length content) then Some 0 else None)"
    using assms(1) by (auto simp: at_pos_def)
  have p: "p \<le> length content" "length content < 2 ^ 63" "m_mem_pos c = p" "m_position c = of_nat p" "m_len c = of_nat (length content)"
    using assms(1) by (simp_all add: at_pos_def)
  show ?thesis
  proof (cases "p = length content")
    case True
    then have s: "scan_line (mp_mem mp) (length content) p 0 = (if length content < pages page (length content) then Some (Stopped 1) else None)"
      unfolding mp(3) by (subst scan_line.simps) simp
    have "(length content < pages page (length content)) = (length content mod page \<noteq> 0)"
      using pages_ge [OF assms(3), of "length content"] pages_exact [OF assms(3), of "length content"] by linarith
    moreover have "of_nat (length content) \<le> (of_nat p + 1 :: u64)"
      using True p(2) unat_len [of content p] by (simp add: word_le_nat_alt unat_word_ariths(1))
    ultimately show ?thesis using s mp(1,2) p True by (simp add: mmap_text_read_line_def)
  next
    case False
    have n: "\<forall>i. p \<le> i \<longrightarrow> i < length content \<longrightarrow> content ! i \<noteq> 10"
    proof (intro allI impI notI)
      fix i assume "p \<le> i" "i < length content" "content ! i = 10"
      then have "drop p content ! (i - p) = 10" "i - p < length (drop p content)" by simp_all
      then show False using assms(4) nth_mem by metis
    qed
    have "scan_line (mp_mem mp) (length content) p 0 = Some (Stopped (0 + (length content - p)))"
      by (rule scan_stopped [OF _ assms(2) n]) (use mp(3) False p(1) in simp_all)
    moreover have "of_nat p + of_nat (length content - p) = (of_nat (length content) :: u64)" using p(1) by (simp flip: of_nat_add)
    ultimately show ?thesis using mp(1,2) p False by (simp add: mmap_text_read_line_def)
  qed
qed

text \<open>Reading \<open>n\<close> lines; the bytes of a line are those its pointer shows afterwards.\<close>

definition line_bytes :: "mcursor \<Rightarrow> nat \<times> nat \<Rightarrow> nat \<Rightarrow> byte_seq option" where
  "line_bytes c ptr l =
     (if fst ptr = m_gen c then (case m_fm c of None \<Rightarrow> None | Some mp \<Rightarrow> those (map (mp_mem mp) [snd ptr..<snd ptr + l])) else None)"

fun read_lines :: "nat \<Rightarrow> mcursor \<Rightarrow> (byte_seq list \<times> mcursor) option" where
  "read_lines 0 c = Some ([], c)"
| "read_lines (Suc n) c =
     (case mmap_text_read_line c of
        None \<Rightarrow> None
      | Some (ptr, l, c) \<Rightarrow>
          (case line_bytes c ptr l of
             None \<Rightarrow> None
           | Some bs \<Rightarrow> map_option (\<lambda>(bss, c). (bs # bss, c)) (read_lines n c)))"

lemma those_Some: "those (map Some xs) = Some xs"
  by (induction xs) simp_all

lemma line_bytes_at:
  assumes "at_pos page content q c" "p + l \<le> length content"
  shows "line_bytes c (m_gen c, p) l = Some (take l (drop p content))"
proof -
  obtain mp where mp: "m_fm c = Some mp" "\<forall>i < length content. mp_mem mp i = Some (content ! i)" using assms(1) by (auto simp: at_pos_def)
  have "map (mp_mem mp) [p..<p + l] = map Some (map ((!) content) [p..<p + l])" using mp(2) assms(2) by simp
  moreover have "map ((!) content) [p..<p + l] = take l (drop p content)"
    using assms(2) by (intro nth_equalityI) simp_all
  ultimately show ?thesis using mp(1) those_Some by (simp add: line_bytes_def)
qed

lemma read_lines_at:
  assumes "at_pos page content p c" "0 \<notin> set content" "0 < page"
  shows "\<exists>c' q. read_lines (length (lines_of (drop p content))) c = Some (lines_of (drop p content), c') \<and> at_pos page content q c' \<and>
    drop p content = concat (lines_of (drop p content)) @ drop q content \<and> 10 \<notin> set (drop q content)"
  using assms(1)
proof (induction "drop p content" arbitrary: p c rule: lines_of.induct)
  case 1
  show ?case
  proof (cases "dropWhile (\<lambda>b. b \<noteq> 10) (drop p content)")
    case Nil
    then have "10 \<notin> set (drop p content)" by (auto simp: dropWhile_eq_Nil_conv)
    moreover have "lines_of (drop p content) = []" by (subst lines_of.simps) (simp only: Nil list.case)
    ultimately show ?thesis using "1.prems" by auto
  next
    case (Cons y zs)
    define ys where "ys = takeWhile (\<lambda>b. b \<noteq> 10) (drop p content)"
    have y: "y = 10" using hd_dropWhile [of "\<lambda>b. b \<noteq> 10" "drop p content"] Cons by simp
    have d: "drop p content = ys @ 10 # zs" using takeWhile_dropWhile_id [of "\<lambda>b. b \<noteq> 10" "drop p content"] Cons y by (simp add: ys_def)
    have n: "10 \<notin> set ys" unfolding ys_def using set_takeWhileD by fastforce
    let ?q = "p + length ys + 1"
    have z: "drop ?q content = zs" using arg_cong [OF d, of "drop (length ys + 1)"] by (simp add: add.commute add.left_commute)
    obtain c1 where c1: "mmap_text_read_line c = Some ((m_gen c, p), length ys + 1, c1)" "at_pos page content ?q c1" "m_gen c1 = m_gen c"
      using read_line_at [OF "1.prems" assms(2,3) d n] by blast
    have "line_bytes c1 (m_gen c, p) (length ys + 1) = Some (ys @ [10])"
      using line_bytes_at [OF c1(2), of p "length ys + 1"] c1(2,3) d by (simp add: at_pos_def)
    moreover have u: "lines_of (drop p content) = (ys @ [10]) # lines_of zs" using Cons by (subst lines_of.simps) (simp add: ys_def)
    moreover obtain c' q where "read_lines (length (lines_of zs)) c1 = Some (lines_of zs, c')" "at_pos page content q c'"
      "zs = concat (lines_of zs) @ drop q content" "10 \<notin> set (drop q content)"
      using "1.hyps" [of y ?q, unfolded z, OF Cons c1(2)] by blast
    ultimately show ?thesis using c1(1) d by auto
  qed
qed

lemma init_at:
  assumes "0 < page" "content \<noteq> []" "length content \<le> unat buf" "length content < 2 ^ 63"
  shows "\<exists>c. mmap_cursor_init (plain_file page content) buf = Some c \<and> at_pos page content 0 c"
proof -
  have n: "unat (of_nat (length content) :: u64) = length content" by (rule unat_len [OF assms(4)]) simp
  have "of_nat (length content) \<le> buf" using assms(3) n by (simp add: word_le_nat_alt)
  moreover have "pages page (length content) \<ge> length content" by (rule pages_ge [OF assms(1)])
  ultimately show ?thesis using assms(2,4) n
    by (auto simp: mmap_cursor_init_def plain_file_def ina_mmap_new_def res_option_def ina_mmap_memory_head_def at_pos_def fun_eq_iff Let_def)
qed

text \<open>C21. A mapped file is read line by line.  For a file without zero bytes that fits the buffer, reading as
  many lines as the file has complete lines gives these lines, each with its newline, in order; together
  with what follows the last newline they are the file.  The next call reports the end with an empty line,
  whether or not something follows the last newline, except for a file that ends with a newline at the end
  of a page: there it reads behind the mapping.\<close>

theorem cursor_reads_lines:
  assumes "0 < page" "content \<noteq> []" "0 \<notin> set content" "length content \<le> unat buf" "length content < 2 ^ 63"
  shows "\<exists>c0 c rest. mmap_cursor_init (plain_file page content) buf = Some c0 \<and>
    read_lines (length (lines_of content)) c0 = Some (lines_of content, c) \<and>
    content = concat (lines_of content) @ rest \<and> 10 \<notin> set rest \<and>
    (if rest = [] \<and> length content mod page = 0 then mmap_text_read_line c = None
     else \<exists>ptr. mmap_text_read_line c = Some (ptr, 0, c\<lparr>m_eof := True\<rparr>))"
proof -
  obtain c0 where c0: "mmap_cursor_init (plain_file page content) buf = Some c0" "at_pos page content 0 c0"
    using init_at [OF assms(1,2,4,5)] by blast
  then obtain c q where c: "read_lines (length (lines_of content)) c0 = Some (lines_of content, c)" "at_pos page content q c"
    "content = concat (lines_of content) @ drop q content" "10 \<notin> set (drop q content)"
    using read_lines_at [OF c0(2) assms(3,1)] by auto
  have "q \<le> length content" using c(2) by (simp add: at_pos_def)
  then have "drop q content = [] \<longleftrightarrow> q = length content" by auto
  then have stop: "if drop q content = [] \<and> length content mod page = 0 then mmap_text_read_line c = None
     else \<exists>ptr. mmap_text_read_line c = Some (ptr, 0, c\<lparr>m_eof := True\<rparr>)"
    using read_line_end [OF c(2) assms(3,1) c(4)] by simp
  show ?thesis
    by (rule exI [of _ c0], rule exI [of _ c], rule exI [of _ "drop q content"]) (intro conjI c0(1) c(1,3,4) stop)
qed

theorem cursor_reads_lines_witness:
  "\<exists>c0 c. mmap_cursor_init (plain_file 4096 [97, 10, 98, 98, 10, 99]) 1024 = Some c0 \<and> read_lines 2 c0 = Some ([[97, 10], [98, 98, 10]], c)"
proof -
  have l: "lines_of [97, 10, 98, 98, 10, 99] = [[97, 10], [98, 98, 10 :: u8]]" by (simp add: lines_of.simps)
  have n: "length (lines_of [97, 10, 98, 98, 10, 99]) = 2" by (simp add: l)
  show ?thesis using cursor_reads_lines [of 4096 "[97, 10, 98, 98, 10, 99]" 1024] unfolding n unfolding l by auto
qed

text \<open>A file larger than the buffer.  Where a line reaches the end of the first buffer, the call replaces the
  mapping before it returns the pointer to the line.\<close>

lemma crossing_stops:
  assumes "m_fm c = Some mp" "unat (mp_length mp) = B" "\<forall>i < B. mp_mem mp i = Some (content ! i)" "m_mem_pos c = p"
    "B \<le> length content" "p < B" "0 \<notin> set (take B content)" "10 \<notin> set (drop p (take B content))"
  shows "scan_line (mp_mem mp) (unat (mp_length mp)) p 0 = Some (Stopped (B - p))"
proof -
  let ?x = "take B content"
  have l: "length ?x = B" using assms(5) by simp
  have n: "\<forall>i. p \<le> i \<longrightarrow> i < length ?x \<longrightarrow> ?x ! i \<noteq> 10"
  proof (intro allI impI notI)
    fix i assume "p \<le> i" "i < length ?x" "?x ! i = 10"
    then have "drop p ?x ! (i - p) = 10" "i - p < length (drop p ?x)" by (simp_all add: l diff_less_mono)
    then show False using assms(8) nth_mem by metis
  qed
  have "scan_line (mp_mem mp) (length ?x) p 0 = Some (Stopped (0 + (length ?x - p)))"
    by (rule scan_stopped [OF _ assms(7) n]) (use assms(3,6) l in simp_all)
  then show ?thesis unfolding l assms(2) by simp
qed

text \<open>Lines across buffers are lost.  In a file larger than the buffer, a line that reaches the end of the
  first buffer cannot be read: the call either crashes or returns a pointer into the mapping that it has
  just replaced.\<close>

theorem cursor_crossing_lost:
  assumes "0 < page" "mmap_cursor_init (plain_file page content) buf = Some c0" "0 < unat buf" "unat buf < length content" "length content < 2 ^ 63"
    "p < unat buf" "0 \<notin> set (take (unat buf) content)" "10 \<notin> set (drop p (take (unat buf) content))"
    "c = c0\<lparr>m_position := of_nat p, m_mem_pos := p\<rparr>"
  shows "case mmap_text_read_line c of None \<Rightarrow> True | Some (ptr, l, c') \<Rightarrow> l = unat buf - p \<and> line_bytes c' ptr l = None"
proof -
  have n: "unat (of_nat (length content) :: u64) = length content" by (rule unat_len [OF assms(5)]) simp
  have nb: "\<not> of_nat (length content) \<le> buf" using assms(4) n by (simp add: word_le_nat_alt)
  obtain mp where mp: "m_fm c0 = Some mp" "mp_length mp = buf" "\<forall>i < unat buf. mp_mem mp i = Some (content ! i)"
    and c0: "m_len c0 = of_nat (length content)" "m_buffer_size c0 = buf" "m_buffer_idx c0 = 0" "m_gen c0 = 0"
    using assms(2,4) nb pages_ge [OF assms(1), of "unat buf"]
    by (auto simp: mmap_cursor_init_def plain_file_def ina_mmap_new_def res_option_def ina_mmap_memory_head_def Let_def split: if_splits)
  have s: "scan_line (mp_mem mp) (unat (mp_length mp)) p 0 = Some (Stopped (unat buf - p))"
    by (rule crossing_stops [of c]) (use mp assms(4,6-9) in simp_all)
  have b: "of_nat p + of_nat (unat buf - p) = buf" using assms(6) by (simp flip: of_nat_add)
  have one: "unat (buf div buf) = 1" using assms(3) by (simp add: unat_div)
  show ?thesis using s mp(1) c0 b nb one assms(3,9)
    by (auto simp: mmap_text_read_line_def mmap_set_pos_def line_bytes_def Let_def split: option.splits sum.splits)
qed

theorem cursor_crossing_lost_witness:
  "case mmap_text_read_line (the (mmap_cursor_init (plain_file 2 [97, 98, 99, 10]) 2)) of
     None \<Rightarrow> True | Some (ptr, l, c') \<Rightarrow> l = 2 \<and> line_bytes c' ptr l = None"
proof -
  obtain c0 where c0: "mmap_cursor_init (plain_file 2 [97, 98, 99, 10]) 2 = Some c0" "c0\<lparr>m_position := 0, m_mem_pos := 0\<rparr> = c0"
    by (simp add: mmap_cursor_init_def plain_file_def ina_mmap_new_def res_option_def ina_mmap_memory_head_def Let_def)
  show ?thesis using cursor_crossing_lost [OF _ c0(1), of 0 c0] c0 by (auto split: option.splits)
qed

section \<open>Chunks\<close>

fun read_chunks :: "nat list \<Rightarrow> fcursor \<Rightarrow> (byte_seq \<times> fcursor) option" where
  "read_chunks [] c = Some ([], c)"
| "read_chunks (r # rs) c =
     (case fileio_binary_read_chunk r c of
        Some (Inr n, c) \<Rightarrow> map_option (\<lambda>(bs, c'). (take n (b_buffer c) @ bs, c')) (read_chunks rs c)
      | _ \<Rightarrow> None)"

lemma read_chunks_at:
  assumes "b_file c = plain_file page content" "\<forall>r\<in>set rs. 0 < r \<and> r \<le> length (b_buffer c)" "b_position c = of_nat (b_offset c)"
  shows "\<exists>c'. read_chunks rs c = Some (take (sum_list rs) (drop (b_offset c) content), c') \<and>
    b_offset c' = b_offset c + min (sum_list rs) (length content - b_offset c) \<and> b_position c' = of_nat (b_offset c')"
  using assms
proof (induction rs arbitrary: c)
  case (Cons r rs)
  define bs where "bs = take r (drop (b_offset c) content)"
  define c1 where "c1 = c\<lparr>b_offset := b_offset c + length bs, b_buffer := bs @ drop (length bs) (b_buffer c),
    b_position := b_position c + of_nat (length bs), b_eof := (length bs = 0 \<or> b_eof c)\<rparr>"
  have l: "length bs \<le> length (b_buffer c)" "0 < r" using Cons.prems(2) by (auto simp: bs_def)
  have r: "fileio_binary_read_chunk r c = Some (Inr (length bs), c1)"
    using l Cons.prems(1) unfolding c1_def
    by (auto simp: fileio_binary_read_chunk_def ina_file_read_def plain_file_def bs_def min_def)
  have i: "b_file c1 = plain_file page content" "\<forall>r\<in>set rs. 0 < r \<and> r \<le> length (b_buffer c1)" "b_position c1 = of_nat (b_offset c1)"
    using Cons.prems l(1) by (simp_all add: c1_def)
  obtain c' where c': "read_chunks rs c1 = Some (take (sum_list rs) (drop (b_offset c1) content), c')"
    "b_offset c' = b_offset c1 + min (sum_list rs) (length content - b_offset c1)" "b_position c' = of_nat (b_offset c')"
    using Cons.IH [OF i] by blast
  have "take (length bs) (b_buffer c1) = bs" by (simp add: c1_def)
  moreover have "bs @ take (sum_list rs) (drop (b_offset c1) content) = take (r + sum_list rs) (drop (b_offset c) content)"
  proof (cases "r \<le> length content - b_offset c")
    case True then show ?thesis by (simp add: bs_def c1_def take_add add.commute)
  next
    case False then show ?thesis by (simp add: bs_def c1_def)
  qed
  moreover have "b_offset c' = b_offset c + min (r + sum_list rs) (length content - b_offset c)"
    using c'(2) by (auto simp: c1_def bs_def min_def)
  ultimately show ?case using r c'(1,3) by simp
qed simp

text \<open>C22. Chunks of a buffered cursor are the file.  Reading a sequence of chunks, none of them empty or
  larger than the buffer, gives the bytes of the file from its begin, up to the sum of the sizes or to its
  end, and the position tells how many bytes were read.\<close>

theorem cursor_chunks_concat:
  assumes "\<forall>r\<in>set rs. 0 < r \<and> r \<le> length buf" "length content < 2 ^ 63"
  shows "\<exists>c. read_chunks rs (fileio_cursor_init (plain_file page content) 0 (of_nat (length buf)) buf) = Some (take (sum_list rs) content, c) \<and>
    unat (fileio_get_pos c) = length (take (sum_list rs) content)"
proof -
  obtain c where c: "read_chunks rs (fileio_cursor_init (plain_file page content) 0 (of_nat (length buf)) buf) = Some (take (sum_list rs) content, c)"
    "b_offset c = min (sum_list rs) (length content)" "b_position c = of_nat (b_offset c)"
    using read_chunks_at [of "fileio_cursor_init (plain_file page content) 0 (of_nat (length buf)) buf" page content rs] assms(1)
    by (auto simp: fileio_cursor_init_def)
  have "unat (b_position c) = min (sum_list rs) (length content)" unfolding c(2,3) by (rule unat_len [OF assms(2)]) simp
  then show ?thesis using c(1) by (simp add: fileio_get_pos_def min.commute)
qed

theorem cursor_chunks_concat_witness:
  "\<exists>c. read_chunks [2, 3, 2] (fileio_cursor_init (plain_file 4096 [1, 2, 3, 4, 5, 6]) 0 3 [0, 0, 0]) = Some ([1, 2, 3, 4, 5, 6], c)"
  using cursor_chunks_concat [of "[2, 3, 2]" "[0, 0, 0]" "[1, 2, 3, 4, 5, 6]" 4096] by auto

text \<open>A chunk larger than the buffer overruns it when the file has that many bytes.\<close>

lemma chunk_overruns:
  "b_file c = plain_file page content \<Longrightarrow> length (b_buffer c) < r \<Longrightarrow> length (b_buffer c) < length content - b_offset c \<Longrightarrow>
   fileio_binary_read_chunk r c = None"
  by (auto simp: fileio_binary_read_chunk_def ina_file_read_def plain_file_def)

text \<open>Going to the begin or the end of the file leaves the position that is reported alone.\<close>

lemma bof_keeps_pos: "fileio_get_pos (fileio_set_bof c) = fileio_get_pos c" "fileio_get_pos (fileio_set_eof c) = fileio_get_pos c"
  by (simp_all add: fileio_get_pos_def fileio_set_bof_def fileio_set_eof_def)

end
