(* ===== verification/Inac_Stopwatch.thy ===== *)
theory Inac_Stopwatch
  imports Inac_Time
begin

text \<open>
  The stopwatch of \<open>src/stopwatch.c\<close> on a POSIX system.  Its data lie in one block of a memory pool: a header of
  128 bytes and then the stamps, 120 bytes each; \<open>sw_room\<close> is the number of bytes that the block really has,
  and an access behind them is a crash.  Durations are floating-point numbers of a type \<open>'d\<close>; \<open>dur s n\<close> is
  the number for \<open>s\<close> seconds and \<open>n\<close> nanoseconds.

  Shown: laps are the differences of neighbouring clock readings, the block that is asked for is too
  short, and walking over the stamps never ends.
\<close>

section \<open>Data\<close>

definition INA_STOPWATCH_MAX_STAMPS :: nat where "INA_STOPWATCH_MAX_STAMPS = 1024"
definition INA_STOPWATCH_MAX_USERDATA_LEN :: nat where "INA_STOPWATCH_MAX_USERDATA_LEN = 32"

definition sizeof_stopwatch :: nat where "sizeof_stopwatch = 32"
definition offset_stamps :: nat where "offset_stamps = 128"
definition sizeof_ts :: nat where "sizeof_ts = 120"

definition ERR_EMPTY :: ina_rc_t where "ERR_EMPTY = INA_ERR ''EMPTY''"
definition ERR_END_OF :: ina_rc_t where "ERR_END_OF = INA_ERR ''END_OF''"
definition ERR_OVERFLOW :: ina_rc_t where "ERR_OVERFLOW = INA_ERR ''OVERFLOW''"
definition ERR_WATCH_STOPPED :: ina_rc_t where "ERR_WATCH_STOPPED = INA_ERR_NOT_of ''RUNNING''"
definition ERR_INVALID :: ina_rc_t where "ERR_INVALID = INA_ERR_NOT_of ''VALID''"
definition ERR_STATE_INVALID :: ina_rc_t where "ERR_STATE_INVALID = INA_ES ''STATE'' OR INA_ERR_NOT_of ''VALID''"

record 'd stopwatch_ts =
  ts_stamp :: "'d tsc"
  ts_duration :: 'd
  ts_user_data1 :: byte_seq
  ts_user_data2 :: byte_seq

record 'd stopwatch_tv =
  tv_start :: "'d tsc"
  tv_stop :: "'d tsc"
  tv_max_stamps :: nat
  tv_next_stamp :: nat
  tv_duration :: 'd
  tv_stamps :: "nat \<Rightarrow> 'd stopwatch_ts"

record 'd stopwatch =
  sw_room :: nat
  sw_tv :: "'d stopwatch_tv"
  sw_ts :: "nat option"

definition zero_tsc :: "('d :: zero) tsc" where
  "zero_tsc = \<lparr>tp_sec = 0, tp_nsec = 0, rtp = 0, ref = 0, refhpet = 0, ticks_per_nano = 0\<rparr>"

definition zero_ts :: "('d :: zero) stopwatch_ts" where
  "zero_ts = \<lparr>ts_stamp = zero_tsc, ts_duration = 0, ts_user_data1 = [], ts_user_data2 = []\<rparr>"

definition slot_ok :: "'d stopwatch \<Rightarrow> nat \<Rightarrow> bool" where
  "slot_ok sw i \<longleftrightarrow> offset_stamps + sizeof_ts * (i + 1) \<le> sw_room sw"

definition set_ts :: "nat \<Rightarrow> ('d stopwatch_ts \<Rightarrow> 'd stopwatch_ts) \<Rightarrow> 'd stopwatch \<Rightarrow> 'd stopwatch" where
  "set_ts i f sw = sw\<lparr>sw_tv := (sw_tv sw)\<lparr>tv_stamps := (tv_stamps (sw_tv sw))(i := f (tv_stamps (sw_tv sw) i))\<rparr>\<rparr>"

section \<open>Operations\<close>

text \<open>\<open>pool size\<close> is the result of the pool for a block of \<open>size\<close> bytes: an error, or the bytes the block has and
  what lies in it; \<open>neg\<close> is the number -1.\<close>

definition ina_stopwatch_init ::
    "(nat \<Rightarrow> (nat \<times> 'd stopwatch_tv) ina_res) \<Rightarrow> 'd \<Rightarrow> bool \<Rightarrow> nat \<Rightarrow> 'd stopwatch ina_res option" where
  "ina_stopwatch_init pool neg create max_stamps =
     (let size = sizeof_stopwatch + max_stamps * sizeof_ts
      in case pool size of
           Inl e \<Rightarrow> Some (Inl e)
         | Inr (room, tv) \<Rightarrow>
             if create
             then if size > 2 ^ 31 - 1 then Some (Inl ERR_OVERFLOW)
                  else if room < offset_stamps then None
                  else Some (Inr \<lparr>sw_room = room, sw_tv = tv\<lparr>tv_max_stamps := max_stamps, tv_duration := neg\<rparr>, sw_ts = None\<rparr>)
             else Some (Inr \<lparr>sw_room = room, sw_tv = tv, sw_ts = None\<rparr>))"

definition ina_stopwatch_new ::
    "(nat \<Rightarrow> (nat \<times> 'd stopwatch_tv) ina_res) \<Rightarrow> 'd \<Rightarrow> int \<Rightarrow> int \<Rightarrow> 'd stopwatch ina_res option" where
  "ina_stopwatch_new pool neg i max_stamps =
     (let size = (if max_stamps = -1 then (if 0 < i then INA_STOPWATCH_MAX_STAMPS else 0) else INA_STOPWATCH_MAX_STAMPS)
      in ina_stopwatch_init pool neg True size)"

definition ina_stopwatch_open :: "(nat \<Rightarrow> (nat \<times> 'd stopwatch_tv) ina_res) \<Rightarrow> 'd \<Rightarrow> 'd stopwatch ina_res option" where
  "ina_stopwatch_open pool neg = ina_stopwatch_init pool neg False INA_STOPWATCH_MAX_STAMPS"

definition ina_stopwatch_started :: "('d :: zero) stopwatch \<Rightarrow> unit ina_res" where
  "ina_stopwatch_started sw = (if tv_duration (sw_tv sw) = 0 then Inr () else Inl ERR_WATCH_STOPPED)"

definition ina_stopwatch_valid :: "'d stopwatch \<Rightarrow> unit ina_res" where
  "ina_stopwatch_valid sw =
     (let a = tv_start (sw_tv sw); b = tv_stop (sw_tv sw)
      in if sint (tp_sec b) < sint (tp_sec a) then Inl ERR_INVALID
         else if tp_sec b = tp_sec a \<and> sint (tp_nsec b) < sint (tp_nsec a) then Inl ERR_INVALID
         else Inr ())"

definition ina_stopwatch_start ::
    "'d tsc_globals \<Rightarrow> (u64 \<times> u64) option \<Rightarrow> u64 \<Rightarrow> 'd tsc option \<Rightarrow> ('d :: zero) stopwatch \<Rightarrow> (unit ina_res \<times> 'd stopwatch) option" where
  "ina_stopwatch_start g clock counter start sw =
     (let tv = sw_tv sw
      in if sw_room sw < offset_stamps + sizeof_ts * tv_max_stamps tv then None
         else let tv = tv\<lparr>tv_duration := 0, tv_next_stamp := 0,
                          tv_stamps := (\<lambda>i. if i < tv_max_stamps tv then zero_ts else tv_stamps tv i)\<rparr>
              in (case start of
                    Some t \<Rightarrow> Some (Inr (), sw\<lparr>sw_tv := tv\<lparr>tv_start := t\<rparr>\<rparr>)
                  | None \<Rightarrow>
                      let (r, t) = ina_time_read_tsc_clock g clock counter (tv_start tv) in Some (r, sw\<lparr>sw_tv := tv\<lparr>tv_start := t\<rparr>\<rparr>)))"

definition ina_stopwatch_start_time :: "'d stopwatch \<Rightarrow> 'd tsc" where "ina_stopwatch_start_time sw = tv_start (sw_tv sw)"

definition ina_stopwatch_stop_time :: "'d stopwatch \<Rightarrow> 'd tsc" where "ina_stopwatch_stop_time sw = tv_stop (sw_tv sw)"

definition ina_stopwatch_duration :: "('d :: zero) stopwatch \<Rightarrow> 'd ina_res" where
  "ina_stopwatch_duration sw =
     (if is_ok (ina_stopwatch_started sw) then Inl INA_ERR_INVALID_ARGUMENT else Inr (tv_duration (sw_tv sw)))"

text \<open>\<open>strncpy\<close> of a C string into a field, with the terminator behind it.\<close>

definition user_text :: "byte_seq option \<Rightarrow> byte_seq \<Rightarrow> byte_seq" where
  "user_text src old =
     (case src of None \<Rightarrow> old | Some s \<Rightarrow> take (INA_STOPWATCH_MAX_USERDATA_LEN - 1) (takeWhile (\<lambda>b. b \<noteq> 0) s))"

definition ina_stopwatch_stamp ::
    "'d tsc_globals \<Rightarrow> (u64 \<times> u64) option \<Rightarrow> u64 \<Rightarrow> byte_seq option \<Rightarrow> byte_seq option \<Rightarrow> 'd stopwatch \<Rightarrow>
      (unit ina_res \<times> 'd stopwatch) option" where
  "ina_stopwatch_stamp g clock counter user_data1 user_data2 sw =
     (if tv_max_stamps (sw_tv sw) = 0 then Some (Inl ERR_STATE_INVALID, sw)
      else let si = tv_next_stamp (sw_tv sw);
               sw = sw\<lparr>sw_tv := (sw_tv sw)\<lparr>tv_next_stamp := si + 1\<rparr>\<rparr>
           in if si > tv_max_stamps (sw_tv sw) then Some (Inl ERR_OVERFLOW, sw)
              else if \<not> slot_ok sw si then None
              else Some (Inr (), set_ts si (\<lambda>ts. ts\<lparr>ts_stamp := snd (ina_time_read_tsc_clock g clock counter (ts_stamp ts)),
                     ts_user_data1 := user_text user_data1 (ts_user_data1 ts),
                     ts_user_data2 := user_text user_data2 (ts_user_data2 ts)\<rparr>) sw))"

definition with_tp :: "u64 \<times> u64 \<Rightarrow> 'd tsc \<Rightarrow> 'd tsc" where
  "with_tp sn t = t\<lparr>tp_sec := fst sn, tp_nsec := snd sn\<rparr>"

definition tp_diff :: "(int \<Rightarrow> int \<Rightarrow> 'd) \<Rightarrow> 'd tsc \<Rightarrow> 'd tsc \<Rightarrow> 'd" where
  "tp_diff dur a b = dur (sint (tp_sec a - tp_sec b)) (sint (tp_nsec a - tp_nsec b))"

definition lap ::
    "(u64 \<Rightarrow> 'd \<Rightarrow> u64) \<Rightarrow> (int \<Rightarrow> int \<Rightarrow> 'd) \<Rightarrow> 'd tsc_globals \<Rightarrow> nat \<Rightarrow> 'd stopwatch \<Rightarrow> 'd stopwatch" where
  "lap scale dur g i sw =
     (let tv = sw_tv sw;
          start = (if i = 0 then with_tp (ina_time_tsc_seconds_nanos scale g (tv_start tv)) (tv_start tv) else tv_start tv);
          stamp = (ts_stamp (tv_stamps tv i))\<lparr>ref := ref start, refhpet := refhpet start\<rparr>;
          stamp = with_tp (ina_time_tsc_seconds_nanos scale g stamp) stamp;
          prev = (if i = 0 then start else ts_stamp (tv_stamps tv (i - 1)))
      in set_ts i (\<lambda>ts. ts\<lparr>ts_stamp := stamp, ts_duration := tp_diff dur stamp prev\<rparr>) (sw\<lparr>sw_tv := tv\<lparr>tv_start := start\<rparr>\<rparr>))"

text \<open>Reading: the index of the stamp that the returned pointer points to.\<close>

definition ina_stopwatch_read_stamp ::
    "(u64 \<Rightarrow> 'd \<Rightarrow> u64) \<Rightarrow> (int \<Rightarrow> int \<Rightarrow> 'd) \<Rightarrow> 'd tsc_globals \<Rightarrow> int \<Rightarrow> ('d :: zero) stopwatch \<Rightarrow> (nat ina_res \<times> 'd stopwatch) option" where
  "ina_stopwatch_read_stamp scale dur g stamp_index sw =
     (let sw = sw\<lparr>sw_ts := None\<rparr>
      in if tv_max_stamps (sw_tv sw) = 0 then Some (Inl ERR_EMPTY, sw)
         else if stamp_index \<ge> int (tv_next_stamp (sw_tv sw)) then Some (Inl ERR_END_OF, sw)
         else let stamp_index = (if stamp_index = -1 then int (tv_next_stamp (sw_tv sw)) else stamp_index);
                  i = nat stamp_index
              in if stamp_index < 0 \<or> \<not> slot_ok sw i then None
                 else let sw = sw\<lparr>sw_ts := Some i\<rparr>;
                          sw = (if ts_duration (tv_stamps (sw_tv sw) i) = 0 then lap scale dur g i sw else sw)
                      in Some (Inr i, sw))"

text \<open>Walking over the stamps with a callback, as many rounds as \<open>n\<close>: \<open>None\<close> when it has not come to an end.\<close>

fun foreach_stamp ::
    "(u64 \<Rightarrow> 'd \<Rightarrow> u64) \<Rightarrow> (int \<Rightarrow> int \<Rightarrow> 'd) \<Rightarrow> 'd tsc_globals \<Rightarrow> ('d stopwatch_ts \<Rightarrow> unit ina_res) \<Rightarrow> nat \<Rightarrow> int \<Rightarrow>
      ('d :: zero) stopwatch \<Rightarrow> 'd stopwatch option option" where
  "foreach_stamp scale dur g f 0 index sw = None"
| "foreach_stamp scale dur g f (Suc n) index sw =
     (case ina_stopwatch_read_stamp scale dur g index sw of
        None \<Rightarrow> Some None
      | Some (Inl _, sw) \<Rightarrow> Some (Some sw)
      | Some (Inr i, sw) \<Rightarrow>
          if is_ok (f (tv_stamps (sw_tv sw) i)) then foreach_stamp scale dur g f n index sw else Some (Some sw))"

definition ina_stopwatch_stop ::
    "(u64 \<Rightarrow> 'd \<Rightarrow> u64) \<Rightarrow> (int \<Rightarrow> int \<Rightarrow> 'd) \<Rightarrow> 'd tsc_globals \<Rightarrow> (u64 \<times> u64) option \<Rightarrow> u64 \<Rightarrow> 'd stopwatch \<Rightarrow> unit ina_res \<times> 'd stopwatch" where
  "ina_stopwatch_stop scale dur g clock counter sw =
     (let tv = sw_tv sw;
          stop = (snd (ina_time_read_tsc_clock g clock counter (tv_stop tv)))\<lparr>ref := ref (tv_start tv), refhpet := refhpet (tv_start tv)\<rparr>;
          start = with_tp (ina_time_tsc_seconds_nanos scale g (tv_start tv)) (tv_start tv);
          stop = with_tp (ina_time_tsc_seconds_nanos scale g stop) stop;
          sw = sw\<lparr>sw_tv := tv\<lparr>tv_start := start, tv_stop := stop, tv_duration := tp_diff dur stop start\<rparr>\<rparr>
      in (ina_stopwatch_valid sw, sw))"

section \<open>Laps\<close>

lemma os_secnan_id:
  assumes "ref t = refhpet t" "unat (tp_nsec t) < 1000000000" "unat (tp_sec t) * 1000000000 + unat (tp_nsec t) < 2 ^ 64"
  shows "tsc_os_secnan t = (tp_sec t, tp_nsec t)"
proof -
  let ?ns = "tp_sec t * 1000000000 + tp_nsec t"
  have "unat (tp_sec t) * 1000000000 < 2 ^ LENGTH(64)" using assms(3) by simp
  then have "unat (tp_sec t * 1000000000) = unat (tp_sec t) * 1000000000" using unat_word_ariths(2) [of "tp_sec t" 1000000000] by simp
  then have u: "unat ?ns = unat (tp_nsec t) + unat (tp_sec t) * 1000000000"
    using assms(3) unat_word_ariths(1) [of "tp_sec t * 1000000000" "tp_nsec t"] by simp
  have "unat (?ns div 1000000000) = unat (tp_sec t)" "unat (?ns mod 1000000000) = unat (tp_nsec t)"
    using assms(2) by (simp_all add: unat_div unat_mod u)
  then have "?ns div 1000000000 = tp_sec t" "?ns mod 1000000000 = tp_nsec t" by (simp_all only: word_unat_eq_iff)
  then show ?thesis using assms(1) by (simp add: tsc_os_secnan_def Let_def)
qed

definition sane :: "u64 \<times> u64 \<Rightarrow> bool" where
  "sane c \<longleftrightarrow> unat (snd c) < 1000000000 \<and> unat (fst c) * 1000000000 + unat (snd c) < 2 ^ 64"

text \<open>Stamps taken one after the other, at the given clock readings.\<close>

fun run_stamps :: "'d tsc_globals \<Rightarrow> (u64 \<times> u64) list \<Rightarrow> 'd stopwatch \<Rightarrow> 'd stopwatch option" where
  "run_stamps g [] sw = Some sw"
| "run_stamps g (c # cs) sw =
     (case ina_stopwatch_stamp g (Some c) 0 None None sw of
        Some (Inr _, sw) \<Rightarrow> run_stamps g cs sw
      | _ \<Rightarrow> None)"

text \<open>The watch was started at \<open>c0\<close> and stamped at \<open>cs\<close>.\<close>

definition stamped :: "u64 \<times> u64 \<Rightarrow> (u64 \<times> u64) list \<Rightarrow> nat \<Rightarrow> ('d :: zero) stopwatch \<Rightarrow> bool" where
  "stamped c0 cs mx sw \<longleftrightarrow>
     tv_max_stamps (sw_tv sw) = mx \<and> tv_next_stamp (sw_tv sw) = length cs \<and> offset_stamps + sizeof_ts * mx \<le> sw_room sw \<and>
     (tp_sec (tv_start (sw_tv sw)), tp_nsec (tv_start (sw_tv sw))) = c0 \<and> ref (tv_start (sw_tv sw)) = refhpet (tv_start (sw_tv sw)) \<and>
     (\<forall>i < mx. tv_stamps (sw_tv sw) i = (if i < length cs then zero_ts\<lparr>ts_stamp := with_tp (cs ! i) zero_tsc\<rparr> else zero_ts))"

lemma slot_inside: "offset_stamps + sizeof_ts * mx \<le> sw_room sw \<Longrightarrow> i < mx \<Longrightarrow> slot_ok sw i"
proof -
  assume "offset_stamps + sizeof_ts * mx \<le> sw_room sw" "i < mx"
  moreover from this have "sizeof_ts * (i + 1) \<le> sizeof_ts * mx" by (intro mult_le_mono2) simp
  ultimately show ?thesis unfolding slot_ok_def by linarith
qed

lemma stamp_step:
  assumes "stamped c0 cs mx sw" "length cs < mx" "g_backend g = Os"
  shows "\<exists>sw'. ina_stopwatch_stamp g (Some c) 0 None None sw = Some (Inr (), sw') \<and> stamped c0 (cs @ [c]) mx sw'"
proof -
  have z: "tv_stamps (sw_tv sw) (length cs) = zero_ts" using assms(1,2) by (simp add: stamped_def)
  have "slot_ok sw (length cs)" using slot_inside [of mx sw] assms(1,2) by (simp add: stamped_def)
  then have k: "slot_ok (sw\<lparr>sw_tv := x\<rparr>) (length cs)" for x by (simp add: slot_ok_def)
  show ?thesis using assms k z
    by (auto simp: ina_stopwatch_stamp_def stamped_def set_ts_def user_text_def ina_time_read_tsc_clock_def tsc_os_read_def zero_ts_def
          zero_tsc_def with_tp_def nth_append less_Suc_eq Let_def split: prod.splits)
qed

lemma run_stamps_stamped:
  assumes "stamped c0 cs mx sw" "length cs + length cs' \<le> mx" "g_backend g = Os"
  shows "\<exists>sw'. run_stamps g cs' sw = Some sw' \<and> stamped c0 (cs @ cs') mx sw'"
  using assms(1,2)
proof (induction cs' arbitrary: cs sw)
  case (Cons c cs')
  then obtain sw1 where sw1: "ina_stopwatch_stamp g (Some c) 0 None None sw = Some (Inr (), sw1)" "stamped c0 (cs @ [c]) mx sw1"
    using stamp_step [OF Cons.prems(1) _ assms(3), of c] by auto
  then show ?case using Cons.IH [OF sw1(2)] Cons.prems(2) by simp
qed simp

lemma start_stamped:
  assumes "g_backend g = Os" "offset_stamps + sizeof_ts * tv_max_stamps (sw_tv sw) \<le> sw_room sw"
    "ref (tv_start (sw_tv sw)) = refhpet (tv_start (sw_tv sw))"
  shows "\<exists>sw'. ina_stopwatch_start g (Some c0) 0 None sw = Some (Inr (), sw') \<and> stamped c0 [] (tv_max_stamps (sw_tv sw)) sw'"
  using assms by (cases c0) (auto simp: ina_stopwatch_start_def stamped_def ina_time_read_tsc_clock_def tsc_os_read_def Let_def)

lemma lap_stamped:
  fixes sw :: "('d :: zero) stopwatch"
  assumes "stamped c0 cs mx sw" "g_backend g = Os" "i < length cs" "length cs \<le> mx" "sane c0" "\<forall>c\<in>set cs. sane c"
  shows "ts_duration (tv_stamps (sw_tv (lap scale dur g i sw)) i) =
    dur (sint (fst (cs ! i) - fst ((c0 # cs) ! i))) (sint (snd (cs ! i) - snd ((c0 # cs) ! i)))"
proof -
  let ?s = "tv_start (sw_tv sw)"
  have st: "tp_sec ?s = fst c0" "tp_nsec ?s = snd c0" "ref ?s = refhpet ?s" using assms(1) by (auto simp: stamped_def)
  have ts: "ts_stamp (tv_stamps (sw_tv sw) j) = with_tp (cs ! j) zero_tsc" if "j < length cs" for j
    using assms(1,4) that by (simp add: stamped_def)
  have a: "tsc_os_secnan ?s = c0" using os_secnan_id [of ?s] st assms(5) by (simp add: sane_def)
  have "sane (cs ! i)" using assms(3,6) by simp
  then have b: "tsc_os_secnan ((with_tp (cs ! i) (zero_tsc :: 'd tsc))\<lparr>ref := r, refhpet := r\<rparr>) = cs ! i" for r
    using os_secnan_id [of "(with_tp (cs ! i) zero_tsc)\<lparr>ref := r, refhpet := r\<rparr>"] by (simp add: sane_def with_tp_def)
  show ?thesis
  proof (cases i)
    case 0
    then show ?thesis using a b [of "refhpet ?s"] ts [of 0] assms(2,3) st
      by (simp add: lap_def set_ts_def Let_def ina_time_tsc_seconds_nanos_def tp_diff_def) (simp add: with_tp_def)
  next
    case (Suc j)
    then show ?thesis using b [of "refhpet ?s"] ts [of i] ts [of j] assms(2,3) st
      by (simp add: lap_def set_ts_def Let_def ina_time_tsc_seconds_nanos_def tp_diff_def) (simp add: with_tp_def)
  qed
qed

text \<open>C23. Laps.  A watch with room for its stamps is started at \<open>c0\<close> and stamped at \<open>cs\<close>, not more often than it
  has stamps, with the system clock as source.  Every stamp is taken; reading stamp \<open>i\<close> for the first time
  succeeds and gives the time between the reading before it (\<open>c0\<close> for the first) and its own.\<close>

theorem stopwatch_laps:
  assumes "g_backend g = Os" "offset_stamps + sizeof_ts * tv_max_stamps (sw_tv sw) \<le> sw_room sw"
    "ref (tv_start (sw_tv sw)) = refhpet (tv_start (sw_tv sw))"
    "i < length cs" "length cs \<le> tv_max_stamps (sw_tv sw)" "sane c0" "\<forall>c\<in>set cs. sane c"
  shows "\<exists>sw1 sw2 sw3. ina_stopwatch_start g (Some c0) 0 None sw = Some (Inr (), sw1) \<and> run_stamps g cs sw1 = Some sw2 \<and>
    ina_stopwatch_read_stamp scale dur g (int i) sw2 = Some (Inr i, sw3) \<and>
    ts_duration (tv_stamps (sw_tv sw3) i) = dur (sint (fst (cs ! i) - fst ((c0 # cs) ! i))) (sint (snd (cs ! i) - snd ((c0 # cs) ! i)))"
proof -
  let ?mx = "tv_max_stamps (sw_tv sw)"
  obtain sw1 where sw1: "ina_stopwatch_start g (Some c0) 0 None sw = Some (Inr (), sw1)" "stamped c0 [] ?mx sw1"
    using start_stamped [OF assms(1-3)] by blast
  then obtain sw2 where sw2: "run_stamps g cs sw1 = Some sw2" "stamped c0 cs ?mx sw2"
    using run_stamps_stamped [OF sw1(2), of cs g] assms(1,5) by auto
  let ?sw = "sw2\<lparr>sw_ts := Some i\<rparr>"
  have st: "stamped c0 cs ?mx ?sw" using sw2(2) by (simp add: stamped_def)
  have z: "ts_duration (tv_stamps (sw_tv sw2) i) = 0" using sw2(2) assms(4,5) by (simp add: stamped_def zero_ts_def)
  have "slot_ok sw2 i" using slot_inside [of ?mx sw2 i] sw2(2) assms(4,5) by (simp add: stamped_def)
  then have "ina_stopwatch_read_stamp scale dur g (int i) sw2 = Some (Inr i, lap scale dur g i ?sw)"
    using sw2(2) assms(4,5) z by (simp add: ina_stopwatch_read_stamp_def stamped_def slot_ok_def Let_def)
  then show ?thesis using sw1(1) sw2(1) lap_stamped [OF st assms(1,4,5,6,7)] by blast
qed

definition sample_watch :: "nat \<Rightarrow> int stopwatch" where
  "sample_watch room =
     \<lparr>sw_room = room,
      sw_tv = \<lparr>tv_start = zero_tsc, tv_stop = zero_tsc, tv_max_stamps = 2, tv_next_stamp = 0, tv_duration = 0, tv_stamps = (\<lambda>_. zero_ts)\<rparr>,
      sw_ts = None\<rparr>"

theorem stopwatch_laps_witness:
  "\<exists>sw1 sw2 sw3. ina_stopwatch_start tsc_globals_init (Some (5, 100)) 0 None (sample_watch 400) = Some (Inr (), sw1) \<and>
    run_stamps tsc_globals_init [(7, 300), (8, 200)] sw1 = Some sw2 \<and>
    ina_stopwatch_read_stamp (\<lambda>x _. x) (\<lambda>s n. s * 1000000000 + n) tsc_globals_init 1 sw2 = Some (Inr 1, sw3) \<and>
    ts_duration (tv_stamps (sw_tv sw3) 1) = 999999900"
  using stopwatch_laps [of tsc_globals_init "sample_watch 400" 1 "[(7, 300), (8, 200)]" "(5, 100)" "\<lambda>x _. x" "\<lambda>s n. s * 1000000000 + n"]
  by (simp add: tsc_globals_init_def sample_watch_def offset_stamps_def sizeof_ts_def zero_tsc_def sane_def)

section \<open>Limits\<close>

text \<open>The block of a stopwatch is too short.  The size that is asked for counts the wrong structure: when
  the pool gives just that many bytes, creating a watch without stamps writes behind the block, and so does
  every start of a watch with stamps.\<close>

theorem stopwatch_block_short:
  assumes "\<And>size. pool size = Inr (size, tv)" "n < 2 ^ 24"
  shows "case ina_stopwatch_init pool neg True n of
      None \<Rightarrow> n = 0 | Some (Inl _) \<Rightarrow> False | Some (Inr sw) \<Rightarrow> ina_stopwatch_start g clock counter start sw = None"
  using assms by (auto simp: ina_stopwatch_init_def ina_stopwatch_start_def Let_def sizeof_stopwatch_def offset_stamps_def sizeof_ts_def)

theorem stopwatch_block_short_witness:
  "case ina_stopwatch_init (\<lambda>size. Inr (size, sw_tv (sample_watch 0))) (-1) True 1024 of
     None \<Rightarrow> False | Some (Inl _) \<Rightarrow> False | Some (Inr sw) \<Rightarrow> ina_stopwatch_start tsc_globals_init None 0 None sw = None"
  using stopwatch_block_short [where pool = "\<lambda>size. Inr (size, sw_tv (sample_watch 0))" and tv = "sw_tv (sample_watch 0)" and n = 1024 and neg = "-1"
      and g = tsc_globals_init and clock = None and counter = 0 and start = None]
  by (simp split: option.splits)

lemma read_keeps:
  assumes "slot_ok sw 0" "0 < tv_max_stamps (sw_tv sw)" "0 < tv_next_stamp (sw_tv sw)"
  shows "\<exists>sw'. ina_stopwatch_read_stamp scale dur g 0 sw = Some (Inr 0, sw') \<and> slot_ok sw' 0 \<and> 0 < tv_max_stamps (sw_tv sw') \<and>
    0 < tv_next_stamp (sw_tv sw')"
  using assms by (auto simp: ina_stopwatch_read_stamp_def Let_def slot_ok_def lap_def set_ts_def)

text \<open>Walking over the stamps never ends.  The index is not advanced, so on a watch with at least one stamp
  and a callback that always succeeds no number of rounds brings the walk to its end.\<close>

theorem stopwatch_foreach_diverges:
  assumes "slot_ok sw 0" "0 < tv_max_stamps (sw_tv sw)" "0 < tv_next_stamp (sw_tv sw)" "\<And>ts. is_ok (f ts)"
  shows "foreach_stamp scale dur g f n 0 sw = None"
  using assms(1-3)
proof (induction n arbitrary: sw)
  case (Suc n)
  then obtain sw' where "ina_stopwatch_read_stamp scale dur g 0 sw = Some (Inr 0, sw')" "slot_ok sw' 0" "0 < tv_max_stamps (sw_tv sw')"
    "0 < tv_next_stamp (sw_tv sw')" using read_keeps by blast
  then show ?case using Suc.IH assms(4) by simp
qed simp

theorem stopwatch_foreach_diverges_witness:
  "foreach_stamp (\<lambda>x _. x) (\<lambda>s n. s * 1000000000 + n) tsc_globals_init (\<lambda>_. Inr ()) 100 0
     ((sample_watch 400)\<lparr>sw_tv := (sw_tv (sample_watch 400))\<lparr>tv_next_stamp := 1\<rparr>\<rparr>) = None"
  by (rule stopwatch_foreach_diverges) (simp_all add: sample_watch_def slot_ok_def offset_stamps_def sizeof_ts_def)

end
