(* ===== verification/Inac_Log.thy ===== *)
theory Inac_Log
  imports Inac_Str_Scan
begin

text \<open>
  Logging (\<open>src/log.c\<close>, \<open>include/libinac/log.h\<close>) on a POSIX system: starting and ending it, the rules that
  make targets, the routing of a message to the targets of its level, and the three ways of writing.
  The reader of configurations (\<open>src/conffile.c\<close> runs a script for it) is an argument that gives the
  sections in the order their handlers are called; so are the date and the process number, as printed.
  The outside is a record of the standard streams, the files and the system log; opening a file
  succeeds, and what a stream holds back at its closing counts as written.  Texts are byte lists
  without a zero byte.  No context is opened after \<open>ina_log_destroy\<close>.

  Shown: where the default configuration sends messages; that a buffered target in append mode keeps
  every message in order as long as lengths do not fall; that the check of the buffer compares the
  wrong sizes and overruns it; what the truncating mode loses; how the start-up confuses a text
  with a file name.
\<close>

section \<open>Data\<close>

type_synonym ctext = byte_seq

definition ascii :: "string \<Rightarrow> ctext" where "ascii s = map (\<lambda>c. of_nat (of_char c)) s"

definition LEVEL_DEBUG :: u32 where "LEVEL_DEBUG = 1"
definition LEVEL_INFO :: u32 where "LEVEL_INFO = 2"
definition LEVEL_WARNING :: u32 where "LEVEL_WARNING = 4"
definition LEVEL_ERROR :: u32 where "LEVEL_ERROR = 8"

definition MAX_BUFFER_SIZE :: nat where "MAX_BUFFER_SIZE = 2 * 1024 * 1024"
definition DFT_BUFFER_SIZE :: nat where "DFT_BUFFER_SIZE = 4 * 1024"

datatype log_target = LOG_STDOUT | LOG_STDERR | LOG_FILE | LOG_SYSLOG | LOG_PIPELINE

datatype write_fn = Write_to_file | Write_to_buffer | Write_to_syslog

datatype stream = Stdout | Stderr | Stream

record target =
  t_write_fn :: "write_fn option"
  t_filepath :: ctext
  t_syslog_ident :: ctext
  t_level :: u32
  t_type :: log_target
  t_buffer_size :: nat
  t_truncate :: bool
  t_buffer :: "byte_seq option"
  t_fp :: "stream option"

record world =
  w_stdout :: byte_seq
  w_stderr :: byte_seq
  w_files :: "ctext \<Rightarrow> byte_seq"
  w_syslog :: "(ctext \<times> u32 \<times> ctext) list"

record log_ctx =
  l_targets :: "target list"
  l_category :: ctext
  l_buffer_size :: nat
  l_pid :: ctext

section \<open>Writing\<close>

text \<open>Opening with mode \<open>"w"\<close> cuts the file, with \<open>"a"\<close> it keeps it; writing appends.\<close>

definition fopen :: "ctext \<Rightarrow> bool \<Rightarrow> world \<Rightarrow> world" where
  "fopen path trunc w = (if trunc then w\<lparr>w_files := (w_files w)(path := [])\<rparr> else w)"

definition fput :: "stream \<Rightarrow> ctext \<Rightarrow> byte_seq \<Rightarrow> world \<Rightarrow> world" where
  "fput fp path bs w =
     (case fp of
        Stdout \<Rightarrow> w\<lparr>w_stdout := w_stdout w @ bs\<rparr>
      | Stderr \<Rightarrow> w\<lparr>w_stderr := w_stderr w @ bs\<rparr>
      | Stream \<Rightarrow> w\<lparr>w_files := (w_files w)(path := w_files w path @ bs)\<rparr>)"

definition open_target :: "target \<Rightarrow> world \<Rightarrow> stream \<times> world" where
  "open_target t w = (case t_fp t of None \<Rightarrow> (Stream, fopen (t_filepath t) (t_truncate t) w) | Some fp \<Rightarrow> (fp, w))"

definition ina_write_to_file :: "target \<Rightarrow> ctext \<Rightarrow> world \<Rightarrow> target \<times> world" where
  "ina_write_to_file t msg w =
     (let (fp, w) = open_target t w in (t\<lparr>t_fp := Some fp\<rparr>, fput fp (t_filepath t) msg w))"

text \<open>\<open>None\<close>: the copy runs behind the buffer.\<close>

definition ina_write_to_buffer :: "target \<Rightarrow> ctext \<Rightarrow> world \<Rightarrow> (target \<times> world) option" where
  "ina_write_to_buffer t msg w =
     (let used = (case t_buffer t of None \<Rightarrow> [] | Some b \<Rightarrow> b);
          (used, t, w) =
            (if length used < length msg + 1
             then let (fp, w) = open_target t w in ([], t\<lparr>t_fp := None\<rparr>, fput fp (t_filepath t) used w)
             else (used, t, w))
      in if t_buffer_size t < length used + length msg then None
         else Some (t\<lparr>t_buffer := Some (used @ msg)\<rparr>, w))"

definition ina_write_to_syslog :: "target \<Rightarrow> u32 \<Rightarrow> ctext \<Rightarrow> world \<Rightarrow> world" where
  "ina_write_to_syslog t level msg w =
     (if level \<in> {LEVEL_DEBUG, LEVEL_INFO, LEVEL_WARNING, LEVEL_ERROR}
      then w\<lparr>w_syslog := w_syslog w @ [(t_syslog_ident t, level, msg)]\<rparr> else w)"

text \<open>A target without a writer, whose rule named no target, is called through a null pointer.\<close>

definition write_target :: "u32 \<Rightarrow> ctext \<Rightarrow> target \<Rightarrow> world \<Rightarrow> (target \<times> world) option" where
  "write_target level msg t w =
     (case t_write_fn t of
        None \<Rightarrow> None
      | Some Write_to_file \<Rightarrow> Some (ina_write_to_file t msg w)
      | Some Write_to_buffer \<Rightarrow> ina_write_to_buffer t msg w
      | Some Write_to_syslog \<Rightarrow> Some (t, ina_write_to_syslog t level msg w))"

definition ina_free_target :: "target \<Rightarrow> world \<Rightarrow> world" where
  "ina_free_target t w =
     (case t_type t of
        LOG_FILE \<Rightarrow>
          (case t_buffer t of
             None \<Rightarrow> w
           | Some b \<Rightarrow>
               if b = [] then w
               else let (fp, w) = (case t_fp t of None \<Rightarrow> (Stream, fopen (t_filepath t) False w) | Some fp \<Rightarrow> (fp, w))
                    in fput fp (t_filepath t) b w)
      | _ \<Rightarrow> w)"

section \<open>Configuration\<close>

record rule_entries =
  e_target :: "ctext option"
  e_truncate :: "ctext option"
  e_syslog_ident :: "ctext option"
  e_buffer_size :: "nat option"

definition process_global_section :: "nat option \<Rightarrow> log_ctx \<Rightarrow> log_ctx" where
  "process_global_section buffer_size ctx =
     (case buffer_size of None \<Rightarrow> ctx | Some n \<Rightarrow> ctx\<lparr>l_buffer_size := min n MAX_BUFFER_SIZE\<rparr>)"

definition rule_levels :: "ctext \<Rightarrow> u32 option" where
  "rule_levels name =
     (if name = ascii ''*'' then Some (1 OR 2 OR 4 OR 8)
      else if name = ascii ''DEBUG'' then Some LEVEL_DEBUG
      else if name = ascii ''INFO'' then Some LEVEL_INFO
      else if name = ascii ''WARNING'' then Some LEVEL_WARNING
      else if name = ascii ''ERROR'' then Some LEVEL_ERROR
      else None)"

text \<open>\<open>strcasecmp\<close> with \<open>true\<close>.\<close>

definition lower :: "u8 \<Rightarrow> u8" where "lower c = (if 65 \<le> c \<and> c \<le> 90 then c + 32 else c)"

definition zero_target :: target where
  "zero_target = \<lparr>t_write_fn = None, t_filepath = [], t_syslog_ident = [], t_level = 0, t_type = LOG_STDOUT, t_buffer_size = 0,
     t_truncate = False, t_buffer = None, t_fp = None\<rparr>"

definition rule_target :: "ctext \<Rightarrow> u32 \<Rightarrow> rule_entries \<Rightarrow> nat \<Rightarrow> target" where
  "rule_target app levels en ctx_buffer_size =
     (let t = zero_target\<lparr>t_level := levels\<rparr>
      in case e_target en of
           None \<Rightarrow> t
         | Some v \<Rightarrow>
             if v = ascii ''>stdout'' then t\<lparr>t_type := LOG_STDOUT, t_fp := Some Stdout, t_write_fn := Some Write_to_file\<rparr>
             else if v = ascii ''>stderr'' then t\<lparr>t_type := LOG_STDERR, t_fp := Some Stderr, t_write_fn := Some Write_to_file\<rparr>
             else if v = ascii ''>syslog'' then
               t\<lparr>t_syslog_ident := (case e_syslog_ident en of None \<Rightarrow> app | Some i \<Rightarrow> i), t_write_fn := Some Write_to_syslog, t_type := LOG_SYSLOG\<rparr>
             else let n = (case e_buffer_size en of None \<Rightarrow> ctx_buffer_size | Some n \<Rightarrow> n)
                  in t\<lparr>t_type := LOG_FILE, t_filepath := v, t_buffer_size := n,
                       t_write_fn := Some (if n = 0 then Write_to_file else Write_to_buffer),
                       t_truncate := (case e_truncate en of None \<Rightarrow> False | Some x \<Rightarrow> map lower x = ascii ''true'')\<rparr>)"

definition process_rule_section :: "ctext \<Rightarrow> ctext \<Rightarrow> rule_entries \<Rightarrow> log_ctx \<Rightarrow> log_ctx ina_res" where
  "process_rule_section app key en ctx =
     (let tokens = (if key = [] then [] else text_split (ascii ''.'') [] key)
      in if length tokens \<noteq> 2 then Inl INA_ERR_INVALID_ARGUMENT
         else case rule_levels (tokens ! 1) of
           None \<Rightarrow> Inl INA_ERR_INVALID_ARGUMENT
         | Some levels \<Rightarrow>
             Inr (if tokens ! 0 = ascii ''*'' \<or> tokens ! 0 = l_category ctx
                  then ctx\<lparr>l_targets := l_targets ctx @ [rule_target app levels en (l_buffer_size ctx)]\<rparr>
                  else ctx))"

text \<open>The handlers are called section by section; the first error ends it.\<close>

datatype conf_section = Global "nat option" | Rule ctext rule_entries

fun process_sections :: "ctext \<Rightarrow> conf_section list \<Rightarrow> log_ctx \<Rightarrow> log_ctx ina_res" where
  "process_sections app [] ctx = Inr ctx"
| "process_sections app (Global n # rs) ctx = process_sections app rs (process_global_section n ctx)"
| "process_sections app (Rule key en # rs) ctx = res_bind (process_rule_section app key en ctx) (process_sections app rs)"

record conf_reader =
  c_string :: "ctext \<Rightarrow> conf_section list ina_res"
  c_file :: "ctext option \<Rightarrow> conf_section list ina_res"

record log_lib =
  g_init :: bool
  g_destroyed :: bool
  g_from_file :: bool
  g_cfg :: "ctext option"
  g_dft :: "log_ctx option"
  g_msg :: "ina_str option"

definition conf_process :: "conf_reader \<Rightarrow> log_lib \<Rightarrow> conf_section list ina_res" where
  "conf_process rd lib =
     (if g_from_file lib then c_file rd (g_cfg lib)
      else case g_cfg lib of
        None \<Rightarrow> Inl INA_ERR_INVALID_ARGUMENT
      | Some cfg \<Rightarrow> if cfg = [] then Inl INA_ERR_INVALID_ARGUMENT else c_string rd cfg)"

definition ina_log_ctx_new :: "conf_reader \<Rightarrow> ctext \<Rightarrow> ctext \<Rightarrow> ctext option \<Rightarrow> log_lib \<Rightarrow> log_ctx ina_res" where
  "ina_log_ctx_new rd app pid category lib =
     (case category of
        None \<Rightarrow> Inl INA_ERR_INVALID_ARGUMENT
      | Some category \<Rightarrow>
          res_bind (conf_process rd lib)
            (\<lambda>ss. process_sections app ss \<lparr>l_targets = [], l_category = category, l_buffer_size = DFT_BUFFER_SIZE, l_pid = pid\<rparr>))"

definition ina_log_ctx_free :: "log_ctx \<Rightarrow> world \<Rightarrow> world" where
  "ina_log_ctx_free ctx w = foldl (\<lambda>w t. ina_free_target t w) w (l_targets ctx)"

definition dft_rule_text :: "string \<Rightarrow> string \<Rightarrow> ctext" where
  "dft_rule_text name dest =
     ascii ''rule '' @ [34] @ ascii name @ [34] @ ascii '' {'' @ [10] @ ascii ''    target='' @ [34] @ ascii dest @ [34] @ [10] @ ascii ''}''"

definition dft_spec :: ctext where
  "dft_spec =
     ascii ''global {'' @ [10] @ ascii ''    buffer_size=4096'' @ [10] @ ascii ''}'' @ [10] @
     dft_rule_text ''*.DEBUG'' ''>stdout'' @ [10] @ dft_rule_text ''*.WARNING'' ''>stdout'' @ [10] @
     dft_rule_text ''*.INFO'' ''>stdout'' @ [10] @ dft_rule_text ''*.ERROR'' ''>stderr''"

definition ina_log_init :: "conf_reader \<Rightarrow> ctext \<Rightarrow> ctext \<Rightarrow> ctext option \<Rightarrow> log_lib \<Rightarrow> unit ina_res \<times> log_lib" where
  "ina_log_init rd app pid cfg lib =
     (if g_init lib then (Inr (), lib)
      else let cfg = (case cfg of None \<Rightarrow> [] | Some c \<Rightarrow> c);
               lib = lib\<lparr>g_init := True, g_cfg := Some (if cfg = [] then dft_spec else cfg)\<rparr>
           in case ina_log_ctx_new rd app pid (Some (ascii ''*'')) lib of
                Inl e \<Rightarrow> (Inl e, lib\<lparr>g_dft := None\<rparr>)
              | Inr ctx \<Rightarrow> (Inr (), lib\<lparr>g_dft := Some ctx\<rparr>))"

definition ina_log_init_from_file :: "conf_reader \<Rightarrow> ctext \<Rightarrow> ctext \<Rightarrow> ctext option \<Rightarrow> log_lib \<Rightarrow> unit ina_res \<times> log_lib" where
  "ina_log_init_from_file rd app pid cfg_filepath lib = ina_log_init rd app pid cfg_filepath (lib\<lparr>g_from_file := True\<rparr>)"

definition ina_log_destroy :: "log_lib \<Rightarrow> world \<Rightarrow> log_lib \<times> world" where
  "ina_log_destroy lib w =
     (if g_destroyed lib then (lib, w)
      else (lib\<lparr>g_destroyed := True, g_dft := None\<rparr>, case g_dft lib of None \<Rightarrow> w | Some ctx \<Rightarrow> ina_log_ctx_free ctx w))"

section \<open>Logging\<close>

text \<open>The line: \<open>snprintf\<close> into 2047 bytes keeps 2046 and the terminator.\<close>

definition level_mark :: "u32 \<Rightarrow> u8" where
  "level_mark level = ascii '' .- *   #'' ! unat level"

definition log_line :: "ctext \<Rightarrow> ctext \<Rightarrow> u32 \<Rightarrow> ctext \<Rightarrow> ctext" where
  "log_line pid date level msg =
     take 2046 (ascii ''['' @ pid @ ascii ''] '' @ date @ ascii '' '' @ [level_mark level] @ ascii '' '' @ msg @ [10])"

fun write_targets :: "u32 \<Rightarrow> ctext \<Rightarrow> target list \<Rightarrow> world \<Rightarrow> (target list \<times> world) option" where
  "write_targets level line [] w = Some ([], w)"
| "write_targets level line (t # ts) w =
     (case (if t_level t AND level \<noteq> 0 then write_target level line t w else Some (t, w)) of
        None \<Rightarrow> None
      | Some (t, w) \<Rightarrow> map_option (\<lambda>(ts, w). (t # ts, w)) (write_targets level line ts w))"

definition ina_log :: "ctext \<Rightarrow> u32 \<Rightarrow> ctext \<Rightarrow> log_ctx \<Rightarrow> world \<Rightarrow> (log_ctx \<times> world) option" where
  "ina_log date level msg ctx w =
     map_option (\<lambda>(ts, w). (ctx\<lparr>l_targets := ts\<rparr>, w)) (write_targets level (log_line (l_pid ctx) date level msg) (l_targets ctx) w)"

text \<open>The format is given with the text it expands to (\<open>None\<close>: an encoding error); the message buffer lives as long as the
  program.  The outer \<open>None\<close> is a crash.\<close>

definition ina_log_write_v :: "mem_env \<Rightarrow> ctext \<Rightarrow> u32 \<Rightarrow> ctext option \<Rightarrow> ctext option \<Rightarrow> ina_str option \<Rightarrow> log_ctx option \<Rightarrow> world
    \<Rightarrow> (log_ctx ina_res \<times> ina_str option \<times> world) option" where
  "ina_log_write_v env date level fmt txt msg log w =
     do { msg \<leftarrow> (case msg of None \<Rightarrow> ina_str_new env 1024 | Some s \<Rightarrow> Some (Some s));
          case log of
            None \<Rightarrow> Some (Inl INA_ERR_INVALID_ARGUMENT, msg, w)
          | Some ctx \<Rightarrow>
              if fmt = None \<or> fmt = Some [] then Some (Inl INA_ERR_INVALID_ARGUMENT, msg, w)
              else do {
                s \<leftarrow> msg;
                (l, s) \<leftarrow> ina_str_vsnprintf env s (ina_str_size (Some s) - 1) txt;
                n \<leftarrow> c_strlen (s_data s);
                (ctx, w) \<leftarrow> ina_log date level (take n (s_data s)) ctx w;
                Some (Inr ctx, Some s, w) } }"

definition ina_log_write :: "mem_env \<Rightarrow> ctext \<Rightarrow> u32 \<Rightarrow> ctext option \<Rightarrow> ctext option \<Rightarrow> log_ctx option \<Rightarrow> log_lib \<Rightarrow> world
    \<Rightarrow> (unit ina_res \<times> log_ctx option \<times> log_lib \<times> world) option" where
  "ina_log_write env date level fmt txt ctx lib w =
     (if fmt = None \<or> fmt = Some [] then Some (Inl INA_ERR_INVALID_ARGUMENT, ctx, lib, w)
      else do {
        (r, msg, w) \<leftarrow> ina_log_write_v env date level fmt txt (g_msg lib) (case ctx of None \<Rightarrow> g_dft lib | Some c \<Rightarrow> Some c) w;
        let lib = lib\<lparr>g_msg := msg\<rparr>
        in Some (case r of
                   Inl e \<Rightarrow> (Inl e, ctx, lib, w)
                 | Inr c \<Rightarrow> if ctx = None then (Inr (), None, lib\<lparr>g_dft := Some c\<rparr>, w) else (Inr (), Some c, lib, w)) })"

section \<open>The default configuration\<close>

text \<open>A call: the date, the level, the format and its expansion.\<close>

type_synonym log_call = "ctext \<times> u32 \<times> ctext \<times> ctext"

fun run_log :: "mem_env \<Rightarrow> log_call list \<Rightarrow> log_lib \<Rightarrow> world \<Rightarrow> (unit ina_res list \<times> log_lib \<times> world) option" where
  "run_log env [] lib w = Some ([], lib, w)"
| "run_log env ((date, level, fmt, txt) # cs) lib w =
     (case ina_log_write env date level (Some fmt) (Some txt) None lib w of
        None \<Rightarrow> None
      | Some (r, _, lib, w) \<Rightarrow> map_option (\<lambda>(rs, lib, w). (r # rs, lib, w)) (run_log env cs lib w))"

text \<open>The line a reader expects for a call, whatever its length.\<close>

definition call_mark :: "u32 \<Rightarrow> u8" where
  "call_mark level =
     (if level = LEVEL_DEBUG then 46 else if level = LEVEL_INFO then 45 else if level = LEVEL_WARNING then 42 else 35)"

fun call_line :: "ctext \<Rightarrow> log_call \<Rightarrow> ctext" where
  "call_line pid (date, level, fmt, txt) = [91] @ pid @ [93, 32] @ date @ [32, call_mark level, 32] @ txt @ [10]"

fun call_ok :: "ctext \<Rightarrow> log_call \<Rightarrow> bool" where
  "call_ok pid (date, level, fmt, txt) \<longleftrightarrow>
     level \<in> {LEVEL_DEBUG, LEVEL_INFO, LEVEL_WARNING, LEVEL_ERROR} \<and> fmt \<noteq> [] \<and> 0 \<notin> set txt \<and>
     length (call_line pid (date, level, fmt, txt)) \<le> 2046"

fun call_error :: "log_call \<Rightarrow> bool" where
  "call_error (date, level, fmt, txt) \<longleftrightarrow> level = LEVEL_ERROR"

definition to_stream :: "string \<Rightarrow> rule_entries" where
  "to_stream s = \<lparr>e_target = Some (ascii s), e_truncate = None, e_syslog_ident = None, e_buffer_size = None\<rparr>"

definition dft_sections :: "conf_section list" where
  "dft_sections =
     [Global (Some 4096), Rule (ascii ''*.DEBUG'') (to_stream ''>stdout''), Rule (ascii ''*.WARNING'') (to_stream ''>stdout''),
      Rule (ascii ''*.INFO'') (to_stream ''>stdout''), Rule (ascii ''*.ERROR'') (to_stream ''>stderr'')]"

definition fresh_lib :: log_lib where
  "fresh_lib = \<lparr>g_init = False, g_destroyed = False, g_from_file = False, g_cfg = None, g_dft = None, g_msg = None\<rparr>"

definition stream_target :: "stream \<Rightarrow> u32 \<Rightarrow> target" where
  "stream_target s level = zero_target\<lparr>t_level := level, t_type := (if s = Stderr then LOG_STDERR else LOG_STDOUT),
     t_fp := Some s, t_write_fn := Some Write_to_file\<rparr>"

definition dft_targets :: "target list" where
  "dft_targets = [stream_target Stdout LEVEL_DEBUG, stream_target Stdout LEVEL_WARNING, stream_target Stdout LEVEL_INFO, stream_target Stderr LEVEL_ERROR]"

lemmas level_defs = LEVEL_DEBUG_def LEVEL_INFO_def LEVEL_WARNING_def LEVEL_ERROR_def

lemma split_byte:
  "text_split [s] cur [x] = [cur @ [x]]"
  "text_split [s] cur (s # y # r) = cur # text_split [s] [] (y # r)"
  "x \<noteq> s \<Longrightarrow> text_split [s] cur (x # y # r) = text_split [s] (cur @ [x]) (y # r)"
  by (subst text_split.simps, simp)+

lemma dft_rule:
  "process_rule_section app (ascii (''*.'' @ name)) (to_stream dest) ctx =
     (case rule_levels (ascii name) of None \<Rightarrow> Inl INA_ERR_INVALID_ARGUMENT
      | Some l \<Rightarrow> Inr (ctx\<lparr>l_targets := l_targets ctx @ [rule_target app l (to_stream dest) (l_buffer_size ctx)]\<rparr>))"
  if "name \<in> {''DEBUG'', ''INFO'', ''WARNING'', ''ERROR''}"
proof -
  have "text_split (ascii ''.'') [] (ascii (''*.'' @ name)) = [ascii ''*'', ascii name]"
    using that by (auto simp: ascii_def split_byte)
  moreover have "ascii (''*.'' @ name) \<noteq> []" by (simp add: ascii_def)
  ultimately show ?thesis by (simp add: process_rule_section_def Let_def del: append.simps split: option.split)
qed

lemma dft_ctx:
  assumes "l_targets ctx = []"
  shows "\<exists>ctx'. process_sections app dft_sections ctx = Inr ctx' \<and> l_targets ctx' = dft_targets \<and> l_pid ctx' = l_pid ctx"
proof -
  have k: "''*.DEBUG'' = ''*.'' @ ''DEBUG''" "''*.INFO'' = ''*.'' @ ''INFO''" "''*.WARNING'' = ''*.'' @ ''WARNING''" "''*.ERROR'' = ''*.'' @ ''ERROR''"
    by simp_all
  have l: "rule_levels (ascii ''DEBUG'') = Some 1" "rule_levels (ascii ''INFO'') = Some 2" "rule_levels (ascii ''WARNING'') = Some 4"
    "rule_levels (ascii ''ERROR'') = Some 8" by (simp_all add: rule_levels_def ascii_def level_defs)
  have t: "rule_target app lv (to_stream ''>stdout'') n = stream_target Stdout lv" "rule_target app lv (to_stream ''>stderr'') n = stream_target Stderr lv" for lv n
    by (simp_all add: rule_target_def to_stream_def stream_target_def ascii_def Let_def zero_target_def)
  show ?thesis
    unfolding dft_sections_def process_sections.simps k
    by (simp add: dft_rule l t del: append.simps) (simp add: assms dft_targets_def level_defs process_global_section_def)
qed

text \<open>Formatting keeps the whole text: a longer string is made when the given one is too short.\<close>

lemma signed_small: "n < 2 ^ 31 \<Longrightarrow> signed_take_bit 31 (int n) = int n"
  by (intro signed_take_bit_int_eq_self) auto

lemma vsnprintf_text:
  assumes ok: "str_ok s" and env: "mallocs env" and len: "0 < unat len" "unat len < unat (s_size s)" and t: "0 \<notin> set t" "length t < 2 ^ 30"
  shows "\<exists>s' r. ina_str_vsnprintf env s len (Some t) = Some (int (length t), s') \<and> str_ok s' \<and> s_data s' = t @ 0 # r \<and> unat len < unat (s_size s')"
proof -
  note s = str_okD [OF ok]
  have sl: "sint (ucast len :: u32) = int (unat len)"
  proof -
    have "unat (ucast len :: u32) = unat len" using len s by (intro unat_down) simp
    then have u: "uint (ucast len :: u32) = int (unat len)" by (metis uint_nat)
    moreover have "signed_take_bit 31 (int (unat len)) = int (unat len)" by (rule signed_small) (use len s in simp)
    ultimately show ?thesis by (simp add: sint_uint)
  qed
  have cmp: "uint len \<le> int (length t) \<longleftrightarrow> \<not> length t < unat len" unfolding uint_nat by (simp only: of_nat_le_iff not_less)
  have nz: "len \<noteq> 0" "\<not> ucast (s_size s) < len" using len by (auto simp: word_less_nat_alt)
  have up: "unat (word_of_int (int (length t)) :: u64) = length t" "unat (word_of_int (int (length t)) :: u32) = length t"
    using t(2) by (simp_all add: unsigned_of_nat take_bit_nat_eq_self)
  let ?b = "take (unat len - 1) t @ [0]"
  have w: "mem_write (s_data s) 0 ?b = Some (?b @ drop (length ?b) (s_data s))" (is "_ = Some ?m") using len s by (simp add: mem_write_def)
  show ?thesis
  proof (cases "length t < unat len")
    case True
    then have b: "?m = t @ 0 # drop (Suc (length t)) (s_data s)" by simp
    have "str_ok (s\<lparr>s_data := ?m, s_len := word_of_int (int (length t))\<rparr>)"
      using written_ok [OF ok, of ?m "word_of_int (int (length t))" t] True len s up unfolding b by (simp add: nth_append)
    then show ?thesis using True nz sl cmp w b len by (auto simp: ina_str_vsnprintf_def c_vsnprintf_def Let_def)
  next
    case False
    obtain e where e: "ina_str_new env (word_of_int (int (length t))) = Some (Some e)" "str_ok e" "unat (s_size e) = length t + 1"
      using new_text [OF env, of "word_of_int (int (length t))"] t(2) up(1) by auto
    have "mem_write (s_data e) 0 (t @ [0]) = Some (t @ [0])" using e str_okD [OF e(2)] by (simp add: mem_write_def)
    moreover have "str_ok (e\<lparr>s_data := t @ [0], s_len := word_of_int (int (length t))\<rparr>)"
      using written_ok [OF e(2), of "t @ [0]" "word_of_int (int (length t))" t] e(3) up str_okD [OF e(2)] by (simp add: nth_append)
    moreover have "nat (int (length t) + 1) = Suc (length t)" by simp
    ultimately show ?thesis using False nz sl cmp w e by (auto simp: ina_str_vsnprintf_def c_vsnprintf_def Let_def)
  qed
qed

definition msg_ok :: "ina_str option \<Rightarrow> bool" where
  "msg_ok msg \<longleftrightarrow> (case msg of None \<Rightarrow> True | Some s \<Rightarrow> str_ok s \<and> 2 \<le> unat (s_size s))"

lemma write_v_logs:
  assumes env: "mallocs env" and msg: "msg_ok msg" and fmt: "fmt \<noteq> []" and t: "0 \<notin> set t" "length t < 2 ^ 30"
  shows "\<exists>msg'. msg_ok msg' \<and> ina_log_write_v env date level (Some fmt) (Some t) msg (Some ctx) w =
    map_option (\<lambda>(ctx, w). (Inr ctx, msg', w)) (ina_log date level t ctx w)"
proof -
  obtain s where s: "(case msg of None \<Rightarrow> ina_str_new env 1024 | Some s \<Rightarrow> Some (Some s)) = Some (Some s)" "str_ok s" "2 \<le> unat (s_size s)"
    using msg new_text [OF env, of 1024] by (cases msg) (auto simp: msg_ok_def)
  have z: "ina_str_size (Some s) = ucast (s_size s)" by (simp only: ina_str_size_def option.case not_pooled(1) [OF str_okD(2) [OF s(2)]])
  have u: "unat (ina_str_size (Some s) - 1) = unat (s_size s) - 1" unfolding z using s(3) by (subst unat_sub) (auto simp: word_le_nat_alt)
  obtain s' r where s': "ina_str_vsnprintf env s (ina_str_size (Some s) - 1) (Some t) = Some (int (length t), s')" "str_ok s'" "s_data s' = t @ 0 # r"
      "unat (s_size s) - 1 < unat (s_size s')"
    using vsnprintf_text [OF s(2) env _ _ t, of "ina_str_size (Some s) - 1"] s(3) unfolding u by auto
  then have "msg_ok (Some s')" using s(3) by (simp add: msg_ok_def)
  then show ?thesis
    by (intro exI [of _ "Some s'"], cases "ina_log date level t ctx w") (use s(1) s' fmt t in \<open>auto simp: ina_log_write_v_def\<close>)
qed

lemma dft_log:
  assumes "l_targets ctx = dft_targets" "level \<in> {LEVEL_DEBUG, LEVEL_INFO, LEVEL_WARNING, LEVEL_ERROR}"
  shows "ina_log date level t ctx w = Some (ctx, fput (if level = LEVEL_ERROR then Stderr else Stdout) [] (log_line (l_pid ctx) date level t) w)"
proof -
  have "ctx\<lparr>l_targets := l_targets ctx\<rparr> = ctx" by simp
  then show ?thesis using assms
    by (auto simp: ina_log_def dft_targets_def level_defs stream_target_def zero_target_def write_target_def ina_write_to_file_def open_target_def fput_def)
qed

definition dft_lib :: "ctext \<Rightarrow> log_lib \<Rightarrow> bool" where
  "dft_lib pid lib \<longleftrightarrow> msg_ok (g_msg lib) \<and> (case g_dft lib of None \<Rightarrow> False | Some ctx \<Rightarrow> l_targets ctx = dft_targets \<and> l_pid ctx = pid)"

lemma line_fits: "call_ok pid (date, level, fmt, tx) \<Longrightarrow> log_line pid date level tx = call_line pid (date, level, fmt, tx)"
  by (auto simp: log_line_def call_mark_def level_mark_def level_defs ascii_def)

lemma dft_write:
  assumes lib: "dft_lib pid lib" and env: "mallocs env" and c: "call_ok pid (date, level, fmt, tx)"
  shows "\<exists>lib'. dft_lib pid lib' \<and> ina_log_write env date level (Some fmt) (Some tx) None lib w =
    Some (Inr (), None, lib', fput (if level = LEVEL_ERROR then Stderr else Stdout) [] (call_line pid (date, level, fmt, tx)) w)"
proof -
  obtain ctx where ctx: "g_dft lib = Some ctx" "l_targets ctx = dft_targets" "l_pid ctx = pid" "msg_ok (g_msg lib)"
    using lib by (auto simp: dft_lib_def split: option.splits)
  obtain msg' where m: "msg_ok msg'" "ina_log_write_v env date level (Some fmt) (Some tx) (g_msg lib) (Some ctx) w =
      map_option (\<lambda>(ctx, w). (Inr ctx, msg', w)) (ina_log date level tx ctx w)"
    using write_v_logs [OF env ctx(4), of fmt tx date level ctx w] c by auto
  have "level \<in> {LEVEL_DEBUG, LEVEL_INFO, LEVEL_WARNING, LEVEL_ERROR}" using c by simp
  then have l: "ina_log date level tx ctx w =
      Some (ctx, fput (if level = LEVEL_ERROR then Stderr else Stdout) [] (call_line pid (date, level, fmt, tx)) w)"
    using dft_log [OF ctx(2), of level date tx w] line_fits [OF c] ctx(3) by simp
  show ?thesis
    by (rule exI [of _ "lib\<lparr>g_msg := msg', g_dft := Some ctx\<rparr>"])
      (use m ctx c l in \<open>simp add: ina_log_write_def dft_lib_def Let_def del: call_line.simps\<close>)
qed

lemma dft_init:
  assumes "c_string rd dft_spec = Inr dft_sections" "cfg = None \<or> cfg = Some []"
  shows "\<exists>lib. ina_log_init rd app pid cfg fresh_lib = (Inr (), lib) \<and> dft_lib pid lib"
proof -
  obtain ctx' where "process_sections app dft_sections \<lparr>l_targets = [], l_category = ascii ''*'', l_buffer_size = DFT_BUFFER_SIZE, l_pid = pid\<rparr> = Inr ctx'"
      "l_targets ctx' = dft_targets" "l_pid ctx' = pid"
    using dft_ctx [of "\<lparr>l_targets = [], l_category = ascii ''*'', l_buffer_size = DFT_BUFFER_SIZE, l_pid = pid\<rparr>" app] by auto
  moreover have "dft_spec \<noteq> []" by (simp add: dft_spec_def ascii_def)
  ultimately show ?thesis using assms
    by (auto simp: ina_log_init_def ina_log_ctx_new_def conf_process_def fresh_lib_def dft_lib_def msg_ok_def Let_def)
qed

lemma dft_run:
  assumes "dft_lib pid lib" "mallocs env" "list_all (call_ok pid) cs"
  shows "\<exists>lib'. dft_lib pid lib' \<and> run_log env cs lib w = Some (replicate (length cs) (Inr ()), lib',
    w\<lparr>w_stdout := w_stdout w @ concat (map (call_line pid) (filter (\<lambda>c. \<not> call_error c) cs)),
      w_stderr := w_stderr w @ concat (map (call_line pid) (filter call_error cs))\<rparr>)"
  using assms
proof (induction cs arbitrary: lib w)
  case Nil
  then show ?case by simp
next
  case (Cons c cs)
  obtain date level fmt tx where c: "c = (date, level, fmt, tx)" by (cases c)
  then obtain lib1 where l: "dft_lib pid lib1" "ina_log_write env date level (Some fmt) (Some tx) None lib w =
      Some (Inr (), None, lib1, fput (if level = LEVEL_ERROR then Stderr else Stdout) [] (call_line pid c) w)" (is "_ = Some (_, _, _, ?w1)")
    using dft_write [OF Cons.prems(1,2), of date level fmt tx w] Cons.prems(3) by (auto simp del: call_line.simps call_ok.simps)
  then have "run_log env (c # cs) lib w = map_option (\<lambda>(rs, lib, w). (Inr () # rs, lib, w)) (run_log env cs lib1 ?w1)" by (simp add: c)
  with Cons.IH [OF l(1) Cons.prems(2), of ?w1] Cons.prems(3) show ?case
    by (cases "level = LEVEL_ERROR") (auto simp: c fput_def simp del: run_log.simps call_line.simps)
qed

text \<open>C24. With the default configuration every call of a run writes its line once and in the order of the calls, the lines of
  errors to the standard error and all others to the standard output, as long as no line is longer than 2046 bytes;
  longer ones are cut.  Nothing else is written, every call returns success and none crashes.  The reader is assumed
  to read the default text into the sections it spells out, and memory to be available.\<close>

theorem log_default_routes:
  assumes "c_string rd dft_spec = Inr dft_sections" "cfg = None \<or> cfg = Some []" "mallocs env" "list_all (call_ok pid) cs"
  shows "\<exists>lib lib'. ina_log_init rd app pid cfg fresh_lib = (Inr (), lib) \<and>
    run_log env cs lib w = Some (replicate (length cs) (Inr ()), lib',
      w\<lparr>w_stdout := w_stdout w @ concat (map (call_line pid) (filter (\<lambda>c. \<not> call_error c) cs)),
        w_stderr := w_stderr w @ concat (map (call_line pid) (filter call_error cs))\<rparr>)"
  using dft_init [OF assms(1,2), of app pid] dft_run [OF _ assms(3,4), of _ w] by blast

definition dft_reader :: conf_reader where
  "dft_reader = \<lparr>c_string = \<lambda>s. if s = dft_spec then Inr dft_sections else Inl INA_ERR_INVALID_ARGUMENT, c_file = \<lambda>_. Inl INA_ERR_INVALID_ARGUMENT\<rparr>"

definition no_world :: world where
  "no_world = \<lparr>w_stdout = [], w_stderr = [], w_files = \<lambda>_. [], w_syslog = []\<rparr>"

theorem log_default_routes_witness:
  "\<exists>lib lib'. ina_log_init dft_reader [97] [49] None fresh_lib = (Inr (), lib) \<and>
    run_log easy_env [([], LEVEL_INFO, [37, 100], [50]), ([], LEVEL_ERROR, [37, 100], [51])] lib no_world =
      Some ([Inr (), Inr ()], lib', no_world\<lparr>w_stdout := [91, 49, 93, 32, 32, 45, 32, 50, 10], w_stderr := [91, 49, 93, 32, 32, 35, 32, 51, 10]\<rparr>)"
  using log_default_routes [of dft_reader None easy_env "[49]" "[([], LEVEL_INFO, [37, 100], [50]), ([], LEVEL_ERROR, [37, 100], [51])]" "[97]" no_world]
  by (simp add: dft_reader_def easy_env_def mallocs_def level_defs no_world_def call_mark_def del: run_log.simps)

section \<open>Buffered targets\<close>

fun run_target :: "u32 \<Rightarrow> ctext list \<Rightarrow> target \<Rightarrow> world \<Rightarrow> (target \<times> world) option" where
  "run_target level [] t w = Some (t, w)"
| "run_target level (m # ms) t w = (case write_target level m t w of None \<Rightarrow> None | Some (t, w) \<Rightarrow> run_target level ms t w)"

definition pending :: "target \<Rightarrow> byte_seq" where
  "pending t = (case t_buffer t of None \<Rightarrow> [] | Some b \<Rightarrow> b)"

definition append_file :: "ctext \<Rightarrow> byte_seq \<Rightarrow> world \<Rightarrow> world" where
  "append_file p bs w = w\<lparr>w_files := (w_files w)(p := w_files w p @ bs)\<rparr>"

text \<open>A file target between two writes: no stream is open.\<close>

definition buffered :: "target \<Rightarrow> bool" where
  "buffered t \<longleftrightarrow> t_write_fn t = Some Write_to_buffer \<and> t_type t = LOG_FILE \<and> t_fp t = None"

lemma buffered_rule:
  "t = rule_target app levels en n \<Longrightarrow> t_write_fn t = Some Write_to_buffer \<Longrightarrow> buffered t \<and> pending t = []"
  by (auto simp: buffered_def pending_def rule_target_def zero_target_def Let_def split: option.splits if_splits)

lemma append_file_nil [simp]: "append_file p [] w = w"
  by (simp add: append_file_def)

lemma append_file_append: "append_file p b (append_file p a w) = append_file p (a @ b) w"
  by (simp add: append_file_def)

lemma buffer_keep:
  assumes "buffered t" "length m < length (pending t)"
  shows "write_target level m t w =
    (if t_buffer_size t < length (pending t) + length m then None else Some (t\<lparr>t_buffer := Some (pending t @ m)\<rparr>, w))"
  using assms by (auto simp: buffered_def pending_def write_target_def ina_write_to_buffer_def Let_def split: option.splits)

lemma buffer_flush:
  assumes "buffered t" "length (pending t) \<le> length m"
  shows "write_target level m t w =
    (if t_buffer_size t < length m then None
     else Some (t\<lparr>t_buffer := Some m\<rparr>, append_file (t_filepath t) (pending t) (fopen (t_filepath t) (t_truncate t) w)))"
proof -
  have "t\<lparr>t_fp := None\<rparr> = t" using assms(1) by (simp add: buffered_def)
  then show ?thesis using assms
    by (auto simp: buffered_def pending_def write_target_def ina_write_to_buffer_def open_target_def append_file_def fput_def Let_def split: option.splits)
qed

lemma buffered_update [simp]:
  "buffered (t\<lparr>t_buffer := b\<rparr>) \<longleftrightarrow> buffered t" "pending (t\<lparr>t_buffer := Some b'\<rparr>) = b'"
  by (simp_all add: buffered_def pending_def)

lemma free_buffered: "buffered t \<Longrightarrow> ina_free_target t w = append_file (t_filepath t) (pending t) w"
  by (auto simp: buffered_def pending_def ina_free_target_def fopen_def fput_def append_file_def split: option.splits)

lemma run_append:
  assumes "buffered t" "\<not> t_truncate t" "run_target level ms t w = Some (t', w')"
  shows "ina_free_target t' w' = append_file (t_filepath t) (pending t @ concat ms) w"
  using assms
proof (induction ms arbitrary: t w)
  case Nil
  then show ?case by (simp add: free_buffered)
next
  case (Cons m ms)
  show ?case
  proof (cases "length m < length (pending t)")
    case True
    with Cons.prems show ?thesis using Cons.IH [of "t\<lparr>t_buffer := Some (pending t @ m)\<rparr>" w]
      by (simp add: buffer_keep split: if_splits)
  next
    case False
    with Cons.prems show ?thesis using Cons.IH [of "t\<lparr>t_buffer := Some m\<rparr>" "append_file (t_filepath t) (pending t) w"]
      by (simp add: buffer_flush fopen_def append_file_append split: if_splits)
  qed
qed

lemma run_sorted:
  assumes "buffered t" "sorted (map length (pending t # ms))" "list_all (\<lambda>m. length m \<le> t_buffer_size t) ms"
  shows "run_target level ms t w \<noteq> None"
  using assms
proof (induction ms arbitrary: t w)
  case (Cons m ms)
  then show ?case using Cons.IH [of "t\<lparr>t_buffer := Some m\<rparr>"] by (simp add: buffer_flush)
qed simp

text \<open>C25. A buffered file target in append mode loses nothing: when the context is freed after a run of
  messages that did not overrun the buffer, the file is the old one with exactly these messages in
  order and no other file or stream was touched.  The run does not overrun when no message is longer than the
  buffer or shorter than the one before it.\<close>

theorem log_buffer_complete:
  assumes "t = rule_target app levels en n" "t_write_fn t = Some Write_to_buffer" "\<not> t_truncate t"
  shows "(case run_target level ms t w of
            None \<Rightarrow> \<not> (sorted (map length ms) \<and> list_all (\<lambda>m. length m \<le> t_buffer_size t) ms)
          | Some (t', w') \<Rightarrow> ina_free_target t' w' = append_file (t_filepath t) (concat ms) w)"
  using buffered_rule [OF assms(1,2)] run_append [OF _ assms(3), of level ms w] run_sorted [of t ms level w]
  by (auto split: option.split)

definition file_rule :: "nat option \<Rightarrow> bool \<Rightarrow> rule_entries" where
  "file_rule n trunc = \<lparr>e_target = Some (ascii ''log''), e_truncate = (if trunc then Some (ascii ''True'') else None), e_syslog_ident = None, e_buffer_size = n\<rparr>"

theorem log_buffer_complete_witness:
  "(case run_target LEVEL_INFO [[65], [66, 67], [68, 69]] (rule_target [97] 15 (file_rule (Some 4) False) 4096) no_world of
      None \<Rightarrow> False
    | Some (t', w') \<Rightarrow> ina_free_target t' w' = append_file (ascii ''log'') [65, 66, 67, 68, 69] no_world)"
  using log_buffer_complete [where app = "[97]" and levels = 15 and en = "file_rule (Some 4) False" and n = 4096 and level = LEVEL_INFO
      and ms = "[[65], [66, 67], [68, 69]]" and w = no_world, OF refl]
  by (auto simp: rule_target_def file_rule_def ascii_def zero_target_def Let_def simp del: run_target.simps split: option.splits)

lemma run_overrun:
  assumes "buffered t" "list_all (\<lambda>m. length m < length (pending t)) ms" "length (pending t) \<le> t_buffer_size t"
    "t_buffer_size t < length (pending t) + length (concat ms)"
  shows "run_target level ms t w = None"
  using assms
proof (induction ms arbitrary: t)
  case (Cons m ms)
  have "list_all (\<lambda>x. length x < length (pending t) + length m) ms" using Cons.prems(2) by (auto simp: list_all_iff trans_less_add1)
  then show ?case using Cons.prems Cons.IH [of "t\<lparr>t_buffer := Some (pending t @ m)\<rparr>"] by (simp add: buffer_keep)
qed simp

text \<open>The buffer is flushed when fewer bytes are used than the message has, instead of when fewer are
  free: a message followed by shorter ones, together longer than the buffer, is written past its end.\<close>

theorem log_buffer_overruns:
  assumes "t = rule_target app levels en n" "t_write_fn t = Some Write_to_buffer"
    "list_all (\<lambda>m. length m < length a) ms" "t_buffer_size t < length a + length (concat ms)"
  shows "run_target level (a # ms) t w = None"
proof -
  note b = buffered_rule [OF assms(1,2)]
  then show ?thesis using assms(3,4) run_overrun [of "t\<lparr>t_buffer := Some a\<rparr>" ms level] by (auto simp: buffer_flush)
qed

theorem log_buffer_overruns_witness:
  "run_target LEVEL_INFO (replicate 100 65 # replicate 81 (replicate 50 66)) (rule_target [97] 15 (file_rule None False) 4096) no_world = None"
  by (rule log_buffer_overruns [OF refl])
    (simp_all add: rule_target_def file_rule_def ascii_def zero_target_def Let_def list_all_iff length_concat sum_list_replicate)

text \<open>A run of messages whose lengths do not fall flushes at every message.\<close>

lemma run_flushes:
  assumes "buffered t" "sorted (map length (pending t # ms @ [m]))" "list_all (\<lambda>m. length m \<le> t_buffer_size t) (ms @ [m])" "t_truncate t"
  shows "\<exists>w'. run_target level (ms @ [m]) t w = Some (t\<lparr>t_buffer := Some m\<rparr>, w') \<and> w_files w' (t_filepath t) = last (pending t # ms) \<and>
    (\<forall>q. q \<noteq> t_filepath t \<longrightarrow> w_files w' q = w_files w q)"
  using assms
proof (induction ms arbitrary: t w)
  case Nil
  then show ?case by (simp add: buffer_flush append_file_def fopen_def)
next
  case (Cons a ms)
  let ?w = "append_file (t_filepath t) (pending t) (fopen (t_filepath t) True w)"
  have "write_target level a t w = Some (t\<lparr>t_buffer := Some a\<rparr>, ?w)" using Cons.prems by (simp add: buffer_flush)
  moreover have "w_files ?w q = w_files w q" if "q \<noteq> t_filepath t" for q using that by (simp add: append_file_def fopen_def)
  ultimately show ?case using Cons.prems Cons.IH [of "t\<lparr>t_buffer := Some a\<rparr>" ?w] by fastforce
qed

text \<open>A target with \<open>truncate\<close> is meant to start with an empty file, but the file is opened with mode \<open>w\<close> again at
  every flush: of messages whose lengths do not fall only the last two are in the file at the end.\<close>

theorem log_truncate_loses:
  assumes "t = rule_target app levels en n" "t_write_fn t = Some Write_to_buffer" "t_truncate t"
    "sorted (map length (ms @ [a, b]))" "list_all (\<lambda>m. length m \<le> t_buffer_size t) (ms @ [a, b])"
  shows "\<exists>t' w'. run_target level (ms @ [a, b]) t w = Some (t', w') \<and> w_files (ina_free_target t' w') (t_filepath t) = a @ b"
proof -
  have t: "buffered t" "pending t = []" using buffered_rule [OF assms(1,2)] by simp_all
  obtain w' where "run_target level ((ms @ [a]) @ [b]) t w = Some (t\<lparr>t_buffer := Some b\<rparr>, w')" "w_files w' (t_filepath t) = a"
    using run_flushes [OF t(1), of "ms @ [a]" b level w] assms(3-5) t(2) by auto
  moreover have "buffered (t\<lparr>t_buffer := Some b\<rparr>)" using t(1) by simp
  ultimately show ?thesis by (intro exI [of _ "t\<lparr>t_buffer := Some b\<rparr>"] exI [of _ w']) (simp add: free_buffered append_file_def)
qed

theorem log_truncate_loses_witness:
  "\<exists>t' w'. run_target LEVEL_INFO ([[65], [66]] @ [[67], [68]]) (rule_target [97] 15 (file_rule None True) 4096) no_world = Some (t', w') \<and>
    w_files (ina_free_target t' w') (ascii ''log'') = [67] @ [68]"
  using log_truncate_loses [where app = "[97]" and levels = 15 and en = "file_rule None True" and n = 4096 and level = LEVEL_INFO
      and ms = "[[65], [66]]" and a = "[67]" and b = "[68]" and w = no_world, OF refl]
  by (simp add: rule_target_def file_rule_def ascii_def zero_target_def lower_def Let_def del: run_target.simps append.simps) simp

section \<open>Start-up\<close>

text \<open>Starting from a file without giving its name is documented to look for the file named after the
  application; the code takes the text of the default configuration for the file's name.  When there is no such file
  the start fails, a second start reports success without doing anything, and writing to the default context
  is refused.\<close>

theorem log_init_from_file_null:
  assumes "c_file rd (Some dft_spec) = Inl e" "fmt \<noteq> []" "mallocs env"
  shows "\<exists>lib lib'. ina_log_init_from_file rd app pid None fresh_lib = (Inl e, lib) \<and>
    ina_log_init rd app pid cfg lib = (Inr (), lib) \<and>
    ina_log_write env date level (Some fmt) tx None lib w = Some (Inl INA_ERR_INVALID_ARGUMENT, None, lib', w)"
proof -
  obtain s where "ina_str_new env 1024 = Some (Some s)" using new_text [OF assms(3), of 1024] by auto
  then show ?thesis using assms
    by (auto simp: ina_log_init_from_file_def ina_log_init_def ina_log_ctx_new_def conf_process_def fresh_lib_def ina_log_write_def ina_log_write_v_def Let_def)
qed

text \<open>After a start from a text, a start from a file reports success, but only makes the contexts opened from then on
  take the text for the name of a file.\<close>

theorem log_init_mixed:
  assumes "g_init lib"
  shows "ina_log_init_from_file rd app pid path lib = (Inr (), lib\<lparr>g_from_file := True\<rparr>)"
    and "conf_process rd (lib\<lparr>g_from_file := True\<rparr>) = c_file rd (g_cfg lib)"
  using assms by (simp_all add: ina_log_init_from_file_def ina_log_init_def conf_process_def)

end
