(* ===== verification/Spec2Isabelle.thy ===== *)
theory Spec2Isabelle
  imports Inac_Base64 Inac_Hashtable_Iter Inac_List_Sort Inac_Str_Pool Inac_Cron Inac_Ullc Inac_Opt Inac_Timer Inac_Cursor Inac_Stopwatch Inac_Log
begin

text \<open>
  \<^bold>\<open>Verification of the core of INAC\<close>, a C library of runtime services: error codes, strings,
  containers, hashing, memory pools, and wrappers of operating-system services (processes, files,
  sockets, shared memory, an embedded LuaJIT).  This development models the parts that compute
  rather than call the operating system.

  \<^bold>\<open>Parts and how they interact.\<close>  Every function of the library returns an \<open>ina_rc_t\<close>, a 64-bit word
  whose fields and message text are the first part.  The hash functions are stateless; the hash
  table picks one of them at creation, keeps its nodes in buckets allocated from a memory pool and
  reports its activity through an event stream.  The linked list allocates its nodes from a pool and
  recycles removed ones.  Strings live on the heap or in a pool.  Pools allocate their chunks with the
  aligned allocator.  Timers keep their events on a hierarchical timing wheel and, like stopwatches, read
  the time from a stamp counter.  File cursors walk over mapped or buffered files.  Logging keeps its
  targets in a list, formats each message into a string that grows, and writes it to the targets of its level.

  \<^bold>\<open>Theories.\<close>
  \<^item> \<open>Inac_Prelude\<close>: word types, the sum type \<open>ina_res\<close> for results (\<open>Inl x\<close> for \<open>INA_ERROR(x)\<close>),
    shared facts on words and lists.  \<open>None\<close> in an outer \<open>option\<close> always stands for a crash of the C
    text: a null or dangling pointer, an access past an array, a failed assertion.
  \<^item> \<open>Inac_Error\<close>: \<open>include/libinac/error.h\<close> and \<open>src/error.c\<close>.  Layout, accessors and packing of return
    codes, the current return code of a thread as explicit state, the tables of codes, and the
    message formatter.  Shown: packing and reading back; what each update leaves alone; messages
    spell their codes; which codes are missing from the message table.
  \<^item> \<open>Inac_Base64\<close>: \<open>src/util.c\<close>.  Encoder and decoder with bounded buffers.  Shown: refinement of the
    base64 text, the round trip, and that the computed buffer length suffices.
  \<^item> \<open>Inac_Hash\<close>, \<open>Inac_Hash_Block\<close>: \<open>src/hash.c\<close>.  All hash functions on x86-64 with their casts and
    wrap-around; the CRC instructions, the address of the data they are applied to and the vendored
    hashes are parameters.  Shown: equivalence of
    the table-driven CRC with its bit-serial definition, polynomial forms, injectivity of the mixing
    steps, incremental Murmur3 against the plain algorithm, tails as padded loads, names of hashes.
  \<^item> \<open>Inac_Hashtable\<close>, \<open>Inac_Hashtable_Iter\<close>: \<open>src/hashtable.c\<close>, \<open>include/libinac/hashtable.h\<close>.  The table
    record with buckets and nodes, creation, set, get, remove, clear, count, iteration, typed
    wrappers, identifiers of monitored tables.  Locale \<open>map_contract\<close> states what a mutable map
    promises; its interpretation on the model gives the refinement of the mathematical map for any
    run of operations on keys of one fixed length that do not begin with four zero bytes.  Every call has a
    key address of its own (\<open>key_at\<close>), which matters to the hashes made of CRC instructions; they are
    excluded.  Also shown: keys the table loses, the drift of the counter, exactness of
    iteration, identifiers handed out twice.
  \<^item> \<open>Inac_List\<close>, \<open>Inac_List_Sort\<close>: \<open>src/list.c\<close>, \<open>include/libinac/list.h\<close>.  Doubly linked nodes in an
    explicit memory.  Locale \<open>seq_contract\<close> and its interpretation give the refinement of
    mathematical lists by appends and removals across recycled nodes; concatenation; merge sort on
    the nodes; what prepending, sorting and recycling break.
  \<^item> \<open>Inac_Mempool\<close>: \<open>src/memory.c\<close>, \<open>include/libinac/memory.h\<close>, \<open>include/libinac/mempool.h\<close>.  Aligned
    allocation and pools.  Locale \<open>arena\<close> and its interpretation give that blocks never overlap in
    any run, in which \<open>malloc\<close> may refuse requests (the clearing of \<open>NULL\<close> is then a crash); limits of single operations; reallocation.
  \<^item> \<open>Inac_Str\<close>, \<open>Inac_Str_Scan\<close>, \<open>Inac_Str_Pool\<close>: \<open>src/string.c\<close>, \<open>include/libinac/string.h\<close>.  Strings with
    a counted header in blocks of their allocated size.  Locale \<open>text_contract\<close> and its interpretation
    give the refinement of byte lists by any run of edits; splitting as a round trip; one call of the
    tokenizer; termination, soundness and the misses of the wildcard matcher, which may read
    behind the terminators; strings in pools.
  \<^item> \<open>Inac_Fsm\<close>, \<open>Inac_Process\<close>: \<open>include/libinac/fsm.h\<close>, \<open>src/process.c\<close>.  Status words, transition tables
    and firing of events, then the machine of a process with its actions on \<open>fork\<close>, \<open>kill\<close> and \<open>waitpid\<close>.
    Locale \<open>fsm_store\<close> states what a table and its store must provide; its interpretation gives that no
    run leaves the table.  Also the life cycle, exactly which system calls the callbacks
    for the cron library make, eventual report of an exit, what wrong events do.
  \<^item> \<open>Inac_Cron_Pattern\<close>, \<open>Inac_Cron\<close>: \<open>src/cron.c\<close>.  The pattern parser against the notation of cron
    fields; which events a processing step marks and starts; windows of time compose; the last
    execution time; pulling; values the parser mishandles, events that are never registered.
  \<^item> \<open>Inac_Ullc\<close>: \<open>src/ullc.c\<close>, \<open>include/libinac/ullc.h\<close>.  The ring in shared memory with its cursors, and an
    interleaving semantics of one producer with any number of consumers, in which a slot is a list of units
    that are written and read one by one, in any order, a commit is two atomic steps, and a consumer reads its slot
    some time after it got it; so reads can be torn.  The memory is sequentially consistent.  The locale \<open>step_invariant\<close>
    of the prelude carries the invariant to every run.  Shown: setting up, order of delivery, what
    disabling overruns (with one consumer) and several producers do.
  \<^item> \<open>Inac_Opt\<close>: \<open>src/lib.c\<close>.  Registration of options with defaults from the environment, parsing of the
    command line, lookup, signals.  Shown: the round trip from a printed command line to the values;
    overlong values, dashes inside arguments, signals after the first.

  \<^item> \<open>Inac_Timeout\<close>, \<open>Inac_Wheel\<close>: \<open>contribs/timerwheel/timeout.c\<close>, \<open>timeout.h\<close>.  The hierarchical timing wheel
    with its queues, bit sets and 64-bit times.  Shown, for every run in which the time does not go back:
    an update expires exactly the due timeouts, the wheel's own check never fails, closing idles all.
  \<^item> \<open>Inac_Time\<close>, \<open>Inac_Timer\<close>: \<open>src/time.c\<close>, \<open>src/timer.c\<close>.  Time stamp counters and their conversion, and
    timers with repeating events.  Locale \<open>agenda\<close> states what a source of repeating events promises of
    one call; its interpretation on the timer gives that a caller who asks until nothing is left gets
    every due event once.  Also the refinement of an agenda, and how long a caller may wait.
  \<^item> \<open>Inac_Cursor\<close>: \<open>src/file_cursor.c\<close> with what it calls of \<open>src/mmap.c\<close> and \<open>src/file.c\<close>.  Cursors over mapped
    and buffered files, with the system calls as arguments and their documented behaviour as a definition.
    Shown: lines of a mapped file, the end of the file, lines across buffers, chunks.
  \<^item> \<open>Inac_Stopwatch\<close>: \<open>src/stopwatch.c\<close>.  Stamps in a block of a pool, with the floating-point durations as an
    argument.  Shown: laps; the block is too short; the walk over the stamps does not end.
  \<^item> \<open>Inac_Log\<close>: \<open>src/log.c\<close>, \<open>include/libinac/log.h\<close>.  Start-up, rules, targets and the three writers; the reader of
    configurations is an argument.  Shown: where the default configuration sends messages; what a buffered
    target keeps; the overrun of its buffer; what truncating loses; texts taken for file names.

  \<^bold>\<open>Loops.\<close>  Loops over data are structural or have a measure.  Loops along pointers may run forever
  on a cyclic memory and are partial functions into \<open>option\<close>; the theorems about them show that they
  return on every well-linked list.  The only fuel is the failsafe counter of 1024 that the cron field
  parser itself has, and the number of calls of a caller that drains a timer, for which the theorem
  names a bound that suffices; the walk over the stamps of a stopwatch is shown to outlast any fuel.

  \<^bold>\<open>Not modelled.\<close>  Allocation failure outside of the pools (strings, the buffer of a log target); the time stamps of hash table events and
  the ring buffer they travel through; signed overflow of the 32-bit entry counter and bucket
  counters, which need more than 2^31 entries; the floating-point helpers; everything that is mainly
  system calls (opening and changing files, sockets); the other vendored libraries
  under \<open>contribs\<close>, and wheels of other sizes than 64 slots.  The list sees pools only as a source of
  fresh nodes that are released together, so the two are not composed further.  Strings that overlap the
  text they are edited with.  The line readers of buffered cursors, which use fields that are never set.
\<close>

end
